(* ===== verification/MQ_Prelude.thy ===== *)
theory MQ_Prelude
  imports Main "HOL-Library.Word"
begin

text \<open>
  Shared vocabulary of the development: the ways a C++ call can fail to return, results as
  sums, the unordered maps of the standard library as association lists with distinct keys,
  and C strings.  Every other theory imports this one.
\<close>

section \<open>Collections of facts\<close>

named_theorems um_simps
  \<comment> \<open>lookup equations of the map operations\<close>

named_theorems preserves
  \<comment> \<open>operations keep their component's invariant\<close>

section \<open>Calls that do not return\<close>

text \<open>
  \<open>Aborts\<close> is a call of \<open>abort()\<close> or a failed \<open>assert\<close>, \<open>Undefined\<close> is undefined
  behaviour of the language (a buffer overrun, a use after free), \<open>Throws\<close> is an exception
  that leaves the call.
\<close>

datatype cpp_error = Aborts | Undefined | Throws

type_synonym 'a result = "cpp_error + 'a"

fun rbind :: "'a result \<Rightarrow> ('a \<Rightarrow> 'b result) \<Rightarrow> 'b result" where
  "rbind (Inl e) f = Inl e"
| "rbind (Inr x) f = f x"

lemma rbind_InrE:
  assumes "rbind m f = Inr y"
  obtains x where "m = Inr x" and "f x = Inr y"
  using assms by (cases m) auto

lemma rbind_Inr_conv: "rbind m f = Inr y \<longleftrightarrow> (\<exists>x. m = Inr x \<and> f x = Inr y)"
  by (cases m) auto

fun returns :: "'a result \<Rightarrow> bool" where
  "returns (Inl e) = False"
| "returns (Inr x) = True"

lemma returns_iff: "returns m \<longleftrightarrow> (\<exists>x. m = Inr x)"
  by (cases m) auto

section \<open>\<open>std::unordered_map\<close>\<close>

text \<open>
  A map is the list of its entries; \<open>map_of\<close> is \<open>find\<close>.  The order of the list stands for the
  iteration order, which the language leaves open: the properties hold for every list that
  holds the entries.  \<open>um_insert\<close> is \<open>insert\<close>, which does not overwrite, and \<open>um_put\<close> is
  the assignment \<open>m[k] = v\<close>, which does.
\<close>

type_synonym ('k, 'v) umap = "('k \<times> 'v) list"

definition um_insert :: "'k \<Rightarrow> 'v \<Rightarrow> ('k, 'v) umap \<Rightarrow> ('k, 'v) umap" where
  "um_insert k v m = (case map_of m k of None \<Rightarrow> (k, v) # m | Some _ \<Rightarrow> m)"

definition um_erase :: "'k \<Rightarrow> ('k, 'v) umap \<Rightarrow> ('k, 'v) umap" where
  "um_erase k m = filter (\<lambda>e. fst e \<noteq> k) m"

definition um_put :: "'k \<Rightarrow> 'v \<Rightarrow> ('k, 'v) umap \<Rightarrow> ('k, 'v) umap" where
  "um_put k v m = (case map_of m k of
       None \<Rightarrow> (k, v) # m
     | Some _ \<Rightarrow> map (\<lambda>e. if fst e = k then (k, v) else e) m)"

definition um_keys :: "('k, 'v) umap \<Rightarrow> 'k set" where
  "um_keys m = fst ` set m"

definition um_wf :: "('k, 'v) umap \<Rightarrow> bool" where
  "um_wf m \<longleftrightarrow> distinct (map fst m)"

lemma um_find_insert [um_simps]:
  "map_of (um_insert k v m) j =
     (if j = k then Some (case map_of m k of None \<Rightarrow> v | Some w \<Rightarrow> w) else map_of m j)"
  by (auto simp: um_insert_def split: option.splits)

lemma um_find_erase [um_simps]:
  "map_of (um_erase k m) j = (if j = k then None else map_of m j)"
  by (induction m) (auto simp: um_erase_def)

lemma map_of_map_put:
  "map_of (map (\<lambda>e. if fst e = k then (k, v) else e) m) j =
     (if j = k \<and> map_of m k \<noteq> None then Some v else map_of m j)"
  by (induction m) auto

lemma um_find_put [um_simps]:
  "map_of (um_put k v m) j = (if j = k then Some v else map_of m j)"
  by (auto simp: um_put_def map_of_map_put split: option.splits)

lemma um_keys_iff: "k \<in> um_keys m \<longleftrightarrow> map_of m k \<noteq> None"
  by (simp add: um_keys_def map_of_eq_None_iff)

lemma um_find_keys: "map_of m k = Some v \<Longrightarrow> k \<in> um_keys m"
  by (simp add: um_keys_iff)

lemma um_keys_insert [um_simps]: "um_keys (um_insert k v m) = insert k (um_keys m)"
  by (auto simp: um_keys_iff um_find_insert split: if_splits)

lemma um_keys_erase [um_simps]: "um_keys (um_erase k m) = um_keys m - {k}"
  by (auto simp: um_keys_def um_erase_def)

lemma um_keys_put [um_simps]: "um_keys (um_put k v m) = insert k (um_keys m)"
  by (auto simp: um_keys_iff um_find_put split: if_splits)

lemma um_wf_empty [simp]: "um_wf []"
  by (simp add: um_wf_def)

lemma um_wf_Cons [simp]: "um_wf ((k, v) # m) \<longleftrightarrow> map_of m k = None \<and> um_wf m"
  by (simp add: um_wf_def map_of_eq_None_iff)

lemma um_wf_insert [preserves]: "um_wf m \<Longrightarrow> um_wf (um_insert k v m)"
  by (auto simp: um_wf_def um_insert_def map_of_eq_None_iff split: option.splits)

lemma um_wf_erase [preserves]: "um_wf m \<Longrightarrow> um_wf (um_erase k m)"
  by (auto simp: um_wf_def um_erase_def distinct_map_filter)

lemma map_fst_map_put: "map fst (map (\<lambda>e. if fst e = k then (k, v) else e) m) = map fst m"
  by (induction m) auto

lemma um_wf_put [preserves]: "um_wf m \<Longrightarrow> um_wf (um_put k v m)"
  unfolding um_wf_def um_put_def
  by (auto simp: map_of_eq_None_iff map_fst_map_put simp del: map_map split: option.splits)

lemma um_wf_find: "um_wf m \<Longrightarrow> (k, v) \<in> set m \<longleftrightarrow> map_of m k = Some v"
  by (auto simp: um_wf_def)

lemma um_set_erase: "set (um_erase k m) = {e \<in> set m. fst e \<noteq> k}"
  by (auto simp: um_erase_def)

lemma um_insert_fresh: "map_of m k = None \<Longrightarrow> um_insert k v m = (k, v) # m"
  by (simp add: um_insert_def)

lemma um_insert_present: "map_of m k = Some w \<Longrightarrow> um_insert k v m = m"
  by (simp add: um_insert_def)

lemma um_erase_absent: "map_of m k = None \<Longrightarrow> um_erase k m = m"
  by (auto simp: um_erase_def map_of_eq_None_iff filter_id_conv)

lemma um_erase_map:
  "um_erase k (map (\<lambda>(j, v). (j, f j v)) m) = map (\<lambda>(j, v). (j, f j v)) (um_erase k m)"
  by (induction m) (auto simp: um_erase_def)

lemma map_of_map_vals: "map_of (map (\<lambda>(j, v). (j, f v)) m) k = map_option f (map_of m k)"
  by (induction m) auto

section \<open>C strings\<close>

text \<open>What \<open>s.c_str()\<close> shows a C function that stops at the first zero byte.\<close>

definition c_str :: "string \<Rightarrow> string" where
  "c_str s = takeWhile (\<lambda>c. c \<noteq> CHR 0x00) s"

lemma c_str_id: "CHR 0x00 \<notin> set s \<Longrightarrow> c_str s = s"
  unfolding c_str_def by (rule takeWhile_eq_all_conv [THEN iffD2]) auto

section \<open>Words\<close>

lemma unat_of_nat_small:
  "n < 2 ^ LENGTH('a) \<Longrightarrow> unat (word_of_nat n :: 'a :: len word) = n"
  by (simp add: unsigned_of_nat take_bit_nat_eq_self)

section \<open>Lists\<close>

lemma fold_invariant_upt:
  assumes "P a s" and "a \<le> b" and "\<And>i s. \<lbrakk>a \<le> i; i < b; P i s\<rbrakk> \<Longrightarrow> P (Suc i) (f i s)"
  shows "P b (fold f [a..<b] s)"
  using assms(2,3)
proof (induction b rule: dec_induct)
  case base
  then show ?case using assms(1) by simp
next
  case (step n)
  then have "P n (fold f [a..<n] s)" by (metis less_Suc_eq)
  with step show ?case by simp
qed

end
