(* ===== verification/Text_Helper.thy ===== *)
theory Text_Helper
  imports MQ_Prelude
begin

text \<open>
  The string helpers of \<open>HareMQ/mqcommon/helper.hpp\<close> and the members of \<open>std::string\<close> the
  program uses.  \<open>boost::split\<close> is not part of the repository: it is a parameter, and
  \<open>boost_split_ok\<close> states its documented behaviour.
\<close>

section \<open>Members of \<open>std::string\<close>\<close>

text \<open>\<open>find\<close> of one character from a position; \<open>None\<close> is \<open>npos\<close>.\<close>

fun find_from :: "char \<Rightarrow> string \<Rightarrow> nat \<Rightarrow> nat option" where
  "find_from c [] i = None"
| "find_from c (x # xs) i = (if x = c then Some i else find_from c xs (Suc i))"

definition str_find :: "char \<Rightarrow> string \<Rightarrow> nat \<Rightarrow> nat option" where
  "str_find c s pos = find_from c (drop pos s) pos"

definition find_last_of :: "char \<Rightarrow> string \<Rightarrow> nat option" where
  "find_last_of c s =
     (case find_from c (rev s) 0 of None \<Rightarrow> None | Some k \<Rightarrow> Some (length s - Suc k))"

text \<open>\<open>substr(0, pos)\<close>, the whole string when \<open>pos\<close> is \<open>npos\<close>.\<close>

definition substr_to :: "string \<Rightarrow> nat option \<Rightarrow> string" where
  "substr_to s p = (case p of None \<Rightarrow> s | Some k \<Rightarrow> take k s)"

text \<open>\<open>substr(pos + 1)\<close>: \<open>npos + 1\<close> wraps to 0, so the whole string again.\<close>

definition substr_after :: "string \<Rightarrow> nat option \<Rightarrow> string" where
  "substr_after s p = (case p of None \<Rightarrow> s | Some k \<Rightarrow> drop (Suc k) s)"

lemma find_from_append:
  "c \<notin> set xs \<Longrightarrow> find_from c (xs @ c # ys) i = Some (i + length xs)"
  by (induction xs arbitrary: i) auto

lemma find_from_None: "find_from c xs i = None \<longleftrightarrow> c \<notin> set xs"
  by (induction xs arbitrary: i) auto

lemma find_from_Some:
  "find_from c xs i = Some k \<Longrightarrow>
     i \<le> k \<and> k - i < length xs \<and> xs ! (k - i) = c \<and> c \<notin> set (take (k - i) xs)"
proof (induction xs arbitrary: i)
  case Nil
  then show ?case by simp
next
  case (Cons x xs)
  show ?case
  proof (cases "x = c")
    case True
    with Cons.prems show ?thesis by simp
  next
    case False
    with Cons.prems Cons.IH [of "Suc i"]
    have "Suc i \<le> k \<and> k - Suc i < length xs \<and> xs ! (k - Suc i) = c \<and> c \<notin> set (take (k - Suc i) xs)"
      by simp
    moreover from this have "k - i = Suc (k - Suc i)" by arith
    ultimately show ?thesis using False by simp
  qed
qed

section \<open>Splitting\<close>

text \<open>
  Documented behaviour of \<open>boost::split\<close> with \<open>is_any_of\<close>: every separator ends a token, the
  text after the last one is a token too, so the result is never empty; with
  \<open>token_compress_on\<close> a run of adjacent separators counts as one.
\<close>

fun tokens :: "(char \<Rightarrow> bool) \<Rightarrow> string \<Rightarrow> string list" where
  "tokens P [] = [[]]"
| "tokens P (c # cs) =
     (if P c then [] # tokens P cs
      else (case tokens P cs of [] \<Rightarrow> [[c]] | t # ts \<Rightarrow> (c # t) # ts))"

fun compress :: "(char \<Rightarrow> bool) \<Rightarrow> string \<Rightarrow> string" where
  "compress P [] = []"
| "compress P (c # cs) =
     (if P c \<and> (case cs of [] \<Rightarrow> False | d # _ \<Rightarrow> P d) then compress P cs else c # compress P cs)"

type_synonym splitter = "string \<Rightarrow> string \<Rightarrow> bool \<Rightarrow> string list"

definition boost_split_ok :: "splitter \<Rightarrow> bool" where
  "boost_split_ok bsplit \<longleftrightarrow>
     (\<forall>s sep. bsplit s sep True = tokens (\<lambda>c. c \<in> set sep) (compress (\<lambda>c. c \<in> set sep) s) \<and>
              bsplit s sep False = tokens (\<lambda>c. c \<in> set sep) s)"

text \<open>\<open>string_helper::split\<close>: the tokens; the size it returns is the length of the list.\<close>

definition split :: "splitter \<Rightarrow> string \<Rightarrow> string \<Rightarrow> bool \<Rightarrow> string list" where
  "split bsplit str sep if_compress =
     (if if_compress then bsplit str sep True else bsplit str sep False)"

text \<open>A concrete splitter, for the witnesses.\<close>

definition ref_split :: splitter where
  "ref_split s sep on =
     (if on then tokens (\<lambda>c. c \<in> set sep) (compress (\<lambda>c. c \<in> set sep) s)
      else tokens (\<lambda>c. c \<in> set sep) s)"

lemma ref_split_ok [simp]: "boost_split_ok ref_split"
  by (simp add: boost_split_ok_def ref_split_def)

lemma tokens_nonempty [simp]: "tokens P s \<noteq> []"
  by (cases s) (auto split: list.splits)

lemma tokens_chars: "t \<in> set (tokens P s) \<Longrightarrow> c \<in> set t \<Longrightarrow> c \<in> set s \<and> \<not> P c"
proof (induction s arbitrary: t)
  case Nil
  then show ?case by simp
next
  case (Cons a s)
  obtain u us where us: "tokens P s = u # us" by (cases "tokens P s") auto
  have IH: "c \<in> set v \<Longrightarrow> c \<in> set s \<and> \<not> P c" if "v = u \<or> v \<in> set us" for v
    using Cons.IH [of v] us that by auto
  from Cons.prems us have "t = [] \<or> t = u \<or> t \<in> set us \<or> (\<not> P a \<and> t = a # u)"
    by (auto split: if_splits)
  with Cons.prems(2) IH [of u] IH [of t] show ?case by auto
qed

lemma compress_chars: "set (compress P s) \<subseteq> set s"
  by (induction s) (auto split: if_splits)

lemma compress_cons_sep:
  "P c \<Longrightarrow> compress P (c # s) =
     (case s of [] \<Rightarrow> [c] | d # _ \<Rightarrow> if P d then compress P s else c # compress P s)"
  by (auto split: list.splits)

lemma split_chars:
  assumes "boost_split_ok bsplit" and "t \<in> set (split bsplit s sep on)" and "c \<in> set t"
  shows "c \<in> set s \<and> c \<notin> set sep"
proof -
  have "t \<in> set (tokens (\<lambda>c. c \<in> set sep) (compress (\<lambda>c. c \<in> set sep) s)) \<or>
        t \<in> set (tokens (\<lambda>c. c \<in> set sep) s)"
    using assms(1,2) by (auto simp: split_def boost_split_ok_def split: if_splits)
  with assms(3) show ?thesis
    using tokens_chars compress_chars by (metis subsetD)
qed

lemma tokens_append:
  "\<forall>c \<in> set t. \<not> P c \<Longrightarrow> P d \<Longrightarrow> tokens P (t @ d # s) = t # tokens P s"
  by (induction t) auto

lemma tokens_plain: "\<forall>c \<in> set t. \<not> P c \<Longrightarrow> tokens P t = [t]"
  by (induction t) auto

lemma compress_plain_cons: "\<not> P c \<Longrightarrow> compress P (c # s) = c # compress P s"
  by simp

lemma compress_append_plain:
  "\<forall>c \<in> set t. \<not> P c \<Longrightarrow> compress P (t @ s) = t @ compress P s"
  by (induction t) auto

end
