(* ===== verification/File_Helper.thy ===== *)
theory File_Helper
  imports Text_Helper
begin

text \<open>
  \<open>file_helper\<close> of \<open>HareMQ/mqcommon/helper.hpp\<close> over a file system: a map from paths to
  contents and the set of directories.  Streams of the C++ library and \<open>stat\<close>, \<open>mkdir\<close>,
  \<open>remove\<close> and \<open>rename\<close> of the platform act on it as documented; a full disk and
  permission errors are not modelled.  Bytes are characters, sizes are naturals.
\<close>

section \<open>The file system\<close>

type_synonym bytes = string
type_synonym path = string

record fs =
  fs_files :: "path \<Rightarrow> bytes option"
  fs_dirs :: "path list"

text \<open>Paths of directories are kept without trailing slashes.\<close>

definition strip_slashes :: "path \<Rightarrow> path" where
  "strip_slashes p = rev (dropWhile (\<lambda>c. c = CHR ''/'') (rev p))"

text \<open>The directory part of a path: the current or the root directory when it is empty.\<close>

definition dir_part :: "path \<Rightarrow> path" where
  "dir_part p = strip_slashes (rev (dropWhile (\<lambda>c. c \<noteq> CHR ''/'') (rev p)))"

definition dir_exists :: "fs \<Rightarrow> path \<Rightarrow> bool" where
  "dir_exists s d \<longleftrightarrow> d = [] \<or> d = ''.'' \<or> d \<in> set (fs_dirs s)"

definition put_file :: "path \<Rightarrow> bytes option \<Rightarrow> fs \<Rightarrow> fs" where
  "put_file p b s = s\<lparr>fs_files := (fs_files s)(p := b)\<rparr>"

section \<open>Operations of \<open>file_helper\<close>\<close>

text \<open>\<open>exists\<close> is \<open>stat\<close>, which also finds directories; \<open>stat\<close> of the empty path fails.\<close>

definition file_exists :: "fs \<Rightarrow> path \<Rightarrow> bool" where
  "file_exists s p \<longleftrightarrow> fs_files s p \<noteq> None \<or> (p \<noteq> [] \<and> dir_exists s (strip_slashes p))"

definition file_size :: "fs \<Rightarrow> path \<Rightarrow> nat" where
  "file_size s p = (case fs_files s p of None \<Rightarrow> 0 | Some b \<Rightarrow> length b)"

text \<open>
  \<open>read(body, offset, len)\<close>: the bytes read, or \<open>None\<close> when it returns false (the file does not
  open, or fewer than \<open>len\<close> bytes are left and the stream is no longer good).
\<close>

definition read_at :: "fs \<Rightarrow> path \<Rightarrow> nat \<Rightarrow> nat \<Rightarrow> bytes option" where
  "read_at s p offset len =
     (case fs_files s p of
        None \<Rightarrow> None
      | Some b \<Rightarrow> if len = 0 \<or> offset + len \<le> length b then Some (take len (drop offset b)) else None)"

definition read_all :: "fs \<Rightarrow> path \<Rightarrow> bytes option" where
  "read_all s p = read_at s p 0 (file_size s p)"

text \<open>
  Writing at an offset: bytes past the end extend the file, and a gap before the offset is
  filled with zero bytes.
\<close>

definition overwrite :: "bytes \<Rightarrow> nat \<Rightarrow> bytes \<Rightarrow> bytes" where
  "overwrite b offset d =
     (if d = [] then b
      else take offset b @ replicate (offset - length b) CHR 0x00 @ d @ drop (offset + length d) b)"

definition write_at :: "fs \<Rightarrow> path \<Rightarrow> bytes \<Rightarrow> nat \<Rightarrow> bool \<times> fs" where
  "write_at s p d offset =
     (case fs_files s p of
        None \<Rightarrow> (False, s)
      | Some b \<Rightarrow> (True, put_file p (Some (overwrite b offset d)) s))"

definition write_all :: "fs \<Rightarrow> path \<Rightarrow> bytes \<Rightarrow> bool \<times> fs" where
  "write_all s p d = write_at s p d 0"

text \<open>\<open>create\<close> truncates an existing file and needs the directory to exist.\<close>

definition file_create :: "fs \<Rightarrow> path \<Rightarrow> bool \<times> fs" where
  "file_create s p =
     (if dir_exists s (dir_part p) \<and> \<not> dir_exists s (strip_slashes p)
      then (True, put_file p (Some []) s) else (False, s))"

definition file_remove :: "fs \<Rightarrow> path \<Rightarrow> bool \<times> fs" where
  "file_remove s p =
     (case fs_files s p of None \<Rightarrow> (False, s) | Some _ \<Rightarrow> (True, put_file p None s))"

definition file_rename :: "fs \<Rightarrow> path \<Rightarrow> path \<Rightarrow> bool \<times> fs" where
  "file_rename s old new =
     (case fs_files s old of
        None \<Rightarrow> (False, s)
      | Some b \<Rightarrow> (True, if old = new then s else put_file old None (put_file new (Some b) s)))"

definition parent_dir :: "path \<Rightarrow> path" where
  "parent_dir file_name =
     (case find_last_of CHR ''/'' file_name of None \<Rightarrow> ''./'' | Some pos \<Rightarrow> take pos file_name)"

section \<open>Creating a path of directories\<close>

datatype mkdir_result = MK_OK | MK_EXIST | MK_FAIL

definition mkdir :: "fs \<Rightarrow> path \<Rightarrow> mkdir_result \<times> fs" where
  "mkdir s p =
     (if p = [] then (MK_FAIL, s)
      else if file_exists s p then (MK_EXIST, s)
      else if dir_exists s (dir_part (strip_slashes p))
        then (MK_OK, s\<lparr>fs_dirs := strip_slashes p # fs_dirs s\<rparr>)
      else (MK_FAIL, s))"

text \<open>
  The loop of \<open>create_dir\<close>.  When no slash is left the whole path is made and the call must
  succeed; before that an existing directory is accepted.
\<close>

function create_dir_loop :: "path \<Rightarrow> nat \<Rightarrow> fs \<Rightarrow> bool \<times> fs" where
  "create_dir_loop path idx s =
     (if length path \<le> idx then (True, s)
      else case str_find CHR ''/'' path idx of
          None \<Rightarrow> (case mkdir s path of (r, s') \<Rightarrow> (r = MK_OK, s'))
        | Some pos \<Rightarrow>
            (case mkdir s (take pos path) of (r, s') \<Rightarrow>
               if r \<noteq> MK_OK \<and> r \<noteq> MK_EXIST then (False, s')
               else create_dir_loop path (pos + 1) s'))"
  by pat_completeness auto
termination
  by (relation "measure (\<lambda>(path, idx, s). length path - idx)")
    (auto simp: str_find_def dest!: find_from_Some)

declare create_dir_loop.simps [simp del]

definition create_dir :: "fs \<Rightarrow> path \<Rightarrow> bool \<times> fs" where
  "create_dir s path = create_dir_loop path 0 s"

section \<open>The shell\<close>

text \<open>
  \<open>system(cmd)\<close> hands a command to the shell, which may change the file system; what it does is a
  parameter.
\<close>

type_synonym shell = "string \<Rightarrow> fs \<Rightarrow> int \<times> fs"

definition remove_dir :: "shell \<Rightarrow> fs \<Rightarrow> path \<Rightarrow> bool \<times> fs" where
  "remove_dir system s p = (case system (''rm -rf '' @ p) s of (r, s') \<Rightarrow> (r \<noteq> -1, s'))"

section \<open>Facts of reads and writes\<close>

lemma fs_files_put [simp]: "fs_files (put_file p b s) q = (if q = p then b else fs_files s q)"
  by (simp add: put_file_def)

lemma fs_dirs_put [simp]: "fs_dirs (put_file p b s) = fs_dirs s"
  by (simp add: put_file_def)

lemma dir_exists_put [simp]: "dir_exists (put_file p b s) d = dir_exists s d"
  by (simp add: dir_exists_def)

lemma put_file_again [simp]: "put_file p b (put_file p b' s) = put_file p b s"
  by (simp add: put_file_def)

lemma put_file_same [simp]: "fs_files s p = b \<Longrightarrow> put_file p b s = s"
  by (cases s) (auto simp: put_file_def)

lemma write_at_file:
  "fs_files s p = Some b \<Longrightarrow> write_at s p d off = (True, put_file p (Some (overwrite b off d)) s)"
  by (simp add: write_at_def)

lemma write_at_missing: "fs_files s p = None \<Longrightarrow> write_at s p d off = (False, s)"
  by (simp add: write_at_def)

lemma size_file: "fs_files s p = Some b \<Longrightarrow> file_size s p = length b"
  by (simp add: file_size_def)

lemma overwrite_end: "overwrite b (length b) d = b @ d"
  by (simp add: overwrite_def)

lemma overwrite_middle:
  "length d = length m \<Longrightarrow> overwrite (us @ m @ vs) (length us) d = us @ d @ vs"
  by (auto simp: overwrite_def)

lemma length_overwrite_inside:
  "off + length d \<le> length b \<Longrightarrow> length (overwrite b off d) = length b"
  by (auto simp: overwrite_def)

section \<open>Directories\<close>

text \<open>A path \<open>d1/d2/.../dn/\<close> from the names of its directories.\<close>

definition dir_path :: "path list \<Rightarrow> path" where
  "dir_path ds = concat (map (\<lambda>d. d @ ''/'') ds)"

definition dir_name :: "path \<Rightarrow> bool" where
  "dir_name d \<longleftrightarrow> d \<noteq> [] \<and> CHR ''/'' \<notin> set d"

lemma dir_path_simps [simp]:
  "dir_path [] = []" "dir_path (d # ds) = d @ CHR ''/'' # dir_path ds"
  "dir_path (ds @ ds') = dir_path ds @ dir_path ds'"
  by (simp_all add: dir_path_def)

lemma strip_slashes_name: "dir_name d \<Longrightarrow> strip_slashes (p @ d) = p @ d"
  unfolding dir_name_def strip_slashes_def
  by (cases d rule: rev_cases) auto

lemma strip_slashes_slash: "dir_name d \<Longrightarrow> strip_slashes (p @ d @ ''/'') = p @ d"
  using strip_slashes_name [of d p] by (simp add: strip_slashes_def)

lemma dropWhile_name: "CHR ''/'' \<notin> set d \<Longrightarrow> dropWhile (\<lambda>c. c \<noteq> CHR ''/'') (rev d @ xs) =
    dropWhile (\<lambda>c. c \<noteq> CHR ''/'') xs"
  by (rule dropWhile_append2) auto

lemma dir_part_name:
  assumes "CHR ''/'' \<notin> set d"
  shows "dir_part d = []" and "dir_part (p @ ''/'' @ d) = strip_slashes (p @ ''/'')"
proof -
  have "dropWhile (\<lambda>c. c \<noteq> CHR ''/'') (rev d) = []"
    using dropWhile_name [OF assms, of "[]"] by (simp only: append_Nil2 dropWhile.simps)
  then show "dir_part d = []" by (simp only: dir_part_def) (simp add: strip_slashes_def)
  show "dir_part (p @ ''/'' @ d) = strip_slashes (p @ ''/'')"
    using dropWhile_name [OF assms] by (simp add: dir_part_def)
qed

lemma dir_part_in:
  assumes "dir_name d"
  shows "dir_part (dir_path ds @ d) = strip_slashes (dir_path ds)"
proof (cases ds rule: rev_cases)
  case Nil
  with assms show ?thesis by (simp add: dir_part_name dir_name_def strip_slashes_def)
next
  case (snoc es e)
  with assms show ?thesis
    using dir_part_name(2) [of d "dir_path es @ e"] by (simp add: dir_name_def)
qed

lemma mkdir_name:
  assumes "dir_name d" and "dir_exists s (strip_slashes (dir_path ds))"
    and "fs_files s (dir_path ds @ d) = None"
  obtains r s' where "mkdir s (dir_path ds @ d) = (r, s')" and "r \<noteq> MK_FAIL"
    and "dir_exists s' (dir_path ds @ d)" and "fs_files s' = fs_files s"
    and "set (fs_dirs s) \<subseteq> set (fs_dirs s')"
proof (cases "mkdir s (dir_path ds @ d)")
  case (Pair r s')
  have "dir_path ds @ d \<noteq> []" using assms(1) by (auto simp: dir_name_def)
  with Pair assms show ?thesis
    by (intro that [OF Pair])
      (auto simp: mkdir_def file_exists_def strip_slashes_name dir_part_in dir_exists_def split: if_splits)
qed

lemma create_dir_loop_path:
  assumes "\<forall>d \<in> set ds. dir_name d" and "dir_exists s (strip_slashes (dir_path es))"
    and "\<forall>k. fs_files s (take k (dir_path (es @ ds))) = None"
  shows "\<exists>s'. create_dir_loop (dir_path (es @ ds)) (length (dir_path es)) s = (True, s') \<and>
     dir_exists s' (strip_slashes (dir_path (es @ ds))) \<and> fs_files s' = fs_files s \<and>
     set (fs_dirs s) \<subseteq> set (fs_dirs s')"
  using assms
proof (induction ds arbitrary: es s)
  case Nil
  then show ?case by (subst create_dir_loop.simps) simp
next
  case (Cons d ds)
  let ?p = "dir_path (es @ d # ds)" and ?i = "length (dir_path es)"
  have d: "dir_name d" using Cons.prems(1) by simp
  have find: "str_find CHR ''/'' ?p ?i = Some (?i + length d)"
    using d by (simp add: str_find_def find_from_append dir_name_def)
  have take: "take (?i + length d) ?p = dir_path es @ d" by simp
  have free: "fs_files s (dir_path es @ d) = None"
    using Cons.prems(3) take by metis
  obtain r s1 where m: "mkdir s (dir_path es @ d) = (r, s1)" "r \<noteq> MK_FAIL"
    "dir_exists s1 (dir_path es @ d)" "fs_files s1 = fs_files s" "set (fs_dirs s) \<subseteq> set (fs_dirs s1)"
    using mkdir_name [OF d Cons.prems(2) free] .
  have ok: "r = MK_OK \<or> r = MK_EXIST" using m(2) by (cases r) auto
  have "dir_exists s1 (strip_slashes (dir_path (es @ [d])))"
    using m(3) strip_slashes_slash [OF d, of "dir_path es"] by simp
  from Cons.IH [OF _ this] Cons.prems(1,3) m(4)
  obtain s' where s': "create_dir_loop ?p (length (dir_path (es @ [d]))) s1 = (True, s')"
    "dir_exists s' (strip_slashes ?p)" "fs_files s' = fs_files s1" "set (fs_dirs s1) \<subseteq> set (fs_dirs s')"
    by auto
  have more: "\<not> length ?p \<le> ?i" and next_i: "?i + length d + 1 = length (dir_path (es @ [d]))"
    by simp_all
  have "create_dir_loop ?p ?i s = (True, s')"
    using ok by (subst create_dir_loop.simps) (auto simp only: if_False more find take m(1)
        option.case prod.case mkdir_result.distinct next_i s'(1) simp_thms)
  with s' m show ?case by auto
qed

section \<open>Properties\<close>

text \<open>
  for a relative path that ends in a slash, as the constructor of \<open>message_mapper\<close> passes it,
  \<open>create_dir\<close> succeeds, the directory exists afterwards and no file is touched.
\<close>

theorem create_dir_relative:
  assumes "ds \<noteq> []" and "\<forall>d \<in> set ds. dir_name d"
    and "\<forall>k. fs_files s (take k (dir_path ds)) = None"
  shows "\<exists>s'. create_dir s (dir_path ds) = (True, s') \<and> file_exists s' (dir_path ds) \<and>
     fs_files s' = fs_files s"
proof -
  have "dir_exists s (strip_slashes (dir_path []))"
    by (simp add: strip_slashes_def dir_exists_def)
  moreover have "dir_path ds \<noteq> []"
    using assms(1) by (cases ds) auto
  ultimately show ?thesis
    using create_dir_loop_path [of ds s "[]"] assms(2,3)
    by (auto simp: create_dir_def file_exists_def)
qed

theorem create_dir_relative_witness:
  "\<exists>s'. create_dir \<lparr>fs_files = \<lambda>_. None, fs_dirs = []\<rparr> ''./data/'' = (True, s') \<and>
     file_exists s' ''./data/'' \<and> fs_files s' = (\<lambda>_. None)"
  using create_dir_relative [of "[''.'', ''data'']" "\<lparr>fs_files = \<lambda>_. None, fs_dirs = []\<rparr>"]
  by (simp add: dir_name_def)

text \<open>
  \<open>create_dir\<close> fails on every absolute path, whatever exists: the first component before a
  slash is empty, and \<open>mkdir\<close> of the empty path is an error other than \<open>EEXIST\<close>.
\<close>

theorem create_dir_absolute_fails: "create_dir s (CHR ''/'' # p) = (False, s)"
  by (simp add: create_dir_def create_dir_loop.simps [of "CHR ''/'' # p"] str_find_def mkdir_def)

end
