(* ===== verification/Sql.thy ===== *)
theory Sql
  imports File_Helper
begin

text \<open>
  \<open>sqlite_helper\<close> of \<open>HareMQ/mqcommon/helper.hpp\<close> and the SQL the server's three mappers send
  through it.  SQLite itself is not part of the repository: it is a record of two functions, and
  \<open>sqlite_ok\<close> states what its documentation says of the few forms of statement the server uses.
\<close>

section \<open>Numbers as text\<close>

fun show_nat :: "nat \<Rightarrow> string" where
  "show_nat n = (if n < 10 then [char_of (48 + n)] else show_nat (n div 10) @ [char_of (48 + n mod 10)])"

declare show_nat.simps [simp del]

text \<open>\<open>%d\<close> of \<open>printf\<close>.\<close>

definition show_int :: "int \<Rightarrow> string" where
  "show_int n = (if n < 0 then ''-'' @ show_nat (nat (- n)) else show_nat (nat n))"

definition digit :: "char \<Rightarrow> bool" where
  "digit c \<longleftrightarrow> 48 \<le> (of_char c :: nat) \<and> (of_char c :: nat) \<le> 57"

definition white :: "char \<Rightarrow> bool" where
  "white c \<longleftrightarrow> of_char c \<in> {9, 10, 11, 12, 13, 32 :: nat}"

fun read_nat :: "nat \<Rightarrow> string \<Rightarrow> nat" where
  "read_nat acc [] = acc"
| "read_nat acc (c # cs) = read_nat (10 * acc + (of_char c - 48)) cs"

text \<open>\<open>std::stoi\<close>: leading white space and a sign, digits, and whatever follows them.\<close>

definition stoi :: "string \<Rightarrow> int result" where
  "stoi s =
     (let s1 = dropWhile white s;
          neg = (s1 \<noteq> [] \<and> hd s1 = CHR ''-'');
          s2 = (if s1 \<noteq> [] \<and> (hd s1 = CHR ''-'' \<or> hd s1 = CHR ''+'') then tl s1 else s1);
          ds = takeWhile digit s2;
          n = (if neg then - int (read_nat 0 ds) else int (read_nat 0 ds))
      in if ds = [] \<or> n < - (2 ^ 31) \<or> 2 ^ 31 \<le> n then Inl Throws else Inr n)"

lemma digit_char: "n < 10 \<Longrightarrow> digit (char_of (48 + n))" "n < 10 \<Longrightarrow> (of_char (char_of (48 + n)) :: nat) = 48 + n"
  by (auto simp: digit_def)

lemma digits_show_nat: "\<forall>c \<in> set (show_nat n). digit c"
proof (induction n rule: show_nat.induct)
  case (1 n)
  then show ?case
    by (cases "n < 10") (auto simp: show_nat.simps [of n] digit_char)
qed

lemma show_nat_nonempty: "show_nat n \<noteq> []"
  by (simp add: show_nat.simps [of n])

lemma read_nat_append: "read_nat acc (xs @ ys) = read_nat (read_nat acc xs) ys"
  by (induction xs arbitrary: acc) auto

lemma read_show_nat: "read_nat 0 (show_nat n) = n"
proof (induction n rule: show_nat.induct)
  case (1 n)
  then show ?case
    by (cases "n < 10") (auto simp: show_nat.simps [of n] read_nat_append digit_char)
qed

lemma not_sign: "digit c \<Longrightarrow> \<not> white c \<and> c \<noteq> CHR ''-'' \<and> c \<noteq> CHR ''+''"
  by (auto simp: digit_def white_def)

lemma stoi_digits:
  assumes "ds \<noteq> []" and "\<forall>c \<in> set ds. digit c" and "int (read_nat 0 ds) < 2 ^ 31"
  shows "stoi ds = Inr (int (read_nat 0 ds))" and "stoi (CHR ''-'' # ds) = Inr (- int (read_nat 0 ds))"
proof -
  have hd: "\<not> white (hd ds) \<and> hd ds \<noteq> CHR ''-'' \<and> hd ds \<noteq> CHR ''+''"
    using assms(1,2) not_sign by simp
  then have drop: "dropWhile white ds = ds" using assms(1) by (cases ds) auto
  have take: "takeWhile digit ds = ds" using assms(2) by (simp add: takeWhile_eq_all_conv)
  show "stoi ds = Inr (int (read_nat 0 ds))"
    using assms(1,3) hd by (simp add: stoi_def Let_def drop take)
  have "\<not> white CHR ''-''" by (simp add: white_def)
  then show "stoi (CHR ''-'' # ds) = Inr (- int (read_nat 0 ds))"
    using assms(1,3) by (simp add: stoi_def Let_def take)
qed

lemma stoi_show_int:
  assumes "- (2 ^ 31) < n" and "n < 2 ^ 31"
  shows "stoi (show_int n) = Inr n"
proof (cases "n < 0")
  case True
  have "int (read_nat 0 (show_nat (nat (- n)))) < 2 ^ 31" using True assms by (simp add: read_show_nat)
  then show ?thesis
    using stoi_digits(2) [OF show_nat_nonempty digits_show_nat, of "nat (- n)"] True
    by (simp add: show_int_def read_show_nat)
next
  case False
  have "int (read_nat 0 (show_nat (nat n))) < 2 ^ 31" using False assms by (simp add: read_show_nat)
  then show ?thesis
    using stoi_digits(1) [OF show_nat_nonempty digits_show_nat, of "nat n"] False
    by (simp add: show_int_def read_show_nat)
qed

section \<open>The helper\<close>

record 'db sqlite =
  sq_open :: "string \<Rightarrow> 'db \<Rightarrow> bool \<times> 'db" \<comment> \<open>\<open>sqlite3_open_v2\<close> of a file\<close>
  sq_exec :: "string \<Rightarrow> 'db \<Rightarrow> bool \<times> string option list list \<times> 'db"
    \<comment> \<open>\<open>sqlite3_exec\<close>: success, the rows given to the callback, the database\<close>

definition sql_open :: "'db sqlite \<Rightarrow> string \<Rightarrow> 'db \<Rightarrow> bool \<times> 'db" where
  "sql_open sq db_file db = sq_open sq (c_str db_file) db"

definition sql_exec :: "'db sqlite \<Rightarrow> string \<Rightarrow> 'db \<Rightarrow> bool \<times> string option list list \<times> 'db" where
  "sql_exec sq sql db = sq_exec sq (c_str sql) db"

text \<open>\<open>sprintf\<close> into the mappers' buffers of 4096 bytes.\<close>

definition sprintf_buf :: "string \<Rightarrow> string result" where
  "sprintf_buf t = (if length t < 4096 then Inr t else Inl Undefined)"

text \<open>The constructors of the mappers before they create their table.\<close>

definition open_db :: "'db sqlite \<Rightarrow> string \<Rightarrow> fs \<Rightarrow> 'db \<Rightarrow> (fs \<times> 'db) result" where
  "open_db sq dbfile s db =
     (let (made, s1) = create_dir s (parent_dir dbfile) in
      case sql_open sq dbfile db of
        (False, db') \<Rightarrow> Inl Aborts
      | (True, db') \<Rightarrow> Inr (s1, db'))"

definition exec_or_abort :: "'db sqlite \<Rightarrow> string \<Rightarrow> 'db \<Rightarrow> 'db result" where
  "exec_or_abort sq sql db =
     (case sql_exec sq sql db of (ok, rows, db') \<Rightarrow> if ok then Inr db' else Inl Aborts)"

section \<open>The statements\<close>

datatype sql_value = Txt string | Num int

datatype sql_stmt =
  CreateTable string "(string \<times> string \<times> bool) list" \<comment> \<open>columns: name, type, primary key\<close>
| DropTable string
| InsertInto string "sql_value list"
| DeleteFrom string "(string \<times> string) list" \<comment> \<open>conditions: column, text\<close>
| SelectFrom string "string list" \<comment> \<open>columns, none for \<open>*\<close>\<close>

fun join :: "string \<Rightarrow> string list \<Rightarrow> string" where
  "join sep [] = []"
| "join sep [x] = x"
| "join sep (x # y # ys) = x @ sep @ join sep (y # ys)"

definition quote :: "string \<Rightarrow> string" where
  "quote t = CHR 0x27 # t @ [CHR 0x27]"

fun value_sql :: "sql_value \<Rightarrow> string" where
  "value_sql (Txt t) = quote t"
| "value_sql (Num n) = show_int n"

text \<open>The macros break their lines inside the literal, which keeps the indentation.\<close>

definition indent :: string where
  "indent = replicate 12 CHR '' ''"

definition column_sql :: "string \<times> string \<times> bool \<Rightarrow> string" where
  "column_sql c = (case c of (n, t, key) \<Rightarrow> n @ '' '' @ t @ (if key then '' primary key'' else []))"

fun render :: "sql_stmt \<Rightarrow> string" where
  "render (CreateTable t cols) =
     ''create table if not exists '' @ t @ ''('' @ indent @ join ('', '' @ indent) (map column_sql cols) @ '');''"
| "render (DropTable t) = ''drop table if exists '' @ t @ '';''"
| "render (InsertInto t vs) = ''insert into '' @ t @ '' values('' @ join '', '' (map value_sql vs) @ '');''"
| "render (DeleteFrom t cs) =
     ''delete from '' @ t @ '' where '' @ join '' and '' (map (\<lambda>(c, x). c @ ''='' @ quote x) cs) @ '';''"
| "render (SelectFrom t cols) =
     ''select '' @ (if cols = [] then ''*'' else join '', '' cols) @ '' from '' @ t @ '';''"

section \<open>What they mean\<close>

record sql_table =
  st_cols :: "string list"
  st_keyed :: bool \<comment> \<open>the first column is the primary key\<close>
  st_rows :: "string list list"

type_synonym tables = "string \<Rightarrow> sql_table option"

fun value_text :: "sql_value \<Rightarrow> string" where
  "value_text (Txt t) = t"
| "value_text (Num n) = show_int n"

definition column :: "string list \<Rightarrow> string list \<Rightarrow> string \<Rightarrow> string option" where
  "column cols row c = map_of (zip cols row) c"

fun sql_sem :: "sql_stmt \<Rightarrow> tables \<Rightarrow> bool \<times> string option list list \<times> tables" where
  "sql_sem (CreateTable t cols) T =
     (True, [], case T t of
        Some tab \<Rightarrow> T
      | None \<Rightarrow> T(t \<mapsto> \<lparr>st_cols = map fst cols, st_keyed = (case cols of (n, ty, key) # _ \<Rightarrow> key | [] \<Rightarrow> False),
                      st_rows = []\<rparr>))"
| "sql_sem (DropTable t) T = (True, [], T(t := None))"
| "sql_sem (InsertInto t vs) T =
     (case T t of
        None \<Rightarrow> (False, [], T)
      | Some tab \<Rightarrow>
          let row = map value_text vs in
          if length row \<noteq> length (st_cols tab) \<or> (st_keyed tab \<and> hd row \<in> hd ` set (st_rows tab))
          then (False, [], T)
          else (True, [], T(t \<mapsto> tab\<lparr>st_rows := st_rows tab @ [row]\<rparr>)))"
| "sql_sem (DeleteFrom t cs) T =
     (case T t of
        None \<Rightarrow> (False, [], T)
      | Some tab \<Rightarrow>
          (True, [], T(t \<mapsto> tab\<lparr>st_rows :=
             filter (\<lambda>row. \<not> (\<forall>(c, x) \<in> set cs. column (st_cols tab) row c = Some x)) (st_rows tab)\<rparr>)))"
| "sql_sem (SelectFrom t cols) T =
     (case T t of
        None \<Rightarrow> (False, [], T)
      | Some tab \<Rightarrow>
          (True, map (\<lambda>row. map (column (st_cols tab) row) (if cols = [] then st_cols tab else cols)) (st_rows tab), T))"

text \<open>Text that may stand between quotes; the statements the server builds from such text.\<close>

definition plain :: "string \<Rightarrow> bool" where
  "plain t \<longleftrightarrow> CHR 0x27 \<notin> set t \<and> CHR 0x00 \<notin> set t"

definition plain_value :: "sql_value \<Rightarrow> bool" where
  "plain_value v \<longleftrightarrow> (case v of Txt t \<Rightarrow> plain t | Num n \<Rightarrow> True)"

definition known_tables :: "(string \<times> (string \<times> string \<times> bool) list) list" where
  "known_tables =
     [(''exchange_table'', [(''name'', ''varchar(32)'', True), (''type'', ''int'', False), (''durable'', ''int'', False),
        (''auto_delete'', ''int'', False), (''args'', ''varchar(128)'', False)]),
      (''queue_table'', [(''name'', ''varchar(32)'', True), (''durable'', ''int'', False), (''exclusive'', ''int'', False),
        (''auto_delete'', ''int'', False), (''args'', ''varchar(128)'', False)]),
      (''binding_table'', [(''exchange_name'', ''varchar(32)'', False), (''msg_queue_name'', ''varchar(32)'', False),
        (''binding_key'', ''varchar(128)'', False)])]"

fun plain_stmt :: "sql_stmt \<Rightarrow> bool" where
  "plain_stmt (CreateTable t cols) \<longleftrightarrow> (t, cols) \<in> set known_tables"
| "plain_stmt (DropTable t) \<longleftrightarrow> t \<in> fst ` set known_tables"
| "plain_stmt (InsertInto t vs) \<longleftrightarrow> t \<in> fst ` set known_tables \<and> vs \<noteq> [] \<and> (\<forall>v \<in> set vs. plain_value v)"
| "plain_stmt (DeleteFrom t cs) \<longleftrightarrow> t \<in> fst ` set known_tables \<and> cs \<noteq> [] \<and>
     (\<forall>(c, x) \<in> set cs. (\<exists>cols. (t, cols) \<in> set known_tables \<and> c \<in> fst ` set cols) \<and> plain x)"
| "plain_stmt (SelectFrom t cols) \<longleftrightarrow>
     (\<exists>cs. (t, cs) \<in> set known_tables \<and> (cols = [] \<or> cols = map fst cs))"

definition sqlite_ok :: "'db sqlite \<Rightarrow> ('db \<Rightarrow> tables) \<Rightarrow> bool" where
  "sqlite_ok sq tabs \<longleftrightarrow>
     (\<forall>f db. \<exists>db'. sq_open sq f db = (True, db') \<and> tabs db' = tabs db) \<and>
     (\<forall>st db. plain_stmt st \<longrightarrow>
        (\<exists>ok rows db'. sq_exec sq (render st) db = (ok, rows, db') \<and> sql_sem st (tabs db) = (ok, rows, tabs db')))"

end
