(* ===== verification/Registry.thy ===== *)
theory Registry
  imports Sql
begin

text \<open>
  What the managers of exchanges and queues share: the key-value arguments and their text, and the
  contract between a manager's map in memory and the table its mapper keeps.
\<close>

section \<open>Arguments\<close>

type_synonym arg_map = "(string, string) umap"

text \<open>One piece of \<open>set_args\<close>; without \<open>=\<close> both \<open>substr\<close> calls give the whole piece.\<close>

definition add_arg :: "string \<Rightarrow> arg_map \<Rightarrow> arg_map" where
  "add_arg single_arg args =
     (let pos = str_find CHR ''='' single_arg 0
      in um_insert (substr_to single_arg pos) (substr_after single_arg pos) args)"

definition parse_args :: "splitter \<Rightarrow> string \<Rightarrow> arg_map \<Rightarrow> arg_map" where
  "parse_args bsplit str_args args = fold add_arg (split bsplit str_args ''&'' True) args"

definition format_args :: "arg_map \<Rightarrow> string" where
  "format_args args = concat (map (\<lambda>(k, v). k @ ''='' @ v @ ''&'') args)"

definition plain_args :: "arg_map \<Rightarrow> bool" where
  "plain_args args \<longleftrightarrow> um_wf args \<and>
     (\<forall>(k, v) \<in> set args. CHR ''='' \<notin> set k \<and> CHR ''&'' \<notin> set k \<and> CHR ''&'' \<notin> set v)"

lemma add_arg_pair: "CHR ''='' \<notin> set k \<Longrightarrow> add_arg (k @ ''='' @ v) args = um_insert k v args"
  using find_from_append [of "CHR ''=''" k v 0]
  by (simp add: add_arg_def str_find_def substr_to_def substr_after_def)

lemma add_arg_Nil: "add_arg [] args = um_insert [] [] args"
  by (simp add: add_arg_def str_find_def substr_to_def substr_after_def)

lemma format_args_start: "plain_args args \<Longrightarrow> args \<noteq> [] \<Longrightarrow> format_args args \<noteq> [] \<and> hd (format_args args) \<noteq> CHR ''&''"
proof (cases args)
  case (Cons e es)
  obtain k v where e: "e = (k, v)" by (cases e)
  assume "plain_args args"
  then show ?thesis
    by (cases k) (auto simp: Cons e format_args_def plain_args_def)
qed simp

lemma split_format_args:
  assumes "boost_split_ok bsplit" and "plain_args args"
  shows "split bsplit (format_args args) ''&'' True = map (\<lambda>(k, v). k @ ''='' @ v) args @ [[]]"
proof -
  let ?P = "\<lambda>c. c \<in> set ''&''"
  have "tokens ?P (compress ?P (format_args args)) = map (\<lambda>(k, v). k @ ''='' @ v) args @ [[]]"
    using assms(2)
  proof (induction args)
    case Nil
    then show ?case by (simp add: format_args_def)
  next
    case (Cons e args)
    obtain k v where e: "e = (k, v)" by (cases e)
    have rest: "plain_args args" using Cons.prems by (auto simp: plain_args_def um_wf_def)
    have chars: "\<forall>c \<in> set (k @ ''='' @ v). \<not> ?P c" using Cons.prems by (auto simp: plain_args_def e)
    have "compress ?P (CHR ''&'' # format_args args) = CHR ''&'' # compress ?P (format_args args)"
      using format_args_start [OF rest] by (cases args; cases "format_args args") (auto simp: format_args_def)
    moreover have "format_args (e # args) = (k @ ''='' @ v) @ CHR ''&'' # format_args args"
      by (simp add: format_args_def e)
    ultimately have "compress ?P (format_args (e # args)) = (k @ ''='' @ v) @ CHR ''&'' # compress ?P (format_args args)"
      using compress_append_plain [OF chars] by metis
    then have "tokens ?P (compress ?P (format_args (e # args))) = (k @ ''='' @ v) # tokens ?P (compress ?P (format_args args))"
      using tokens_append [OF chars, of "CHR ''&''"] by simp
    with Cons.IH [OF rest] show ?case by (simp add: e)
  qed
  then show ?thesis using assms(1) by (simp add: split_def boost_split_ok_def)
qed

lemma fold_add_pairs:
  assumes "\<forall>(k, v) \<in> set xs. CHR ''='' \<notin> set k" and "um_wf xs"
  shows "map_of (fold add_arg (map (\<lambda>(k, v). k @ ''='' @ v) xs) args) j =
    (case map_of args j of Some w \<Rightarrow> Some w | None \<Rightarrow> map_of xs j)"
  using assms
proof (induction xs arbitrary: args)
  case (Cons e xs)
  obtain k v where e: "e = (k, v)" by (cases e)
  have "map_of xs k = None" using Cons.prems(2) by (auto simp: e um_wf_def map_of_eq_None_iff)
  with Cons show ?case
    by (auto simp: e add_arg_pair [simplified] um_find_insert um_wf_def split: option.splits)
qed (auto split: option.split)

text \<open>What is left of the arguments after being stored: all of them and an empty one.\<close>

definition reloaded_args :: "arg_map \<Rightarrow> string \<Rightarrow> string option" where
  "reloaded_args args j =
     (case map_of args j of Some v \<Rightarrow> Some v | None \<Rightarrow> if j = [] then Some [] else None)"

lemma parse_format_args:
  assumes "boost_split_ok bsplit" and "plain_args args"
  shows "map_of (parse_args bsplit (format_args args) []) = reloaded_args args"
proof
  fix j
  have "map_of (fold add_arg (map (\<lambda>(k, v). k @ ''='' @ v) args) []) i = map_of args i" for i
    using assms(2) by (subst fold_add_pairs) (auto simp: plain_args_def)
  then show "map_of (parse_args bsplit (format_args args) []) j = reloaded_args args j"
    by (auto simp: parse_args_def split_format_args [OF assms] add_arg_Nil um_find_insert
        reloaded_args_def split: option.split)
qed

text \<open>A flag as the mappers store it.\<close>

definition flag :: "bool \<Rightarrow> int" where
  "flag b = (if b then 1 else 0)"

lemma stoi_flag: "stoi (show_int (flag b)) = Inr (flag b)" and flag_neq: "(flag b \<noteq> 0) = b"
  by (simp_all add: stoi_show_int flag_def)

section \<open>A map in memory over a table\<close>

text \<open>
  What was declared, under its name, and whether the server was started again since: then the
  object in memory is the one made from the row.
\<close>

type_synonym 'v declared = "string \<Rightarrow> ('v \<times> bool) option"

definition current :: "('v \<Rightarrow> 'v) \<Rightarrow> 'v \<times> bool \<Rightarrow> 'v" where
  "current again x = (case x of (v, b) \<Rightarrow> if b then again v else v)"

definition spec_declare :: "('v \<Rightarrow> string) \<Rightarrow> 'v \<Rightarrow> 'v declared \<Rightarrow> 'v declared" where
  "spec_declare key v D = (if D (key v) = None then D(key v \<mapsto> (v, False)) else D)"

definition spec_reload :: "('v \<Rightarrow> bool) \<Rightarrow> 'v declared \<Rightarrow> 'v declared" where
  "spec_reload durable D =
     (\<lambda>k. case D k of None \<Rightarrow> None | Some (v, b) \<Rightarrow> if durable v then Some (v, True) else None)"

text \<open>
  A mapper inserts and removes rows of a database; \<open>stored db vs\<close> says that its table holds exactly
  the objects \<open>vs\<close>, in this order, and \<open>again v\<close> is the object made from the row of \<open>v\<close>.
\<close>

locale row_store =
  fixes key :: "'v \<Rightarrow> string"
    and durable :: "'v \<Rightarrow> bool"
    and again :: "'v \<Rightarrow> 'v"
    and storable :: "'v \<Rightarrow> bool"
    and stored :: "'db \<Rightarrow> 'v list \<Rightarrow> bool"
    and insert_row :: "'v \<Rightarrow> 'db \<Rightarrow> (bool \<times> 'db) result"
    and remove_row :: "string \<Rightarrow> 'db \<Rightarrow> 'db result"
  assumes insert_row: "\<lbrakk>stored db vs; storable v; key v \<notin> key ` set vs\<rbrakk> \<Longrightarrow>
      \<exists>db'. insert_row v db = Inr (True, db') \<and> stored db' (vs @ [v])"
    and remove_row: "\<lbrakk>stored db vs; v \<in> set vs\<rbrakk> \<Longrightarrow>
      \<exists>db'. remove_row (key v) db = Inr db' \<and> stored db' (filter (\<lambda>w. key w \<noteq> key v) vs)"
    and key_again: "key (again v) = key v"
    and durable_again: "durable (again v) = durable v"

text \<open>The map holds what was declared, and the table the durable part of it.\<close>

definition holds_rows :: "('v \<Rightarrow> string) \<Rightarrow> ('v \<Rightarrow> bool) \<Rightarrow> ('db \<Rightarrow> 'v list \<Rightarrow> bool) \<Rightarrow> 'db \<Rightarrow> 'v declared \<Rightarrow> bool" where
  "holds_rows key durable stored db D \<longleftrightarrow>
     (\<exists>vs. stored db vs \<and> distinct (map key vs) \<and>
        (\<forall>v. v \<in> set vs \<longleftrightarrow> durable v \<and> (\<exists>b. D (key v) = Some (v, b))))"

definition tracks ::
  "('v \<Rightarrow> string) \<Rightarrow> ('v \<Rightarrow> bool) \<Rightarrow> ('v \<Rightarrow> 'v) \<Rightarrow> ('db \<Rightarrow> 'v list \<Rightarrow> bool) \<Rightarrow>
     (string, 'v) umap \<Rightarrow> 'db \<Rightarrow> 'v declared \<Rightarrow> bool" where
  "tracks key durable again stored m db D \<longleftrightarrow> um_wf m \<and>
     (\<forall>k. map_of m k = map_option (current again) (D k)) \<and>
     (\<forall>k v b. D k = Some (v, b) \<longrightarrow> key v = k) \<and> holds_rows key durable stored db D"

lemma tracksD:
  assumes "tracks key durable again stored m db D"
  shows "um_wf m" and "map_of m k = map_option (current again) (D k)"
    and "D k = Some (v, b) \<Longrightarrow> key v = k" and "holds_rows key durable stored db D"
  using assms by (auto simp: tracks_def)

lemma tracks_empty: "stored db [] \<Longrightarrow> tracks key durable again stored [] db (\<lambda>k. None)"
  by (auto simp: tracks_def holds_rows_def intro!: exI [of _ "[]"])

lemma holds_rows_same:
  assumes "holds_rows key durable stored db D"
    and "\<And>v. durable v \<Longrightarrow> (\<exists>b. D' (key v) = Some (v, b)) \<longleftrightarrow> (\<exists>b. D (key v) = Some (v, b))"
  shows "holds_rows key durable stored db D'"
  using assms unfolding holds_rows_def by metis

lemma tracks_insert_transient:
  assumes t: "tracks key durable again stored m db D" and new: "D (key v) = None" and "\<not> durable v"
  shows "tracks key durable again stored (um_insert (key v) v m) db (spec_declare key v D)"
proof -
  have "holds_rows key durable stored db (spec_declare key v D)"
    by (rule holds_rows_same [OF tracksD(4) [OF t]]) (use assms(3) new in \<open>auto simp: spec_declare_def\<close>)
  then show ?thesis
    using t new by (auto simp: tracks_def um_wf_insert um_find_insert spec_declare_def current_def)
qed

lemma tracks_erase_transient:
  assumes t: "tracks key durable again stored m db D" and v: "D k = Some (v, b)" and "\<not> durable v"
  shows "tracks key durable again stored (um_erase k m) db (D(k := None))"
proof -
  have "holds_rows key durable stored db (D(k := None))"
    by (rule holds_rows_same [OF tracksD(4) [OF t]]) (use assms(3) v in auto)
  then show ?thesis using t by (auto simp: tracks_def um_wf_erase um_find_erase)
qed

context row_store
begin

lemma tracks_insert:
  assumes t: "tracks key durable again stored m db D" and new: "D (key v) = None"
    and v: "durable v" "storable v"
  shows "\<exists>db'. insert_row v db = Inr (True, db') \<and>
    tracks key durable again stored (um_insert (key v) v m) db' (spec_declare key v D)"
proof -
  obtain vs where vs: "stored db vs" "distinct (map key vs)"
    "\<forall>v. v \<in> set vs \<longleftrightarrow> durable v \<and> (\<exists>b. D (key v) = Some (v, b))"
    using tracksD(4) [OF t] by (auto simp: holds_rows_def)
  have fresh: "key v \<notin> key ` set vs" using new vs(3) by force
  obtain db' where db': "insert_row v db = Inr (True, db')" "stored db' (vs @ [v])"
    using insert_row [OF vs(1) v(2) fresh] by blast
  have "w \<in> set (vs @ [v]) \<longleftrightarrow> durable w \<and> (\<exists>b. spec_declare key v D (key w) = Some (w, b))" for w
    using vs(3) [rule_format, of w] new v(1) by (cases "key w = key v") (auto simp: spec_declare_def)
  then have "holds_rows key durable stored db' (spec_declare key v D)"
    using db'(2) vs(2) fresh unfolding holds_rows_def by (intro exI [of _ "vs @ [v]"]) simp
  then show ?thesis
    using t db'(1) new by (auto simp: tracks_def um_wf_insert um_find_insert spec_declare_def current_def)
qed

lemma tracks_erase:
  assumes t: "tracks key durable again stored m db D" and v: "D k = Some (v, b)" "durable v"
  shows "\<exists>db'. remove_row k db = Inr db' \<and> tracks key durable again stored (um_erase k m) db' (D(k := None))"
proof -
  obtain vs where vs: "stored db vs" "distinct (map key vs)"
    "\<forall>v. v \<in> set vs \<longleftrightarrow> durable v \<and> (\<exists>b. D (key v) = Some (v, b))"
    using tracksD(4) [OF t] by (auto simp: holds_rows_def)
  have k: "key v = k" using tracksD(3) [OF t v(1)] .
  have "v \<in> set vs" using vs(3) v k by auto
  then obtain db' where db': "remove_row (key v) db = Inr db'" "stored db' (filter (\<lambda>w. key w \<noteq> key v) vs)"
    using remove_row [OF vs(1)] by blast
  have "w \<in> set (filter (\<lambda>w. key w \<noteq> key v) vs) \<longleftrightarrow> durable w \<and> (\<exists>b. (D(k := None)) (key w) = Some (w, b))" for w
    using vs(3) [rule_format, of w] k by auto
  then have "holds_rows key durable stored db' (D(k := None))"
    using db'(2) vs(2) unfolding holds_rows_def
    by (intro exI [of _ "filter (\<lambda>w. key w \<noteq> key v) vs"]) (simp add: distinct_map_filter)
  then show ?thesis
    using t db'(1) k by (auto simp: tracks_def um_wf_erase um_find_erase)
qed

lemma durable_current: "durable (current again x) = durable (fst x)" and key_current: "key (current again x) = key (fst x)"
  by (cases x, simp add: current_def durable_again key_again)+

text \<open>What declaring and deleting do to the map and the table.\<close>

lemma tracks_declare:
  assumes t: "tracks key durable again stored m db D" and new: "D (key v) = None" and ok: "durable v \<longrightarrow> storable v"
  shows "\<exists>db'. (if durable v then insert_row v db else Inr (True, db)) = Inr (True, db') \<and>
    tracks key durable again stored (um_insert (key v) v m) db' (spec_declare key v D)"
  using tracks_insert [OF t new] tracks_insert_transient [OF t new] ok by (cases "durable v") auto

lemma tracks_delete:
  assumes t: "tracks key durable again stored m db D" and x: "D k = Some x"
  shows "\<exists>db'. (if durable (current again x) then remove_row k db else Inr db) = Inr db' \<and>
    tracks key durable again stored (um_erase k m) db' (D(k := None))"
proof -
  obtain v b where v: "x = (v, b)" by (cases x)
  show ?thesis
    using tracks_erase [OF t x [unfolded v]] tracks_erase_transient [OF t x [unfolded v]]
    by (cases "durable v") (simp_all add: durable_current v)
qed

end

section \<open>Reading a table back\<close>

text \<open>The callback of \<open>sqlite3_exec\<close> for each row; an exception ends the call.\<close>

fun load_rows :: "(string option list \<Rightarrow> 'v result) \<Rightarrow> ('v \<Rightarrow> string) \<Rightarrow> string option list list \<Rightarrow>
    (string, 'v) umap \<Rightarrow> (string, 'v) umap result" where
  "load_rows of_row key [] m = Inr m"
| "load_rows of_row key (row # rows) m =
     rbind (of_row row) (\<lambda>v. load_rows of_row key rows (um_insert (key v) v m))"

lemma load_rows_map:
  assumes "\<forall>v \<in> set vs. of_row (row_of v) = Inr (again v) \<and> key (again v) = key v"
    and "distinct (map key vs)" and "\<forall>v \<in> set vs. map_of m (key v) = None"
  shows "load_rows of_row key (map row_of vs) m = Inr (rev (map (\<lambda>v. (key v, again v)) vs) @ m)"
  using assms
proof (induction vs arbitrary: m)
  case (Cons a vs)
  have "\<forall>v \<in> set vs. map_of ((key a, again a) # m) (key v) = None"
  proof
    fix v assume v: "v \<in> set vs"
    then have "key v \<noteq> key a" using Cons.prems(2) by (auto simp: image_iff)
    then show "map_of ((key a, again a) # m) (key v) = None" using Cons.prems(3) v by simp
  qed
  with Cons show ?case by (simp add: um_insert_fresh)
qed simp

lemma map_of_reloaded:
  assumes "distinct (map key vs)"
  shows "map_of (rev (map (\<lambda>v. (key v, again v)) vs)) k = Some w \<longleftrightarrow> (\<exists>v \<in> set vs. key v = k \<and> w = again v)"
proof -
  have "distinct (map fst (rev (map (\<lambda>v. (key v, again v)) vs)))"
    using assms by (simp add: rev_map [symmetric] comp_def)
  then have "map_of (rev (map (\<lambda>v. (key v, again v)) vs)) k = Some w \<longleftrightarrow>
      (k, w) \<in> set (rev (map (\<lambda>v. (key v, again v)) vs))"
    by (intro iffI) (auto dest: map_of_SomeD intro: map_of_is_SomeI)
  then show ?thesis by auto
qed

section \<open>Statements without zero bytes\<close>

lemma join_chars: "c \<in> set (join sep xs) \<Longrightarrow> c \<in> set sep \<or> (\<exists>x \<in> set xs. c \<in> set x)"
  by (induction sep xs rule: join.induct) auto

lemma digits_no_zero: "CHR 0x00 \<notin> set (show_nat n)" "CHR 0x00 \<notin> set (show_int i)"
proof -
  have nat: "CHR 0x00 \<notin> set (show_nat k)" for k
    using digits_show_nat [of k] by (auto simp: digit_def)
  then show "CHR 0x00 \<notin> set (show_nat n)" "CHR 0x00 \<notin> set (show_int i)"
    by (simp_all add: show_int_def)
qed

lemma value_no_zero: "plain_value v \<Longrightarrow> CHR 0x00 \<notin> set (value_sql v)"
  by (cases v) (auto simp: plain_value_def plain_def quote_def digits_no_zero)

lemma known_no_zero:
  "t \<in> fst ` set known_tables \<Longrightarrow> CHR 0x00 \<notin> set t"
  "(t, cols) \<in> set known_tables \<Longrightarrow> c \<in> fst ` set cols \<Longrightarrow> CHR 0x00 \<notin> set c"
  "(t, cols) \<in> set known_tables \<Longrightarrow> CHR 0x00 \<notin> set (render (CreateTable t cols))"
  "(t, cols) \<in> set known_tables \<Longrightarrow> CHR 0x00 \<notin> set (render (SelectFrom t (map fst cols)))"
  by (auto simp: known_tables_def column_sql_def indent_def)

lemma render_no_zero:
  assumes "plain_stmt st"
  shows "CHR 0x00 \<notin> set (render st)"
proof (cases st)
  case (InsertInto t vs)
  have "CHR 0x00 \<notin> set (join '', '' (map value_sql vs))"
    using assms InsertInto value_no_zero by (auto dest!: join_chars)
  then show ?thesis using assms InsertInto known_no_zero(1) [of t] by auto
next
  case (DeleteFrom t cs)
  have "CHR 0x00 \<notin> set (join '' and '' (map (\<lambda>(c, x). c @ ''='' @ quote x) cs))"
  proof
    assume "CHR 0x00 \<in> set (join '' and '' (map (\<lambda>(c, x). c @ ''='' @ quote x) cs))"
    then obtain c x where cx: "(c, x) \<in> set cs" "CHR 0x00 \<in> set (c @ ''='' @ quote x)"
      by (auto dest!: join_chars)
    have "\<forall>(c, x) \<in> set cs. (\<exists>cols. (t, cols) \<in> set known_tables \<and> c \<in> fst ` set cols) \<and> plain x"
      using assms unfolding DeleteFrom plain_stmt.simps by (elim conjE)
    from bspec [OF this cx(1)] show False
      using cx(2) known_no_zero(2) [of t _ c] by (auto simp: plain_def quote_def)
  qed
  then show ?thesis using assms DeleteFrom known_no_zero(1) [of t] by auto
next
  case (CreateTable t cols)
  then show ?thesis using assms known_no_zero(3) by simp
next
  case (DropTable t)
  then show ?thesis using assms known_no_zero(1) [of t] by auto
next
  case (SelectFrom t cols)
  then obtain cs where "(t, cs) \<in> set known_tables" "cols = [] \<or> cols = map fst cs" using assms by auto
  then show ?thesis using SelectFrom known_no_zero(1) [of t] known_no_zero(4) by force
qed

lemma exec_plain:
  assumes "sqlite_ok sq tabs" and "plain_stmt st"
  obtains ok rows db' where "sql_exec sq (render st) db = (ok, rows, db')"
    and "sql_sem st (tabs db) = (ok, rows, tabs db')"
proof -
  have "c_str (render st) = render st" by (rule c_str_id [OF render_no_zero [OF assms(2)]])
  then have "sql_exec sq (render st) db = sq_exec sq (render st) db" by (simp only: sql_exec_def)
  then show ?thesis using assms that unfolding sqlite_ok_def by metis
qed

section \<open>A keyed table\<close>

text \<open>A statement formatted into a buffer and run; its rows are not looked at.\<close>

definition exec_formatted :: "'db sqlite \<Rightarrow> string \<Rightarrow> 'db \<Rightarrow> (bool \<times> 'db) result" where
  "exec_formatted sq sql db =
     rbind (sprintf_buf sql) (\<lambda>q. case sql_exec sq q db of (ok, rows, db') \<Rightarrow> Inr (ok, db'))"

definition table_of :: "(string \<times> string \<times> bool) list \<Rightarrow> ('v \<Rightarrow> sql_value list) \<Rightarrow> 'v list \<Rightarrow> sql_table" where
  "table_of cols vals vs = \<lparr>st_cols = map fst cols, st_keyed = True, st_rows = map (map value_text \<circ> vals) vs\<rparr>"

text \<open>The table holds \<open>vs\<close>, and the other tables are those of \<open>T\<close>.\<close>

definition table_holds ::
  "string \<Rightarrow> (string \<times> string \<times> bool) list \<Rightarrow> ('v \<Rightarrow> sql_value list) \<Rightarrow> ('v \<Rightarrow> bool) \<Rightarrow>
     'db sqlite \<Rightarrow> ('db \<Rightarrow> tables) \<Rightarrow> tables \<Rightarrow> 'db \<Rightarrow> 'v list \<Rightarrow> bool" where
  "table_holds tab cols vals ok sq tabs T db vs \<longleftrightarrow> sqlite_ok sq tabs \<and> (\<forall>v \<in> set vs. ok v) \<and>
     tabs db tab = Some (table_of cols vals vs) \<and> (\<forall>t. t \<noteq> tab \<longrightarrow> tabs db t = T t)"

lemma plain_c_str: "plain t \<Longrightarrow> c_str t = t"
  by (simp add: plain_def c_str_id)

lemma open_and_create:
  assumes ok: "sqlite_ok sq tabs" and known: "(tab, cols) \<in> set known_tables"
  obtains db1 db2 where "open_db sq dbfile s db = Inr (snd (create_dir s (parent_dir dbfile)), db1)"
    and "exec_or_abort sq (render (CreateTable tab cols)) db1 = Inr db2"
    and "sql_sem (CreateTable tab cols) (tabs db) = (True, [], tabs db2)"
proof -
  obtain db1 where db1: "sql_open sq dbfile db = (True, db1)" "tabs db1 = tabs db"
    using ok unfolding sqlite_ok_def sql_open_def by metis
  obtain b rows db2 where x: "sql_exec sq (render (CreateTable tab cols)) db1 = (b, rows, db2)"
    "sql_sem (CreateTable tab cols) (tabs db1) = (b, rows, tabs db2)"
    using exec_plain [OF ok, of "CreateTable tab cols" db1] known by auto
  have "b" using x(2) by simp
  then show ?thesis
    using x db1 by (intro that [of db1 db2]) (simp_all add: open_db_def exec_or_abort_def case_prod_beta del: render.simps)
qed

locale keyed_table =
  fixes tab :: string
    and cols :: "(string \<times> string \<times> bool) list"
    and key :: "'v \<Rightarrow> string"
    and vals :: "'v \<Rightarrow> sql_value list"
    and ok :: "'v \<Rightarrow> bool"
  assumes known: "(tab, cols) \<in> set known_tables"
    and key_column: "\<exists>rest. cols = (''name'', ''varchar(32)'', True) # rest"
    and key_value: "\<exists>rest. vals v = Txt (key v) # rest"
    and width: "length (vals v) = length cols"
    and plain_vals: "ok v \<Longrightarrow> \<forall>x \<in> set (vals v). plain_value x"
    and fits_insert: "ok v \<Longrightarrow> length (render (InsertInto tab (vals v))) < 4096"
    and fits_delete: "ok v \<Longrightarrow> length (render (DeleteFrom tab [(''name'', key v)])) < 4096"
begin

lemma name_known: "tab \<in> fst ` set known_tables"
  using known by force

lemma plain_key: "ok v \<Longrightarrow> plain (key v)"
  using plain_vals [of v] key_value [of v] by (auto simp: plain_value_def)

lemma exec_insert:
  assumes st: "table_holds tab cols vals ok sq tabs T db vs" and v: "ok v" and new: "key v \<notin> key ` set vs"
  shows "\<exists>db'. exec_formatted sq (render (InsertInto tab (vals v))) db = Inr (True, db') \<and>
    table_holds tab cols vals ok sq tabs T db' (vs @ [v])"
proof -
  let ?st = "InsertInto tab (vals v)"
  have sq: "sqlite_ok sq tabs" using st by (simp add: table_holds_def)
  have "plain_stmt ?st" using name_known plain_vals [OF v] key_value [of v] by auto
  then obtain b rows db' where x: "sql_exec sq (render ?st) db = (b, rows, db')"
    "sql_sem ?st (tabs db) = (b, rows, tabs db')"
    by (rule exec_plain [OF sq])
  have heads: "hd (map value_text (vals w)) = key w" for w using key_value [of w] by auto
  have "key v \<notin> hd ` set (map (map value_text \<circ> vals) vs)"
    using new heads by (auto simp: image_image)
  then have "sql_sem ?st (tabs db) = (True, [], (tabs db)(tab \<mapsto> table_of cols vals (vs @ [v])))"
    using st by (simp add: table_holds_def table_of_def Let_def heads width)
  then have "b" "tabs db' = (tabs db)(tab \<mapsto> table_of cols vals (vs @ [v]))"
    unfolding x(2) by (simp_all del: fun_upd_apply)
  then show ?thesis
    using st v fits_insert [OF v] x(1)
    by (simp add: table_holds_def exec_formatted_def sprintf_buf_def del: render.simps)
qed

lemma exec_delete:
  assumes st: "table_holds tab cols vals ok sq tabs T db vs" and v: "v \<in> set vs"
  shows "\<exists>b db'. exec_formatted sq (render (DeleteFrom tab [(''name'', key v)])) db = Inr (b, db') \<and>
    table_holds tab cols vals ok sq tabs T db' (filter (\<lambda>w. key w \<noteq> key v) vs)"
proof -
  let ?st = "DeleteFrom tab [(''name'', key v)]"
  have sq: "sqlite_ok sq tabs" and okv: "ok v" using st v by (simp_all add: table_holds_def)
  have "plain_stmt ?st"
    using name_known plain_key [OF okv] known key_column by (auto intro!: exI [of _ cols])
  then obtain b rows db' where x: "sql_exec sq (render ?st) db = (b, rows, db')"
    "sql_sem ?st (tabs db) = (b, rows, tabs db')"
    by (rule exec_plain [OF sq])
  have col: "column (map fst cols) (map value_text (vals w)) ''name'' = Some (key w)" for w
    using key_column key_value [of w] by (auto simp: column_def)
  have "sql_sem ?st (tabs db) = (True, [], (tabs db)(tab \<mapsto> table_of cols vals (filter (\<lambda>w. key w \<noteq> key v) vs)))"
    using st by (simp add: table_holds_def table_of_def col filter_map comp_def)
  then have "tabs db' = (tabs db)(tab \<mapsto> table_of cols vals (filter (\<lambda>w. key w \<noteq> key v) vs))"
    unfolding x(2) by (simp del: fun_upd_apply)
  then show ?thesis
    using st fits_delete [OF okv] x(1)
    by (simp add: table_holds_def exec_formatted_def sprintf_buf_def del: render.simps)
qed

lemma exec_select:
  assumes st: "table_holds tab cols vals ok sq tabs T db vs" and cs: "cs = [] \<or> cs = map fst cols"
    and dist: "distinct (map fst cols)"
  obtains db' where "sql_exec sq (render (SelectFrom tab cs)) db =
      (True, map (\<lambda>v. map (Some \<circ> value_text) (vals v)) vs, db')"
    and "tabs db' = tabs db"
proof -
  have sq: "sqlite_ok sq tabs" using st by (simp add: table_holds_def)
  have "plain_stmt (SelectFrom tab cs)" using known cs by auto
  then obtain b rows db' where x: "sql_exec sq (render (SelectFrom tab cs)) db = (b, rows, db')"
    "sql_sem (SelectFrom tab cs) (tabs db) = (b, rows, tabs db')"
    by (rule exec_plain [OF sq])
  have row: "map (column (map fst cols) (map value_text (vals v))) (map fst cols) = map (Some \<circ> value_text) (vals v)" for v
  proof (rule nth_equalityI)
    fix i assume "i < length (map (column (map fst cols) (map value_text (vals v))) (map fst cols))"
    then have i: "i < length cols" by simp
    then have "(fst (cols ! i), value_text (vals v ! i)) \<in> set (zip (map fst cols) (map value_text (vals v)))"
      using width [of v] by (auto simp: in_set_zip intro!: exI [of _ i])
    then show "map (column (map fst cols) (map value_text (vals v))) (map fst cols) ! i = map (Some \<circ> value_text) (vals v) ! i"
      using i width [of v] dist by (simp add: column_def)
  qed (simp add: width)
  have "sql_sem (SelectFrom tab cs) (tabs db) = (True, map (\<lambda>v. map (Some \<circ> value_text) (vals v)) vs, tabs db)"
    using st cs row by (auto simp: table_holds_def table_of_def)
  then show ?thesis using x by (intro that [of db']) simp_all
qed

lemma create_new:
  assumes "sqlite_ok sq tabs" and "tabs db tab = None" and "\<forall>t. t \<noteq> tab \<longrightarrow> tabs db t = T t"
    and "sql_sem (CreateTable tab cols) (tabs db) = (True, [], tabs db2)"
  shows "table_holds tab cols vals ok sq tabs T db2 []"
proof -
  have "tabs db2 = (tabs db)(tab \<mapsto> table_of cols vals [])"
    using assms(2,4) key_column by (auto simp: table_of_def split: list.splits)
  then show ?thesis using assms(1,3) by (simp add: table_holds_def)
qed

lemma create_again:
  assumes "table_holds tab cols vals ok sq tabs T db vs" and "sql_sem (CreateTable tab cols) (tabs db) = (True, [], tabs db2)"
  shows "table_holds tab cols vals ok sq tabs T db2 vs"
  using assms by (simp add: table_holds_def)

end

text \<open>What a manager finds in its table when it starts again.\<close>

lemma tracks_restart:
  assumes t: "tracks key durable again stored m db D"
    and key: "\<And>v. key (again v) = key v"
  shows "\<exists>vs. stored db vs \<and> distinct (map key vs) \<and> (\<forall>db'. stored db' vs \<longrightarrow>
    tracks key durable again stored (rev (map (\<lambda>v. (key v, again v)) vs)) db' (spec_reload durable D))"
proof -
  obtain vs where vs: "stored db vs" "distinct (map key vs)"
    "\<forall>v. v \<in> set vs \<longleftrightarrow> durable v \<and> (\<exists>b. D (key v) = Some (v, b))"
    using tracksD(4) [OF t] by (auto simp: holds_rows_def)
  let ?m = "rev (map (\<lambda>v. (key v, again v)) vs)"
  have keys: "D k = Some (v, b) \<Longrightarrow> key v = k" for k v b by (rule tracksD(3) [OF t])
  have find: "map_of ?m k = map_option (current again) (spec_reload durable D k)" for k
  proof -
    have some: "map_of ?m k = Some w \<longleftrightarrow> (\<exists>v b. D k = Some (v, b) \<and> durable v \<and> w = again v)" for w
      unfolding map_of_reloaded [OF vs(2)] using vs(3) keys by blast
    show ?thesis
    proof (cases "\<exists>v b. D k = Some (v, b) \<and> durable v")
      case True
      then obtain v b where v: "D k = Some (v, b)" "durable v" by blast
      then have "map_of ?m k = Some (again v)" unfolding some by blast
      then show ?thesis using v by (simp add: spec_reload_def current_def)
    next
      case False
      then have "map_of ?m k = None" using some not_None_eq by metis
      then show ?thesis using False by (auto simp: spec_reload_def split: option.split)
    qed
  qed
  have wf: "um_wf ?m" using vs(2) by (simp add: um_wf_def rev_map [symmetric] comp_def)
  have rows: "holds_rows key durable stored db' (spec_reload durable D)" if "stored db' vs" for db'
    unfolding holds_rows_def
  proof (intro exI [of _ vs] conjI that vs(2) allI)
    fix v
    show "v \<in> set vs \<longleftrightarrow> durable v \<and> (\<exists>b. spec_reload durable D (key v) = Some (v, b))"
      using vs(3) [rule_format, of v] by (auto simp: spec_reload_def split: option.splits if_splits)
  qed
  have "tracks key durable again stored ?m db' (spec_reload durable D)" if "stored db' vs" for db'
    using wf find rows [OF that] keys
    by (auto simp: tracks_def spec_reload_def split: option.splits if_splits)
  then show ?thesis using vs(1,2) by blast
qed

end
