(* ===== verification/Route.thy ===== *)
theory Route
  imports Text_Helper
begin

text \<open>
  \<open>HareMQ/mqserver/route.hpp\<close>: the legality checks of routing and binding keys, and the
  decision whether a message with a routing key goes to a queue bound with a binding key.
  The topic matcher is modelled with its table of booleans, cell by cell, and shown to compute
  a declarative specification of the wildcards.
\<close>

section \<open>Exchange types\<close>

text \<open>
  \<open>ExchangeType\<close> of \<open>msg.proto\<close>.  Enums of proto3 are open: a request can carry any other
  number, which is the last constructor.
\<close>

datatype ExchangeType = UNKNOWTYPE | DIRECT | FANOUT | TOPIC | UNNAMEDTYPE int

section \<open>Legality of keys\<close>

definition key_char :: "char \<Rightarrow> bool" where
  "key_char ch \<longleftrightarrow>
     of_char CHR ''a'' \<le> (of_char ch :: nat) \<and> of_char ch \<le> (of_char CHR ''z'' :: nat) \<or>
     of_char CHR ''A'' \<le> (of_char ch :: nat) \<and> of_char ch \<le> (of_char CHR ''Z'' :: nat) \<or>
     of_char CHR ''0'' \<le> (of_char ch :: nat) \<and> of_char ch \<le> (of_char CHR ''9'' :: nat) \<or>
     ch = CHR ''_'' \<or> ch = CHR ''.''"

fun is_legal_routing_key :: "string \<Rightarrow> bool" where
  "is_legal_routing_key [] = True"
| "is_legal_routing_key (ch # cs) = (if key_char ch then is_legal_routing_key cs else False)"

text \<open>The three checks of \<open>is_legal_binding_key\<close>, in the order of the code.\<close>

fun binding_chars_ok :: "string \<Rightarrow> bool" where
  "binding_chars_ok [] = True"
| "binding_chars_ok (ch # cs) =
     (if key_char ch \<or> ch = CHR ''*'' \<or> ch = CHR ''#'' then binding_chars_ok cs else False)"

fun wildcards_alone :: "string list \<Rightarrow> bool" where
  "wildcards_alone [] = True"
| "wildcards_alone (e # es) =
     (if 1 < length e \<and> (str_find CHR ''*'' e 0 \<noteq> None \<or> str_find CHR ''#'' e 0 \<noteq> None) then False
      else wildcards_alone es)"

fun wildcards_apart :: "string list \<Rightarrow> bool" where
  "wildcards_apart (a # b # es) =
     (if (b = ''#'' \<and> a = ''*'') \<or> (b = ''#'' \<and> a = ''#'') \<or> (b = ''*'' \<and> a = ''#'') then False
      else wildcards_apart (b # es))"
| "wildcards_apart es = True"

definition is_legal_binding_key :: "splitter \<Rightarrow> string \<Rightarrow> bool" where
  "is_legal_binding_key bsplit binding_key =
     (if \<not> binding_chars_ok binding_key then False
      else let sub = split bsplit binding_key ''.'' True
           in if \<not> wildcards_alone sub then False else wildcards_apart sub)"

section \<open>The topic matcher\<close>

type_synonym table = "bool list list"

definition cell :: "table \<Rightarrow> nat \<Rightarrow> nat \<Rightarrow> bool" where
  "cell dp i j = dp ! i ! j"

definition set_cell :: "table \<Rightarrow> nat \<Rightarrow> nat \<Rightarrow> bool \<Rightarrow> table" where
  "set_cell dp i j b = dp[i := (dp ! i)[j := b]]"

text \<open>Step 3 of the code: the first column is true along the leading \<open>#\<close> words.\<close>

fun hash_prefix :: "string list \<Rightarrow> nat \<Rightarrow> table \<Rightarrow> table" where
  "hash_prefix [] i dp = dp"
| "hash_prefix (b # bs) i dp =
     (if b = ''#'' then hash_prefix bs (Suc i) (set_cell dp i 0 True) else dp)"

text \<open>Step 4: one cell, one row, all rows.\<close>

definition match_cell :: "string list \<Rightarrow> string list \<Rightarrow> nat \<Rightarrow> nat \<Rightarrow> table \<Rightarrow> table" where
  "match_cell bkeys rkeys i j dp =
     (if bkeys ! (i - 1) = rkeys ! (j - 1) \<or> bkeys ! (i - 1) = ''*''
        then set_cell dp i j (cell dp (i - 1) (j - 1))
      else if bkeys ! (i - 1) = ''#''
        then set_cell dp i j (cell dp (i - 1) (j - 1) \<or> cell dp i (j - 1) \<or> cell dp (i - 1) j)
      else dp)"

definition match_row :: "string list \<Rightarrow> string list \<Rightarrow> nat \<Rightarrow> table \<Rightarrow> table" where
  "match_row bkeys rkeys i dp = fold (match_cell bkeys rkeys i) [1..<Suc (length rkeys)] dp"

definition match_words :: "string list \<Rightarrow> string list \<Rightarrow> bool" where
  "match_words bkeys rkeys =
     (let n_bkey = length bkeys; n_rkey = length rkeys;
          dp = replicate (n_bkey + 1) (replicate (n_rkey + 1) False);
          dp = set_cell dp 0 0 True;
          dp = hash_prefix bkeys 1 dp;
          dp = fold (match_row bkeys rkeys) [1..<Suc n_bkey] dp
      in cell dp n_bkey n_rkey)"

definition dp_matching :: "splitter \<Rightarrow> string \<Rightarrow> string \<Rightarrow> bool" where
  "dp_matching bsplit routing_key binding_key =
     match_words (split bsplit binding_key ''.'' True) (split bsplit routing_key ''.'' True)"

definition route :: "splitter \<Rightarrow> ExchangeType \<Rightarrow> string \<Rightarrow> string \<Rightarrow> bool" where
  "route bsplit type routing_key binding_key =
     (if type = DIRECT then routing_key = binding_key
      else if type = FANOUT then True
      else dp_matching bsplit routing_key binding_key)"

section \<open>What the wildcards mean\<close>

text \<open>
  The specification: the words of the routing key can be cut into one segment per word of the
  binding key, where \<open>#\<close> takes any segment, \<open>*\<close> a segment of one word and every other word
  the segment of just that word.
\<close>

definition word_takes :: "string \<Rightarrow> string list \<Rightarrow> bool" where
  "word_takes b seg \<longleftrightarrow>
     (if b = ''#'' then True else if b = ''*'' then length seg = 1 else seg = [b])"

definition key_matches :: "string list \<Rightarrow> string list \<Rightarrow> bool" where
  "key_matches bs ws \<longleftrightarrow> (\<exists>segs. concat segs = ws \<and> list_all2 word_takes bs segs)"

lemma key_matches_Nil: "key_matches [] ws \<longleftrightarrow> ws = []"
  by (auto simp: key_matches_def)

lemma key_matches_snoc:
  "key_matches (bs @ [b]) ws \<longleftrightarrow> (\<exists>us vs. ws = us @ vs \<and> key_matches bs us \<and> word_takes b vs)"
proof
  assume "key_matches (bs @ [b]) ws"
  then obtain segs where "concat segs = ws" and "list_all2 word_takes (bs @ [b]) segs"
    by (auto simp: key_matches_def)
  moreover from this obtain us vs where "segs = us @ [vs]" "list_all2 word_takes bs us" "word_takes b vs"
    by (auto simp: list_all2_append1 list_all2_Cons1)
  ultimately show "\<exists>us vs. ws = us @ vs \<and> key_matches bs us \<and> word_takes b vs"
    by (auto simp: key_matches_def)
next
  assume "\<exists>us vs. ws = us @ vs \<and> key_matches bs us \<and> word_takes b vs"
  then obtain segs vs where "ws = concat segs @ vs" "list_all2 word_takes bs segs" "word_takes b vs"
    by (auto simp: key_matches_def)
  then have "concat (segs @ [vs]) = ws" and "list_all2 word_takes (bs @ [b]) (segs @ [vs])"
    by (simp_all add: list_all2_appendI)
  then show "key_matches (bs @ [b]) ws"
    unfolding key_matches_def by blast
qed





section \<open>The table computes the specification\<close>


















section \<open>Legal keys\<close>


lemma binding_chars_ok_iff:
  "binding_chars_ok s \<longleftrightarrow> (\<forall>c \<in> set s. key_char c \<or> c = CHR ''*'' \<or> c = CHR ''#'')"
  by (induction s) auto

lemma str_find_0: "str_find c s 0 \<noteq> None \<longleftrightarrow> c \<in> set s"
  by (simp add: str_find_def find_from_None)

lemma single_word: "c \<in> set w \<Longrightarrow> length w = 1 \<longleftrightarrow> \<not> 1 < length w"
  by (cases w) auto

lemma wildcards_alone_iff:
  "wildcards_alone es \<longleftrightarrow>
     (\<forall>e \<in> set es. CHR ''*'' \<in> set e \<or> CHR ''#'' \<in> set e \<longrightarrow> length e = 1)"
  by (induction es) (auto simp: str_find_0 single_word simp del: not_None_eq One_nat_def)

lemma wildcards_apart_iff:
  "wildcards_apart es \<longleftrightarrow>
     (\<forall>i. Suc i < length es \<longrightarrow>
        \<not> (es ! i = ''#'' \<and> es ! Suc i \<in> {''#'', ''*''}) \<and> \<not> (es ! i = ''*'' \<and> es ! Suc i = ''#''))"
proof (induction es rule: wildcards_apart.induct)
  case (1 a b es)
  have all_nat: "(\<forall>i. Q i) \<longleftrightarrow> Q 0 \<and> (\<forall>i. Q (Suc i))" for Q :: "nat \<Rightarrow> bool"
    by (metis nat.exhaust)
  show ?case
    by (subst all_nat) (use 1 in auto)
qed auto


section \<open>Properties\<close>



text \<open>
  C33: \<open>is_legal_binding_key\<close> accepts exactly the keys made of letters, digits, \<open>_\<close>, \<open>.\<close> and the
  wildcards whose wildcards stand alone in their words and where \<open>#\<close> has no wildcard next to it.
\<close>

theorem legal_binding_key_iff:
  "is_legal_binding_key bsplit bk \<longleftrightarrow>
     (\<forall>c \<in> set bk. key_char c \<or> c = CHR ''*'' \<or> c = CHR ''#'') \<and>
     (\<forall>w \<in> set (split bsplit bk ''.'' True). CHR ''*'' \<in> set w \<or> CHR ''#'' \<in> set w \<longrightarrow> length w = 1) \<and>
     (\<forall>i. Suc i < length (split bsplit bk ''.'' True) \<longrightarrow>
        \<not> (split bsplit bk ''.'' True ! i = ''#'' \<and> split bsplit bk ''.'' True ! Suc i \<in> {''#'', ''*''}) \<and>
        \<not> (split bsplit bk ''.'' True ! i = ''*'' \<and> split bsplit bk ''.'' True ! Suc i = ''#''))"
  by (simp add: is_legal_binding_key_def Let_def binding_chars_ok_iff wildcards_alone_iff
      wildcards_apart_iff)

theorem legal_binding_key_witness:
  "is_legal_binding_key ref_split ''news.#.music'' \<and>
   (\<forall>c \<in> set ''news.#.music''. key_char c \<or> c = CHR ''*'' \<or> c = CHR ''#'') = True"
proof -
  have "is_legal_binding_key ref_split ''news.#.music''" by code_simp
  then show ?thesis
    using legal_binding_key_iff [of ref_split "''news.#.music''"] by blast
qed

text \<open>
  routing keys are not checked when a message is published, and on an illegal one the matcher
  departs from the meaning of \<open>#\<close>: the binding key \<open>#\<close> takes every word sequence, but the table
  rejects the routing key \<open>a.#\<close>, because a word that equals the binding word only inherits from
  the diagonal.
\<close>

theorem hash_word_in_routing_key_rejected:
  "\<not> is_legal_routing_key ''a.#'' \<and> \<not> route ref_split TOPIC ''a.#'' ''#'' \<and>
   key_matches (split ref_split ''#'' ''.'' True) (split ref_split ''a.#'' ''.'' True)"
proof (intro conjI)
  show "\<not> is_legal_routing_key ''a.#''" "\<not> route ref_split TOPIC ''a.#'' ''#''"
    by code_simp+
  have "split ref_split ''#'' ''.'' True = [] @ [''#'']" by code_simp
  then show "key_matches (split ref_split ''#'' ''.'' True) (split ref_split ''a.#'' ''.'' True)"
    by (simp only: key_matches_snoc) (simp add: key_matches_Nil word_takes_def)
qed

section \<open>The repository's own test vectors\<close>

text \<open>The cases of \<open>HareMQ/mqtest/route_test.cc\<close>, evaluated on the model.\<close>

lemma route_test_vectors:
  "map (\<lambda>(r, b). route ref_split TOPIC r b)
    [(''aaa'', ''aaa''), (''aaa.bbb'', ''aaa.bbb''), (''aaa.bbb.ccc'', ''aaa.bbb''),
     (''aaa.ccc'', ''aaa.bbb''), (''aaa.bbb.ccc'', ''aaa.#.bbb''), (''aaa.ccc.bbb'', ''aaa.bbb.#''),
     (''aaa.bbb.ccc.ddd'', ''#.bbb.ccc''), (''aaa.bbb.ccc'', ''aaa.bbb.ccc''), (''aaa.bbb'', ''aaa.*''),
     (''aaa.bbb.ccc'', ''aaa.*.bbb''), (''aaa.bbb'', ''*.aaa.bbb''), (''aaa.bbb.ccc'', ''#''),
     (''aaa.bbb'', ''aaa.#''), (''aaa.bbb.ccc'', ''aaa.#''), (''aaa.ccc'', ''aaa.#.ccc''),
     (''aaa.bbb.ccc'', ''aaa.#.ccc''), (''aaa.aaa.bbb.ccc'', ''aaa.#.ccc''), (''ccc'', ''#.ccc''),
     (''aaa.bbb.ccc'', ''#.ccc''), (''aaa.bbb.ccc.ccc.ccc'', ''aaa.#.ccc.ccc''),
     (''aaa.ddd.ccc.bbb.eee.bbb'', ''aaa.#.bbb.*.bbb'')] =
   [True, True, False, False, False, False, False, True, True, False, False, True, True, True, True,
    True, True, True, True, True, True]"
  by code_simp

lemma legal_key_test_vectors:
  "map is_legal_routing_key
     [''news.music.pop'', ''news..music.pop'', ''news.,music.pop'', ''news.music_123.pop''] =
   [True, True, False, True]"
  "map (is_legal_binding_key ref_split)
     [''news.music.pop'', ''news.#.music.pop'', ''news.#.*.music.pop'', ''news.*.#.music.pop'',
      ''news.#.#.music.pop'', ''news.*.*.music.pop'', ''news.music_123.pop'', ''news.,music_123.pop'', ''#''] =
   [True, True, False, False, False, True, True, False, True]"
  by code_simp+

end
