(* ===== verification/Mini_Sqlite.thy ===== *)
theory Mini_Sqlite
  imports Sql
begin

text \<open>
  A small interpreter of the server's SQL text, to show that \<open>sqlite_ok\<close> can hold: it reads a
  statement back from its text and runs \<open>sql_sem\<close>.
\<close>

section \<open>Reading a statement\<close>

fun strip_prefix :: "string \<Rightarrow> string \<Rightarrow> string option" where
  "strip_prefix [] s = Some s"
| "strip_prefix (p # ps) [] = None"
| "strip_prefix (p # ps) (c # cs) = (if p = c then strip_prefix ps cs else None)"

lemma strip_prefix_append [simp]: "strip_prefix p (p @ s) = Some s"
  by (induction p) auto

lemma strip_prefix_length: "strip_prefix p s = Some r \<Longrightarrow> length r \<le> length s"
  by (induction p s rule: strip_prefix.induct) (auto split: if_splits)

definition unquote :: "string \<Rightarrow> (string \<times> string) option" where
  "unquote s =
     (case strip_prefix [CHR 0x27] s of
        None \<Rightarrow> None
      | Some r \<Rightarrow>
          (case strip_prefix [CHR 0x27] (dropWhile (\<lambda>c. c \<noteq> CHR 0x27) r) of
             None \<Rightarrow> None
           | Some r' \<Rightarrow> Some (takeWhile (\<lambda>c. c \<noteq> CHR 0x27) r, r')))"

lemma unquote_quote:
  assumes "plain t"
  shows "unquote (quote t @ s) = Some (t, s)"
proof -
  have "dropWhile (\<lambda>c. c \<noteq> CHR 0x27) (t @ CHR 0x27 # s) = CHR 0x27 # s"
    "takeWhile (\<lambda>c. c \<noteq> CHR 0x27) (t @ CHR 0x27 # s) = t"
    using assms by (auto simp: plain_def dropWhile_append takeWhile_append dropWhile_eq_Nil_conv takeWhile_eq_all_conv)
  then show ?thesis by (simp add: unquote_def quote_def)
qed

lemma unquote_length: "unquote s = Some (t, r) \<Longrightarrow> length r < length s"
proof -
  assume "unquote s = Some (t, r)"
  then obtain r1 where r1: "strip_prefix [CHR 0x27] s = Some r1"
    "strip_prefix [CHR 0x27] (dropWhile (\<lambda>c. c \<noteq> CHR 0x27) r1) = Some r"
    by (auto simp: unquote_def split: option.splits)
  have "length r1 < length s" using r1(1) by (cases s) (auto split: if_splits)
  moreover have "length r \<le> length r1"
    using strip_prefix_length [OF r1(2)] length_dropWhile_le [of "\<lambda>c. c \<noteq> CHR 0x27" r1] by (rule le_trans)
  ultimately show ?thesis by simp
qed

definition read_int :: "string \<Rightarrow> int \<times> string" where
  "read_int s =
     (let neg = (s \<noteq> [] \<and> hd s = CHR ''-''); s1 = (if neg then tl s else s);
          n = int (read_nat 0 (takeWhile digit s1))
      in (if neg then - n else n, dropWhile digit s1))"

lemma read_show_int:
  assumes "s = [] \<or> \<not> digit (hd s)"
  shows "read_int (show_int n @ s) = (n, s)"
proof -
  have take: "takeWhile digit (show_nat m @ s) = show_nat m" and drop: "dropWhile digit (show_nat m @ s) = s" for m
    using digits_show_nat [of m] assms
    by (cases s; auto simp: takeWhile_append dropWhile_append takeWhile_eq_all_conv dropWhile_eq_Nil_conv)+
  have "hd (show_nat m @ s) \<noteq> CHR ''-''" for m
    using digits_show_nat [of m] show_nat_nonempty [of m] not_sign by (cases "show_nat m") auto
  then show ?thesis
    by (auto simp: read_int_def show_int_def take drop read_show_nat Let_def show_nat_nonempty)
qed

lemma read_int_length: "read_int s = (n, r) \<Longrightarrow> length r \<le> length s"
  using length_dropWhile_le [of digit "tl s"] length_dropWhile_le [of digit s]
  by (auto simp: read_int_def Let_def split: if_splits)

definition read_value :: "string \<Rightarrow> (sql_value \<times> string) option" where
  "read_value s =
     (if s \<noteq> [] \<and> hd s = CHR 0x27 then map_option (\<lambda>(t, r). (Txt t, r)) (unquote s)
      else case read_int s of (n, r) \<Rightarrow> Some (Num n, r))"

lemma show_int_hd: "hd (show_int n @ s) \<noteq> CHR 0x27"
proof -
  have "hd (show_nat m @ s) \<noteq> CHR 0x27" for m
    using digits_show_nat [of m] show_nat_nonempty [of m] by (cases "show_nat m") (auto simp: digit_def)
  then show ?thesis by (auto simp: show_int_def)
qed

lemma read_value_sql:
  assumes "plain_value v" and "s = [] \<or> \<not> digit (hd s)"
  shows "read_value (value_sql v @ s) = Some (v, s)"
proof (cases v)
  case (Txt t)
  then have "read_value (value_sql v @ s) = map_option (\<lambda>(t, r). (Txt t, r)) (unquote (quote t @ s))"
    by (simp add: read_value_def quote_def)
  then show ?thesis using assms(1) Txt by (simp add: unquote_quote plain_value_def)
next
  case (Num n)
  then show ?thesis
    using read_show_int [OF assms(2)] show_int_hd [of n s] by (simp add: read_value_def)
qed

lemma read_value_length: "read_value s = Some (v, r) \<Longrightarrow> length r \<le> length s"
  by (auto simp: read_value_def split: if_splits prod.splits dest: read_int_length)
    (use unquote_length in fastforce)

text \<open>A list of items with a separator, up to the end of the statement.\<close>

function read_list :: "(string \<Rightarrow> ('a \<times> string) option) \<Rightarrow> string \<Rightarrow> string \<Rightarrow> string \<Rightarrow> 'a list option" where
  "read_list item sep stop s =
     (case item s of
        None \<Rightarrow> None
      | Some (x, r) \<Rightarrow>
          if r = stop then Some [x]
          else case strip_prefix sep r of
              None \<Rightarrow> None
            | Some r' \<Rightarrow> if length r' < length s then map_option ((#) x) (read_list item sep stop r') else None)"
  by pat_completeness auto
termination by (relation "measure (\<lambda>(item, sep, stop, s). length s)") auto

declare read_list.simps [simp del]

lemma read_list_join:
  assumes "xs \<noteq> []" and "\<And>x. x \<in> set xs \<Longrightarrow> item (text x @ stop) = Some (x, stop)"
    and "\<And>x s. x \<in> set xs \<Longrightarrow> item (text x @ sep @ s) = Some (x, sep @ s)"
    and "sep \<noteq> []" and "\<And>s. sep @ s \<noteq> stop"
  shows "read_list item sep stop (join sep (map text xs) @ stop) = Some xs"
  using assms(1-3)
proof (induction xs)
  case (Cons x xs)
  show ?case
  proof (cases xs)
    case Nil
    then show ?thesis using Cons.prems by (simp add: read_list.simps [of _ _ _ "text x @ _"])
  next
    case (Cons y ys)
    have "join sep (map text (x # xs)) = text x @ sep @ join sep (map text xs)" by (simp add: Cons)
    moreover have "read_list item sep stop (join sep (map text xs) @ stop) = Some xs"
      by (rule Cons.IH) (use Cons.prems Cons in auto)
    moreover have "item (text x @ sep @ join sep (map text xs) @ stop) = Some (x, sep @ join sep (map text xs) @ stop)"
      using Cons.prems(3) [of x "join sep (map text xs) @ stop"] by simp
    ultimately show ?thesis
      using assms(4,5) by (simp add: read_list.simps [of _ _ _ "text x @ _"])
  qed
qed simp

definition read_cond :: "string \<Rightarrow> ((string \<times> string) \<times> string) option" where
  "read_cond s =
     (case strip_prefix ''='' (dropWhile (\<lambda>c. c \<noteq> CHR ''='') s) of
        None \<Rightarrow> None
      | Some r \<Rightarrow> map_option (\<lambda>(x, r'). ((takeWhile (\<lambda>c. c \<noteq> CHR ''='') s, x), r')) (unquote r))"

lemma read_cond_text:
  assumes "plain x" and "CHR ''='' \<notin> set c"
  shows "read_cond ((c @ ''='' @ quote x) @ s) = Some ((c, x), s)"
proof -
  have "dropWhile (\<lambda>c. c \<noteq> CHR ''='') (c @ ''='' @ quote x @ s) = ''='' @ quote x @ s"
    "takeWhile (\<lambda>c. c \<noteq> CHR ''='') (c @ ''='' @ quote x @ s) = c"
    using assms(2) by (auto simp: dropWhile_append takeWhile_append dropWhile_eq_Nil_conv takeWhile_eq_all_conv)
  then show ?thesis by (simp add: read_cond_def unquote_quote [OF assms(1)])
qed

definition fixed_statements :: "sql_stmt list" where
  "fixed_statements =
     map (\<lambda>(t, cols). CreateTable t cols) known_tables @ map (\<lambda>(t, cols). DropTable t) known_tables @
     map (\<lambda>(t, cols). SelectFrom t []) known_tables @ map (\<lambda>(t, cols). SelectFrom t (map fst cols)) known_tables"

fun read_changes :: "string list \<Rightarrow> string \<Rightarrow> sql_stmt option" where
  "read_changes [] s = None"
| "read_changes (t # ts) s =
     (case strip_prefix (''insert into '' @ t @ '' values('') s of
        Some r \<Rightarrow> map_option (InsertInto t) (read_list read_value '', '' '');'' r)
      | None \<Rightarrow>
          (case strip_prefix (''delete from '' @ t @ '' where '') s of
             Some r \<Rightarrow> map_option (DeleteFrom t) (read_list read_cond '' and '' '';'' r)
           | None \<Rightarrow> read_changes ts s))"

definition read_sql :: "string \<Rightarrow> sql_stmt option" where
  "read_sql s =
     (case find (\<lambda>st. render st = s) fixed_statements of
        Some st \<Rightarrow> Some st
      | None \<Rightarrow> read_changes (map fst known_tables) s)"

definition mini_sqlite :: "(string \<Rightarrow> sql_table option) sqlite" where
  "mini_sqlite =
     \<lparr>sq_open = (\<lambda>f db. (True, db)),
      sq_exec = (\<lambda>s db. case read_sql s of Some st \<Rightarrow> sql_sem st db | None \<Rightarrow> (False, [], db))\<rparr>"

section \<open>It reads what the server writes\<close>

lemma read_values:
  assumes "vs \<noteq> []" and "\<forall>v \<in> set vs. plain_value v"
  shows "read_list read_value '', '' '');'' (join '', '' (map value_sql vs) @ '');'') = Some vs"
  using assms by (intro read_list_join) (simp_all add: read_value_sql digit_def)

lemma read_conds:
  assumes "cs \<noteq> []" and "\<forall>(c, x) \<in> set cs. plain x \<and> CHR ''='' \<notin> set c"
  shows "read_list read_cond '' and '' '';'' (join '' and '' (map (\<lambda>(c, x). c @ ''='' @ quote x) cs) @ '';'') = Some cs"
  using assms by (intro read_list_join) (auto simp: read_cond_text [simplified])

lemma known_names: "map fst known_tables = [''exchange_table'', ''queue_table'', ''binding_table'']"
  by (simp add: known_tables_def)

lemma fixed_statements_heads:
  "st \<in> set fixed_statements \<Longrightarrow> \<exists>r. render st = CHR ''c'' # r \<or> render st = ''dr'' @ r \<or> render st = CHR ''s'' # r"
  by (auto simp: fixed_statements_def known_tables_def)

lemma not_fixed:
  assumes "\<forall>r. s \<noteq> CHR ''c'' # r \<and> s \<noteq> ''dr'' @ r \<and> s \<noteq> CHR ''s'' # r"
  shows "read_sql s = read_changes (map fst known_tables) s"
proof -
  have "find (\<lambda>st. render st = s) fixed_statements = None"
    using assms fixed_statements_heads by (auto simp: find_None_iff)
  then show ?thesis by (simp add: read_sql_def)
qed

lemma read_fixed:
  assumes "st \<in> set fixed_statements"
  shows "read_sql (render st) = Some st"
proof -
  have inj: "distinct (map render fixed_statements)"
    by code_simp
  obtain x where x: "find (\<lambda>st'. render st' = render st) fixed_statements = Some x"
    using assms by (cases "find (\<lambda>st'. render st' = render st) fixed_statements") (auto simp: find_None_iff)
  then have "x \<in> set fixed_statements" "render x = render st" by (auto simp: find_Some_iff)
  then have "x = st" using inj assms by (auto simp: distinct_map dest: inj_onD)
  with x show ?thesis by (simp add: read_sql_def)
qed

lemma fixed_statementsI:
  "(t, cols) \<in> set known_tables \<Longrightarrow> CreateTable t cols \<in> set fixed_statements"
  "(t, cols) \<in> set known_tables \<Longrightarrow> DropTable t \<in> set fixed_statements"
  "(t, cols) \<in> set known_tables \<Longrightarrow> SelectFrom t [] \<in> set fixed_statements"
  "(t, cols) \<in> set known_tables \<Longrightarrow> SelectFrom t (map fst cols) \<in> set fixed_statements"
  by (force simp: fixed_statements_def)+

lemma known_cases:
  assumes "t \<in> fst ` set known_tables"
  shows "t = ''exchange_table'' \<or> t = ''queue_table'' \<or> t = ''binding_table''"
  using assms by (auto simp: known_tables_def)

lemma column_no_equals: "(t, cols) \<in> set known_tables \<Longrightarrow> c \<in> fst ` set cols \<Longrightarrow> CHR ''='' \<notin> set c"
  by (auto simp: known_tables_def)

lemma read_render:
  assumes "plain_stmt st"
  shows "read_sql (render st) = Some st"
proof (cases st)
  case (InsertInto t vs)
  then have t: "t = ''exchange_table'' \<or> t = ''queue_table'' \<or> t = ''binding_table''"
    and vs: "vs \<noteq> []" "\<forall>v \<in> set vs. plain_value v"
    using assms known_cases [of t] by auto
  have "read_sql (render st) = read_changes (map fst known_tables) (render st)"
    by (rule not_fixed) (simp add: InsertInto)
  then show ?thesis
    using t read_values [OF vs] by (auto simp: InsertInto known_names)
next
  case (DeleteFrom t cs)
  then have t: "t = ''exchange_table'' \<or> t = ''queue_table'' \<or> t = ''binding_table''"
    and ne: "cs \<noteq> []"
    using assms known_cases [of t] by simp_all
  have cs: "\<forall>(c, x) \<in> set cs. plain x \<and> CHR ''='' \<notin> set c"
  proof (clarify)
    fix c x assume cx: "(c, x) \<in> set cs"
    have "\<forall>(c, x) \<in> set cs. (\<exists>cols. (t, cols) \<in> set known_tables \<and> c \<in> fst ` set cols) \<and> plain x"
      using assms unfolding DeleteFrom plain_stmt.simps by (elim conjE)
    from bspec [OF this cx] obtain cols where "(t, cols) \<in> set known_tables" "c \<in> fst ` set cols" "plain x"
      by blast
    then show "plain x \<and> CHR ''='' \<notin> set c" using column_no_equals by blast
  qed
  have "read_sql (render st) = read_changes (map fst known_tables) (render st)"
    by (rule not_fixed) (simp add: DeleteFrom)
  then show ?thesis
    using t read_conds [OF ne cs] by (auto simp: DeleteFrom known_names)
qed (use assms in \<open>auto simp del: render.simps intro!: read_fixed intro: fixed_statementsI\<close>)

theorem mini_sqlite_ok: "sqlite_ok mini_sqlite (\<lambda>db. db)"
  unfolding sqlite_ok_def
proof (intro conjI allI impI)
  fix f and db :: tables
  show "\<exists>db'. sq_open mini_sqlite f db = (True, db') \<and> db' = db" by (simp add: mini_sqlite_def)
next
  fix st and db :: tables
  assume "plain_stmt st"
  then have "sq_exec mini_sqlite (render st) db = sql_sem st db"
    by (simp add: mini_sqlite_def read_render del: render.simps sql_sem.simps)
  then show "\<exists>ok rows db'. sq_exec mini_sqlite (render st) db = (ok, rows, db') \<and>
      sql_sem st db = (ok, rows, db')"
    by (metis prod_cases3)
qed

end
