(* ===== verification/Simulation.thy ===== *)
theory Simulation
  imports MQ_Prelude
begin

text \<open>
  Components driven by sequences of commands: running them on the model and on a specification, and
  the interface of a component that follows its specification step by step.
\<close>

fun run_cmds :: "('c \<Rightarrow> 'x \<Rightarrow> ('o \<times> 'x) result) \<Rightarrow> 'c list \<Rightarrow> 'x \<Rightarrow> ('o list \<times> 'x) result" where
  "run_cmds step [] x = Inr ([], x)"
| "run_cmds step (c # cs) x =
     rbind (step c x) (\<lambda>(out, x1). rbind (run_cmds step cs x1) (\<lambda>(outs, x2). Inr (out # outs, x2)))"

fun run_spec :: "('c \<Rightarrow> 'a \<Rightarrow> 'o \<times> 'a) \<Rightarrow> 'c list \<Rightarrow> 'a \<Rightarrow> 'o list \<times> 'a" where
  "run_spec spec [] A = ([], A)"
| "run_spec spec (c # cs) A =
     (case spec c A of (out, A1) \<Rightarrow> case run_spec spec cs A1 of (outs, A2) \<Rightarrow> (out # outs, A2))"

fun run_ok :: "('c \<Rightarrow> 'a \<Rightarrow> 'o \<times> 'a) \<Rightarrow> ('c \<Rightarrow> 'a \<Rightarrow> bool) \<Rightarrow> 'c list \<Rightarrow> 'a \<Rightarrow> bool" where
  "run_ok spec ok [] A \<longleftrightarrow> True"
| "run_ok spec ok (c # cs) A \<longleftrightarrow> ok c A \<and> run_ok spec ok cs (snd (spec c A))"

lemma run_spec_append:
  "run_spec spec (cs @ cs') A =
    (fst (run_spec spec cs A) @ fst (run_spec spec cs' (snd (run_spec spec cs A))),
     snd (run_spec spec cs' (snd (run_spec spec cs A))))"
  by (induction cs arbitrary: A) (auto split: prod.splits)

lemma run_ok_append:
  "run_ok spec ok (cs @ cs') A \<longleftrightarrow> run_ok spec ok cs A \<and> run_ok spec ok cs' (snd (run_spec spec cs A))"
  by (induction cs arbitrary: A) (auto split: prod.splits)

locale simulation =
  fixes step :: "'c \<Rightarrow> 'x \<Rightarrow> ('o \<times> 'x) result"
    and spec :: "'c \<Rightarrow> 'a \<Rightarrow> 'o \<times> 'a"
    and ok :: "'c \<Rightarrow> 'a \<Rightarrow> bool"
    and rel :: "'x \<Rightarrow> 'a \<Rightarrow> bool"
  assumes step_sim: "\<lbrakk>rel x A; ok c A\<rbrakk> \<Longrightarrow>
    \<exists>x'. step c x = Inr (fst (spec c A), x') \<and> rel x' (snd (spec c A))"
begin

lemma run_sim:
  assumes "rel x A" and "run_ok spec ok cs A"
  shows "\<exists>x'. run_cmds step cs x = Inr (fst (run_spec spec cs A), x') \<and> rel x' (snd (run_spec spec cs A))"
  using assms
proof (induction cs arbitrary: x A)
  case (Cons c cs)
  obtain x1 where 1: "step c x = Inr (fst (spec c A), x1)" "rel x1 (snd (spec c A))"
    using step_sim [OF Cons.prems(1)] Cons.prems(2) by auto
  obtain x' where "run_cmds step cs x1 = Inr (fst (run_spec spec cs (snd (spec c A))), x')"
    "rel x' (snd (run_spec spec cs (snd (spec c A))))"
    using Cons.IH [OF 1(2)] Cons.prems(2) by auto
  with 1(1) show ?case by (simp add: split_beta)
qed simp

end

end
