(* ===== verification/Exchange.thy ===== *)
theory Exchange
  imports Registry Route Mini_Sqlite Simulation
begin

text \<open>
  \<open>HareMQ/mqserver/exchange.hpp\<close>: exchanges, the mapper that keeps the durable ones in a table of
  the database, and the manager that keeps all of them in memory.
\<close>

section \<open>Exchanges\<close>

fun type_num :: "ExchangeType \<Rightarrow> int" where
  "type_num UNKNOWTYPE = 0"
| "type_num DIRECT = 1"
| "type_num FANOUT = 2"
| "type_num TOPIC = 3"
| "type_num (UNNAMEDTYPE n) = n"

definition type_of_num :: "int \<Rightarrow> ExchangeType" where
  "type_of_num n =
     (if n = 0 then UNKNOWTYPE else if n = 1 then DIRECT else if n = 2 then FANOUT
      else if n = 3 then TOPIC else UNNAMEDTYPE n)"

record exchange =
  ex_name :: string
  ex_type :: ExchangeType
  ex_durable :: bool
  ex_auto_delete :: bool
  ex_args :: arg_map

definition ex_set_args :: "splitter \<Rightarrow> string \<Rightarrow> exchange \<Rightarrow> exchange" where
  "ex_set_args bsplit str_args e = e\<lparr>ex_args := parse_args bsplit str_args (ex_args e)\<rparr>"

definition ex_get_args :: "exchange \<Rightarrow> string" where
  "ex_get_args e = format_args (ex_args e)"

section \<open>The mapper\<close>

definition exchange_columns :: "(string \<times> string \<times> bool) list" where
  "exchange_columns =
     [(''name'', ''varchar(32)'', True), (''type'', ''int'', False), (''durable'', ''int'', False),
      (''auto_delete'', ''int'', False), (''args'', ''varchar(128)'', False)]"

definition EXCHANGE_CREATE_TABLE :: string where
  "EXCHANGE_CREATE_TABLE = render (CreateTable ''exchange_table'' exchange_columns)"

definition EXCHANGE_DROP_TABLE :: string where
  "EXCHANGE_DROP_TABLE = ''drop table if exists exchange_table;''"

definition EXCHANGE_INSERT_SQL :: "string \<Rightarrow> int \<Rightarrow> int \<Rightarrow> int \<Rightarrow> string \<Rightarrow> string" where
  "EXCHANGE_INSERT_SQL name type durable auto_delete args =
     ''insert into exchange_table values('' @ quote name @ '', '' @ show_int type @ '', '' @
     show_int durable @ '', '' @ show_int auto_delete @ '', '' @ quote args @ '');''"

definition EXCHANGE_DELETE_SQL :: "string \<Rightarrow> string" where
  "EXCHANGE_DELETE_SQL name = ''delete from exchange_table where name='' @ quote name @ '';''"

definition EXCHANGE_SELECT_SQL :: string where
  "EXCHANGE_SELECT_SQL = ''select name, type, durable, auto_delete, args from exchange_table;''"

definition ex_create_table :: "'db sqlite \<Rightarrow> 'db \<Rightarrow> 'db result" where
  "ex_create_table sq db = exec_or_abort sq EXCHANGE_CREATE_TABLE db"

definition ex_remove_table :: "'db sqlite \<Rightarrow> 'db \<Rightarrow> 'db result" where
  "ex_remove_table sq db = exec_or_abort sq EXCHANGE_DROP_TABLE db"

definition ex_insert :: "'db sqlite \<Rightarrow> exchange \<Rightarrow> 'db \<Rightarrow> (bool \<times> 'db) result" where
  "ex_insert sq e db =
     exec_formatted sq (EXCHANGE_INSERT_SQL (c_str (ex_name e)) (type_num (ex_type e)) (flag (ex_durable e))
       (flag (ex_auto_delete e)) (c_str (ex_get_args e))) db"

definition ex_remove :: "'db sqlite \<Rightarrow> string \<Rightarrow> 'db \<Rightarrow> 'db result" where
  "ex_remove sq name db =
     rbind (exec_formatted sq (EXCHANGE_DELETE_SQL (c_str name)) db) (\<lambda>(ret, db'). Inr db')"

text \<open>\<open>select_callback\<close>; a null column where text is needed is a null pointer.\<close>

fun ex_of_row :: "splitter \<Rightarrow> string option list \<Rightarrow> exchange result" where
  "ex_of_row bsplit (Some name # Some type # Some durable # Some auto_delete # args # rest) =
     rbind (stoi type) (\<lambda>t. rbind (stoi durable) (\<lambda>d. rbind (stoi auto_delete) (\<lambda>a.
       let e = \<lparr>ex_name = name, ex_type = type_of_num t, ex_durable = (d \<noteq> 0), ex_auto_delete = (a \<noteq> 0),
                ex_args = []\<rparr>
       in Inr (case args of None \<Rightarrow> e | Some s \<Rightarrow> ex_set_args bsplit s e))))"
| "ex_of_row bsplit row = Inl Undefined"

definition ex_all :: "'db sqlite \<Rightarrow> splitter \<Rightarrow> 'db \<Rightarrow> ((string, exchange) umap \<times> 'db) result" where
  "ex_all sq bsplit db =
     (case sql_exec sq EXCHANGE_SELECT_SQL db of
        (ok, rows, db') \<Rightarrow> rbind (load_rows (ex_of_row bsplit) ex_name rows []) (\<lambda>m. Inr (m, db')))"

section \<open>The manager\<close>

type_synonym exchanges = "(string, exchange) umap"

definition exchange_manager_new ::
  "'db sqlite \<Rightarrow> splitter \<Rightarrow> string \<Rightarrow> fs \<Rightarrow> 'db \<Rightarrow> (exchanges \<times> fs \<times> 'db) result" where
  "exchange_manager_new sq bsplit dbfile s db =
     rbind (open_db sq dbfile s db) (\<lambda>(s1, db1).
       rbind (ex_create_table sq db1) (\<lambda>db2.
         rbind (ex_all sq bsplit db2) (\<lambda>(m, db3). Inr (m, s1, db3))))"

definition declare_exchange ::
  "'db sqlite \<Rightarrow> string \<Rightarrow> ExchangeType \<Rightarrow> bool \<Rightarrow> bool \<Rightarrow> arg_map \<Rightarrow> exchanges \<Rightarrow> 'db \<Rightarrow>
     (bool \<times> exchanges \<times> 'db) result" where
  "declare_exchange sq name type durable auto_delete args m db =
     (if map_of m name \<noteq> None then Inr (True, m, db)
      else
        let exp = \<lparr>ex_name = name, ex_type = type, ex_durable = durable, ex_auto_delete = auto_delete, ex_args = args\<rparr>
        in rbind (if durable then ex_insert sq exp db else Inr (True, db)) (\<lambda>(ok, db').
          Inr (True, um_insert name exp m, db')))"

definition delete_exchange :: "'db sqlite \<Rightarrow> string \<Rightarrow> exchanges \<Rightarrow> 'db \<Rightarrow> (exchanges \<times> 'db) result" where
  "delete_exchange sq name m db =
     (case map_of m name of
        None \<Rightarrow> Inr (m, db)
      | Some e \<Rightarrow>
          rbind (if ex_durable e then ex_remove sq name db else Inr db) (\<lambda>db'. Inr (um_erase name m, db')))"

definition select_exchange :: "string \<Rightarrow> exchanges \<Rightarrow> exchange option" where
  "select_exchange name m = map_of m name"

definition select_all_exchanges :: "exchanges \<Rightarrow> exchanges" where
  "select_all_exchanges m = m"

definition exchange_exists :: "string \<Rightarrow> exchanges \<Rightarrow> bool" where
  "exchange_exists name m = (case map_of m name of None \<Rightarrow> False | Some e \<Rightarrow> True)"

definition clear_exchange :: "'db sqlite \<Rightarrow> exchanges \<Rightarrow> 'db \<Rightarrow> (exchanges \<times> 'db) result" where
  "clear_exchange sq m db = rbind (ex_remove_table sq db) (\<lambda>db'. Inr ([], db'))"

definition exchange_count :: "exchanges \<Rightarrow> nat" where
  "exchange_count m = length m"

section \<open>The table\<close>

definition ex_values :: "exchange \<Rightarrow> sql_value list" where
  "ex_values e = [Txt (ex_name e), Num (type_num (ex_type e)), Num (flag (ex_durable e)),
     Num (flag (ex_auto_delete e)), Txt (ex_get_args e)]"

definition ex_storable :: "exchange \<Rightarrow> bool" where
  "ex_storable e \<longleftrightarrow> plain (ex_name e) \<and> plain (ex_get_args e) \<and> plain_args (ex_args e) \<and>
     - (2 ^ 31) < type_num (ex_type e) \<and> type_num (ex_type e) < 2 ^ 31 \<and>
     type_of_num (type_num (ex_type e)) = ex_type e \<and>
     length (render (InsertInto ''exchange_table'' (ex_values e))) < 4096"

lemma exchange_sql:
  "EXCHANGE_DROP_TABLE = render (DropTable ''exchange_table'')"
  "EXCHANGE_SELECT_SQL = render (SelectFrom ''exchange_table'' (map fst exchange_columns))"
  "EXCHANGE_DELETE_SQL name = render (DeleteFrom ''exchange_table'' [(''name'', name)])"
  "EXCHANGE_INSERT_SQL name t d a args =
     render (InsertInto ''exchange_table'' [Txt name, Num t, Num d, Num a, Txt args])"
  by (simp_all add: EXCHANGE_DROP_TABLE_def EXCHANGE_SELECT_SQL_def EXCHANGE_DELETE_SQL_def
      EXCHANGE_INSERT_SQL_def exchange_columns_def)

interpretation ex_table: keyed_table "''exchange_table''" exchange_columns ex_name ex_values ex_storable
proof unfold_locales
  fix e
  assume e: "ex_storable e"
  then show "\<forall>x \<in> set (ex_values e). plain_value x"
    by (simp add: ex_values_def ex_storable_def plain_value_def)
  show len: "length (render (InsertInto ''exchange_table'' (ex_values e))) < 4096"
    using e by (simp add: ex_storable_def)
  have "length (render (DeleteFrom ''exchange_table'' [(''name'', ex_name e)])) <
      length (render (InsertInto ''exchange_table'' (ex_values e)))"
    by (simp add: ex_values_def quote_def)
  with len show "length (render (DeleteFrom ''exchange_table'' [(''name'', ex_name e)])) < 4096" by (meson less_trans)
qed (simp_all add: known_tables_def exchange_columns_def ex_values_def)

definition ex_stored :: "'db sqlite \<Rightarrow> ('db \<Rightarrow> tables) \<Rightarrow> tables \<Rightarrow> 'db \<Rightarrow> exchange list \<Rightarrow> bool" where
  "ex_stored sq tabs T db es \<longleftrightarrow> table_holds ''exchange_table'' exchange_columns ex_values ex_storable sq tabs T db es"

definition ex_reloaded :: "splitter \<Rightarrow> exchange \<Rightarrow> exchange" where
  "ex_reloaded bsplit e = e\<lparr>ex_args := parse_args bsplit (ex_get_args e) []\<rparr>"

interpretation ex: row_store ex_name ex_durable "ex_reloaded bsplit" ex_storable "ex_stored sq tabs T"
  "ex_insert sq" "ex_remove sq" for bsplit sq tabs T
proof unfold_locales
  fix db :: 'a and es e
  assume st: "ex_stored sq tabs T db es"
  {
    assume e: "ex_storable e" and new: "ex_name e \<notin> ex_name ` set es"
    have "ex_insert sq e db = exec_formatted sq (render (InsertInto ''exchange_table'' (ex_values e))) db"
      using e by (simp only: ex_insert_def exchange_sql(4) ex_storable_def plain_c_str ex_values_def)
    then show "\<exists>db'. ex_insert sq e db = Inr (True, db') \<and> ex_stored sq tabs T db' (es @ [e])"
      using ex_table.exec_insert [OF st [unfolded ex_stored_def] e new] by (simp add: ex_stored_def)
  }
  assume e: "e \<in> set es"
  then have "plain (ex_name e)" using st by (simp add: ex_stored_def table_holds_def ex_storable_def)
  then have "ex_remove sq (ex_name e) db = rbind (exec_formatted sq
      (render (DeleteFrom ''exchange_table'' [(''name'', ex_name e)])) db) (\<lambda>(ret, db'). Inr db')"
    by (simp only: ex_remove_def plain_c_str exchange_sql(3))
  then show "\<exists>db'. ex_remove sq (ex_name e) db = Inr db' \<and>
      ex_stored sq tabs T db' (filter (\<lambda>w. ex_name w \<noteq> ex_name e) es)"
    using ex_table.exec_delete [OF st [unfolded ex_stored_def] e] by (auto simp: ex_stored_def)
qed (simp_all add: ex_reloaded_def)

section \<open>Invariant and restart\<close>

lemma ex_of_stored_row:
  assumes "ex_storable e"
  shows "ex_of_row bsplit (map (Some \<circ> value_text) (ex_values e)) = Inr (ex_reloaded bsplit e)"
proof -
  have "stoi (show_int (type_num (ex_type e))) = Inr (type_num (ex_type e))"
    using assms by (intro stoi_show_int) (simp_all add: ex_storable_def)
  then show ?thesis
    using assms by (simp add: ex_values_def stoi_flag flag_neq Let_def ex_set_args_def ex_reloaded_def ex_storable_def)
qed

lemma ex_all_rows:
  assumes st: "ex_stored sq tabs T db es" and dist: "distinct (map ex_name es)"
  shows "\<exists>db'. ex_all sq bsplit db = Inr (rev (map (\<lambda>e. (ex_name e, ex_reloaded bsplit e)) es), db') \<and>
    ex_stored sq tabs T db' es"
proof -
  obtain db' where x: "sql_exec sq EXCHANGE_SELECT_SQL db = (True, map (\<lambda>e. map (Some \<circ> value_text) (ex_values e)) es, db')"
    "tabs db' = tabs db"
    unfolding exchange_sql
    by (rule ex_table.exec_select [OF st [unfolded ex_stored_def], of "map fst exchange_columns"])
      (simp_all add: exchange_columns_def)
  have "load_rows (ex_of_row bsplit) ex_name (map (\<lambda>e. map (Some \<circ> value_text) (ex_values e)) es) [] =
      Inr (rev (map (\<lambda>e. (ex_name e, ex_reloaded bsplit e)) es) @ [])"
    using st dist
    by (intro load_rows_map) (auto simp: ex_of_stored_row ex_stored_def table_holds_def ex_reloaded_def)
  then show ?thesis using st x(2) by (simp add: ex_all_def x(1) ex_stored_def table_holds_def)
qed

lemma exchange_manager_restart:
  assumes st: "ex_stored sq tabs T db es" and dist: "distinct (map ex_name es)"
  shows "\<exists>db'. exchange_manager_new sq bsplit dbfile s db =
    Inr (rev (map (\<lambda>e. (ex_name e, ex_reloaded bsplit e)) es), snd (create_dir s (parent_dir dbfile)), db') \<and>
    ex_stored sq tabs T db' es"
proof -
  have sq: "sqlite_ok sq tabs" using st by (simp add: ex_stored_def table_holds_def)
  obtain db1 db2 where o: "open_db sq dbfile s db = Inr (snd (create_dir s (parent_dir dbfile)), db1)"
    "exec_or_abort sq (render (CreateTable ''exchange_table'' exchange_columns)) db1 = Inr db2"
    "sql_sem (CreateTable ''exchange_table'' exchange_columns) (tabs db) = (True, [], tabs db2)"
    by (rule open_and_create [OF sq ex_table.known])
  have "ex_stored sq tabs T db2 es"
    using ex_table.create_again [OF st [unfolded ex_stored_def] o(3)] by (simp add: ex_stored_def)
  from ex_all_rows [OF this dist, of bsplit] show ?thesis
    using o(1,2) by (auto simp: exchange_manager_new_def ex_create_table_def EXCHANGE_CREATE_TABLE_def
        simp del: render.simps)
qed

lemma exchange_manager_fresh:
  assumes sq: "sqlite_ok sq tabs" and none: "tabs db ''exchange_table'' = None"
    and T: "\<forall>t. t \<noteq> ''exchange_table'' \<longrightarrow> tabs db t = T t"
  shows "\<exists>db'. exchange_manager_new sq bsplit dbfile s db =
    Inr ([], snd (create_dir s (parent_dir dbfile)), db') \<and> ex_stored sq tabs T db' []"
proof -
  obtain db1 db2 where o: "open_db sq dbfile s db = Inr (snd (create_dir s (parent_dir dbfile)), db1)"
    "exec_or_abort sq (render (CreateTable ''exchange_table'' exchange_columns)) db1 = Inr db2"
    "sql_sem (CreateTable ''exchange_table'' exchange_columns) (tabs db) = (True, [], tabs db2)"
    by (rule open_and_create [OF sq ex_table.known])
  have st: "ex_stored sq tabs T db2 []"
    using ex_table.create_new [OF sq none T o(3)] by (simp add: ex_stored_def)
  from ex_all_rows [OF this, of bsplit] show ?thesis
    using o(1,2) by (auto simp: exchange_manager_new_def ex_create_table_def EXCHANGE_CREATE_TABLE_def
        simp del: render.simps)
qed

definition ex_inv ::
  "'db sqlite \<Rightarrow> ('db \<Rightarrow> tables) \<Rightarrow> splitter \<Rightarrow> tables \<Rightarrow> exchanges \<Rightarrow> 'db \<Rightarrow> exchange declared \<Rightarrow> bool" where
  "ex_inv sq tabs bsplit T m db D \<longleftrightarrow>
     tracks ex_name ex_durable (ex_reloaded bsplit) (ex_stored sq tabs T) m db D"

lemma ex_inv_find: "ex_inv sq tabs bsplit T m db D \<Longrightarrow> map_of m k = map_option (current (ex_reloaded bsplit)) (D k)"
  unfolding ex_inv_def by (rule tracksD(2))

lemma declare_exchange_inv:
  assumes inv: "ex_inv sq tabs bsplit T m db D"
    and e: "e = \<lparr>ex_name = name, ex_type = t, ex_durable = d, ex_auto_delete = a, ex_args = args\<rparr>"
    and ok: "d \<longrightarrow> ex_storable e"
  shows "\<exists>m' db'. declare_exchange sq name t d a args m db = Inr (True, m', db') \<and>
    ex_inv sq tabs bsplit T m' db' (spec_declare ex_name e D)"
proof (cases "D name")
  case None
  have key: "ex_name e = name" "ex_durable e = d" by (simp_all add: e)
  have "map_of m name = None" using ex_inv_find [OF inv] None by simp
  then have run: "declare_exchange sq name t d a args m db = rbind (if d then ex_insert sq e db else Inr (True, db))
      (\<lambda>(ok, db'). Inr (True, um_insert name e m, db'))"
    by (simp add: declare_exchange_def e Let_def)
  from ex.tracks_declare [OF inv [unfolded ex_inv_def], of e] None ok show ?thesis
    unfolding run by (auto simp: key ex_inv_def)
next
  case (Some x)
  then have "map_of m name \<noteq> None" and "spec_declare ex_name e D = D"
    using ex_inv_find [OF inv] by (simp_all add: spec_declare_def e)
  then show ?thesis using inv by (simp add: declare_exchange_def)
qed

lemma delete_exchange_inv:
  assumes inv: "ex_inv sq tabs bsplit T m db D"
  shows "\<exists>m' db'. delete_exchange sq name m db = Inr (m', db') \<and> ex_inv sq tabs bsplit T m' db' (D(name := None))"
proof (cases "D name")
  case None
  then have "map_of m name = None" and "D(name := None) = D" using ex_inv_find [OF inv] by (auto simp: fun_eq_iff)
  then show ?thesis using inv by (simp add: delete_exchange_def)
next
  case (Some x)
  then have "map_of m name = Some (current (ex_reloaded bsplit) x)" using ex_inv_find [OF inv] by simp
  with ex.tracks_delete [OF inv [unfolded ex_inv_def] Some] show ?thesis
    by (auto simp: delete_exchange_def ex_inv_def)
qed

lemma exchange_inv_restart:
  assumes inv: "ex_inv sq tabs bsplit T m0 db D"
  shows "\<exists>m' db'. exchange_manager_new sq bsplit dbfile s db = Inr (m', snd (create_dir s (parent_dir dbfile)), db') \<and>
    ex_inv sq tabs bsplit T m' db' (spec_reload ex_durable D)"
proof -
  obtain es where es: "ex_stored sq tabs T db es" "distinct (map ex_name es)"
    "\<forall>db'. ex_stored sq tabs T db' es \<longrightarrow> ex_inv sq tabs bsplit T
      (rev (map (\<lambda>e. (ex_name e, ex_reloaded bsplit e)) es)) db' (spec_reload ex_durable D)"
    using tracks_restart [of ex_name ex_durable "ex_reloaded bsplit" "ex_stored sq tabs T",
        OF inv [unfolded ex_inv_def] ex.key_again] unfolding ex_inv_def by (elim exE conjE)
  from exchange_manager_restart [OF es(1,2), of bsplit dbfile s] show ?thesis using es(3) by blast
qed

section \<open>Histories\<close>

datatype exchange_cmd =
  DeclareExchange string ExchangeType bool bool arg_map
| DeleteExchange string
| StartExchanges \<comment> \<open>the server starts, or starts again\<close>

fun exchange_step ::
  "'db sqlite \<Rightarrow> splitter \<Rightarrow> string \<Rightarrow> exchange_cmd \<Rightarrow> exchanges \<times> fs \<times> 'db \<Rightarrow>
     (bool \<times> exchanges \<times> fs \<times> 'db) result" where
  "exchange_step sq bsplit dbfile (DeclareExchange name t d a args) (m, s, db) =
     rbind (declare_exchange sq name t d a args m db) (\<lambda>(b, m', db'). Inr (b, m', s, db'))"
| "exchange_step sq bsplit dbfile (DeleteExchange name) (m, s, db) =
     rbind (delete_exchange sq name m db) (\<lambda>(m', db'). Inr (True, m', s, db'))"
| "exchange_step sq bsplit dbfile StartExchanges (m, s, db) =
     rbind (exchange_manager_new sq bsplit dbfile s db) (\<lambda>x. Inr (True, x))"

fun exchange_spec :: "exchange_cmd \<Rightarrow> exchange declared \<Rightarrow> bool \<times> exchange declared" where
  "exchange_spec (DeclareExchange name t d a args) D =
     (True, spec_declare ex_name
        \<lparr>ex_name = name, ex_type = t, ex_durable = d, ex_auto_delete = a, ex_args = args\<rparr> D)"
| "exchange_spec (DeleteExchange name) D = (True, D(name := None))"
| "exchange_spec StartExchanges D = (True, spec_reload ex_durable D)"

fun exchange_cmd_ok :: "exchange_cmd \<Rightarrow> bool" where
  "exchange_cmd_ok (DeclareExchange name t d a args) \<longleftrightarrow>
     (d \<longrightarrow> ex_storable \<lparr>ex_name = name, ex_type = t, ex_durable = d, ex_auto_delete = a, ex_args = args\<rparr>)"
| "exchange_cmd_ok c \<longleftrightarrow> True"

definition exchange_serves ::
  "'db sqlite \<Rightarrow> ('db \<Rightarrow> tables) \<Rightarrow> splitter \<Rightarrow> tables \<Rightarrow> exchanges \<times> fs \<times> 'db \<Rightarrow> exchange declared \<Rightarrow> bool" where
  "exchange_serves sq tabs bsplit T x D \<longleftrightarrow> (case x of (m, s, db) \<Rightarrow> ex_inv sq tabs bsplit T m db D)"

interpretation exchange_sim: simulation "exchange_step sq bsplit dbfile" exchange_spec "\<lambda>c D. exchange_cmd_ok c"
  "exchange_serves sq tabs bsplit T" for sq bsplit dbfile tabs T
proof unfold_locales
  fix x :: "exchanges \<times> fs \<times> 'a" and D c
  assume "exchange_serves sq tabs bsplit T x D" and c: "exchange_cmd_ok c"
  then obtain m s db where x: "x = (m, s, db)" and inv: "ex_inv sq tabs bsplit T m db D"
    by (cases x) (auto simp: exchange_serves_def)
  show "\<exists>x'. exchange_step sq bsplit dbfile c x = Inr (fst (exchange_spec c D), x') \<and>
      exchange_serves sq tabs bsplit T x' (snd (exchange_spec c D))"
  proof (cases c)
    case (DeclareExchange name t d a args)
    with declare_exchange_inv [OF inv refl, of d name t a args] c show ?thesis by (auto simp: x exchange_serves_def)
  next
    case (DeleteExchange name)
    with delete_exchange_inv [OF inv, of name] show ?thesis by (auto simp: x exchange_serves_def)
  next
    case StartExchanges
    with exchange_inv_restart [OF inv, of dbfile s] show ?thesis by (auto simp: x exchange_serves_def)
  qed
qed

section \<open>Properties\<close>

text \<open>
  Exchanges survive restarts.  Any sequence of declarations, deletions and restarts on a database
  without exchanges succeeds and follows the specification: the first declaration of a name counts
  until it is deleted, a restart keeps exactly the durable exchanges with the name, type and flags
  they were declared with, and the other tables of the database are left alone.  Durable exchanges
  are made of plain text that fits the mapper's buffer.
\<close>

theorem exchanges_survive_restart:
  assumes "sqlite_ok sq tabs" and "tabs db ''exchange_table'' = None" and "\<forall>c \<in> set cs. exchange_cmd_ok c"
  shows "\<exists>m s' db'. run_cmds (exchange_step sq bsplit dbfile) (StartExchanges # cs) ([], s, db) =
      Inr (map (\<lambda>c. True) (StartExchanges # cs), m, s', db') \<and>
    (\<forall>name. select_exchange name m =
       map_option (current (ex_reloaded bsplit)) (snd (run_spec exchange_spec cs (\<lambda>k. None)) name)) \<and>
    (\<forall>t. t \<noteq> ''exchange_table'' \<longrightarrow> tabs db' t = tabs db t)"
proof -
  obtain db0 where new: "exchange_manager_new sq bsplit dbfile s db = Inr ([], snd (create_dir s (parent_dir dbfile)), db0)"
    and st: "ex_stored sq tabs (tabs db) db0 []"
    using exchange_manager_fresh [where sq = sq and tabs = tabs and db = db and T = "tabs db" and bsplit = bsplit and
        dbfile = dbfile and s = s] assms(1,2) by (elim meta_impE exE conjE) simp_all
  let ?x = "([] :: exchanges, snd (create_dir s (parent_dir dbfile)), db0)"
  have "ex_inv sq tabs bsplit (tabs db) [] db0 (\<lambda>k. None)"
    unfolding ex_inv_def by (rule tracks_empty [where stored = "ex_stored sq tabs (tabs db)", OF st])
  then have start: "exchange_serves sq tabs bsplit (tabs db) ?x (\<lambda>k. None)" by (simp add: exchange_serves_def)
  have "run_ok exchange_spec (\<lambda>c D. exchange_cmd_ok c) cs D" for D
    using assms(3) by (induction cs arbitrary: D) auto
  from exchange_sim.run_sim [OF start this, of dbfile] obtain x where run:
      "run_cmds (exchange_step sq bsplit dbfile) cs ?x = Inr (fst (run_spec exchange_spec cs (\<lambda>k. None)), x)"
    and srv: "exchange_serves sq tabs bsplit (tabs db) x (snd (run_spec exchange_spec cs (\<lambda>k. None)))"
    by (elim exE conjE)
  obtain m s' db' where x: "x = (m, s', db')"
    and inv: "ex_inv sq tabs bsplit (tabs db) m db' (snd (run_spec exchange_spec cs (\<lambda>k. None)))"
    using srv by (cases x) (simp add: exchange_serves_def)
  have "fst (run_spec exchange_spec cs D) = map (\<lambda>c. True) cs" for D
  proof (induction cs arbitrary: D)
    case (Cons c cs)
    then show ?case by (cases c) (simp_all add: split_beta)
  qed simp
  moreover have "\<forall>t. t \<noteq> ''exchange_table'' \<longrightarrow> tabs db' t = tabs db t"
    using tracksD(4) [OF inv [unfolded ex_inv_def]] by (auto simp: holds_rows_def ex_stored_def table_holds_def)
  ultimately show ?thesis
    using run ex_inv_find [OF inv] by (simp add: new select_exchange_def x)
qed

definition sample_exchange_cmds :: "exchange_cmd list" where
  "sample_exchange_cmds = [DeclareExchange ''e1'' TOPIC True False [(''k'', ''v'')],
     DeclareExchange ''e2'' FANOUT False False [], StartExchanges, DeleteExchange ''e2'', StartExchanges]"

lemma sample_exchange_ok: "\<forall>c \<in> set sample_exchange_cmds. exchange_cmd_ok c"
  by (simp add: sample_exchange_cmds_def ex_storable_def plain_def ex_get_args_def format_args_def
      plain_args_def type_of_num_def ex_values_def quote_def flag_def show_int_def show_nat.simps)

theorem exchanges_survive_restart_witness:
  "\<exists>m s' db'. run_cmds (exchange_step mini_sqlite ref_split ''host.db'') (StartExchanges # sample_exchange_cmds)
        ([], \<lparr>fs_files = \<lambda>_. None, fs_dirs = []\<rparr>, \<lambda>_. None) =
      Inr (map (\<lambda>c. True) (StartExchanges # sample_exchange_cmds), m, s', db') \<and>
    (\<forall>name. select_exchange name m = map_option (current (ex_reloaded ref_split))
       (snd (run_spec exchange_spec sample_exchange_cmds (\<lambda>k. None)) name)) \<and>
    (\<forall>t. t \<noteq> ''exchange_table'' \<longrightarrow> db' t = None)"
  by (rule exchanges_survive_restart [where tabs = "\<lambda>db. db", OF mini_sqlite_ok _ sample_exchange_ok]) simp

text \<open>
  C32: What restarts do to an exchange's arguments.  A durable exchange that is declared after any
  admissible commands that left its name free, and is stored by the mapper and read back by one or
  more starts of the manager, comes back with the name, type and flags it was declared with and with
  all its arguments; and one argument with empty name and value is added, because the stored text ends
  in a separator, unless there is an argument with empty name already.  The text of the exchange must
  fit the mapper's buffer and hold no quote or null character, its type must be a number an \<open>int\<close>
  holds, and its arguments must have no \<open>&\<close> in names or values and no \<open>=\<close> in names: other arguments are
  not read back as they were.
\<close>

theorem reloaded_exchange_args:
  assumes "sqlite_ok sq tabs" and "tabs db ''exchange_table'' = None" and "boost_split_ok bsplit"
    and "\<forall>c \<in> set cs. exchange_cmd_ok c" and "snd (run_spec exchange_spec cs (\<lambda>k. None)) name = None"
    and "exchange_cmd_ok (DeclareExchange name t True a args)"
  shows "\<exists>m s' db' e. run_cmds (exchange_step sq bsplit dbfile)
      (StartExchanges # cs @ DeclareExchange name t True a args # replicate (Suc n) StartExchanges) ([], s, db) =
      Inr (replicate (length cs + n + 3) True, m, s', db') \<and> select_exchange name m = Some e \<and>
    ex_name e = name \<and> ex_type e = t \<and> ex_durable e \<and> ex_auto_delete e = a \<and>
    (\<forall>k. map_of (ex_args e) k = (if k = '''' \<and> map_of args '''' = None then Some '''' else map_of args k))"
proof -
  let ?e = "\<lparr>ex_name = name, ex_type = t, ex_durable = True, ex_auto_delete = a, ex_args = args\<rparr>"
  let ?cs = "cs @ DeclareExchange name t True a args # replicate (Suc n) StartExchanges"
  have ok: "\<forall>c \<in> set ?cs. exchange_cmd_ok c" using assms(4,6) by auto
  have reloads: "snd (run_spec exchange_spec (replicate (Suc n) StartExchanges) D) name = Some (?e, True)"
    if "D name = Some (?e, b)" for D b
    using that by (induction n arbitrary: D b) (simp_all add: spec_reload_def split_beta)
  have D: "snd (run_spec exchange_spec ?cs (\<lambda>k. None)) name = Some (?e, True)"
    using reloads [of "spec_declare ex_name ?e (snd (run_spec exchange_spec cs (\<lambda>k. None)))" False] assms(5)
    by (simp add: run_spec_append split_beta spec_declare_def del: replicate.simps)
  obtain m s' db' where run: "run_cmds (exchange_step sq bsplit dbfile) (StartExchanges # ?cs) ([], s, db) =
      Inr (map (\<lambda>c. True) (StartExchanges # ?cs), m, s', db')"
    and all: "\<forall>name. select_exchange name m =
      map_option (current (ex_reloaded bsplit)) (snd (run_spec exchange_spec ?cs (\<lambda>k. None)) name)"
    using exchanges_survive_restart [where sq = sq and tabs = tabs and db = db and bsplit = bsplit and dbfile = dbfile and s = s,
        OF assms(1,2) ok] by blast
  have find: "select_exchange name m = Some (ex_reloaded bsplit ?e)"
    unfolding all [rule_format] D by (simp add: current_def)
  have "plain_args args" using assms(6) by (simp add: ex_storable_def)
  then have "map_of (ex_args (ex_reloaded bsplit ?e)) = reloaded_args args"
    by (simp add: ex_reloaded_def ex_get_args_def parse_format_args [OF assms(3)])
  moreover have "map (\<lambda>c. True) (StartExchanges # ?cs) = replicate (length cs + n + 3) True"
    by (simp only: map_replicate_const) (simp add: eval_nat_numeral)
  ultimately show ?thesis
    using run find
    by (intro exI [of _ m] exI [of _ s'] exI [of _ db'] exI [of _ "ex_reloaded bsplit ?e"] conjI)
      (simp_all only: append_Cons append_Nil, auto simp: ex_reloaded_def reloaded_args_def split: option.split)
qed

theorem reloaded_exchange_args_witness:
  "\<exists>m s' db' e. run_cmds (exchange_step mini_sqlite ref_split ''host.db'')
      (StartExchanges # [DeleteExchange ''e''] @ DeclareExchange ''e'' TOPIC True False [(''k'', ''v=1'')] # replicate (Suc 1) StartExchanges)
      ([], \<lparr>fs_files = \<lambda>_. None, fs_dirs = []\<rparr>, \<lambda>_. None) = Inr (replicate 5 True, m, s', db') \<and>
    select_exchange ''e'' m = Some e \<and> ex_type e = TOPIC \<and> map_of (ex_args e) ''k'' = Some ''v=1'' \<and> map_of (ex_args e) '''' = Some ''''"
proof -
  have "exchange_cmd_ok (DeclareExchange ''e'' TOPIC True False [(''k'', ''v=1'')])"
    by (simp add: ex_storable_def plain_def ex_get_args_def format_args_def plain_args_def type_of_num_def ex_values_def
        quote_def flag_def show_int_def show_nat.simps)
  from reloaded_exchange_args [where tabs = "\<lambda>db. db", OF mini_sqlite_ok _ ref_split_ok _ _ this,
      of "\<lambda>_. None" "[DeleteExchange ''e'']" "''host.db''" 1 "\<lparr>fs_files = \<lambda>_. None, fs_dirs = []\<rparr>"]
  show ?thesis by fastforce
qed

end
