(* ===== verification/Msg_Queue.thy ===== *)
theory Msg_Queue
  imports Registry Mini_Sqlite Simulation
begin

text \<open>
  \<open>HareMQ/mqserver/queue.hpp\<close>: the declared queues, their mapper and their manager.  The source
  says "all same to exchange"; it is not quite: a failed insert makes the declaration fail here.
\<close>

section \<open>Queues\<close>

record msg_queue =
  mq_name :: string
  mq_durable :: bool
  mq_exclusive :: bool
  mq_auto_delete :: bool
  mq_args :: arg_map

definition mq_set_args :: "splitter \<Rightarrow> string \<Rightarrow> msg_queue \<Rightarrow> msg_queue" where
  "mq_set_args bsplit str_args q = q\<lparr>mq_args := parse_args bsplit str_args (mq_args q)\<rparr>"

definition mq_get_args :: "msg_queue \<Rightarrow> string" where
  "mq_get_args q = format_args (mq_args q)"

section \<open>The mapper\<close>

definition queue_columns :: "(string \<times> string \<times> bool) list" where
  "queue_columns =
     [(''name'', ''varchar(32)'', True), (''durable'', ''int'', False), (''exclusive'', ''int'', False),
      (''auto_delete'', ''int'', False), (''args'', ''varchar(128)'', False)]"

definition QUEUE_CREATE_TABLE :: string where
  "QUEUE_CREATE_TABLE = render (CreateTable ''queue_table'' queue_columns)"

definition QUEUE_DROP_TABLE :: string where
  "QUEUE_DROP_TABLE = ''drop table if exists queue_table;''"

definition QUEUE_INSERT_SQL :: "string \<Rightarrow> int \<Rightarrow> int \<Rightarrow> int \<Rightarrow> string \<Rightarrow> string" where
  "QUEUE_INSERT_SQL name durable exclusive auto_delete args =
     ''insert into queue_table values('' @ quote name @ '', '' @ show_int durable @ '', '' @
     show_int exclusive @ '', '' @ show_int auto_delete @ '', '' @ quote args @ '');''"

definition QUEUE_DELETE_SQL :: "string \<Rightarrow> string" where
  "QUEUE_DELETE_SQL name = ''delete from queue_table where name='' @ quote name @ '';''"

definition QUEUE_SELECT_SQL :: string where
  "QUEUE_SELECT_SQL = ''select * from queue_table;''"

definition mq_create_table :: "'db sqlite \<Rightarrow> 'db \<Rightarrow> 'db result" where
  "mq_create_table sq db = exec_or_abort sq QUEUE_CREATE_TABLE db"

definition mq_remove_table :: "'db sqlite \<Rightarrow> 'db \<Rightarrow> 'db result" where
  "mq_remove_table sq db = exec_or_abort sq QUEUE_DROP_TABLE db"

definition mq_insert :: "'db sqlite \<Rightarrow> msg_queue \<Rightarrow> 'db \<Rightarrow> (bool \<times> 'db) result" where
  "mq_insert sq q db =
     exec_formatted sq (QUEUE_INSERT_SQL (c_str (mq_name q)) (flag (mq_durable q)) (flag (mq_exclusive q))
       (flag (mq_auto_delete q)) (c_str (mq_get_args q))) db"

definition mq_remove :: "'db sqlite \<Rightarrow> string \<Rightarrow> 'db \<Rightarrow> 'db result" where
  "mq_remove sq name db =
     rbind (exec_formatted sq (QUEUE_DELETE_SQL (c_str name)) db) (\<lambda>(ret, db'). Inr db')"

fun mq_of_row :: "splitter \<Rightarrow> string option list \<Rightarrow> msg_queue result" where
  "mq_of_row bsplit (Some name # Some durable # Some exclusive # Some auto_delete # args # rest) =
     rbind (stoi durable) (\<lambda>d. rbind (stoi exclusive) (\<lambda>x. rbind (stoi auto_delete) (\<lambda>a.
       let q = \<lparr>mq_name = name, mq_durable = (d \<noteq> 0), mq_exclusive = (x \<noteq> 0), mq_auto_delete = (a \<noteq> 0),
                mq_args = []\<rparr>
       in Inr (case args of None \<Rightarrow> q | Some s \<Rightarrow> mq_set_args bsplit s q))))"
| "mq_of_row bsplit row = Inl Undefined"

definition mq_all :: "'db sqlite \<Rightarrow> splitter \<Rightarrow> 'db \<Rightarrow> ((string, msg_queue) umap \<times> 'db) result" where
  "mq_all sq bsplit db =
     (case sql_exec sq QUEUE_SELECT_SQL db of
        (ok, rows, db') \<Rightarrow> rbind (load_rows (mq_of_row bsplit) mq_name rows []) (\<lambda>m. Inr (m, db')))"

section \<open>The manager\<close>

type_synonym queue_map = "(string, msg_queue) umap"

definition msg_queue_manager_new ::
  "'db sqlite \<Rightarrow> splitter \<Rightarrow> string \<Rightarrow> fs \<Rightarrow> 'db \<Rightarrow> (queue_map \<times> fs \<times> 'db) result" where
  "msg_queue_manager_new sq bsplit dbfile s db =
     rbind (open_db sq dbfile s db) (\<lambda>(s1, db1).
       rbind (mq_create_table sq db1) (\<lambda>db2.
         rbind (mq_all sq bsplit db2) (\<lambda>(m, db3). Inr (m, s1, db3))))"

definition declare_queue ::
  "'db sqlite \<Rightarrow> string \<Rightarrow> bool \<Rightarrow> bool \<Rightarrow> bool \<Rightarrow> arg_map \<Rightarrow> queue_map \<Rightarrow> 'db \<Rightarrow>
     (bool \<times> queue_map \<times> 'db) result" where
  "declare_queue sq qname qdurable qexclusive qauto_delete qargs m db =
     (if map_of m qname \<noteq> None then Inr (True, m, db)
      else
        let q = \<lparr>mq_name = qname, mq_durable = qdurable, mq_exclusive = qexclusive,
                 mq_auto_delete = qauto_delete, mq_args = qargs\<rparr>
        in rbind (if qdurable then mq_insert sq q db else Inr (True, db)) (\<lambda>(ok, db').
          if \<not> ok then Inr (False, m, db') else Inr (True, um_insert qname q m, db')))"

definition delete_queue :: "'db sqlite \<Rightarrow> string \<Rightarrow> queue_map \<Rightarrow> 'db \<Rightarrow> (queue_map \<times> 'db) result" where
  "delete_queue sq name m db =
     (case map_of m name of
        None \<Rightarrow> Inr (m, db)
      | Some q \<Rightarrow>
          rbind (if mq_durable q then mq_remove sq name db else Inr db) (\<lambda>db'. Inr (um_erase name m, db')))"

definition select_queue :: "string \<Rightarrow> queue_map \<Rightarrow> msg_queue option" where
  "select_queue name m = map_of m name"

definition all_queues :: "queue_map \<Rightarrow> queue_map" where
  "all_queues m = m"

definition queue_exists :: "string \<Rightarrow> queue_map \<Rightarrow> bool" where
  "queue_exists name m = (case map_of m name of None \<Rightarrow> False | Some q \<Rightarrow> True)"

definition queue_count :: "queue_map \<Rightarrow> nat" where
  "queue_count m = length m"

definition clear_queues :: "'db sqlite \<Rightarrow> queue_map \<Rightarrow> 'db \<Rightarrow> (queue_map \<times> 'db) result" where
  "clear_queues sq m db = rbind (mq_remove_table sq db) (\<lambda>db'. Inr ([], db'))"

section \<open>The table\<close>

definition mq_values :: "msg_queue \<Rightarrow> sql_value list" where
  "mq_values q = [Txt (mq_name q), Num (flag (mq_durable q)), Num (flag (mq_exclusive q)),
     Num (flag (mq_auto_delete q)), Txt (mq_get_args q)]"

definition mq_storable :: "msg_queue \<Rightarrow> bool" where
  "mq_storable q \<longleftrightarrow> plain (mq_name q) \<and> plain (mq_get_args q) \<and> plain_args (mq_args q) \<and>
     length (render (InsertInto ''queue_table'' (mq_values q))) < 4096"

lemma queue_sql:
  "QUEUE_DROP_TABLE = render (DropTable ''queue_table'')"
  "QUEUE_SELECT_SQL = render (SelectFrom ''queue_table'' [])"
  "QUEUE_DELETE_SQL name = render (DeleteFrom ''queue_table'' [(''name'', name)])"
  "QUEUE_INSERT_SQL name d x a args =
     render (InsertInto ''queue_table'' [Txt name, Num d, Num x, Num a, Txt args])"
  by (simp_all add: QUEUE_DROP_TABLE_def QUEUE_SELECT_SQL_def QUEUE_DELETE_SQL_def QUEUE_INSERT_SQL_def)

interpretation mq_table: keyed_table "''queue_table''" queue_columns mq_name mq_values mq_storable
proof unfold_locales
  fix q
  assume q: "mq_storable q"
  then show "\<forall>x \<in> set (mq_values q). plain_value x"
    by (simp add: mq_values_def mq_storable_def plain_value_def)
  show len: "length (render (InsertInto ''queue_table'' (mq_values q))) < 4096"
    using q by (simp add: mq_storable_def)
  have "length (render (DeleteFrom ''queue_table'' [(''name'', mq_name q)])) <
      length (render (InsertInto ''queue_table'' (mq_values q)))"
    by (simp add: mq_values_def quote_def)
  with len show "length (render (DeleteFrom ''queue_table'' [(''name'', mq_name q)])) < 4096" by (meson less_trans)
qed (simp_all add: known_tables_def queue_columns_def mq_values_def)

definition mq_stored :: "'db sqlite \<Rightarrow> ('db \<Rightarrow> tables) \<Rightarrow> tables \<Rightarrow> 'db \<Rightarrow> msg_queue list \<Rightarrow> bool" where
  "mq_stored sq tabs T db qs \<longleftrightarrow> table_holds ''queue_table'' queue_columns mq_values mq_storable sq tabs T db qs"

definition mq_reloaded :: "splitter \<Rightarrow> msg_queue \<Rightarrow> msg_queue" where
  "mq_reloaded bsplit q = q\<lparr>mq_args := parse_args bsplit (mq_get_args q) []\<rparr>"

interpretation mq: row_store mq_name mq_durable "mq_reloaded bsplit" mq_storable "mq_stored sq tabs T"
  "mq_insert sq" "mq_remove sq" for bsplit sq tabs T
proof unfold_locales
  fix db :: 'a and qs q
  assume st: "mq_stored sq tabs T db qs"
  {
    assume q: "mq_storable q" and new: "mq_name q \<notin> mq_name ` set qs"
    have "mq_insert sq q db = exec_formatted sq (render (InsertInto ''queue_table'' (mq_values q))) db"
      using q by (simp only: mq_insert_def queue_sql(4) mq_storable_def plain_c_str mq_values_def)
    then show "\<exists>db'. mq_insert sq q db = Inr (True, db') \<and> mq_stored sq tabs T db' (qs @ [q])"
      using mq_table.exec_insert [OF st [unfolded mq_stored_def] q new] by (simp add: mq_stored_def)
  }
  assume q: "q \<in> set qs"
  then have "plain (mq_name q)" using st by (simp add: mq_stored_def table_holds_def mq_storable_def)
  then have "mq_remove sq (mq_name q) db = rbind (exec_formatted sq
      (render (DeleteFrom ''queue_table'' [(''name'', mq_name q)])) db) (\<lambda>(ret, db'). Inr db')"
    by (simp only: mq_remove_def plain_c_str queue_sql(3))
  then show "\<exists>db'. mq_remove sq (mq_name q) db = Inr db' \<and>
      mq_stored sq tabs T db' (filter (\<lambda>w. mq_name w \<noteq> mq_name q) qs)"
    using mq_table.exec_delete [OF st [unfolded mq_stored_def] q] by (auto simp: mq_stored_def)
qed (simp_all add: mq_reloaded_def)

section \<open>Invariant and restart\<close>

lemma mq_of_stored_row: "mq_of_row bsplit (map (Some \<circ> value_text) (mq_values q)) = Inr (mq_reloaded bsplit q)"
  by (simp add: mq_values_def stoi_flag flag_neq Let_def mq_set_args_def mq_reloaded_def)

lemma mq_all_rows:
  assumes st: "mq_stored sq tabs T db qs" and dist: "distinct (map mq_name qs)"
  shows "\<exists>db'. mq_all sq bsplit db = Inr (rev (map (\<lambda>q. (mq_name q, mq_reloaded bsplit q)) qs), db') \<and>
    mq_stored sq tabs T db' qs"
proof -
  obtain db' where x: "sql_exec sq QUEUE_SELECT_SQL db = (True, map (\<lambda>q. map (Some \<circ> value_text) (mq_values q)) qs, db')"
    "tabs db' = tabs db"
    unfolding queue_sql
    by (rule mq_table.exec_select [OF st [unfolded mq_stored_def], of "[]"])
      (simp_all add: queue_columns_def)
  have "load_rows (mq_of_row bsplit) mq_name (map (\<lambda>q. map (Some \<circ> value_text) (mq_values q)) qs) [] =
      Inr (rev (map (\<lambda>q. (mq_name q, mq_reloaded bsplit q)) qs) @ [])"
    using dist by (intro load_rows_map) (auto simp: mq_of_stored_row mq_reloaded_def)
  then show ?thesis using st x(2) by (simp add: mq_all_def x(1) mq_stored_def table_holds_def)
qed

lemma queue_manager_restart:
  assumes st: "mq_stored sq tabs T db qs" and dist: "distinct (map mq_name qs)"
  shows "\<exists>db'. msg_queue_manager_new sq bsplit dbfile s db =
    Inr (rev (map (\<lambda>q. (mq_name q, mq_reloaded bsplit q)) qs), snd (create_dir s (parent_dir dbfile)), db') \<and>
    mq_stored sq tabs T db' qs"
proof -
  have sq: "sqlite_ok sq tabs" using st by (simp add: mq_stored_def table_holds_def)
  obtain db1 db2 where o: "open_db sq dbfile s db = Inr (snd (create_dir s (parent_dir dbfile)), db1)"
    "exec_or_abort sq (render (CreateTable ''queue_table'' queue_columns)) db1 = Inr db2"
    "sql_sem (CreateTable ''queue_table'' queue_columns) (tabs db) = (True, [], tabs db2)"
    by (rule open_and_create [OF sq mq_table.known])
  have "mq_stored sq tabs T db2 qs"
    using mq_table.create_again [OF st [unfolded mq_stored_def] o(3)] by (simp add: mq_stored_def)
  from mq_all_rows [OF this dist, of bsplit] show ?thesis
    using o(1,2) by (auto simp: msg_queue_manager_new_def mq_create_table_def QUEUE_CREATE_TABLE_def
        simp del: render.simps)
qed

lemma queue_manager_fresh:
  assumes sq: "sqlite_ok sq tabs" and none: "tabs db ''queue_table'' = None"
    and T: "\<forall>t. t \<noteq> ''queue_table'' \<longrightarrow> tabs db t = T t"
  shows "\<exists>db'. msg_queue_manager_new sq bsplit dbfile s db =
    Inr ([], snd (create_dir s (parent_dir dbfile)), db') \<and> mq_stored sq tabs T db' []"
proof -
  obtain db1 db2 where o: "open_db sq dbfile s db = Inr (snd (create_dir s (parent_dir dbfile)), db1)"
    "exec_or_abort sq (render (CreateTable ''queue_table'' queue_columns)) db1 = Inr db2"
    "sql_sem (CreateTable ''queue_table'' queue_columns) (tabs db) = (True, [], tabs db2)"
    by (rule open_and_create [OF sq mq_table.known])
  have "mq_stored sq tabs T db2 []"
    using mq_table.create_new [OF sq none T o(3)] by (simp add: mq_stored_def)
  from mq_all_rows [OF this, of bsplit] show ?thesis
    using o(1,2) by (auto simp: msg_queue_manager_new_def mq_create_table_def QUEUE_CREATE_TABLE_def
        simp del: render.simps)
qed

definition mq_inv ::
  "'db sqlite \<Rightarrow> ('db \<Rightarrow> tables) \<Rightarrow> splitter \<Rightarrow> tables \<Rightarrow> queue_map \<Rightarrow> 'db \<Rightarrow> msg_queue declared \<Rightarrow> bool" where
  "mq_inv sq tabs bsplit T m db D \<longleftrightarrow>
     tracks mq_name mq_durable (mq_reloaded bsplit) (mq_stored sq tabs T) m db D"

lemma mq_inv_find: "mq_inv sq tabs bsplit T m db D \<Longrightarrow> map_of m k = map_option (current (mq_reloaded bsplit)) (D k)"
  unfolding mq_inv_def by (rule tracksD(2))

lemma declare_queue_inv:
  assumes inv: "mq_inv sq tabs bsplit T m db D"
    and q: "q = \<lparr>mq_name = name, mq_durable = d, mq_exclusive = x, mq_auto_delete = a, mq_args = args\<rparr>"
    and ok: "d \<longrightarrow> mq_storable q"
  shows "\<exists>m' db'. declare_queue sq name d x a args m db = Inr (True, m', db') \<and>
    mq_inv sq tabs bsplit T m' db' (spec_declare mq_name q D)"
proof (cases "D name")
  case None
  have key: "mq_name q = name" "mq_durable q = d" by (simp_all add: q)
  have "map_of m name = None" using mq_inv_find [OF inv] None by simp
  then have run: "declare_queue sq name d x a args m db = rbind (if d then mq_insert sq q db else Inr (True, db))
      (\<lambda>(ok, db'). if \<not> ok then Inr (False, m, db') else Inr (True, um_insert name q m, db'))"
    unfolding declare_queue_def Let_def q [symmetric] by simp
  from mq.tracks_declare [OF inv [unfolded mq_inv_def], of q] None ok show ?thesis
    unfolding run by (auto simp: key mq_inv_def)
next
  case (Some y)
  then have "map_of m name \<noteq> None" and "spec_declare mq_name q D = D"
    using mq_inv_find [OF inv] by (simp_all add: spec_declare_def q)
  then show ?thesis using inv by (simp add: declare_queue_def)
qed

lemma delete_queue_inv:
  assumes inv: "mq_inv sq tabs bsplit T m db D"
  shows "\<exists>m' db'. delete_queue sq name m db = Inr (m', db') \<and> mq_inv sq tabs bsplit T m' db' (D(name := None))"
proof (cases "D name")
  case None
  then have "map_of m name = None" and "D(name := None) = D" using mq_inv_find [OF inv] by (auto simp: fun_eq_iff)
  then show ?thesis using inv by (simp add: delete_queue_def)
next
  case (Some y)
  then have "map_of m name = Some (current (mq_reloaded bsplit) y)" using mq_inv_find [OF inv] by simp
  with mq.tracks_delete [OF inv [unfolded mq_inv_def] Some] show ?thesis
    by (auto simp: delete_queue_def mq_inv_def)
qed

lemma queue_inv_restart:
  assumes inv: "mq_inv sq tabs bsplit T m0 db D"
  shows "\<exists>m' db'. msg_queue_manager_new sq bsplit dbfile s db = Inr (m', snd (create_dir s (parent_dir dbfile)), db') \<and>
    mq_inv sq tabs bsplit T m' db' (spec_reload mq_durable D)"
proof -
  obtain qs where qs: "mq_stored sq tabs T db qs" "distinct (map mq_name qs)"
    "\<forall>db'. mq_stored sq tabs T db' qs \<longrightarrow> mq_inv sq tabs bsplit T
      (rev (map (\<lambda>q. (mq_name q, mq_reloaded bsplit q)) qs)) db' (spec_reload mq_durable D)"
    using tracks_restart [of mq_name mq_durable "mq_reloaded bsplit" "mq_stored sq tabs T",
        OF inv [unfolded mq_inv_def] mq.key_again] unfolding mq_inv_def by (elim exE conjE)
  from queue_manager_restart [OF qs(1,2), of bsplit dbfile s] show ?thesis using qs(3) by blast
qed

section \<open>Histories\<close>

datatype queue_decl =
  DeclareQueue string bool bool bool arg_map
| DeleteQueue string
| StartQueues \<comment> \<open>the server starts, or starts again\<close>

fun queue_decl_step ::
  "'db sqlite \<Rightarrow> splitter \<Rightarrow> string \<Rightarrow> queue_decl \<Rightarrow> queue_map \<times> fs \<times> 'db \<Rightarrow>
     (bool \<times> queue_map \<times> fs \<times> 'db) result" where
  "queue_decl_step sq bsplit dbfile (DeclareQueue name d x a args) (m, s, db) =
     rbind (declare_queue sq name d x a args m db) (\<lambda>(b, m', db'). Inr (b, m', s, db'))"
| "queue_decl_step sq bsplit dbfile (DeleteQueue name) (m, s, db) =
     rbind (delete_queue sq name m db) (\<lambda>(m', db'). Inr (True, m', s, db'))"
| "queue_decl_step sq bsplit dbfile StartQueues (m, s, db) =
     rbind (msg_queue_manager_new sq bsplit dbfile s db) (\<lambda>x. Inr (True, x))"

fun queue_decl_spec :: "queue_decl \<Rightarrow> msg_queue declared \<Rightarrow> bool \<times> msg_queue declared" where
  "queue_decl_spec (DeclareQueue name d x a args) D =
     (True, spec_declare mq_name
        \<lparr>mq_name = name, mq_durable = d, mq_exclusive = x, mq_auto_delete = a, mq_args = args\<rparr> D)"
| "queue_decl_spec (DeleteQueue name) D = (True, D(name := None))"
| "queue_decl_spec StartQueues D = (True, spec_reload mq_durable D)"

fun queue_decl_ok :: "queue_decl \<Rightarrow> msg_queue declared \<Rightarrow> bool" where
  "queue_decl_ok (DeclareQueue name d x a args) D \<longleftrightarrow>
     (d \<longrightarrow> mq_storable \<lparr>mq_name = name, mq_durable = d, mq_exclusive = x, mq_auto_delete = a, mq_args = args\<rparr>)"
| "queue_decl_ok c D \<longleftrightarrow> True"

definition queues_serve ::
  "'db sqlite \<Rightarrow> ('db \<Rightarrow> tables) \<Rightarrow> splitter \<Rightarrow> tables \<Rightarrow> queue_map \<times> fs \<times> 'db \<Rightarrow> msg_queue declared \<Rightarrow> bool" where
  "queues_serve sq tabs bsplit T x D \<longleftrightarrow> (case x of (m, s, db) \<Rightarrow> mq_inv sq tabs bsplit T m db D)"

interpretation queue_sim: simulation "queue_decl_step sq bsplit dbfile" queue_decl_spec queue_decl_ok
  "queues_serve sq tabs bsplit T" for sq bsplit dbfile tabs T
proof unfold_locales
  fix x :: "queue_map \<times> fs \<times> 'a" and D c
  assume "queues_serve sq tabs bsplit T x D" and c: "queue_decl_ok c D"
  then obtain m s db where x: "x = (m, s, db)" and inv: "mq_inv sq tabs bsplit T m db D"
    by (cases x) (auto simp: queues_serve_def)
  show "\<exists>x'. queue_decl_step sq bsplit dbfile c x = Inr (fst (queue_decl_spec c D), x') \<and>
      queues_serve sq tabs bsplit T x' (snd (queue_decl_spec c D))"
  proof (cases c)
    case (DeclareQueue name d e a args)
    with declare_queue_inv [OF inv refl, of d name e a args] c show ?thesis
      by (auto simp: x queues_serve_def)
  next
    case (DeleteQueue name)
    with delete_queue_inv [OF inv, of name] show ?thesis by (auto simp: x queues_serve_def)
  next
    case StartQueues
    with queue_inv_restart [OF inv, of dbfile s] show ?thesis by (auto simp: x queues_serve_def)
  qed
qed

section \<open>Properties\<close>

text \<open>
  The queue manager's map and its table keep agreeing: from any state in which they do, every
  sequence of declarations, deletions and restarts succeeds and leaves them agreeing with what was
  declared and not deleted; after a restart these are exactly the durable queues.
\<close>

theorem queues_survive_restart:
  assumes "queues_serve sq tabs bsplit T x D" and "run_ok queue_decl_spec queue_decl_ok cs D"
  shows "\<exists>m s db. run_cmds (queue_decl_step sq bsplit dbfile) (cs @ [StartQueues]) x =
      Inr (fst (run_spec queue_decl_spec (cs @ [StartQueues]) D), m, s, db) \<and>
    queues_serve sq tabs bsplit T (m, s, db) (snd (run_spec queue_decl_spec (cs @ [StartQueues]) D)) \<and>
    (\<forall>name. queue_exists name m \<longleftrightarrow>
       (\<exists>q b. snd (run_spec queue_decl_spec cs D) name = Some (q, b) \<and> mq_durable q))"
proof -
  let ?D = "snd (run_spec queue_decl_spec cs D)"
  have "run_ok queue_decl_spec queue_decl_ok (cs @ [StartQueues]) D" using assms(2) by (simp add: run_ok_append)
  from queue_sim.run_sim [OF assms(1) this, of dbfile] obtain y where
    run: "run_cmds (queue_decl_step sq bsplit dbfile) (cs @ [StartQueues]) x =
      Inr (fst (run_spec queue_decl_spec (cs @ [StartQueues]) D), y)"
    and srv: "queues_serve sq tabs bsplit T y (snd (run_spec queue_decl_spec (cs @ [StartQueues]) D))"
    by (elim exE conjE)
  obtain m s db where y: "y = (m, s, db)" by (cases y)
  have "mq_inv sq tabs bsplit T m db (spec_reload mq_durable ?D)"
    using srv by (simp add: y queues_serve_def run_spec_append)
  from mq_inv_find [OF this] have "queue_exists name m \<longleftrightarrow> (\<exists>q b. ?D name = Some (q, b) \<and> mq_durable q)" for name
    by (auto simp: queue_exists_def spec_reload_def split: option.split)
  then show ?thesis using run srv unfolding y by blast
qed

definition sample_queue_db :: tables where
  "sample_queue_db = (\<lambda>_. None)(''queue_table'' \<mapsto> table_of queue_columns mq_values [])"

lemma sample_queue_serve:
  "queues_serve mini_sqlite (\<lambda>db. db) ref_split (\<lambda>_. None) ([], \<lparr>fs_files = \<lambda>_. None, fs_dirs = []\<rparr>, sample_queue_db) (\<lambda>_. None)"
proof -
  have "mq_stored mini_sqlite (\<lambda>db. db) (\<lambda>_. None) sample_queue_db []"
    by (simp add: mq_stored_def table_holds_def mini_sqlite_ok sample_queue_db_def)
  then show ?thesis
    using tracks_empty [where stored = "mq_stored mini_sqlite (\<lambda>db. db) (\<lambda>_. None)"]
    by (simp add: queues_serve_def mq_inv_def)
qed

definition sample_queue_decls :: "queue_decl list" where
  "sample_queue_decls = [DeclareQueue ''q'' True False False [], DeclareQueue ''r'' False False False [], DeleteQueue ''s'']"

lemma sample_queue_decls_ok: "run_ok queue_decl_spec queue_decl_ok sample_queue_decls (\<lambda>_. None)"
  by (simp add: sample_queue_decls_def mq_storable_def plain_def mq_get_args_def format_args_def plain_args_def
      mq_values_def quote_def flag_def show_int_def show_nat.simps)

theorem queues_survive_restart_witness:
  "\<exists>m s db. run_cmds (queue_decl_step mini_sqlite ref_split ''host.db'') (sample_queue_decls @ [StartQueues])
        ([], \<lparr>fs_files = \<lambda>_. None, fs_dirs = []\<rparr>, sample_queue_db) =
      Inr (fst (run_spec queue_decl_spec (sample_queue_decls @ [StartQueues]) (\<lambda>_. None)), m, s, db) \<and>
    queues_serve mini_sqlite (\<lambda>db. db) ref_split (\<lambda>_. None) (m, s, db)
      (snd (run_spec queue_decl_spec (sample_queue_decls @ [StartQueues]) (\<lambda>_. None))) \<and>
    (\<forall>name. queue_exists name m \<longleftrightarrow>
       (\<exists>q b. snd (run_spec queue_decl_spec sample_queue_decls (\<lambda>_. None)) name = Some (q, b) \<and> mq_durable q))"
  by (rule queues_survive_restart [OF sample_queue_serve sample_queue_decls_ok])

end
