(* ===== verification/Binding.thy ===== *)
theory Binding
  imports Registry Mini_Sqlite
begin

text \<open>
  \<open>HareMQ/mqserver/binding.hpp\<close>: which queues an exchange is bound to, under which key, with the
  mapper that keeps the durable bindings and the manager that keeps all of them.
\<close>

section \<open>Bindings\<close>

record binding =
  bd_exchange_name :: string
  bd_msg_queue_name :: string
  bd_binding_key :: string

type_synonym msg_queue_binding_map = "(string, binding) umap"
type_synonym binding_map = "(string, msg_queue_binding_map) umap"

definition mk_binding :: "string \<Rightarrow> string \<Rightarrow> string \<Rightarrow> binding" where
  "mk_binding ename qname key = \<lparr>bd_exchange_name = ename, bd_msg_queue_name = qname, bd_binding_key = key\<rparr>"

section \<open>The mapper\<close>

definition binding_columns :: "(string \<times> string \<times> bool) list" where
  "binding_columns =
     [(''exchange_name'', ''varchar(32)'', False), (''msg_queue_name'', ''varchar(32)'', False),
      (''binding_key'', ''varchar(128)'', False)]"

definition BINDING_CREATE_TABLE :: string where
  "BINDING_CREATE_TABLE = render (CreateTable ''binding_table'' binding_columns)"

definition BINDING_DROP_TABLE :: string where
  "BINDING_DROP_TABLE = ''drop table if exists binding_table;''"

definition BINDING_INSERT_SQL :: "string \<Rightarrow> string \<Rightarrow> string \<Rightarrow> string" where
  "BINDING_INSERT_SQL e q k =
     ''insert into binding_table values('' @ quote e @ '', '' @ quote q @ '', '' @ quote k @ '');''"

definition BINDING_DELETE_SQL :: "string \<Rightarrow> string \<Rightarrow> string" where
  "BINDING_DELETE_SQL e q =
     ''delete from binding_table where exchange_name='' @ quote e @ '' and msg_queue_name='' @ quote q @ '';''"

definition BINDING_DELETE_EXCHANGE_SQL :: "string \<Rightarrow> string" where
  "BINDING_DELETE_EXCHANGE_SQL e = ''delete from binding_table where exchange_name='' @ quote e @ '';''"

definition BINDING_DELETE_QUEUE_SQL :: "string \<Rightarrow> string" where
  "BINDING_DELETE_QUEUE_SQL q = ''delete from binding_table where msg_queue_name='' @ quote q @ '';''"

definition BINDING_SELECT_SQL :: string where
  "BINDING_SELECT_SQL = ''select * from binding_table;''"

definition bd_create_table :: "'db sqlite \<Rightarrow> 'db \<Rightarrow> 'db result" where
  "bd_create_table sq db = exec_or_abort sq BINDING_CREATE_TABLE db"

definition bd_remove_table :: "'db sqlite \<Rightarrow> 'db \<Rightarrow> 'db result" where
  "bd_remove_table sq db = exec_or_abort sq BINDING_DROP_TABLE db"

definition bd_insert :: "'db sqlite \<Rightarrow> binding \<Rightarrow> 'db \<Rightarrow> (bool \<times> 'db) result" where
  "bd_insert sq b db =
     exec_formatted sq (BINDING_INSERT_SQL (c_str (bd_exchange_name b)) (c_str (bd_msg_queue_name b))
       (c_str (bd_binding_key b))) db"

definition bd_remove :: "'db sqlite \<Rightarrow> string \<Rightarrow> string \<Rightarrow> 'db \<Rightarrow> 'db result" where
  "bd_remove sq ename qname db =
     rbind (exec_formatted sq (BINDING_DELETE_SQL (c_str ename) (c_str qname)) db) (\<lambda>(ret, db'). Inr db')"

definition bd_remove_exchange :: "'db sqlite \<Rightarrow> string \<Rightarrow> 'db \<Rightarrow> 'db result" where
  "bd_remove_exchange sq ename db =
     rbind (exec_formatted sq (BINDING_DELETE_EXCHANGE_SQL (c_str ename)) db) (\<lambda>(ret, db'). Inr db')"

definition bd_remove_queue :: "'db sqlite \<Rightarrow> string \<Rightarrow> 'db \<Rightarrow> 'db result" where
  "bd_remove_queue sq qname db =
     rbind (exec_formatted sq (BINDING_DELETE_QUEUE_SQL (c_str qname)) db) (\<lambda>(ret, db'). Inr db')"

text \<open>\<open>(*result)[name]\<close> makes an empty inner map when there is none.\<close>

definition inner :: "binding_map \<Rightarrow> string \<Rightarrow> msg_queue_binding_map" where
  "inner m ename = (case map_of m ename of None \<Rightarrow> [] | Some qmap \<Rightarrow> qmap)"

definition add_binding :: "binding \<Rightarrow> binding_map \<Rightarrow> binding_map" where
  "add_binding b m =
     um_put (bd_exchange_name b) (um_insert (bd_msg_queue_name b) b (inner m (bd_exchange_name b))) m"

fun bd_of_row :: "string option list \<Rightarrow> binding result" where
  "bd_of_row (Some e # Some q # Some k # rest) = Inr (mk_binding e q k)"
| "bd_of_row row = Inl Undefined"

fun bd_load :: "string option list list \<Rightarrow> binding_map \<Rightarrow> binding_map result" where
  "bd_load [] m = Inr m"
| "bd_load (row # rows) m = rbind (bd_of_row row) (\<lambda>b. bd_load rows (add_binding b m))"

definition bd_all :: "'db sqlite \<Rightarrow> 'db \<Rightarrow> (binding_map \<times> 'db) result" where
  "bd_all sq db =
     (case sql_exec sq BINDING_SELECT_SQL db of
        (ok, rows, db') \<Rightarrow> rbind (bd_load rows []) (\<lambda>m. Inr (m, db')))"

section \<open>The manager\<close>

definition binding_manager_new :: "'db sqlite \<Rightarrow> string \<Rightarrow> fs \<Rightarrow> 'db \<Rightarrow> (binding_map \<times> fs \<times> 'db) result" where
  "binding_manager_new sq dbfile s db =
     rbind (open_db sq dbfile s db) (\<lambda>(s1, db1).
       rbind (bd_create_table sq db1) (\<lambda>db2.
         rbind (bd_all sq db2) (\<lambda>(m, db3). Inr (m, s1, db3))))"

definition find_binding :: "binding_map \<Rightarrow> string \<Rightarrow> string \<Rightarrow> binding option" where
  "find_binding m ename qname =
     (case map_of m ename of None \<Rightarrow> None | Some qmap \<Rightarrow> map_of qmap qname)"

definition bind_queue ::
  "'db sqlite \<Rightarrow> string \<Rightarrow> string \<Rightarrow> string \<Rightarrow> bool \<Rightarrow> binding_map \<Rightarrow> 'db \<Rightarrow> (bool \<times> binding_map \<times> 'db) result" where
  "bind_queue sq ename qname key durable m db =
     (if find_binding m ename qname \<noteq> None then Inr (True, m, db)
      else
        let bp = mk_binding ename qname key
        in rbind (if durable then bd_insert sq bp db else Inr (True, db)) (\<lambda>(ret, db').
          if \<not> ret then Inr (False, m, db') else Inr (True, add_binding bp m, db')))"

definition unbind :: "'db sqlite \<Rightarrow> string \<Rightarrow> string \<Rightarrow> binding_map \<Rightarrow> 'db \<Rightarrow> (binding_map \<times> 'db) result" where
  "unbind sq ename qname m db =
     (case map_of m ename of
        None \<Rightarrow> Inr (m, db)
      | Some qmap \<Rightarrow>
          if map_of qmap qname = None then Inr (m, db)
          else rbind (bd_remove sq ename qname db) (\<lambda>db'. Inr (um_put ename (um_erase qname qmap) m, db')))"

definition unbind_exchange :: "'db sqlite \<Rightarrow> string \<Rightarrow> binding_map \<Rightarrow> 'db \<Rightarrow> (binding_map \<times> 'db) result" where
  "unbind_exchange sq ename m db = rbind (bd_remove_exchange sq ename db) (\<lambda>db'. Inr (um_erase ename m, db'))"

definition unbind_queue :: "'db sqlite \<Rightarrow> string \<Rightarrow> binding_map \<Rightarrow> 'db \<Rightarrow> (binding_map \<times> 'db) result" where
  "unbind_queue sq qname m db =
     rbind (bd_remove_queue sq qname db) (\<lambda>db'. Inr (map (\<lambda>(e, qmap). (e, um_erase qname qmap)) m, db'))"

definition get_exchange_bindings :: "binding_map \<Rightarrow> string \<Rightarrow> msg_queue_binding_map" where
  "get_exchange_bindings m ename = (case map_of m ename of None \<Rightarrow> [] | Some qmap \<Rightarrow> qmap)"

definition get_binding :: "binding_map \<Rightarrow> string \<Rightarrow> string \<Rightarrow> binding option" where
  "get_binding m ename qname =
     (case map_of m ename of
        None \<Rightarrow> None
      | Some qmap \<Rightarrow> (case map_of qmap qname of None \<Rightarrow> None | Some b \<Rightarrow> Some b))"

definition binding_exists :: "binding_map \<Rightarrow> string \<Rightarrow> string \<Rightarrow> bool" where
  "binding_exists m ename qname =
     (case map_of m ename of
        None \<Rightarrow> False
      | Some qmap \<Rightarrow> (case map_of qmap qname of None \<Rightarrow> False | Some b \<Rightarrow> True))"

definition binding_count :: "binding_map \<Rightarrow> nat" where
  "binding_count m = sum_list (map (\<lambda>(e, qmap). length qmap) m)"

definition clear_bindings :: "'db sqlite \<Rightarrow> binding_map \<Rightarrow> 'db \<Rightarrow> (binding_map \<times> 'db) result" where
  "clear_bindings sq m db = rbind (bd_remove_table sq db) (\<lambda>db'. Inr ([], db'))"

section \<open>Specification\<close>

text \<open>Each bound pair of an exchange and a queue with its key and whether it is durable.\<close>

type_synonym spec_bindings = "string \<Rightarrow> string \<Rightarrow> (string \<times> bool) option"

definition spec_bind :: "string \<Rightarrow> string \<Rightarrow> string \<Rightarrow> bool \<Rightarrow> spec_bindings \<Rightarrow> spec_bindings" where
  "spec_bind ename qname key durable A =
     (if A ename qname = None then A(ename := (A ename)(qname \<mapsto> (key, durable))) else A)"

definition spec_unbind :: "(string \<Rightarrow> string \<Rightarrow> bool) \<Rightarrow> spec_bindings \<Rightarrow> spec_bindings" where
  "spec_unbind gone A = (\<lambda>e q. if gone e q then None else A e q)"

definition spec_durable :: "spec_bindings \<Rightarrow> spec_bindings" where
  "spec_durable A = (\<lambda>e q. case A e q of Some (k, True) \<Rightarrow> Some (k, True) | _ \<Rightarrow> None)"

section \<open>Representation\<close>

definition bd_values :: "binding \<Rightarrow> sql_value list" where
  "bd_values b = [Txt (bd_exchange_name b), Txt (bd_msg_queue_name b), Txt (bd_binding_key b)]"

definition bd_table :: "binding list \<Rightarrow> sql_table" where
  "bd_table bs = \<lparr>st_cols = map fst binding_columns, st_keyed = False, st_rows = map (map value_text \<circ> bd_values) bs\<rparr>"

definition short :: "string \<Rightarrow> bool" where
  "short t \<longleftrightarrow> plain t \<and> length t \<le> 1300"

definition pair :: "binding \<Rightarrow> string \<times> string" where
  "pair b = (bd_exchange_name b, bd_msg_queue_name b)"

definition bd_rows :: "'db sqlite \<Rightarrow> ('db \<Rightarrow> tables) \<Rightarrow> tables \<Rightarrow> 'db \<Rightarrow> spec_bindings \<Rightarrow> bool" where
  "bd_rows sq tabs T db A \<longleftrightarrow> sqlite_ok sq tabs \<and> (\<forall>t. t \<noteq> ''binding_table'' \<longrightarrow> tabs db t = T t) \<and>
     (\<exists>bs. tabs db ''binding_table'' = Some (bd_table bs) \<and> distinct (map pair bs) \<and>
        (\<forall>b. b \<in> set bs \<longleftrightarrow> A (bd_exchange_name b) (bd_msg_queue_name b) = Some (bd_binding_key b, True)))"

definition bd_map :: "binding_map \<Rightarrow> spec_bindings \<Rightarrow> bool" where
  "bd_map m A \<longleftrightarrow> um_wf m \<and> (\<forall>(e, qmap) \<in> set m. um_wf qmap) \<and>
     (\<forall>e q. find_binding m e q = map_option (\<lambda>(k, d). mk_binding e q k) (A e q))"

definition bd_inv :: "'db sqlite \<Rightarrow> ('db \<Rightarrow> tables) \<Rightarrow> tables \<Rightarrow> binding_map \<Rightarrow> 'db \<Rightarrow> spec_bindings \<Rightarrow> bool" where
  "bd_inv sq tabs T m db A \<longleftrightarrow> bd_map m A \<and> bd_rows sq tabs T db A"

lemma find_add_binding:
  "find_binding (add_binding b m) e q =
    (if (e, q) = pair b then Some (case find_binding m e q of None \<Rightarrow> b | Some b' \<Rightarrow> b')
     else find_binding m e q)"
  by (auto simp: find_binding_def add_binding_def inner_def pair_def um_find_put um_find_insert split: option.splits)

lemma wf_add_binding:
  assumes "um_wf m" and "\<forall>(e, qmap) \<in> set m. um_wf qmap"
  shows "um_wf (add_binding b m)" and "\<forall>(e, qmap) \<in> set (add_binding b m). um_wf qmap"
proof -
  show "um_wf (add_binding b m)" using assms(1) by (simp add: add_binding_def um_wf_put)
  have "um_wf (inner m x)" for x
    using assms(2) by (auto simp: inner_def split: option.split dest!: map_of_SomeD)
  then show "\<forall>(e, qmap) \<in> set (add_binding b m). um_wf qmap"
    using assms(2) by (auto simp: add_binding_def um_put_def um_wf_insert split: option.splits)
qed

lemma binding_known: "(''binding_table'', binding_columns) \<in> set known_tables"
  by (simp add: known_tables_def binding_columns_def)

lemma binding_sql:
  "BINDING_DROP_TABLE = render (DropTable ''binding_table'')"
  "BINDING_SELECT_SQL = render (SelectFrom ''binding_table'' [])"
  "BINDING_DELETE_SQL e q =
     render (DeleteFrom ''binding_table'' [(''exchange_name'', e), (''msg_queue_name'', q)])"
  "BINDING_DELETE_EXCHANGE_SQL e = render (DeleteFrom ''binding_table'' [(''exchange_name'', e)])"
  "BINDING_DELETE_QUEUE_SQL q = render (DeleteFrom ''binding_table'' [(''msg_queue_name'', q)])"
  "BINDING_INSERT_SQL e q k = render (InsertInto ''binding_table'' [Txt e, Txt q, Txt k])"
  by (simp_all add: BINDING_DROP_TABLE_def BINDING_SELECT_SQL_def BINDING_DELETE_SQL_def
      BINDING_DELETE_EXCHANGE_SQL_def BINDING_DELETE_QUEUE_SQL_def BINDING_INSERT_SQL_def)

lemma bd_map_add:
  assumes "bd_map m A" and "A e q = None"
  shows "bd_map (add_binding (mk_binding e q k) m) (spec_bind e q k d A)"
  using assms wf_add_binding [of m "mk_binding e q k"]
  by (auto simp: bd_map_def find_add_binding pair_def mk_binding_def spec_bind_def)

lemma bd_rows_add:
  assumes rows: "bd_rows sq tabs T db A" and new: "A e q = None" and short: "short e" "short q" "short k"
  shows "\<exists>db'. bd_insert sq (mk_binding e q k) db = Inr (True, db') \<and> bd_rows sq tabs T db' (spec_bind e q k True A)"
proof -
  let ?st = "InsertInto ''binding_table'' [Txt e, Txt q, Txt k]"
  obtain bs where sq: "sqlite_ok sq tabs" and t: "tabs db ''binding_table'' = Some (bd_table bs)"
    and dist: "distinct (map pair bs)"
    and bs: "\<forall>b. b \<in> set bs \<longleftrightarrow> A (bd_exchange_name b) (bd_msg_queue_name b) = Some (bd_binding_key b, True)"
    using rows by (auto simp: bd_rows_def)
  have "plain_stmt ?st" using short by (simp add: known_tables_def plain_value_def short_def)
  then obtain b rows db' where x: "sql_exec sq (render ?st) db = (b, rows, db')"
    "sql_sem ?st (tabs db) = (b, rows, tabs db')"
    by (rule exec_plain [OF sq])
  have "length (render ?st) < 4096" using short by (simp add: short_def quote_def)
  then have run: "bd_insert sq (mk_binding e q k) db = Inr (b, db')"
    using short x(1) by (simp add: bd_insert_def exec_formatted_def mk_binding_def plain_c_str short_def
        binding_sql sprintf_buf_def del: render.simps)
  have "sql_sem ?st (tabs db) = (True, [], (tabs db)(''binding_table'' \<mapsto> bd_table (bs @ [mk_binding e q k])))"
    using t by (simp add: bd_table_def binding_columns_def bd_values_def mk_binding_def Let_def)
  then have b: "b" and "tabs db' ''binding_table'' = Some (bd_table (bs @ [mk_binding e q k]))"
    and rest: "\<forall>t. t \<noteq> ''binding_table'' \<longrightarrow> tabs db' t = T t"
    unfolding x(2) using rows by (simp_all add: bd_rows_def)
  moreover have "distinct (map pair (bs @ [mk_binding e q k]))"
  proof -
    have "(e, q) \<notin> pair ` set bs"
    proof
      assume "(e, q) \<in> pair ` set bs"
      then obtain b where "b \<in> set bs" "bd_exchange_name b = e" "bd_msg_queue_name b = q"
        by (auto simp: pair_def)
      then have "A e q = Some (bd_binding_key b, True)" using bs by blast
      then show False using new by simp
    qed
    then show ?thesis using dist by (simp add: pair_def mk_binding_def)
  qed
  moreover have "\<forall>b. b \<in> set (bs @ [mk_binding e q k]) \<longleftrightarrow>
      spec_bind e q k True A (bd_exchange_name b) (bd_msg_queue_name b) = Some (bd_binding_key b, True)"
  proof
    fix b
    show "b \<in> set (bs @ [mk_binding e q k]) \<longleftrightarrow>
        spec_bind e q k True A (bd_exchange_name b) (bd_msg_queue_name b) = Some (bd_binding_key b, True)"
      using bs [rule_format, of b] new by (cases b) (auto simp: spec_bind_def mk_binding_def)
  qed
  ultimately have "bd_rows sq tabs T db' (spec_bind e q k True A)" using sq rest unfolding bd_rows_def by blast
  then show ?thesis using run b by simp
qed

lemma bd_rows_spec:
  assumes "bd_rows sq tabs T db A" and "\<forall>e q k. A' e q = Some (k, True) \<longleftrightarrow> A e q = Some (k, True)"
  shows "bd_rows sq tabs T db A'"
  using assms by (simp add: bd_rows_def)

lemma bd_rows_delete:
  assumes rows: "bd_rows sq tabs T db A" and st: "plain_stmt (DeleteFrom ''binding_table'' cs)"
    and len: "length (render (DeleteFrom ''binding_table'' cs)) < 4096"
    and gone: "\<And>e q k. gone e q \<longleftrightarrow>
      (\<forall>(c, x) \<in> set cs. column (map fst binding_columns) [e, q, k] c = Some x)"
  shows "\<exists>b db'. exec_formatted sq (render (DeleteFrom ''binding_table'' cs)) db = Inr (b, db') \<and>
    bd_rows sq tabs T db' (spec_unbind gone A)"
proof -
  let ?st = "DeleteFrom ''binding_table'' cs"
  obtain bs where sq: "sqlite_ok sq tabs" and t: "tabs db ''binding_table'' = Some (bd_table bs)"
    and dist: "distinct (map pair bs)"
    and bs: "\<forall>b. b \<in> set bs \<longleftrightarrow> A (bd_exchange_name b) (bd_msg_queue_name b) = Some (bd_binding_key b, True)"
    using rows by (auto simp: bd_rows_def)
  obtain b out db' where x: "sql_exec sq (render ?st) db = (b, out, db')"
    "sql_sem ?st (tabs db) = (b, out, tabs db')"
    by (rule exec_plain [OF sq st])
  let ?bs = "filter (\<lambda>b. \<not> gone (bd_exchange_name b) (bd_msg_queue_name b)) bs"
  have "(\<forall>(c, x) \<in> set cs. column (map fst binding_columns) (map value_text (bd_values b)) c = Some x) \<longleftrightarrow>
      gone (bd_exchange_name b) (bd_msg_queue_name b)" for b
    by (simp add: bd_values_def gone [of _ _ "bd_binding_key b"])
  then have "filter (\<lambda>row. \<not> (\<forall>(c, x) \<in> set cs. column (map fst binding_columns) row c = Some x))
      (map (map value_text \<circ> bd_values) bs) = map (map value_text \<circ> bd_values) ?bs"
    by (simp only: filter_map comp_def)
  then have "sql_sem ?st (tabs db) = (True, [], (tabs db)(''binding_table'' \<mapsto> bd_table ?bs))"
    using t by (simp add: bd_table_def)
  then have "tabs db' ''binding_table'' = Some (bd_table ?bs)"
    and rest: "\<forall>t. t \<noteq> ''binding_table'' \<longrightarrow> tabs db' t = T t"
    unfolding x(2) using rows by (simp_all add: bd_rows_def)
  moreover have "distinct (map pair ?bs)" using dist by (rule distinct_map_filter)
  moreover have "\<forall>b. b \<in> set ?bs \<longleftrightarrow>
      spec_unbind gone A (bd_exchange_name b) (bd_msg_queue_name b) = Some (bd_binding_key b, True)"
    using bs by (simp add: spec_unbind_def)
  ultimately have "bd_rows sq tabs T db' (spec_unbind gone A)" using sq rest unfolding bd_rows_def by blast
  then show ?thesis
    using x(1) len by (simp add: exec_formatted_def sprintf_buf_def del: render.simps)
qed

section \<open>The operations refine the specification\<close>

lemma find_none: "bd_map m A \<Longrightarrow> find_binding m e q = None \<longleftrightarrow> A e q = None"
  by (simp add: bd_map_def)

lemma bind_refines:
  assumes inv: "bd_inv sq tabs T m db A" and short: "d \<longrightarrow> short e \<and> short q \<and> short k"
  shows "\<exists>m' db'. bind_queue sq e q k d m db = Inr (True, m', db') \<and> bd_inv sq tabs T m' db' (spec_bind e q k d A)"
proof (cases "A e q")
  case None
  have f: "find_binding m e q = None" using inv None by (simp add: bd_inv_def find_none [of m A])
  have m: "bd_map (add_binding (mk_binding e q k) m) (spec_bind e q k d A)"
    using inv None by (simp add: bd_inv_def bd_map_add)
  show ?thesis
  proof (cases d)
    case True
    obtain db' where "bd_insert sq (mk_binding e q k) db = Inr (True, db')" "bd_rows sq tabs T db' (spec_bind e q k True A)"
      using bd_rows_add [of sq tabs T db A e q k] inv None short True by (auto simp: bd_inv_def)
    then show ?thesis using m f True by (simp add: bind_queue_def bd_inv_def)
  next
    case False
    have "bd_rows sq tabs T db (spec_bind e q k False A)"
      by (rule bd_rows_spec [where A = A]) (use inv None in \<open>auto simp: bd_inv_def spec_bind_def\<close>)
    then show ?thesis using m f False by (simp add: bind_queue_def bd_inv_def)
  qed
next
  case (Some x)
  then have "find_binding m e q \<noteq> None" using inv by (simp add: bd_inv_def find_none [of m A])
  then show ?thesis using inv Some by (simp add: bind_queue_def spec_bind_def)
qed

lemma find_um_put: "find_binding (um_put e qmap m) e' q = (if e' = e then map_of qmap q else find_binding m e' q)"
  by (simp add: find_binding_def um_find_put)

lemma wf_put:
  "um_wf m \<Longrightarrow> \<forall>(e, qmap) \<in> set m. um_wf qmap \<Longrightarrow> um_wf x \<Longrightarrow>
    um_wf (um_put e x m) \<and> (\<forall>(e, qmap) \<in> set (um_put e x m). um_wf qmap)"
  by (auto simp: um_put_def um_wf_put [unfolded um_put_def] split: option.splits)

lemma unbind_refines:
  assumes inv: "bd_inv sq tabs T m db A" and short: "short e" "short q"
  shows "\<exists>m' db'. unbind sq e q m db = Inr (m', db') \<and>
    bd_inv sq tabs T m' db' (spec_unbind (\<lambda>e' q'. e' = e \<and> q' = q) A)"
proof (cases "A e q")
  case None
  then have "spec_unbind (\<lambda>e' q'. e' = e \<and> q' = q) A = A" by (auto simp: spec_unbind_def fun_eq_iff)
  moreover have "find_binding m e q = None" using inv None by (simp add: bd_inv_def find_none [of m A])
  then have "unbind sq e q m db = Inr (m, db)"
    by (simp add: unbind_def find_binding_def split: option.splits)
  ultimately show ?thesis using inv by simp
next
  case (Some x)
  then have "find_binding m e q \<noteq> None" using inv by (simp add: bd_inv_def find_none [of m A])
  then obtain qmap where qmap: "map_of m e = Some qmap" "map_of qmap q \<noteq> None"
    by (auto simp: find_binding_def split: option.splits)
  let ?cs = "[(''exchange_name'', e), (''msg_queue_name'', q)]"
  have "\<exists>b db'. exec_formatted sq (render (DeleteFrom ''binding_table'' ?cs)) db = Inr (b, db') \<and>
    bd_rows sq tabs T db' (spec_unbind (\<lambda>e' q'. e' = e \<and> q' = q) A)"
    using inv short by (intro bd_rows_delete) (auto simp: bd_inv_def known_tables_def short_def quote_def
        column_def binding_columns_def)
  then obtain b db' where x: "exec_formatted sq (render (DeleteFrom ''binding_table'' ?cs)) db = Inr (b, db')"
    "bd_rows sq tabs T db' (spec_unbind (\<lambda>e' q'. e' = e \<and> q' = q) A)" by blast
  have "bd_remove sq e q db = Inr db'"
    using x(1) short by (simp only: bd_remove_def plain_c_str short_def binding_sql rbind.simps prod.case)
  then have run: "unbind sq e q m db = Inr (um_put e (um_erase q qmap) m, db')"
    using qmap by (auto simp: unbind_def)
  have "um_wf qmap" using inv qmap(1) by (auto simp: bd_inv_def bd_map_def dest!: map_of_SomeD)
  then have "bd_map (um_put e (um_erase q qmap) m) (spec_unbind (\<lambda>e' q'. e' = e \<and> q' = q) A)"
  proof -
    have "map_of qmap x = find_binding m e x" for x using qmap(1) by (simp add: find_binding_def)
    with \<open>um_wf qmap\<close> show ?thesis
      using inv wf_put [of m "um_erase q qmap" e]
      by (auto simp: bd_inv_def bd_map_def find_um_put um_find_erase spec_unbind_def um_wf_erase)
  qed
  with run x(2) show ?thesis by (simp add: bd_inv_def)
qed

lemma unbind_exchange_refines:
  assumes inv: "bd_inv sq tabs T m db A" and short: "short e"
  shows "\<exists>m' db'. unbind_exchange sq e m db = Inr (m', db') \<and>
    bd_inv sq tabs T m' db' (spec_unbind (\<lambda>e' q'. e' = e) A)"
proof -
  let ?cs = "[(''exchange_name'', e)]"
  have "\<exists>b db'. exec_formatted sq (render (DeleteFrom ''binding_table'' ?cs)) db = Inr (b, db') \<and>
    bd_rows sq tabs T db' (spec_unbind (\<lambda>e' q'. e' = e) A)"
    using inv short by (intro bd_rows_delete) (auto simp: bd_inv_def known_tables_def short_def quote_def
        column_def binding_columns_def)
  then obtain b db' where x: "exec_formatted sq (render (DeleteFrom ''binding_table'' ?cs)) db = Inr (b, db')"
    "bd_rows sq tabs T db' (spec_unbind (\<lambda>e' q'. e' = e) A)" by blast
  have "bd_remove_exchange sq e db = Inr db'"
    using x(1) short by (simp only: bd_remove_exchange_def plain_c_str short_def binding_sql rbind.simps prod.case)
  moreover have "bd_map (um_erase e m) (spec_unbind (\<lambda>e' q'. e' = e) A)"
    using inv by (auto simp: bd_inv_def bd_map_def find_binding_def um_find_erase spec_unbind_def um_wf_erase um_set_erase)
  ultimately show ?thesis using x(2) by (simp add: unbind_exchange_def bd_inv_def)
qed

lemma unbind_queue_refines:
  assumes inv: "bd_inv sq tabs T m db A" and short: "short q"
  shows "\<exists>m' db'. unbind_queue sq q m db = Inr (m', db') \<and>
    bd_inv sq tabs T m' db' (spec_unbind (\<lambda>e' q'. q' = q) A)"
proof -
  let ?cs = "[(''msg_queue_name'', q)]"
  have "\<exists>b db'. exec_formatted sq (render (DeleteFrom ''binding_table'' ?cs)) db = Inr (b, db') \<and>
    bd_rows sq tabs T db' (spec_unbind (\<lambda>e' q'. q' = q) A)"
    using inv short by (intro bd_rows_delete) (auto simp: bd_inv_def known_tables_def short_def quote_def
        column_def binding_columns_def)
  then obtain b db' where x: "exec_formatted sq (render (DeleteFrom ''binding_table'' ?cs)) db = Inr (b, db')"
    "bd_rows sq tabs T db' (spec_unbind (\<lambda>e' q'. q' = q) A)" by blast
  have "bd_remove_queue sq q db = Inr db'"
    using x(1) short by (simp only: bd_remove_queue_def plain_c_str short_def binding_sql rbind.simps prod.case)
  moreover have "bd_map (map (\<lambda>(e, qmap). (e, um_erase q qmap)) m) (spec_unbind (\<lambda>e' q'. q' = q) A)"
  proof -
    have wf: "um_wf m" and inner: "\<forall>(e, qmap) \<in> set m. um_wf qmap"
      and find: "\<And>e q. find_binding m e q = map_option (\<lambda>(k, d). mk_binding e q k) (A e q)"
      using inv by (auto simp: bd_inv_def bd_map_def)
    have "um_wf (map (\<lambda>(e, qmap). (e, um_erase q qmap)) m)"
      using wf by (simp add: um_wf_def comp_def case_prod_beta)
    moreover have "find_binding (map (\<lambda>(e, qmap). (e, um_erase q qmap)) m) e q' = (if q' = q then None else find_binding m e q')" for e q'
      by (simp add: find_binding_def map_of_map_vals um_find_erase split: option.split)
    ultimately show ?thesis
      using inner find by (auto simp: bd_map_def spec_unbind_def um_wf_erase)
  qed
  ultimately show ?thesis using x(2) by (simp add: unbind_queue_def bd_inv_def)
qed

lemma bd_load_add:
  assumes "distinct (map pair bs)" and "um_wf m" and "\<forall>(e, qmap) \<in> set m. um_wf qmap"
    and "\<forall>b \<in> set bs. find_binding m (bd_exchange_name b) (bd_msg_queue_name b) = None"
  shows "\<exists>m'. bd_load (map (\<lambda>b. map (Some \<circ> value_text) (bd_values b)) bs) m = Inr m' \<and> um_wf m' \<and>
    (\<forall>(e, qmap) \<in> set m'. um_wf qmap) \<and>
    (\<forall>e q b. find_binding m' e q = Some b \<longleftrightarrow> find_binding m e q = Some b \<or> (b \<in> set bs \<and> pair b = (e, q)))"
  using assms
proof (induction bs arbitrary: m)
  case (Cons b bs)
  have b: "bd_of_row (map (Some \<circ> value_text) (bd_values b)) = Inr b"
    by (simp add: bd_values_def mk_binding_def)
  have rest: "\<forall>c \<in> set bs. find_binding (add_binding b m) (bd_exchange_name c) (bd_msg_queue_name c) = None"
  proof
    fix c assume c: "c \<in> set bs"
    then have "pair c \<noteq> pair b" using Cons.prems(1) by (auto simp: image_iff)
    then show "find_binding (add_binding b m) (bd_exchange_name c) (bd_msg_queue_name c) = None"
      using Cons.prems(4) c by (simp add: find_add_binding pair_def)
  qed
  have fresh: "find_binding m (bd_exchange_name b) (bd_msg_queue_name b) = None" using Cons.prems(4) by simp
  obtain m' where m': "bd_load (map (\<lambda>b. map (Some \<circ> value_text) (bd_values b)) bs) (add_binding b m) = Inr m'"
    "um_wf m'" "\<forall>(e, qmap) \<in> set m'. um_wf qmap"
    "\<forall>e q c. find_binding m' e q = Some c \<longleftrightarrow>
       find_binding (add_binding b m) e q = Some c \<or> (c \<in> set bs \<and> pair c = (e, q))"
    using Cons.IH [OF _ wf_add_binding [OF Cons.prems(2,3)] rest] Cons.prems(1) by (auto simp: comp_def)
  have "find_binding (add_binding b m) e q = Some c \<longleftrightarrow> find_binding m e q = Some c \<or> (c = b \<and> pair b = (e, q))" for e q c
    using fresh by (auto simp: find_add_binding pair_def)
  with m' b show ?case by (auto simp: comp_def)
qed simp

lemma bindings_restart:
  assumes rows: "bd_rows sq tabs T db A"
  shows "\<exists>m' db'. binding_manager_new sq dbfile s db = Inr (m', snd (create_dir s (parent_dir dbfile)), db') \<and>
    bd_inv sq tabs T m' db' (spec_durable A)"
proof -
  obtain bs where sq: "sqlite_ok sq tabs" and t: "tabs db ''binding_table'' = Some (bd_table bs)"
    and dist: "distinct (map pair bs)"
    and bs: "\<forall>b. b \<in> set bs \<longleftrightarrow> A (bd_exchange_name b) (bd_msg_queue_name b) = Some (bd_binding_key b, True)"
    using rows by (auto simp: bd_rows_def)
  obtain db1 db2 where o: "open_db sq dbfile s db = Inr (snd (create_dir s (parent_dir dbfile)), db1)"
    "exec_or_abort sq (render (CreateTable ''binding_table'' binding_columns)) db1 = Inr db2"
    "sql_sem (CreateTable ''binding_table'' binding_columns) (tabs db) = (True, [], tabs db2)"
    by (rule open_and_create [OF sq binding_known])
  have t2: "tabs db2 = tabs db" using o(3) t by simp
  have "plain_stmt (SelectFrom ''binding_table'' [])" using binding_known by auto
  then obtain b rows db3 where x: "sql_exec sq (render (SelectFrom ''binding_table'' [])) db2 = (b, rows, db3)"
    "sql_sem (SelectFrom ''binding_table'' []) (tabs db2) = (b, rows, tabs db3)"
    by (rule exec_plain [OF sq])
  have r: "rows = map (\<lambda>b. map (Some \<circ> value_text) (bd_values b)) bs" "tabs db3 = tabs db"
    using x(2) t t2 by (auto simp: bd_table_def binding_columns_def bd_values_def column_def)
  obtain m' where m': "bd_load rows [] = Inr m'" "um_wf m'" "\<forall>(e, qmap) \<in> set m'. um_wf qmap"
    "\<forall>e q b. find_binding m' e q = Some b \<longleftrightarrow> find_binding [] e q = Some b \<or> (b \<in> set bs \<and> pair b = (e, q))"
    unfolding r(1) using bd_load_add [OF dist, of "[]"] by (auto simp: find_binding_def)
  have "find_binding m' e q = map_option (\<lambda>(k, d). mk_binding e q k) (spec_durable A e q)" for e q
  proof -
    have "find_binding m' e q = Some c \<longleftrightarrow> c \<in> set bs \<and> pair c = (e, q)" for c
      using m'(4) by (simp add: find_binding_def)
    also have "\<dots> c \<longleftrightarrow> (\<exists>k. A e q = Some (k, True) \<and> c = mk_binding e q k)" for c
      using bs [rule_format, of c] by (cases c) (auto simp: pair_def mk_binding_def)
    finally have *: "find_binding m' e q = Some c \<longleftrightarrow> (\<exists>k. A e q = Some (k, True) \<and> c = mk_binding e q k)" for c .
    show ?thesis
    proof (cases "find_binding m' e q")
      case None
      then have "A e q \<noteq> Some (k, True)" for k using * by auto
      then show ?thesis using None by (auto simp: spec_durable_def split: option.splits bool.splits)
    next
      case (Some c)
      then show ?thesis using * by (auto simp: spec_durable_def)
    qed
  qed
  then have "bd_map m' (spec_durable A)" using m'(2,3) by (simp add: bd_map_def)
  moreover have "bd_rows sq tabs T db3 (spec_durable A)"
  proof -
    have "bd_rows sq tabs T db3 A" using rows r(2) by (simp add: bd_rows_def)
    then show ?thesis
      by (rule bd_rows_spec) (auto simp: spec_durable_def split: option.splits bool.splits)
  qed
  moreover have "binding_manager_new sq dbfile s db = Inr (m', snd (create_dir s (parent_dir dbfile)), db3)"
    using o(1,2) x(1) m'(1) by (simp add: binding_manager_new_def bd_create_table_def BINDING_CREATE_TABLE_def
        bd_all_def binding_sql del: render.simps)
  ultimately show ?thesis by (auto simp: bd_inv_def)
qed

lemma bindings_fresh:
  assumes sq: "sqlite_ok sq tabs" and none: "tabs db ''binding_table'' = None"
  shows "\<exists>m' db'. binding_manager_new sq dbfile s db = Inr (m', snd (create_dir s (parent_dir dbfile)), db') \<and>
    bd_inv sq tabs (tabs db) m' db' (\<lambda>e q. None)"
proof -
  obtain db1 db2 where o: "open_db sq dbfile s db = Inr (snd (create_dir s (parent_dir dbfile)), db1)"
    "exec_or_abort sq (render (CreateTable ''binding_table'' binding_columns)) db1 = Inr db2"
    "sql_sem (CreateTable ''binding_table'' binding_columns) (tabs db) = (True, [], tabs db2)"
    by (rule open_and_create [OF sq binding_known])
  have t2: "tabs db2 = (tabs db)(''binding_table'' \<mapsto> bd_table [])"
    using o(3) none by (simp add: bd_table_def binding_columns_def)
  have "plain_stmt (SelectFrom ''binding_table'' [])" using binding_known by auto
  then obtain b rows db3 where x: "sql_exec sq (render (SelectFrom ''binding_table'' [])) db2 = (b, rows, db3)"
    "sql_sem (SelectFrom ''binding_table'' []) (tabs db2) = (b, rows, tabs db3)"
    by (rule exec_plain [OF sq])
  have r: "rows = []" "tabs db3 = tabs db2" using x(2) t2 by (auto simp: bd_table_def)
  have "bd_inv sq tabs (tabs db) [] db3 (\<lambda>e q. None)"
    using sq r(2) t2 by (auto simp: bd_inv_def bd_map_def bd_rows_def find_binding_def intro!: exI [of _ "[]"])
  moreover have "binding_manager_new sq dbfile s db = Inr ([], snd (create_dir s (parent_dir dbfile)), db3)"
    using o(1,2) x(1) r(1) by (simp add: binding_manager_new_def bd_create_table_def BINDING_CREATE_TABLE_def
        bd_all_def binding_sql del: render.simps)
  ultimately show ?thesis by blast
qed

section \<open>Histories\<close>

datatype binding_cmd =
  Bind string string string bool
| Unbind string string
| UnbindExchange string
| UnbindQueue string
| RestartBindings

fun binding_step ::
  "'db sqlite \<Rightarrow> string \<Rightarrow> binding_cmd \<Rightarrow> binding_map \<times> fs \<times> 'db \<Rightarrow> (binding_map \<times> fs \<times> 'db) result" where
  "binding_step sq dbfile (Bind e q k d) (m, s, db) =
     rbind (bind_queue sq e q k d m db) (\<lambda>(ok, m', db'). if ok then Inr (m', s, db') else Inl Throws)"
| "binding_step sq dbfile (Unbind e q) (m, s, db) = rbind (unbind sq e q m db) (\<lambda>(m', db'). Inr (m', s, db'))"
| "binding_step sq dbfile (UnbindExchange e) (m, s, db) =
     rbind (unbind_exchange sq e m db) (\<lambda>(m', db'). Inr (m', s, db'))"
| "binding_step sq dbfile (UnbindQueue q) (m, s, db) =
     rbind (unbind_queue sq q m db) (\<lambda>(m', db'). Inr (m', s, db'))"
| "binding_step sq dbfile RestartBindings (m, s, db) = binding_manager_new sq dbfile s db"

fun binding_run ::
  "'db sqlite \<Rightarrow> string \<Rightarrow> binding_cmd list \<Rightarrow> binding_map \<times> fs \<times> 'db \<Rightarrow> (binding_map \<times> fs \<times> 'db) result" where
  "binding_run sq dbfile [] x = Inr x"
| "binding_run sq dbfile (c # cs) x = rbind (binding_step sq dbfile c x) (binding_run sq dbfile cs)"

fun spec_binding :: "binding_cmd \<Rightarrow> spec_bindings \<Rightarrow> spec_bindings" where
  "spec_binding (Bind e q k d) A = spec_bind e q k d A"
| "spec_binding (Unbind e q) A = spec_unbind (\<lambda>e' q'. e' = e \<and> q' = q) A"
| "spec_binding (UnbindExchange e) A = spec_unbind (\<lambda>e' q'. e' = e) A"
| "spec_binding (UnbindQueue q) A = spec_unbind (\<lambda>e' q'. q' = q) A"
| "spec_binding RestartBindings A = spec_durable A"

fun binding_cmd_ok :: "binding_cmd \<Rightarrow> bool" where
  "binding_cmd_ok (Bind e q k d) \<longleftrightarrow> (d \<longrightarrow> short e \<and> short q \<and> short k)"
| "binding_cmd_ok (Unbind e q) \<longleftrightarrow> short e \<and> short q"
| "binding_cmd_ok (UnbindExchange e) \<longleftrightarrow> short e"
| "binding_cmd_ok (UnbindQueue q) \<longleftrightarrow> short q"
| "binding_cmd_ok RestartBindings \<longleftrightarrow> True"

lemma binding_step_refines:
  assumes inv: "bd_inv sq tabs T m db A" and c: "binding_cmd_ok c"
  shows "\<exists>m' s' db'. binding_step sq dbfile c (m, s, db) = Inr (m', s', db') \<and>
    bd_inv sq tabs T m' db' (spec_binding c A)"
proof (cases c)
  case (Bind e q k d)
  then show ?thesis using bind_refines [OF inv, of d e q k] c by auto
next
  case (Unbind e q)
  then show ?thesis using unbind_refines [OF inv, of e q] c by auto
next
  case (UnbindExchange e)
  then show ?thesis using unbind_exchange_refines [OF inv, of e] c by auto
next
  case (UnbindQueue q)
  then show ?thesis using unbind_queue_refines [OF inv, of q] c by auto
next
  case RestartBindings
  have "bd_rows sq tabs T db A" using inv by (simp add: bd_inv_def)
  from bindings_restart [OF this, of dbfile s] show ?thesis by (auto simp: RestartBindings)
qed

section \<open>Properties\<close>

text \<open>
  C29: A sequence of binds, unbinds and restarts refines the specification: each pair is bound under the
  key it was first bound with, removing a pair, an exchange or a queue removes exactly its bindings,
  and a restart keeps exactly the durable ones; no operation fails while names and keys are plain
  text of at most 1300 characters.
\<close>

theorem bindings_refine_spec:
  assumes "bd_inv sq tabs T m db A" and "\<forall>c \<in> set cs. binding_cmd_ok c"
  shows "\<exists>m' s' db'. binding_run sq dbfile cs (m, s, db) = Inr (m', s', db') \<and>
    bd_inv sq tabs T m' db' (fold spec_binding cs A)"
  using assms
proof (induction cs arbitrary: m s db A)
  case (Cons c cs)
  obtain m1 s1 db1 where 1: "binding_step sq dbfile c (m, s, db) = Inr (m1, s1, db1)"
    and inv: "bd_inv sq tabs T m1 db1 (spec_binding c A)"
    using binding_step_refines [OF Cons.prems(1)] Cons.prems(2) by (metis list.set_intros(1))
  show ?case using Cons.IH [OF inv, of s1] Cons.prems(2) by (simp add: 1)
qed simp

definition sample_binding_db :: tables where
  "sample_binding_db = (\<lambda>_. None)(''binding_table'' \<mapsto> bd_table [])"

lemma sample_binding_inv: "bd_inv mini_sqlite (\<lambda>db. db) (\<lambda>_. None) [] sample_binding_db (\<lambda>e q. None)"
  by (auto simp: bd_inv_def bd_map_def find_binding_def bd_rows_def mini_sqlite_ok sample_binding_db_def
      intro!: exI [of _ "[]"])

theorem bindings_refine_spec_witness:
  "\<exists>m' s' db'. binding_run mini_sqlite ''host.db'' [Bind ''e'' ''q'' ''news.#'' True, Bind ''e'' ''r'' ''k'' False,
      RestartBindings] ([], \<lparr>fs_files = \<lambda>_. None, fs_dirs = []\<rparr>, sample_binding_db) = Inr (m', s', db') \<and>
    bd_inv mini_sqlite (\<lambda>db. db) (\<lambda>_. None) m' db' (fold spec_binding [Bind ''e'' ''q'' ''news.#'' True,
      Bind ''e'' ''r'' ''k'' False, RestartBindings] (\<lambda>e q. None))"
  by (rule bindings_refine_spec [OF sample_binding_inv]) (simp add: short_def plain_def)

end
