(* ===== verification/Proto_Msg.thy ===== *)
theory Proto_Msg
  imports File_Helper
begin

text \<open>
  The messages of \<open>HareMQ/mqcommon/msg.proto\<close> and the code generated for them in
  \<open>msg.pb.cc\<close>: \<open>BasicProperties\<close>, \<open>Message.Payload\<close> and \<open>Message\<close>, with serialization, parsing
  and size.  The protobuf runtime the generated code calls is not part of the repository: it is
  a record of functions, and \<open>pb_runtime_ok\<close> states the documented wire format.
\<close>

section \<open>Data\<close>

text \<open>Proto3 enums are open, hence the last constructor.\<close>

datatype DeliveryMode = UNKNOWMODE | UNDURABLE | DURABLE | UNNAMEDMODE int

fun mode_num :: "DeliveryMode \<Rightarrow> int" where
  "mode_num UNKNOWMODE = 0"
| "mode_num UNDURABLE = 1"
| "mode_num DURABLE = 2"
| "mode_num (UNNAMEDMODE n) = n"

definition mode_of_num :: "int \<Rightarrow> DeliveryMode" where
  "mode_of_num n =
     (if n = 0 then UNKNOWMODE else if n = 1 then UNDURABLE else if n = 2 then DURABLE
      else UNNAMEDMODE n)"

text \<open>The last field of each record holds the bytes of fields the program does not know.\<close>

record BasicProperties =
  bp_id :: string
  bp_delivery_mode :: DeliveryMode
  bp_routing_key :: string
  bp_unknown :: bytes

record payload =
  pl_properties :: "BasicProperties option"
  pl_body :: string
  pl_valid :: string
  pl_unknown :: bytes

record message =
  msg_payload :: payload
  msg_offset :: "32 word"
  msg_length :: "32 word"

definition default_properties :: BasicProperties where
  "default_properties =
     \<lparr>bp_id = [], bp_delivery_mode = UNKNOWMODE, bp_routing_key = [], bp_unknown = []\<rparr>"

definition default_payload :: payload where
  "default_payload = \<lparr>pl_properties = None, pl_body = [], pl_valid = [], pl_unknown = []\<rparr>"

definition new_message :: message where
  "new_message = \<lparr>msg_payload = default_payload, msg_offset = 0, msg_length = 0\<rparr>"

text \<open>\<open>properties()\<close> reads the default instance when the field is absent.\<close>

definition properties :: "payload \<Rightarrow> BasicProperties" where
  "properties p = (case pl_properties p of None \<Rightarrow> default_properties | Some b \<Rightarrow> b)"

section \<open>The runtime\<close>

record pb_runtime =
  rt_string :: "nat \<Rightarrow> string \<Rightarrow> bytes" \<comment> \<open>\<open>WriteStringMaybeAliased\<close>\<close>
  rt_enum :: "nat \<Rightarrow> int \<Rightarrow> bytes" \<comment> \<open>\<open>WriteEnumToArray\<close>\<close>
  rt_message :: "nat \<Rightarrow> bytes \<Rightarrow> bytes" \<comment> \<open>\<open>InternalWriteMessage\<close>, given the nested bytes\<close>
  rt_tag :: "bytes \<Rightarrow> (nat \<times> bytes) option" \<comment> \<open>\<open>ReadTag\<close>, \<open>None\<close> for a null pointer\<close>
  rt_get_string :: "bytes \<Rightarrow> (string \<times> bytes) option" \<comment> \<open>\<open>InlineGreedyStringParser\<close>\<close>
  rt_get_varint :: "bytes \<Rightarrow> (nat \<times> bytes) option" \<comment> \<open>\<open>ReadVarint64\<close>\<close>
  rt_get_message :: "bytes \<Rightarrow> (bytes \<times> bytes) option" \<comment> \<open>the limit pushed by \<open>ParseMessage\<close>\<close>
  rt_utf8 :: "string \<Rightarrow> bool" \<comment> \<open>\<open>VerifyUTF8\<close>\<close>
  rt_unknown :: "nat \<Rightarrow> bytes \<Rightarrow> (bytes \<times> bytes) option" \<comment> \<open>\<open>UnknownFieldParse\<close>: kept, rest\<close>
  rt_string_size :: "string \<Rightarrow> nat" \<comment> \<open>\<open>StringSize\<close>\<close>
  rt_enum_size :: "int \<Rightarrow> nat" \<comment> \<open>\<open>EnumSize\<close>\<close>
  rt_message_size :: "nat \<Rightarrow> nat" \<comment> \<open>\<open>MessageSize\<close>, given the size of the nested message\<close>

section \<open>Serialization and size\<close>

definition ser_properties :: "pb_runtime \<Rightarrow> BasicProperties \<Rightarrow> bytes" where
  "ser_properties rt b =
     (if bp_id b \<noteq> [] then rt_string rt 1 (bp_id b) else []) @
     (if mode_num (bp_delivery_mode b) \<noteq> 0 then rt_enum rt 2 (mode_num (bp_delivery_mode b)) else []) @
     (if bp_routing_key b \<noteq> [] then rt_string rt 3 (bp_routing_key b) else []) @
     bp_unknown b"

definition ser_payload :: "pb_runtime \<Rightarrow> payload \<Rightarrow> bytes" where
  "ser_payload rt p =
     (case pl_properties p of None \<Rightarrow> [] | Some b \<Rightarrow> rt_message rt 1 (ser_properties rt b)) @
     (if pl_body p \<noteq> [] then rt_string rt 2 (pl_body p) else []) @
     (if pl_valid p \<noteq> [] then rt_string rt 3 (pl_valid p) else []) @
     pl_unknown p"

definition properties_byte_size :: "pb_runtime \<Rightarrow> BasicProperties \<Rightarrow> nat" where
  "properties_byte_size rt b =
     (if bp_id b \<noteq> [] then 1 + rt_string_size rt (bp_id b) else 0) +
     (if bp_routing_key b \<noteq> [] then 1 + rt_string_size rt (bp_routing_key b) else 0) +
     (if mode_num (bp_delivery_mode b) \<noteq> 0 then 1 + rt_enum_size rt (mode_num (bp_delivery_mode b)) else 0) +
     length (bp_unknown b)"

definition payload_byte_size :: "pb_runtime \<Rightarrow> payload \<Rightarrow> nat" where
  "payload_byte_size rt p =
     (if pl_body p \<noteq> [] then 1 + rt_string_size rt (pl_body p) else 0) +
     (if pl_valid p \<noteq> [] then 1 + rt_string_size rt (pl_valid p) else 0) +
     (case pl_properties p of None \<Rightarrow> 0 | Some b \<Rightarrow> 1 + rt_message_size rt (properties_byte_size rt b)) +
     length (pl_unknown p)"

section \<open>Parsing\<close>

text \<open>
  One turn of the \<open>while\<close> loop of \<open>_InternalParse\<close> either goes on with the rest of the input or
  ends: at a stop tag, or in failure.  The message keeps what was parsed before a failure.
\<close>

datatype parse_end = Parsed | Stopped | Failed

datatype 'm turn = More bytes 'm | End parse_end 'm

definition string_field :: "pb_runtime \<Rightarrow> (string \<Rightarrow> 'm \<Rightarrow> 'm) \<Rightarrow> bytes \<Rightarrow> 'm \<Rightarrow> 'm turn" where
  "string_field rt upd s m =
     (case rt_get_string rt s of
        None \<Rightarrow> End Failed m
      | Some (v, s') \<Rightarrow> if rt_utf8 rt v then More s' (upd v m) else End Failed (upd v m))"

definition unusual_field :: "pb_runtime \<Rightarrow> (bytes \<Rightarrow> 'm \<Rightarrow> 'm) \<Rightarrow> nat \<Rightarrow> bytes \<Rightarrow> 'm \<Rightarrow> 'm turn" where
  "unusual_field rt keep tag s m =
     (if tag = 0 \<or> tag mod 8 = 4 then End Stopped m
      else case rt_unknown rt tag s of
          None \<Rightarrow> End Failed m
        | Some (u, s') \<Rightarrow> More s' (keep u m))"

fun parse_loop :: "(bytes \<Rightarrow> 'm \<Rightarrow> 'm turn) \<Rightarrow> nat \<Rightarrow> bytes \<Rightarrow> 'm \<Rightarrow> (parse_end \<times> 'm) option" where
  "parse_loop turn 0 s m = None"
| "parse_loop turn (Suc fuel) s m =
     (if s = [] then Some (Parsed, m)
      else case turn s m of
          End e m' \<Rightarrow> Some (e, m')
        | More s' m' \<Rightarrow> parse_loop turn fuel s' m')"

definition enum_of_varint :: "nat \<Rightarrow> int" where
  "enum_of_varint v = sint (word_of_nat v :: 32 word)"

definition properties_turn :: "pb_runtime \<Rightarrow> bytes \<Rightarrow> BasicProperties \<Rightarrow> BasicProperties turn" where
  "properties_turn rt s m =
     (case rt_tag rt s of
        None \<Rightarrow> End Failed m
      | Some (tag, s1) \<Rightarrow>
          if tag div 8 = 1 \<and> tag mod 256 = 10 then string_field rt (\<lambda>v m. m\<lparr>bp_id := v\<rparr>) s1 m
          else if tag div 8 = 2 \<and> tag mod 256 = 16 then
            (case rt_get_varint rt s1 of
               None \<Rightarrow> End Failed m
             | Some (v, s2) \<Rightarrow> More s2 (m\<lparr>bp_delivery_mode := mode_of_num (enum_of_varint v)\<rparr>))
          else if tag div 8 = 3 \<and> tag mod 256 = 26 then
            string_field rt (\<lambda>v m. m\<lparr>bp_routing_key := v\<rparr>) s1 m
          else unusual_field rt (\<lambda>u m. m\<lparr>bp_unknown := bp_unknown m @ u\<rparr>) tag s1 m)"

definition payload_turn :: "pb_runtime \<Rightarrow> bytes \<Rightarrow> payload \<Rightarrow> payload turn" where
  "payload_turn rt s m =
     (case rt_tag rt s of
        None \<Rightarrow> End Failed m
      | Some (tag, s1) \<Rightarrow>
          if tag div 8 = 1 \<and> tag mod 256 = 10 then
            (case rt_get_message rt s1 of
               None \<Rightarrow> End Failed (m\<lparr>pl_properties := Some (properties m)\<rparr>)
             | Some (sub, s2) \<Rightarrow>
                 (case parse_loop (properties_turn rt) (Suc (length sub)) sub (properties m) of
                    Some (Parsed, b) \<Rightarrow> More s2 (m\<lparr>pl_properties := Some b\<rparr>)
                  | Some (_, b) \<Rightarrow> End Failed (m\<lparr>pl_properties := Some b\<rparr>)
                  | None \<Rightarrow> End Failed m))
          else if tag div 8 = 2 \<and> tag mod 256 = 18 then string_field rt (\<lambda>v m. m\<lparr>pl_body := v\<rparr>) s1 m
          else if tag div 8 = 3 \<and> tag mod 256 = 26 then string_field rt (\<lambda>v m. m\<lparr>pl_valid := v\<rparr>) s1 m
          else unusual_field rt (\<lambda>u m. m\<lparr>pl_unknown := pl_unknown m @ u\<rparr>) tag s1 m)"

text \<open>
  \<open>ParseFromString\<close> clears the message and parses; its result is the flag and what the message
  holds afterwards.  The fuel is enough (\<open>parse_loop_enough\<close>).
\<close>

definition parse_payload :: "pb_runtime \<Rightarrow> bytes \<Rightarrow> bool \<times> payload" where
  "parse_payload rt s =
     (case parse_loop (payload_turn rt) (Suc (length s)) s default_payload of
        Some (e, m) \<Rightarrow> (e = Parsed, m)
      | None \<Rightarrow> (False, default_payload))"

definition par_payload :: "pb_runtime \<Rightarrow> bytes \<Rightarrow> payload" where
  "par_payload rt s = snd (parse_payload rt s)"

section \<open>Documented behaviour of the runtime\<close>

definition int32 :: "int \<Rightarrow> bool" where
  "int32 n \<longleftrightarrow> - (2 ^ 31) \<le> n \<and> n < 2 ^ 31"

definition reads_consume :: "pb_runtime \<Rightarrow> bool" where
  "reads_consume rt \<longleftrightarrow>
     (\<forall>s t r. rt_tag rt s = Some (t, r) \<longrightarrow> length r < length s) \<and>
     (\<forall>s v r. rt_get_string rt s = Some (v, r) \<longrightarrow> length r \<le> length s) \<and>
     (\<forall>s v r. rt_get_varint rt s = Some (v, r) \<longrightarrow> length r \<le> length s) \<and>
     (\<forall>s v r. rt_get_message rt s = Some (v, r) \<longrightarrow> length r \<le> length s) \<and>
     (\<forall>t s u r. rt_unknown rt t s = Some (u, r) \<longrightarrow> length r \<le> length s)"

definition writes_read_back :: "pb_runtime \<Rightarrow> bool" where
  "writes_read_back rt \<longleftrightarrow>
     (\<forall>n v r. 0 < n \<and> n < 16 \<longrightarrow>
        (\<exists>s. rt_tag rt (rt_string rt n v @ r) = Some (8 * n + 2, s) \<and> rt_get_string rt s = Some (v, r))) \<and>
     (\<forall>n k r. 0 < n \<and> n < 16 \<and> int32 k \<longrightarrow>
        (\<exists>s u. rt_tag rt (rt_enum rt n k @ r) = Some (8 * n, s) \<and> rt_get_varint rt s = Some (u, r) \<and>
           enum_of_varint u = k)) \<and>
     (\<forall>n b r. 0 < n \<and> n < 16 \<longrightarrow>
        (\<exists>s. rt_tag rt (rt_message rt n b @ r) = Some (8 * n + 2, s) \<and> rt_get_message rt s = Some (b, r)))"

definition sizes_exact :: "pb_runtime \<Rightarrow> bool" where
  "sizes_exact rt \<longleftrightarrow>
     (\<forall>n v. 0 < n \<and> n < 16 \<longrightarrow> length (rt_string rt n v) = 1 + rt_string_size rt v) \<and>
     (\<forall>n k. 0 < n \<and> n < 16 \<longrightarrow> length (rt_enum rt n k) = 1 + rt_enum_size rt k) \<and>
     (\<forall>n b. 0 < n \<and> n < 16 \<longrightarrow> length (rt_message rt n b) = 1 + rt_message_size rt (length b)) \<and>
     (\<forall>v w. length v = length w \<longrightarrow> rt_string_size rt v = rt_string_size rt w)"

definition ascii :: "string \<Rightarrow> bool" where
  "ascii v \<longleftrightarrow> (\<forall>c \<in> set v. of_char c < (128 :: nat))"

definition pb_runtime_ok :: "pb_runtime \<Rightarrow> bool" where
  "pb_runtime_ok rt \<longleftrightarrow> reads_consume rt \<and> writes_read_back rt \<and> sizes_exact rt \<and>
     (\<forall>v. ascii v \<longrightarrow> rt_utf8 rt v)"

text \<open>The payloads the server builds: text in UTF-8, a mode of 32 bits, no unknown fields.\<close>

definition mode_ok :: "DeliveryMode \<Rightarrow> bool" where
  "mode_ok m \<longleftrightarrow> int32 (mode_num m) \<and> mode_of_num (mode_num m) = m"

definition properties_ok :: "pb_runtime \<Rightarrow> BasicProperties \<Rightarrow> bool" where
  "properties_ok rt b \<longleftrightarrow> rt_utf8 rt (bp_id b) \<and> rt_utf8 rt (bp_routing_key b) \<and>
     mode_ok (bp_delivery_mode b) \<and> bp_unknown b = []"

definition payload_ok :: "pb_runtime \<Rightarrow> payload \<Rightarrow> bool" where
  "payload_ok rt p \<longleftrightarrow> pb_runtime_ok rt \<and>
     (case pl_properties p of None \<Rightarrow> True | Some b \<Rightarrow> properties_ok rt b) \<and>
     rt_utf8 rt (pl_body p) \<and> rt_utf8 rt (pl_valid p) \<and> pl_unknown p = []"

section \<open>The parsing loop\<close>

definition parses :: "(bytes \<Rightarrow> 'm \<Rightarrow> 'm turn) \<Rightarrow> bytes \<Rightarrow> 'm \<Rightarrow> parse_end \<times> 'm \<Rightarrow> bool" where
  "parses turn s m x \<longleftrightarrow> (\<exists>fuel. parse_loop turn fuel s m = Some x)"

definition consuming :: "(bytes \<Rightarrow> 'm \<Rightarrow> 'm turn) \<Rightarrow> bool" where
  "consuming turn \<longleftrightarrow> (\<forall>s m s' m'. turn s m = More s' m' \<longrightarrow> length s' < length s)"

lemma parse_loop_mono:
  "parse_loop turn fuel s m = Some x \<Longrightarrow> fuel \<le> fuel' \<Longrightarrow> parse_loop turn fuel' s m = Some x"
proof (induction turn fuel s m arbitrary: fuel' rule: parse_loop.induct)
  case (2 turn fuel s m)
  then obtain k where "fuel' = Suc k" by (cases fuel') auto
  with 2 show ?case by (auto split: if_splits turn.splits)
qed simp

lemma parse_loop_enough:
  "consuming turn \<Longrightarrow> length s < fuel \<Longrightarrow> \<exists>x. parse_loop turn fuel s m = Some x"
proof (induction turn fuel s m rule: parse_loop.induct)
  case (2 turn fuel s m)
  show ?case
  proof (cases "turn s m")
    case (More s' m')
    with "2.prems"(1) have "length s' < length s" unfolding consuming_def by blast
    with 2 More show ?thesis by auto
  qed auto
qed simp

lemma parses_Nil: "parses turn [] m (Parsed, m)"
  unfolding parses_def by (rule exI [of _ 1]) simp

lemma parses_More:
  "turn s m = More s' m' \<Longrightarrow> s \<noteq> [] \<Longrightarrow> parses turn s' m' x \<Longrightarrow> parses turn s m x"
  unfolding parses_def by (auto intro: exI [of _ "Suc _"])

lemma parses_optional:
  assumes "c \<Longrightarrow> w \<noteq> [] \<and> turn (w @ r) m = More r m'" and "\<not> c \<Longrightarrow> m' = m"
    and "parses turn r m' x"
  shows "parses turn ((if c then w else []) @ r) m x"
  using assms by (cases c) (auto intro: parses_More)

lemma parses_loop:
  assumes "consuming turn" and "parses turn s m x"
  shows "parse_loop turn (Suc (length s)) s m = Some x"
proof -
  obtain y where y: "parse_loop turn (Suc (length s)) s m = Some y"
    using parse_loop_enough [OF assms(1)] by blast
  obtain f where f: "parse_loop turn f s m = Some x"
    using assms(2) by (auto simp: parses_def)
  have "x = y"
    using parse_loop_mono [OF y, of "max f (Suc (length s))"]
      parse_loop_mono [OF f, of "max f (Suc (length s))"] by simp
  with y show ?thesis by simp
qed

lemma string_field_shorter:
  "reads_consume rt \<Longrightarrow> string_field rt upd s m = More s' m' \<Longrightarrow> length s' \<le> length s"
  by (auto simp: string_field_def reads_consume_def split: option.splits if_splits)

lemma unusual_field_shorter:
  "reads_consume rt \<Longrightarrow> unusual_field rt keep t s m = More s' m' \<Longrightarrow> length s' \<le> length s"
  by (auto simp: unusual_field_def reads_consume_def split: option.splits if_splits)

lemmas field_shorter = string_field_shorter unusual_field_shorter

lemma tag_shorter: "reads_consume rt \<Longrightarrow> rt_tag rt s = Some (t, s1) \<Longrightarrow> length s1 < length s"
  by (auto simp: reads_consume_def)

lemma varint_shorter: "reads_consume rt \<Longrightarrow> rt_get_varint rt s = Some (t, s1) \<Longrightarrow> length s1 \<le> length s"
  by (auto simp: reads_consume_def)

lemma message_shorter: "reads_consume rt \<Longrightarrow> rt_get_message rt s = Some (t, s1) \<Longrightarrow> length s1 \<le> length s"
  by (auto simp: reads_consume_def)

lemma properties_turn_consuming:
  assumes rt: "reads_consume rt"
  shows "consuming (properties_turn rt)"
  unfolding consuming_def properties_turn_def
  by (auto split: option.splits if_splits
      dest!: field_shorter [OF rt] tag_shorter [OF rt] varint_shorter [OF rt])

lemma payload_turn_consuming:
  assumes rt: "reads_consume rt"
  shows "consuming (payload_turn rt)"
  unfolding consuming_def payload_turn_def
  by (auto split: option.splits if_splits parse_end.splits
      dest!: field_shorter [OF rt] tag_shorter [OF rt] message_shorter [OF rt])

section \<open>Round trip\<close>

lemma write_nonempty:
  assumes "sizes_exact rt" and "0 < n" and "n < 16"
  shows "rt_string rt n v \<noteq> []" and "rt_enum rt n k \<noteq> []" and "rt_message rt n b \<noteq> []"
  using assms unfolding sizes_exact_def by (metis add_is_0 list.size(3) one_neq_zero)+

lemma string_read_back:
  assumes "writes_read_back rt" and "0 < n" and "n < 16"
  obtains s where "rt_tag rt (rt_string rt n v @ r) = Some (8 * n + 2, s)"
    and "rt_get_string rt s = Some (v, r)"
  using assms unfolding writes_read_back_def by metis

lemma enum_read_back:
  assumes "writes_read_back rt" and "0 < n" and "n < 16" and "int32 k"
  obtains s u where "rt_tag rt (rt_enum rt n k @ r) = Some (8 * n, s)"
    and "rt_get_varint rt s = Some (u, r)" and "enum_of_varint u = k"
  using assms unfolding writes_read_back_def by metis

lemma message_read_back:
  assumes "writes_read_back rt" and "0 < n" and "n < 16"
  obtains s where "rt_tag rt (rt_message rt n b @ r) = Some (8 * n + 2, s)"
    and "rt_get_message rt s = Some (b, r)"
  using assms unfolding writes_read_back_def by metis

lemma properties_turn_fields:
  assumes "writes_read_back rt"
  shows "rt_utf8 rt v \<Longrightarrow> properties_turn rt (rt_string rt 1 v @ r) m = More r (m\<lparr>bp_id := v\<rparr>)"
    and "int32 k \<Longrightarrow> properties_turn rt (rt_enum rt 2 k @ r) m =
           More r (m\<lparr>bp_delivery_mode := mode_of_num k\<rparr>)"
    and "rt_utf8 rt v \<Longrightarrow> properties_turn rt (rt_string rt 3 v @ r) m = More r (m\<lparr>bp_routing_key := v\<rparr>)"
proof -
  obtain s where "rt_tag rt (rt_string rt 1 v @ r) = Some (8 * 1 + 2, s)" "rt_get_string rt s = Some (v, r)"
    using string_read_back [OF assms, of 1 v r] by auto
  then show "rt_utf8 rt v \<Longrightarrow> properties_turn rt (rt_string rt 1 v @ r) m = More r (m\<lparr>bp_id := v\<rparr>)"
    by (simp add: properties_turn_def string_field_def)
  obtain s where "rt_tag rt (rt_string rt 3 v @ r) = Some (8 * 3 + 2, s)" "rt_get_string rt s = Some (v, r)"
    using string_read_back [OF assms, of 3 v r] by auto
  then show "rt_utf8 rt v \<Longrightarrow> properties_turn rt (rt_string rt 3 v @ r) m = More r (m\<lparr>bp_routing_key := v\<rparr>)"
    by (simp add: properties_turn_def string_field_def)
  assume "int32 k"
  then obtain s u where "rt_tag rt (rt_enum rt 2 k @ r) = Some (8 * 2, s)"
    "rt_get_varint rt s = Some (u, r)" "enum_of_varint u = k"
    using enum_read_back [OF assms, of 2 k r] by auto
  then show "properties_turn rt (rt_enum rt 2 k @ r) m = More r (m\<lparr>bp_delivery_mode := mode_of_num k\<rparr>)"
    by (simp add: properties_turn_def)
qed

lemma parses_properties:
  assumes "writes_read_back rt" and "sizes_exact rt" and "properties_ok rt b"
  shows "parses (properties_turn rt) (ser_properties rt b) default_properties (Parsed, b)"
proof -
  have ok: "rt_utf8 rt (bp_id b)" "rt_utf8 rt (bp_routing_key b)" "bp_unknown b = []"
    "int32 (mode_num (bp_delivery_mode b))" "mode_of_num (mode_num (bp_delivery_mode b)) = bp_delivery_mode b"
    using assms(3) by (auto simp: properties_ok_def mode_ok_def)
  let ?m1 = "default_properties\<lparr>bp_id := bp_id b\<rparr>"
  let ?m2 = "?m1\<lparr>bp_delivery_mode := bp_delivery_mode b\<rparr>"
  let ?m3 = "?m2\<lparr>bp_routing_key := bp_routing_key b\<rparr>"
  have final: "?m3 = b" using ok(3) by (cases b) (simp add: default_properties_def)
  have unset: "bp_delivery_mode b = UNKNOWMODE" if "mode_num (bp_delivery_mode b) = 0"
    using ok(5) that by (simp add: mode_of_num_def)
  note fields = write_nonempty [OF assms(2)] properties_turn_fields [OF assms(1)] ok unset
    properties_turn_fields [OF assms(1), where r = "[]", simplified]
    default_properties_def
  have "parses (properties_turn rt) (bp_unknown b) ?m3 (Parsed, b)"
    unfolding final ok(3) by (rule parses_Nil)
  then have "parses (properties_turn rt)
      ((if bp_routing_key b \<noteq> [] then rt_string rt 3 (bp_routing_key b) else []) @ bp_unknown b) ?m2 (Parsed, b)"
    by (rule parses_optional [where m' = ?m3, rotated 2]) (auto simp: fields)
  then have "parses (properties_turn rt)
      ((if mode_num (bp_delivery_mode b) \<noteq> 0 then rt_enum rt 2 (mode_num (bp_delivery_mode b)) else []) @
       (if bp_routing_key b \<noteq> [] then rt_string rt 3 (bp_routing_key b) else []) @ bp_unknown b) ?m1 (Parsed, b)"
    by (rule parses_optional [where m' = ?m2, rotated 2]) (auto simp: fields)
  then show ?thesis
    unfolding ser_properties_def
    by (rule parses_optional [where m' = ?m1, rotated 2]) (auto simp: fields simp del: One_nat_def)
qed

lemma payload_turn_fields:
  assumes "writes_read_back rt"
  shows "rt_utf8 rt v \<Longrightarrow> payload_turn rt (rt_string rt 2 v @ r) m = More r (m\<lparr>pl_body := v\<rparr>)"
    and "rt_utf8 rt v \<Longrightarrow> payload_turn rt (rt_string rt 3 v @ r) m = More r (m\<lparr>pl_valid := v\<rparr>)"
proof -
  obtain s where "rt_tag rt (rt_string rt 2 v @ r) = Some (8 * 2 + 2, s)" "rt_get_string rt s = Some (v, r)"
    using string_read_back [OF assms, of 2 v r] by auto
  then show "rt_utf8 rt v \<Longrightarrow> payload_turn rt (rt_string rt 2 v @ r) m = More r (m\<lparr>pl_body := v\<rparr>)"
    by (simp add: payload_turn_def string_field_def)
  obtain s where "rt_tag rt (rt_string rt 3 v @ r) = Some (8 * 3 + 2, s)" "rt_get_string rt s = Some (v, r)"
    using string_read_back [OF assms, of 3 v r] by auto
  then show "rt_utf8 rt v \<Longrightarrow> payload_turn rt (rt_string rt 3 v @ r) m = More r (m\<lparr>pl_valid := v\<rparr>)"
    by (simp add: payload_turn_def string_field_def)
qed

lemma payload_turn_properties:
  assumes "pb_runtime_ok rt" and "properties_ok rt b" and "pl_properties m = None"
  shows "payload_turn rt (rt_message rt 1 (ser_properties rt b) @ r) m = More r (m\<lparr>pl_properties := Some b\<rparr>)"
proof -
  have rt: "reads_consume rt" "writes_read_back rt" "sizes_exact rt"
    using assms(1) by (auto simp: pb_runtime_ok_def)
  obtain s where s: "rt_tag rt (rt_message rt 1 (ser_properties rt b) @ r) = Some (8 * 1 + 2, s)"
    "rt_get_message rt s = Some (ser_properties rt b, r)"
    using message_read_back [OF rt(2), of 1 "ser_properties rt b" r] by auto
  have "parse_loop (properties_turn rt) (Suc (length (ser_properties rt b))) (ser_properties rt b)
      default_properties = Some (Parsed, b)"
    by (rule parses_loop [OF properties_turn_consuming [OF rt(1)] parses_properties [OF rt(2,3) assms(2)]])
  with s assms(3) show ?thesis by (simp add: payload_turn_def properties_def)
qed

lemma parse_ser_payload:
  assumes "payload_ok rt p"
  shows "parse_payload rt (ser_payload rt p) = (True, p)"
proof -
  have rt: "reads_consume rt" "writes_read_back rt" "sizes_exact rt" and ok: "pb_runtime_ok rt"
    "rt_utf8 rt (pl_body p)" "rt_utf8 rt (pl_valid p)" "pl_unknown p = []"
    using assms by (auto simp: payload_ok_def pb_runtime_ok_def)
  let ?T = "payload_turn rt"
  let ?m1 = "default_payload\<lparr>pl_properties := pl_properties p\<rparr>"
  let ?m2 = "?m1\<lparr>pl_body := pl_body p\<rparr>"
  let ?m3 = "?m2\<lparr>pl_valid := pl_valid p\<rparr>"
  let ?rest = "(if pl_body p \<noteq> [] then rt_string rt 2 (pl_body p) else []) @
     (if pl_valid p \<noteq> [] then rt_string rt 3 (pl_valid p) else []) @ pl_unknown p"
  note fields = write_nonempty [OF rt(3)] payload_turn_fields [OF rt(2)] ok default_payload_def
    payload_turn_fields [OF rt(2), where r = "[]", simplified]
  have final: "?m3 = p" using ok(4) by (cases p) (simp add: default_payload_def)
  have "parses ?T (pl_unknown p) ?m3 (Parsed, p)"
    unfolding final ok(4) by (rule parses_Nil)
  then have "parses ?T ((if pl_valid p \<noteq> [] then rt_string rt 3 (pl_valid p) else []) @ pl_unknown p) ?m2 (Parsed, p)"
    by (rule parses_optional [where m' = ?m3, rotated 2]) (auto simp: fields)
  then have rest: "parses ?T ?rest ?m1 (Parsed, p)"
    by (rule parses_optional [where m' = ?m2, rotated 2]) (auto simp: fields)
  have "parses ?T (ser_payload rt p) default_payload (Parsed, p)"
  proof (cases "pl_properties p")
    case None
    then show ?thesis using rest by (simp add: ser_payload_def default_payload_def)
  next
    case (Some b)
    then have "properties_ok rt b" using assms by (simp add: payload_ok_def)
    then have turn: "?T (rt_message rt 1 (ser_properties rt b) @ ?rest) default_payload = More ?rest ?m1"
      using payload_turn_properties [OF ok(1)] Some by (simp add: default_payload_def)
    have ne: "rt_message rt 1 (ser_properties rt b) @ ?rest \<noteq> []"
      using write_nonempty(3) [OF rt(3), of 1] by simp
    have eq: "ser_payload rt p = rt_message rt 1 (ser_properties rt b) @ ?rest"
      using Some by (simp only: ser_payload_def option.case)
    show ?thesis unfolding eq by (rule parses_More [OF turn ne rest])
  qed
  then have "parse_loop ?T (Suc (length (ser_payload rt p))) (ser_payload rt p) default_payload = Some (Parsed, p)"
    by (rule parses_loop [OF payload_turn_consuming [OF rt(1)]])
  then show ?thesis by (simp add: parse_payload_def)
qed

section \<open>Sizes\<close>

lemma length_writes:
  assumes "sizes_exact rt" and "0 < n" and "n < 16"
  shows "length (rt_string rt n v) = 1 + rt_string_size rt v"
    and "length (rt_enum rt n k) = 1 + rt_enum_size rt k"
    and "length (rt_message rt n b) = 1 + rt_message_size rt (length b)"
  using assms unfolding sizes_exact_def by blast+

lemma length_ser_properties:
  assumes "sizes_exact rt"
  shows "length (ser_properties rt b) = properties_byte_size rt b"
  by (simp add: ser_properties_def properties_byte_size_def length_writes [OF assms] del: One_nat_def)

lemma length_ser_payload:
  assumes "sizes_exact rt"
  shows "length (ser_payload rt p) = payload_byte_size rt p"
  by (simp add: ser_payload_def payload_byte_size_def length_writes [OF assms]
      length_ser_properties [OF assms] split: option.split del: One_nat_def)

lemma payload_byte_size_valid:
  assumes "sizes_exact rt" and "length v = length (pl_valid p)"
  shows "payload_byte_size rt (p\<lparr>pl_valid := v\<rparr>) = payload_byte_size rt p"
proof -
  have "v = [] \<longleftrightarrow> pl_valid p = []" using assms(2) by (metis length_0_conv)
  moreover have "rt_string_size rt v = rt_string_size rt (pl_valid p)"
    using assms unfolding sizes_exact_def by blast
  ultimately show ?thesis by (simp add: payload_byte_size_def)
qed

section \<open>The interface to the message store\<close>

text \<open>
  What \<open>message_mapper\<close> relies on: a payload of the server's own survives being written and read
  back, and switching its \<open>valid\<close> flag from 1 to 0 does not change its length, so that a record
  can be overwritten in place.
\<close>

locale payload_codec =
  fixes ser :: "payload \<Rightarrow> bytes"
    and par :: "bytes \<Rightarrow> payload"
    and ok :: "payload \<Rightarrow> bool"
  assumes par_ser: "ok p \<Longrightarrow> par (ser p) = p"
    and ok_invalid: "ok p \<Longrightarrow> pl_valid p = ''1'' \<Longrightarrow> ok (p\<lparr>pl_valid := ''0''\<rparr>)"
    and length_invalid:
      "ok p \<Longrightarrow> pl_valid p = ''1'' \<Longrightarrow> length (ser (p\<lparr>pl_valid := ''0''\<rparr>)) = length (ser p)"
    and length_ser: "ok p \<Longrightarrow> length (ser p) < 2 ^ 31"

text \<open>\<open>SerializeAsString\<close> gives the empty string for a message over 2 GiB.\<close>

definition SerializeAsString :: "pb_runtime \<Rightarrow> payload \<Rightarrow> bytes" where
  "SerializeAsString rt p = (if payload_byte_size rt p < 2 ^ 31 then ser_payload rt p else [])"

definition storable :: "pb_runtime \<Rightarrow> payload \<Rightarrow> bool" where
  "storable rt p \<longleftrightarrow> payload_ok rt p \<and> payload_byte_size rt p < 2 ^ 31"

lemma storable_sizes: "storable rt p \<Longrightarrow> sizes_exact rt"
  by (simp add: storable_def payload_ok_def pb_runtime_ok_def)

lemma storable_ser: "storable rt p \<Longrightarrow> SerializeAsString rt p = ser_payload rt p"
  by (simp add: storable_def SerializeAsString_def)

lemma storable_invalid:
  assumes "storable rt p" and "pl_valid p = ''1''"
  shows "storable rt (p\<lparr>pl_valid := ''0''\<rparr>)"
    and "payload_byte_size rt (p\<lparr>pl_valid := ''0''\<rparr>) = payload_byte_size rt p"
proof -
  show size: "payload_byte_size rt (p\<lparr>pl_valid := ''0''\<rparr>) = payload_byte_size rt p"
    by (rule payload_byte_size_valid [OF storable_sizes [OF assms(1)]]) (simp add: assms(2))
  have "rt_utf8 rt ''0''"
    using assms(1) by (simp add: storable_def payload_ok_def pb_runtime_ok_def ascii_def)
  then show "storable rt (p\<lparr>pl_valid := ''0''\<rparr>)"
    using assms(1) size by (simp add: storable_def payload_ok_def)
qed

interpretation pb: payload_codec "SerializeAsString rt" "par_payload rt" "storable rt" for rt
proof unfold_locales
  fix p
  assume ok: "storable rt p"
  then show "par_payload rt (SerializeAsString rt p) = p"
    by (simp add: storable_ser) (simp add: storable_def par_payload_def parse_ser_payload)
  show "length (SerializeAsString rt p) < 2 ^ 31"
    using ok storable_sizes [OF ok] by (simp add: storable_ser length_ser_payload) (simp add: storable_def)
  assume valid: "pl_valid p = ''1''"
  show "storable rt (p\<lparr>pl_valid := ''0''\<rparr>)" by (rule storable_invalid(1) [OF ok valid])
  then show "length (SerializeAsString rt (p\<lparr>pl_valid := ''0''\<rparr>)) = length (SerializeAsString rt p)"
    using ok storable_invalid(2) [OF ok valid] storable_sizes [OF ok]
    by (simp add: storable_ser length_ser_payload)
qed

section \<open>A concrete runtime for the witnesses\<close>

fun varint :: "nat \<Rightarrow> bytes" where
  "varint n = (if n < 128 then [char_of n] else char_of (n mod 128 + 128) # varint (n div 128))"

declare varint.simps [simp del]

fun get_varint :: "bytes \<Rightarrow> (nat \<times> bytes) option" where
  "get_varint [] = None"
| "get_varint (c # cs) =
     (if of_char c < (128 :: nat) then Some (of_char c, cs)
      else case get_varint cs of None \<Rightarrow> None | Some (v, r) \<Rightarrow> Some (of_char c - 128 + 128 * v, r))"

definition get_block :: "bytes \<Rightarrow> (bytes \<times> bytes) option" where
  "get_block s =
     (case get_varint s of
        None \<Rightarrow> None
      | Some (n, r) \<Rightarrow> if length r < n then None else Some (take n r, drop n r))"

definition block :: "nat \<Rightarrow> bytes \<Rightarrow> bytes" where
  "block n v = varint (8 * n + 2) @ varint (length v) @ v"

definition enum_bits :: "int \<Rightarrow> nat" where
  "enum_bits k = nat (k mod 2 ^ 64)"

definition skip_field :: "nat \<Rightarrow> bytes \<Rightarrow> (bytes \<times> bytes) option" where
  "skip_field tag s =
     (let r = (if tag mod 8 = 0 then map_option snd (get_varint s)
               else if tag mod 8 = 2 then map_option snd (get_block s) else None)
      in case r of None \<Rightarrow> None | Some r' \<Rightarrow> Some (varint tag @ take (length s - length r') s, r'))"

definition wire_rt :: pb_runtime where
  "wire_rt =
     \<lparr>rt_string = block, rt_enum = (\<lambda>n k. varint (8 * n) @ varint (enum_bits k)), rt_message = block,
      rt_tag = get_varint, rt_get_string = get_block, rt_get_varint = get_varint,
      rt_get_message = get_block, rt_utf8 = ascii, rt_unknown = skip_field,
      rt_string_size = (\<lambda>v. length (varint (length v)) + length v),
      rt_enum_size = (\<lambda>k. length (varint (enum_bits k))),
      rt_message_size = (\<lambda>n. length (varint n) + n)\<rparr>"

lemma get_varint_varint: "get_varint (varint n @ r) = Some (n, r)"
proof (induction n rule: varint.induct)
  case (1 n)
  show ?case
  proof (cases "n < 128")
    case True
    then show ?thesis by (simp add: varint.simps [of n])
  next
    case False
    then have "get_varint (varint (n div 128) @ r) = Some (n div 128, r)" by (rule "1.IH")
    moreover have "(of_char (char_of (n mod 128 + 128)) :: nat) = n mod 128 + 128" by simp
    ultimately show ?thesis using False by (simp add: varint.simps [of n])
  qed
qed

lemma get_varint_shorter: "get_varint s = Some (v, r) \<Longrightarrow> length r < length s"
  by (induction s arbitrary: v r) (fastforce split: if_splits option.splits)+

lemma get_block_shorter: "get_block s = Some (v, r) \<Longrightarrow> length r < length s"
  by (auto simp: get_block_def split: option.splits if_splits dest!: get_varint_shorter)

lemma get_block_block: "get_block (varint (length v) @ v @ r) = Some (v, r)"
  using get_varint_varint [of "length v" "v @ r"] by (simp add: get_block_def)

lemma enum_of_bits: "int32 k \<Longrightarrow> enum_of_varint (enum_bits k) = k"
proof -
  assume k: "int32 k"
  have "enum_of_varint (enum_bits k) = sint (word_of_int (k mod 2 ^ 64) :: 32 word)"
    by (simp add: enum_of_varint_def enum_bits_def)
  also have "(word_of_int (k mod 2 ^ 64) :: 32 word) = word_of_int k"
    by (simp add: word_of_int_eq_iff take_bit_eq_mod mod_mod_cancel)
  also have "sint (word_of_int k :: 32 word) = k"
    using k by (simp add: int32_def sint_sbintrunc' signed_take_bit_int_eq_self)
  finally show ?thesis .
qed

lemma length_varint_tag: "n < 128 \<Longrightarrow> length (varint n) = 1"
  by (simp add: varint.simps)

lemma wire_rt_ok: "pb_runtime_ok wire_rt"
  unfolding pb_runtime_ok_def
proof (intro conjI)
  show "reads_consume wire_rt"
    unfolding reads_consume_def wire_rt_def
    by (auto simp: skip_field_def Let_def less_imp_le get_varint_shorter get_block_shorter
        split: option.splits if_splits dest!: get_varint_shorter get_block_shorter)
  show "writes_read_back wire_rt"
    unfolding writes_read_back_def wire_rt_def
    by (auto simp: block_def get_varint_varint get_block_block enum_of_bits)
  show "sizes_exact wire_rt"
    unfolding sizes_exact_def wire_rt_def by (simp add: block_def length_varint_tag)
  show "\<forall>v. ascii v \<longrightarrow> rt_utf8 wire_rt v"
    by (simp add: wire_rt_def)
qed

section \<open>Properties\<close>

definition sample_payload :: payload where
  "sample_payload =
     \<lparr>pl_properties = Some \<lparr>bp_id = ''id-1'', bp_delivery_mode = DURABLE, bp_routing_key = ''news.music'', bp_unknown = []\<rparr>,
      pl_body = ''hello'', pl_valid = ''1'', pl_unknown = []\<rparr>"

lemma sample_payload_ok: "payload_ok wire_rt sample_payload"
  by (simp add: payload_ok_def wire_rt_ok sample_payload_def properties_ok_def mode_ok_def int32_def
      mode_of_num_def) (simp add: wire_rt_def ascii_def)

text \<open>
  C27: A payload with UTF-8 texts, a 32-bit delivery mode and no unknown fields survives
  \<open>SerializeAsString\<close> followed by \<open>ParseFromString\<close>: parsing reports success and gives back every
  field, the absent and the empty ones included.
\<close>

theorem payload_round_trip:
  assumes "payload_ok rt p"
  shows "parse_payload rt (ser_payload rt p) = (True, p)"
  by (rule parse_ser_payload [OF assms])

lemma payload_round_trip_witness:
  "parse_payload wire_rt (ser_payload wire_rt sample_payload) = (True, sample_payload)"
  by (rule payload_round_trip [OF sample_payload_ok])

text \<open>
  \<open>ByteSizeLong\<close>, computed before writing and used to size the buffer, is exactly the number
  of bytes \<open>_InternalSerialize\<close> writes, for every payload; and changing the \<open>valid\<close> flag to another
  text of the same length keeps it.
\<close>

theorem payload_byte_size_exact:
  assumes "pb_runtime_ok rt" and "length v = length (pl_valid p)"
  shows "payload_byte_size rt p = length (ser_payload rt p)
       \<and> length (ser_payload rt (p\<lparr>pl_valid := v\<rparr>)) = length (ser_payload rt p)"
  using assms by (simp add: pb_runtime_ok_def length_ser_payload payload_byte_size_valid)

lemma payload_byte_size_exact_witness:
  "payload_byte_size wire_rt sample_payload = length (ser_payload wire_rt sample_payload)
   \<and> length (ser_payload wire_rt (sample_payload\<lparr>pl_valid := ''0''\<rparr>)) = length (ser_payload wire_rt sample_payload)"
  by (rule payload_byte_size_exact [OF wire_rt_ok]) (simp add: sample_payload_def)

end
