(* ===== verification/Message_Mapper.thy ===== *)
theory Message_Mapper
  imports Proto_Msg
begin

text \<open>
  \<open>message_mapper\<close> of \<open>HareMQ/mqserver/message.hpp\<close>: the file of a queue's durable messages.
  A message is stored as the eight bytes of its size followed by its payload; removing it
  overwrites the payload with one whose \<open>valid\<close> is 0; garbage collection copies the valid
  messages to a second file and renames it.  Serialization and parsing are arguments, and the
  facts are proved for every \<open>payload_codec\<close>.
\<close>

section \<open>The eight bytes of a \<open>size_t\<close>\<close>

fun le_bytes :: "nat \<Rightarrow> nat \<Rightarrow> bytes" where
  "le_bytes 0 n = []"
| "le_bytes (Suc k) n = char_of (n mod 256) # le_bytes k (n div 256)"

fun of_le_bytes :: "bytes \<Rightarrow> nat" where
  "of_le_bytes [] = 0"
| "of_le_bytes (c # cs) = of_char c + 256 * of_le_bytes cs"

definition sizeof_size_t :: nat where
  "sizeof_size_t = 8"

definition size_bytes :: "nat \<Rightarrow> bytes" where
  "size_bytes n = le_bytes sizeof_size_t n"

lemma length_le_bytes [simp]: "length (le_bytes k n) = k"
  by (induction k arbitrary: n) auto

lemma length_size_bytes [simp]: "length (size_bytes n) = sizeof_size_t"
  by (simp add: size_bytes_def)

lemma of_le_bytes_le_bytes: "of_le_bytes (le_bytes k n) = n mod 256 ^ k"
proof (induction k arbitrary: n)
  case (Suc k)
  have "(of_char (char_of (n mod 256)) :: nat) = n mod 256" by simp
  with Suc show ?case by (simp add: mod_mult2_eq)
qed simp

lemma of_size_bytes: "n < 2 ^ 64 \<Longrightarrow> of_le_bytes (size_bytes n) = n"
  by (simp add: size_bytes_def of_le_bytes_le_bytes sizeof_size_t_def)

section \<open>The mapper\<close>

record message_mapper =
  mm_queue_name :: string
  mm_data_file :: path
  mm_tmp_file :: path

definition create_msg_file :: "message_mapper \<Rightarrow> fs \<Rightarrow> bool \<times> fs" where
  "create_msg_file mm s =
     (if file_exists s (mm_data_file mm) then (True, s) else file_create s (mm_data_file mm))"

text \<open>The constructor; \<open>back()\<close> of an empty string is undefined.\<close>

definition with_slash :: "string \<Rightarrow> string" where
  "with_slash dir = (if last dir \<noteq> CHR ''/'' then dir @ ''/'' else dir)"

definition mapper_paths :: "string \<Rightarrow> string \<Rightarrow> message_mapper" where
  "mapper_paths base_dir qname =
     \<lparr>mm_queue_name = qname, mm_data_file = with_slash base_dir @ qname @ ''.mqd'',
      mm_tmp_file = with_slash base_dir @ qname @ ''.mqd.tmp''\<rparr>"

definition mapper_new :: "string \<Rightarrow> string \<Rightarrow> fs \<Rightarrow> (message_mapper \<times> fs) result" where
  "mapper_new base_dir qname s =
     (if base_dir = [] then Inl Undefined
      else let dir = with_slash base_dir; mm = mapper_paths base_dir qname in
        if \<not> file_exists s dir then
          (case create_dir s dir of
             (False, s1) \<Rightarrow> Inl Aborts
           | (True, s1) \<Rightarrow> Inr (mm, snd (create_msg_file mm s1)))
        else Inr (mm, snd (create_msg_file mm s)))"

definition remove_msg_file :: "message_mapper \<Rightarrow> fs \<Rightarrow> fs" where
  "remove_msg_file mm s = snd (file_remove (snd (file_remove s (mm_data_file mm))) (mm_tmp_file mm))"

text \<open>\<open>__insert\<close>: append the size and the payload, and note where the payload went.\<close>

definition append_msg :: "(payload \<Rightarrow> bytes) \<Rightarrow> path \<Rightarrow> fs \<Rightarrow> message \<Rightarrow> bool \<times> fs \<times> message" where
  "append_msg ser f s m =
     (let body = ser (msg_payload m); fsize = file_size s f in
      case write_at s f (size_bytes (length body)) fsize of
        (False, s1) \<Rightarrow> (False, s1, m)
      | (True, s1) \<Rightarrow>
         (case write_at s1 f body (fsize + sizeof_size_t) of
            (False, s2) \<Rightarrow> (False, s2, m)
          | (True, s2) \<Rightarrow>
              (True, s2, m\<lparr>msg_offset := word_of_nat (fsize + sizeof_size_t),
                           msg_length := word_of_nat (length body)\<rparr>)))"

definition mm_insert :: "(payload \<Rightarrow> bytes) \<Rightarrow> message_mapper \<Rightarrow> fs \<Rightarrow> message \<Rightarrow> bool \<times> fs \<times> message" where
  "mm_insert ser mm s m = append_msg ser (mm_data_file mm) s m"

definition invalidate :: "message \<Rightarrow> message" where
  "invalidate m = m\<lparr>msg_payload := (msg_payload m)\<lparr>pl_valid := ''0''\<rparr>\<rparr>"

definition mm_remove :: "(payload \<Rightarrow> bytes) \<Rightarrow> message_mapper \<Rightarrow> fs \<Rightarrow> message \<Rightarrow> bool \<times> fs \<times> message" where
  "mm_remove ser mm s m =
     (let m' = invalidate m; body = ser (msg_payload m') in
      if length body \<noteq> unat (msg_length m') then (False, s, m')
      else case write_at s (mm_data_file mm) body (unat (msg_offset m')) of (ret, s') \<Rightarrow> (ret, s', m'))"

text \<open>
  \<open>__load\<close>.  A size that no string can have makes the constructor of \<open>msg_body\<close> throw; the
  result of \<open>ParseFromString\<close> is not looked at.
\<close>

definition max_string_size :: nat where
  "max_string_size = 2 ^ 63 - 1"

function load_loop ::
  "(bytes \<Rightarrow> payload) \<Rightarrow> path \<Rightarrow> fs \<Rightarrow> nat \<Rightarrow> nat \<Rightarrow> message list \<Rightarrow> (bool \<times> message list) result" where
  "load_loop par f s fsize offset lst =
     (if offset < fsize then
        case read_at s f offset sizeof_size_t of
          None \<Rightarrow> Inr (False, lst)
        | Some size_field \<Rightarrow>
            (let msg_size = of_le_bytes size_field; offset1 = offset + sizeof_size_t in
             if max_string_size < msg_size then Inl Throws
             else case read_at s f offset1 msg_size of
                 None \<Rightarrow> Inr (False, lst)
               | Some msg_body \<Rightarrow>
                   (let p = par msg_body in
                    load_loop par f s fsize (offset1 + msg_size)
                      (if pl_valid p = ''0'' then lst else lst @ [new_message\<lparr>msg_payload := p\<rparr>])))
      else Inr (True, lst))"
  by pat_completeness auto
termination
  by (relation "measure (\<lambda>(par, f, s, fsize, offset, lst). fsize - offset)")
    (auto simp: sizeof_size_t_def)

declare load_loop.simps [simp del]

definition mm_load :: "(bytes \<Rightarrow> payload) \<Rightarrow> message_mapper \<Rightarrow> fs \<Rightarrow> (bool \<times> message list) result" where
  "mm_load par mm s = load_loop par (mm_data_file mm) s (file_size s (mm_data_file mm)) 0 []"

fun append_all :: "(payload \<Rightarrow> bytes) \<Rightarrow> path \<Rightarrow> fs \<Rightarrow> message list \<Rightarrow> bool \<times> fs \<times> message list" where
  "append_all ser f s [] = (True, s, [])"
| "append_all ser f s (m # ms) =
     (case append_msg ser f s m of
        (False, s1, m1) \<Rightarrow> (False, s1, m1 # ms)
      | (True, s1, m1) \<Rightarrow> (case append_all ser f s1 ms of (b, s2, ms2) \<Rightarrow> (b, s2, m1 # ms2)))"

text \<open>
  \<open>gc\<close> from the point where the valid messages are loaded, and \<open>gc\<close> itself.
\<close>

definition mm_compact ::
  "(payload \<Rightarrow> bytes) \<Rightarrow> message_mapper \<Rightarrow> fs \<Rightarrow> message list \<Rightarrow> fs \<times> message list" where
  "mm_compact ser mm s lst =
     (let s1 = snd (file_create s (mm_tmp_file mm)) in
      case append_all ser (mm_tmp_file mm) s1 lst of
        (False, s2, lst2) \<Rightarrow> (s2, lst2)
      | (True, s2, lst2) \<Rightarrow>
         (case file_remove s2 (mm_data_file mm) of
            (False, s3) \<Rightarrow> (s3, lst2)
          | (True, s3) \<Rightarrow> (snd (file_rename s3 (mm_tmp_file mm) (mm_data_file mm)), lst2)))"

definition mm_gc ::
  "(payload \<Rightarrow> bytes) \<Rightarrow> (bytes \<Rightarrow> payload) \<Rightarrow> message_mapper \<Rightarrow> fs \<Rightarrow> (fs \<times> message list) result" where
  "mm_gc ser par mm s =
     rbind (mm_load par mm s) (\<lambda>(ok, lst). Inr (if ok then mm_compact ser mm s lst else (s, lst)))"

section \<open>The file as a log\<close>

definition frame :: "(payload \<Rightarrow> bytes) \<Rightarrow> payload \<Rightarrow> bytes" where
  "frame ser p = size_bytes (length (ser p)) @ ser p"

definition frames :: "(payload \<Rightarrow> bytes) \<Rightarrow> payload list \<Rightarrow> bytes" where
  "frames ser ps = concat (map (frame ser) ps)"

lemma frames_simps [simp]:
  "frames ser [] = []" "frames ser (p # ps) = frame ser p @ frames ser ps"
  "frames ser (ps @ qs) = frames ser ps @ frames ser qs"
  by (simp_all add: frames_def)

definition live :: "payload list \<Rightarrow> payload list" where
  "live ps = filter (\<lambda>p. pl_valid p \<noteq> ''0'') ps"

text \<open>Where the payload number \<open>i\<close> of the log starts.\<close>

definition offset_of :: "(payload \<Rightarrow> bytes) \<Rightarrow> payload list \<Rightarrow> nat \<Rightarrow> nat" where
  "offset_of ser ps i = length (frames ser (take i ps)) + sizeof_size_t"

definition unplaced :: "payload \<Rightarrow> message" where
  "unplaced p = new_message\<lparr>msg_payload := p\<rparr>"

text \<open>A message whose offset and length are those of payload \<open>i\<close> of the log.\<close>

definition placed :: "(payload \<Rightarrow> bytes) \<Rightarrow> payload list \<Rightarrow> nat \<Rightarrow> message \<Rightarrow> bool" where
  "placed ser ps i m \<longleftrightarrow> i < length ps \<and> msg_payload m = ps ! i \<and>
     msg_offset m = word_of_nat (offset_of ser ps i) \<and>
     msg_length m = word_of_nat (length (ser (ps ! i)))"

lemma live_simps [simp]: "live [] = []" "live (ps @ qs) = live ps @ live qs"
  "live (p # ps) = (if pl_valid p = ''0'' then live ps else p # live ps)"
  by (simp_all add: live_def)

lemma msg_payload_unplaced [simp]: "msg_payload (unplaced p) = p"
  by (simp add: unplaced_def)

lemma length_frame: "length (frame ser p) = sizeof_size_t + length (ser p)"
  by (simp add: frame_def)

lemma read_at_mid:
  assumes "fs_files s f = Some (us @ v @ ws)" and "n = length v"
  shows "read_at s f (length us) n = Some v"
  using assms by (simp add: read_at_def)

lemma read_at_short:
  assumes "fs_files s f = Some b" and "n \<noteq> 0" and "length b < off + n"
  shows "read_at s f off n = None"
  using assms by (simp add: read_at_def)

lemma append_msg_file:
  assumes "fs_files s f = Some b"
  shows "append_msg ser f s m =
    (True, put_file f (Some (b @ frame ser (msg_payload m))) s,
     m\<lparr>msg_offset := word_of_nat (length b + sizeof_size_t),
       msg_length := word_of_nat (length (ser (msg_payload m)))\<rparr>)"
proof -
  let ?body = "ser (msg_payload m)" and ?h = "size_bytes (length (ser (msg_payload m)))"
  have size: "file_size s f = length b" by (rule size_file [OF assms])
  have w1: "write_at s f ?h (length b) = (True, put_file f (Some (b @ ?h)) s)"
    by (simp add: write_at_file [OF assms] overwrite_end)
  have "overwrite (b @ ?h) (length b + sizeof_size_t) ?body = b @ ?h @ ?body"
    using overwrite_end [of "b @ ?h" ?body] by simp
  then have w2: "write_at (put_file f (Some (b @ ?h)) s) f ?body (length b + sizeof_size_t) =
      (True, put_file f (Some (b @ frame ser (msg_payload m))) s)"
    by (simp add: write_at_def frame_def)
  show ?thesis by (simp add: append_msg_def Let_def size w1 w2)
qed

lemma append_msg_missing: "fs_files s f = None \<Longrightarrow> append_msg ser f s m = (False, s, m)"
  by (simp add: append_msg_def Let_def write_at_missing)

lemma append_all_file:
  assumes "fs_files s f = Some (frames ser qs)"
  shows "\<exists>ms'. append_all ser f s ms =
      (True, put_file f (Some (frames ser (qs @ map msg_payload ms))) s, ms') \<and>
    length ms' = length ms \<and>
    (\<forall>i < length ms. placed ser (qs @ map msg_payload ms) (length qs + i) (ms' ! i))"
  using assms
proof (induction ms arbitrary: qs s)
  case Nil
  then show ?case by simp
next
  case (Cons m ms)
  let ?p = "msg_payload m"
  let ?m = "m\<lparr>msg_offset := word_of_nat (length (frames ser qs) + sizeof_size_t),
      msg_length := word_of_nat (length (ser ?p))\<rparr>"
  let ?s1 = "put_file f (Some (frames ser (qs @ [?p]))) s"
  have step: "append_msg ser f s m = (True, ?s1, ?m)"
    by (simp add: append_msg_file [OF Cons.prems])
  from Cons.IH [of ?s1 "qs @ [?p]"] obtain ms' where ms':
    "append_all ser f ?s1 ms = (True, put_file f (Some (frames ser (qs @ map msg_payload (m # ms)))) s, ms')"
    "length ms' = length ms"
    "\<forall>i < length ms. placed ser (qs @ map msg_payload (m # ms)) (length qs + Suc i) (ms' ! i)"
    by auto
  have "placed ser (qs @ map msg_payload (m # ms)) (length qs) ?m"
    by (simp add: placed_def offset_of_def nth_append)
  with ms' have "\<forall>i < length (m # ms). placed ser (qs @ map msg_payload (m # ms)) (length qs + i) ((?m # ms') ! i)"
    by (auto simp: less_Suc_eq_0_disj)
  with ms' step show ?case by auto
qed

lemma map_payload_placed:
  assumes "length ms = length ps" and "\<forall>i < length ps. placed ser ps i (ms ! i)"
  shows "map msg_payload ms = ps"
  using assms by (auto intro: nth_equalityI simp: placed_def)

text \<open>The directory is there, and neither file is one.\<close>

definition mapper_ready :: "message_mapper \<Rightarrow> fs \<Rightarrow> bool" where
  "mapper_ready mm s \<longleftrightarrow> mm_data_file mm \<noteq> mm_tmp_file mm \<and>
     dir_exists s (dir_part (mm_tmp_file mm)) \<and> \<not> dir_exists s (strip_slashes (mm_tmp_file mm))"

lemma mapper_ready_put [simp]: "mapper_ready mm (put_file f b s) = mapper_ready mm s"
  by (simp add: mapper_ready_def)

lemma compact_log:
  assumes ready: "mapper_ready mm s" and on_disk: "fs_files s (mm_data_file mm) = Some b"
  obtains ms' where
    "mm_compact ser mm s ms = (put_file (mm_tmp_file mm) None
        (put_file (mm_data_file mm) (Some (frames ser (map msg_payload ms))) s), ms')"
    and "length ms' = length ms"
    and "\<forall>i < length ms. placed ser (map msg_payload ms) i (ms' ! i)"
proof -
  let ?d = "mm_data_file mm" and ?t = "mm_tmp_file mm" and ?b = "frames ser (map msg_payload ms)"
  have ne: "?d \<noteq> ?t" "?t \<noteq> ?d" using ready by (auto simp: mapper_ready_def)
  let ?s1 = "put_file ?t (Some []) s" and ?s2 = "put_file ?t (Some ?b) s"
  have create: "file_create s ?t = (True, ?s1)"
    using ready by (simp add: file_create_def mapper_ready_def)
  obtain ms' where ms': "append_all ser ?t ?s1 ms = (True, ?s2, ms')" "length ms' = length ms"
    "\<forall>i < length ms. placed ser (map msg_payload ms) i (ms' ! i)"
    using append_all_file [of ?s1 ?t ser "[]" ms] by auto
  have remove: "file_remove ?s2 ?d = (True, put_file ?d None ?s2)"
    using ne on_disk by (simp add: file_remove_def)
  have rename: "file_rename (put_file ?d None ?s2) ?t ?d =
      (True, put_file ?t None (put_file ?d (Some ?b) (put_file ?d None ?s2)))"
    using ne by (simp add: file_rename_def)
  have "put_file ?t None (put_file ?d (Some ?b) (put_file ?d None ?s2)) = put_file ?t None (put_file ?d (Some ?b) s)"
    using ne by (auto simp: put_file_def fun_eq_iff)
  with ms' show ?thesis
    by (intro that) (simp_all add: mm_compact_def create remove rename del: put_file_again)
qed

section \<open>Facts for every codec\<close>

context payload_codec
begin

lemma read_frame_size:
  assumes "fs_files s f = Some (us @ frame ser p @ ws)" and "ok p"
  shows "read_at s f (length us) sizeof_size_t = Some (size_bytes (length (ser p)))"
    and "of_le_bytes (size_bytes (length (ser p))) = length (ser p)"
    and "\<not> max_string_size < length (ser p)"
    and "read_at s f (length us + sizeof_size_t) (length (ser p)) = Some (ser p)"
proof -
  show "read_at s f (length us) sizeof_size_t = Some (size_bytes (length (ser p)))"
    using read_at_mid [of s f us "size_bytes (length (ser p))" "ser p @ ws"] assms(1)
    by (simp add: frame_def)
  show "of_le_bytes (size_bytes (length (ser p))) = length (ser p)"
    using length_ser [OF assms(2)] by (intro of_size_bytes) simp
  show "\<not> max_string_size < length (ser p)"
    using length_ser [OF assms(2)] by (simp add: max_string_size_def)
  show "read_at s f (length us + sizeof_size_t) (length (ser p)) = Some (ser p)"
    using read_at_mid [of s f "us @ size_bytes (length (ser p))" "ser p" ws] assms(1)
    by (simp add: frame_def)
qed

lemma load_frames:
  assumes "fs_files s f = Some (us @ frames ser ps @ ws)" and "\<forall>p \<in> set ps. ok p"
    and "length us + length (frames ser ps) \<le> fsize"
  shows "load_loop par f s fsize (length us) lst =
    load_loop par f s fsize (length us + length (frames ser ps)) (lst @ map unplaced (live ps))"
  using assms
proof (induction ps arbitrary: us lst)
  case Nil
  then show ?case by simp
next
  case (Cons p ps)
  have ok: "ok p" using Cons.prems(2) by simp
  have on_disk: "fs_files s f = Some (us @ frame ser p @ (frames ser ps @ ws))" using Cons.prems(1) by simp
  have lt: "length us < fsize"
    using Cons.prems(3) by (simp add: length_frame sizeof_size_t_def)
  note r = read_frame_size [OF on_disk ok]
  let ?lst = "if pl_valid p = ''0'' then lst else lst @ [unplaced p]"
  have "load_loop par f s fsize (length us) lst =
      load_loop par f s fsize (length (us @ frame ser p)) ?lst"
    by (subst load_loop.simps)
      (simp add: lt r(1) r(2) r(3) r(4) Let_def par_ser [OF ok] length_frame add.assoc unplaced_def)
  also have "\<dots> = load_loop par f s fsize (length us + length (frames ser (p # ps)))
      (?lst @ map unplaced (live ps))"
    using Cons.IH [of "us @ frame ser p" ?lst] on_disk Cons.prems by (simp add: add.assoc)
  finally show ?case by simp
qed

lemma load_whole:
  assumes "fs_files s (mm_data_file mm) = Some (frames ser ps)" and "\<forall>p \<in> set ps. ok p"
  shows "mm_load par mm s = Inr (True, map unplaced (live ps))"
  using load_frames [of s "mm_data_file mm" "[]" ps "[]" "length (frames ser ps)" "[]"] assms
  by (simp add: mm_load_def size_file [OF assms(1)] load_loop.simps)

lemma load_torn:
  assumes on_disk: "fs_files s (mm_data_file mm) = Some (frames ser ps @ take k (frame ser p))"
    and oks: "\<forall>q \<in> set ps. ok q" and ok: "ok p" and k: "0 < k" "k < length (frame ser p)"
  shows "mm_load par mm s = Inr (False, map unplaced (live ps))"
proof -
  let ?f = "mm_data_file mm" and ?n = "length (frames ser ps)" and ?lst = "map unplaced (live ps)"
  have size: "file_size s ?f = ?n + k" using k by (simp add: size_file [OF on_disk])
  have all: "mm_load par mm s = load_loop par ?f s (?n + k) ?n ?lst"
    using load_frames [of s ?f "[]" ps "take k (frame ser p)" "?n + k" "[]"] on_disk oks
    by (simp add: mm_load_def size)
  have "load_loop par ?f s (?n + k) ?n ?lst = Inr (False, ?lst)"
  proof (cases "k < sizeof_size_t")
    case True
    then have "read_at s ?f ?n sizeof_size_t = None"
      using k by (intro read_at_short [OF on_disk]) (auto simp: sizeof_size_t_def)
    then show ?thesis using k by (subst load_loop.simps) simp
  next
    case False
    let ?h = "size_bytes (length (ser p))"
    have split: "take k (frame ser p) = ?h @ take (k - sizeof_size_t) (ser p)"
      using False by (simp add: frame_def)
    have read1: "read_at s ?f ?n sizeof_size_t = Some ?h"
      by (rule read_at_mid [where ws = "take (k - sizeof_size_t) (ser p)"]) (simp_all add: on_disk split)
    have len: "of_le_bytes ?h = length (ser p)" "\<not> max_string_size < length (ser p)"
      using length_ser [OF ok] by (auto intro: of_size_bytes simp: max_string_size_def)
    have "read_at s ?f (?n + sizeof_size_t) (length (ser p)) = None"
      using k False by (intro read_at_short [OF on_disk]) (auto simp: length_frame)
    then show ?thesis using k by (subst load_loop.simps) (simp add: read1 len Let_def)
  qed
  with all show ?thesis by simp
qed

lemma insert_log:
  assumes "fs_files s (mm_data_file mm) = Some (frames ser ps)"
  obtains m' where
    "mm_insert ser mm s m = (True, put_file (mm_data_file mm) (Some (frames ser (ps @ [msg_payload m]))) s, m')"
    and "placed ser (ps @ [msg_payload m]) (length ps) m'"
  using append_msg_file [OF assms, of ser m]
  by (auto simp: mm_insert_def placed_def offset_of_def intro!: that)

lemma frames_split:
  assumes "i < length ps"
  shows "frames ser ps = (frames ser (take i ps) @ size_bytes (length (ser (ps ! i)))) @ ser (ps ! i) @
    frames ser (drop (Suc i) ps)"
  using id_take_nth_drop [OF assms] frames_simps(2,3) by (metis append.assoc frame_def)

lemma remove_log:
  assumes on_disk: "fs_files s (mm_data_file mm) = Some (frames ser ps)"
    and small: "length (frames ser ps) < 2 ^ 32"
    and m: "placed ser ps i m" and ok: "ok (ps ! i)" and valid: "pl_valid (ps ! i) = ''1''"
  shows "mm_remove ser mm s m =
    (True, put_file (mm_data_file mm) (Some (frames ser (ps[i := (ps ! i)\<lparr>pl_valid := ''0''\<rparr>]))) s, invalidate m)"
proof -
  let ?p = "ps ! i" and ?q = "(ps ! i)\<lparr>pl_valid := ''0''\<rparr>" and ?f = "mm_data_file mm"
  let ?pre = "frames ser (take i ps) @ size_bytes (length (ser ?p))"
  let ?post = "frames ser (drop (Suc i) ps)"
  have i: "i < length ps" and pay: "msg_payload m = ?p" using m by (simp_all add: placed_def)
  have len: "length (ser ?q) = length (ser ?p)" by (rule length_invalid [OF ok valid])
  have split: "frames ser ps = ?pre @ ser ?p @ ?post" by (rule frames_split [OF i])
  then have lens: "length ?pre + length (ser ?p) \<le> length (frames ser ps)"
    by (metis add.assoc le_add1 length_append)
  have off: "unat (msg_offset m) = length ?pre"
    using lens small m by (simp add: placed_def offset_of_def unat_of_nat_small del: of_nat_add)
  have ulen: "unat (msg_length m) = length (ser ?p)"
    using lens small m by (simp add: placed_def unat_of_nat_small)
  have "frames ser (ps[i := ?q]) = ?pre @ ser ?q @ ?post"
    using i by (simp add: upd_conv_take_nth_drop frame_def len)
  moreover have "overwrite (frames ser ps) (length ?pre) (ser ?q) = ?pre @ ser ?q @ ?post"
    unfolding split by (rule overwrite_middle [OF len])
  ultimately show ?thesis
    by (simp add: mm_remove_def Let_def invalidate_def pay off ulen len write_at_file [OF on_disk]
        del: length_append)
qed

lemma gc_log:
  assumes ready: "mapper_ready mm s" and on_disk: "fs_files s (mm_data_file mm) = Some (frames ser ps)"
    and ok: "\<forall>p \<in> set ps. ok p"
  obtains ms where
    "mm_gc ser par mm s = Inr (put_file (mm_tmp_file mm) None
        (put_file (mm_data_file mm) (Some (frames ser (live ps))) s), ms)"
    and "length ms = length (live ps)" and "\<forall>i < length (live ps). placed ser (live ps) i (ms ! i)"
proof -
  have payloads: "map msg_payload (map unplaced (live ps)) = live ps"
    by (simp add: comp_def)
  obtain ms where "mm_compact ser mm s (map unplaced (live ps)) = (put_file (mm_tmp_file mm) None
      (put_file (mm_data_file mm) (Some (frames ser (live ps))) s), ms)"
    "length ms = length (live ps)" "\<forall>i < length (live ps). placed ser (live ps) i (ms ! i)"
    using compact_log [OF ready on_disk, of ser "map unplaced (live ps)"] unfolding payloads by auto
  then show ?thesis by (intro that) (auto simp: mm_gc_def load_whole [OF on_disk ok])
qed

lemma gc_torn:
  assumes "fs_files s (mm_data_file mm) = Some (frames ser ps @ take k (frame ser p))"
    and "\<forall>q \<in> set ps. ok q" and "ok p" and "0 < k" and "k < length (frame ser p)"
  shows "mm_gc ser par mm s = Inr (s, map unplaced (live ps))"
  by (simp add: mm_gc_def load_torn [OF assms])

end

section \<open>Properties\<close>

definition sample_message :: message where
  "sample_message = new_message\<lparr>msg_payload := sample_payload\<rparr>"

definition sample_fs :: "bytes \<Rightarrow> fs" where
  "sample_fs b = \<lparr>fs_files = [''./q.mqd'' \<mapsto> b], fs_dirs = [''.'']\<rparr>"

definition sample_mapper :: message_mapper where
  "sample_mapper = mapper_paths ''.'' ''q''"

lemma sample_storable: "storable wire_rt sample_payload" "storable wire_rt (sample_payload\<lparr>pl_valid := ''0''\<rparr>)"
proof -
  have "payload_byte_size wire_rt sample_payload < 2 ^ 31"
    by (simp add: payload_byte_size_def properties_byte_size_def sample_payload_def wire_rt_def
        varint.simps enum_bits_def)
  then show "storable wire_rt sample_payload" by (simp add: storable_def sample_payload_ok)
  then show "storable wire_rt (sample_payload\<lparr>pl_valid := ''0''\<rparr>)"
    by (rule storable_invalid) (simp add: sample_payload_def)
qed

lemma sample_file [simp]: "fs_files (sample_fs b) (mm_data_file sample_mapper) = Some b"
  by (simp add: sample_fs_def sample_mapper_def mapper_paths_def with_slash_def)

lemma sample_ready: "mapper_ready sample_mapper (sample_fs b)"
  by (simp add: mapper_ready_def sample_mapper_def mapper_paths_def with_slash_def dir_part_def
      sample_fs_def dir_exists_def strip_slashes_def)

text \<open>
  Loading a file that holds a sequence of stored payloads succeeds and returns exactly the
  valid ones, in the order of the file.
\<close>

theorem load_returns_live:
  assumes "fs_files s (mm_data_file mm) = Some (frames (SerializeAsString rt) ps)"
    and "\<forall>p \<in> set ps. storable rt p"
  shows "mm_load (par_payload rt) mm s = Inr (True, map unplaced (live ps))"
  by (rule pb.load_whole [OF assms])

lemma load_returns_live_witness:
  "mm_load (par_payload wire_rt) sample_mapper
     (sample_fs (frames (SerializeAsString wire_rt) [sample_payload, sample_payload\<lparr>pl_valid := ''0''\<rparr>])) =
   Inr (True, [unplaced sample_payload])"
  using load_returns_live [of "sample_fs (frames (SerializeAsString wire_rt) [sample_payload, sample_payload\<lparr>pl_valid := ''0''\<rparr>])"
      sample_mapper wire_rt "[sample_payload, sample_payload\<lparr>pl_valid := ''0''\<rparr>]"]
  by (simp add: sample_storable) (simp add: sample_payload_def)

text \<open>
  Removing a stored message overwrites its payload in place with the invalid one, leaves every
  other record of the file as it was, and touches no other file, as long as the file is smaller
  than 4 GiB (the offset is kept in 32 bits).
\<close>

theorem remove_overwrites_in_place:
  assumes "fs_files s (mm_data_file mm) = Some (frames (SerializeAsString rt) ps)"
    and "length (frames (SerializeAsString rt) ps) < 2 ^ 32"
    and "placed (SerializeAsString rt) ps i m" and "storable rt (ps ! i)" and "pl_valid (ps ! i) = ''1''"
  shows "mm_remove (SerializeAsString rt) mm s m =
    (True, put_file (mm_data_file mm)
       (Some (frames (SerializeAsString rt) (ps[i := (ps ! i)\<lparr>pl_valid := ''0''\<rparr>]))) s, invalidate m)"
  by (rule pb.remove_log [OF assms])

definition placed_sample :: message where
  "placed_sample = sample_message\<lparr>msg_offset := 8, msg_length := word_of_nat (length (SerializeAsString wire_rt sample_payload))\<rparr>"

lemma sample_frame_length: "length (SerializeAsString wire_rt sample_payload) = 32"
  by (simp add: storable_ser [OF sample_storable(1)]
      length_ser_payload [OF storable_sizes [OF sample_storable(1)]])
    (simp add: payload_byte_size_def properties_byte_size_def sample_payload_def wire_rt_def
      varint.simps enum_bits_def)

lemma remove_overwrites_in_place_witness:
  "mm_remove (SerializeAsString wire_rt) sample_mapper
     (sample_fs (frames (SerializeAsString wire_rt) [sample_payload])) placed_sample =
   (True, put_file (mm_data_file sample_mapper)
      (Some (frames (SerializeAsString wire_rt) [sample_payload\<lparr>pl_valid := ''0''\<rparr>]))
      (sample_fs (frames (SerializeAsString wire_rt) [sample_payload])), invalidate placed_sample)"
  using remove_overwrites_in_place [of "sample_fs (frames (SerializeAsString wire_rt) [sample_payload])"
      sample_mapper wire_rt "[sample_payload]" 0 placed_sample]
  by (simp add: sample_storable length_frame sizeof_size_t_def sample_frame_length placed_def
      placed_sample_def sample_message_def offset_of_def)
    (simp add: sample_payload_def)

text \<open>
  C28: A crash in the middle of an append leaves a strict, non-empty prefix of a record at the end
  of the file.  Recovery then returns all valid records before it and keeps the file as it is, so
  the torn record stays in the way of every later append.
\<close>

theorem gc_after_torn_append:
  assumes "fs_files s (mm_data_file mm) =
      Some (frames (SerializeAsString rt) ps @ take k (frame (SerializeAsString rt) p))"
    and "\<forall>q \<in> set ps. storable rt q" and "storable rt p" and "0 < k"
    and "k < length (frame (SerializeAsString rt) p)"
  shows "mm_gc (SerializeAsString rt) (par_payload rt) mm s = Inr (s, map unplaced (live ps))"
  by (rule pb.gc_torn [OF assms])

lemma gc_after_torn_append_witness:
  "mm_gc (SerializeAsString wire_rt) (par_payload wire_rt) sample_mapper
     (sample_fs (frames (SerializeAsString wire_rt) [sample_payload] @
        take 11 (frame (SerializeAsString wire_rt) sample_payload))) =
   Inr (sample_fs (frames (SerializeAsString wire_rt) [sample_payload] @
        take 11 (frame (SerializeAsString wire_rt) sample_payload)), [unplaced sample_payload])"
proof -
  have "live [sample_payload] = [sample_payload]" by (simp add: sample_payload_def)
  then show ?thesis
    using gc_after_torn_append [of "sample_fs (frames (SerializeAsString wire_rt) [sample_payload] @
        take 11 (frame (SerializeAsString wire_rt) sample_payload))" sample_mapper wire_rt "[sample_payload]" 11 sample_payload]
    by (simp add: sample_storable length_frame sizeof_size_t_def sample_frame_length)
qed

text \<open>
  Garbage collection of a file of stored payloads leaves exactly the valid ones in the file, in
  their order, removes the second file, touches nothing else, and returns one message per valid
  payload that carries the payload's new place.
\<close>

theorem gc_keeps_live:
  assumes "mapper_ready mm s" and "fs_files s (mm_data_file mm) = Some (frames (SerializeAsString rt) ps)"
    and "\<forall>p \<in> set ps. storable rt p"
  shows "\<exists>ms. mm_gc (SerializeAsString rt) (par_payload rt) mm s =
      Inr (put_file (mm_tmp_file mm) None
        (put_file (mm_data_file mm) (Some (frames (SerializeAsString rt) (live ps))) s), ms) \<and>
    map msg_payload ms = live ps \<and>
    (\<forall>i < length ms. placed (SerializeAsString rt) (live ps) i (ms ! i))"
  using pb.gc_log [OF assms] map_payload_placed by metis

lemma gc_keeps_live_witness:
  "\<exists>ms. mm_gc (SerializeAsString wire_rt) (par_payload wire_rt) sample_mapper
      (sample_fs (frames (SerializeAsString wire_rt) [sample_payload\<lparr>pl_valid := ''0''\<rparr>, sample_payload])) =
      Inr (put_file (mm_tmp_file sample_mapper) None
        (put_file (mm_data_file sample_mapper) (Some (frames (SerializeAsString wire_rt) [sample_payload]))
          (sample_fs (frames (SerializeAsString wire_rt) [sample_payload\<lparr>pl_valid := ''0''\<rparr>, sample_payload]))), ms) \<and>
    map msg_payload ms = [sample_payload] \<and>
    (\<forall>i < length ms. placed (SerializeAsString wire_rt) [sample_payload] i (ms ! i))"
proof -
  have "live [sample_payload\<lparr>pl_valid := ''0''\<rparr>, sample_payload] = [sample_payload]"
    by (simp add: sample_payload_def)
  then show ?thesis
    using gc_keeps_live [OF sample_ready sample_file, where ps = "[sample_payload\<lparr>pl_valid := ''0''\<rparr>, sample_payload]" and rt = wire_rt]
    by (simp add: sample_storable)
qed

end
