(* ===== verification/Queue_Message.thy ===== *)
theory Queue_Message
  imports Message_Mapper
begin

text \<open>
  \<open>queue_message\<close> of \<open>HareMQ/mqserver/message.hpp\<close>: the messages of one queue in memory, over the
  file of its \<open>message_mapper\<close>.  Message objects are shared between the list of waiting messages
  and the two maps, so the queue keeps a store of objects and the containers hold references.
  The class's own mutex makes each operation one step.
\<close>

section \<open>State\<close>

type_synonym ref = nat

record queue_message =
  qm_queue_name :: string
  qm_valid_count :: "64 word"
  qm_total_count :: "64 word"
  qm_mapper :: message_mapper
  qm_msgs :: "ref list"
  qm_durable_msgs :: "(string, ref) umap"
  qm_wait_ack_msgs :: "(string, ref) umap"
  qm_store :: "message list" \<comment> \<open>the objects, by reference\<close>

definition deref :: "queue_message \<Rightarrow> ref \<Rightarrow> message" where
  "deref q r = qm_store q ! r"

definition alloc :: "message \<Rightarrow> queue_message \<Rightarrow> ref \<times> queue_message" where
  "alloc m q = (length (qm_store q), q\<lparr>qm_store := qm_store q @ [m]\<rparr>)"

definition msg_id :: "message \<Rightarrow> string" where
  "msg_id m = bp_id (properties (msg_payload m))"

definition msg_mode :: "message \<Rightarrow> DeliveryMode" where
  "msg_mode m = bp_delivery_mode (properties (msg_payload m))"

section \<open>Operations\<close>

definition qm_new :: "string \<Rightarrow> string \<Rightarrow> fs \<Rightarrow> (queue_message \<times> fs) result" where
  "qm_new base_dir qname s =
     rbind (mapper_new base_dir qname s) (\<lambda>(mm, s').
       Inr (\<lparr>qm_queue_name = qname, qm_valid_count = 0, qm_total_count = 0, qm_mapper = mm,
         qm_msgs = [], qm_durable_msgs = [], qm_wait_ack_msgs = [], qm_store = []\<rparr>, s'))"

definition note_durable :: "ref \<Rightarrow> queue_message \<Rightarrow> queue_message" where
  "note_durable r q = q\<lparr>qm_durable_msgs := um_insert (msg_id (deref q r)) r (qm_durable_msgs q)\<rparr>"

definition qm_recovery ::
  "(payload \<Rightarrow> bytes) \<Rightarrow> (bytes \<Rightarrow> payload) \<Rightarrow> queue_message \<Rightarrow> fs \<Rightarrow> (queue_message \<times> fs) result" where
  "qm_recovery ser par q s =
     rbind (mm_gc ser par (qm_mapper q) s) (\<lambda>(s', ms).
       let refs = [length (qm_store q)..<length (qm_store q) + length ms];
           q1 = q\<lparr>qm_store := qm_store q @ ms, qm_msgs := refs\<rparr>;
           q2 = fold note_durable refs q1
       in Inr (q2\<lparr>qm_valid_count := word_of_nat (length ms), qm_total_count := word_of_nat (length ms)\<rparr>, s'))"

text \<open>The payload \<open>insert\<close> builds; \<open>uuid\<close> is what \<open>uuid_helper\<close> returns, used without properties.\<close>

definition make_payload :: "string \<Rightarrow> BasicProperties option \<Rightarrow> string \<Rightarrow> bool \<Rightarrow> payload" where
  "make_payload uuid bp body queue_durable =
     default_payload\<lparr>pl_body := body,
       pl_properties := Some (case bp of
           Some b \<Rightarrow> default_properties\<lparr>bp_id := bp_id b,
             bp_delivery_mode := (if queue_durable then bp_delivery_mode b else UNDURABLE),
             bp_routing_key := bp_routing_key b\<rparr>
         | None \<Rightarrow> default_properties\<lparr>bp_id := uuid,
             bp_delivery_mode := (if queue_durable then DURABLE else UNDURABLE),
             bp_routing_key := []\<rparr>)\<rparr>"

definition set_valid :: "string \<Rightarrow> message \<Rightarrow> message" where
  "set_valid v m = m\<lparr>msg_payload := (msg_payload m)\<lparr>pl_valid := v\<rparr>\<rparr>"

definition push_msg :: "message \<Rightarrow> queue_message \<Rightarrow> queue_message" where
  "push_msg m q = (case alloc m q of (r, q1) \<Rightarrow> q1\<lparr>qm_msgs := qm_msgs q1 @ [r]\<rparr>)"

definition qm_insert ::
  "(payload \<Rightarrow> bytes) \<Rightarrow> string \<Rightarrow> BasicProperties option \<Rightarrow> string \<Rightarrow> bool \<Rightarrow> queue_message \<Rightarrow> fs \<Rightarrow>
     bool \<times> queue_message \<times> fs" where
  "qm_insert ser uuid bp body queue_durable q s =
     (let m = new_message\<lparr>msg_payload := make_payload uuid bp body queue_durable\<rparr> in
      if msg_mode m = DURABLE then
        (case mm_insert ser (qm_mapper q) s (set_valid ''1'' m) of
           (False, s1, m1) \<Rightarrow> (False, q, s1)
         | (True, s1, m1) \<Rightarrow>
             (True, (push_msg m1 q)\<lparr>qm_valid_count := qm_valid_count q + 1,
                qm_total_count := qm_total_count q + 1,
                qm_durable_msgs := um_insert (msg_id m1) (length (qm_store q)) (qm_durable_msgs q)\<rparr>, s1))
      else (True, push_msg m q, s))"

definition qm_front :: "queue_message \<Rightarrow> message option \<times> queue_message" where
  "qm_front q =
     (case qm_msgs q of
        [] \<Rightarrow> (None, q)
      | r # rs \<Rightarrow> (Some (deref q r),
          q\<lparr>qm_msgs := rs, qm_wait_ack_msgs := um_insert (msg_id (deref q r)) r (qm_wait_ack_msgs q)\<rparr>))"

text \<open>The quotient of the counts is compared as a \<open>double\<close>, exact below \<open>2 ^ 53\<close>.\<close>

definition gc_check :: "queue_message \<Rightarrow> bool" where
  "gc_check q \<longleftrightarrow> 2000 < unat (qm_total_count q) \<and>
     2 * unat (qm_valid_count q) < unat (qm_total_count q)"

definition update_place :: "message \<Rightarrow> message \<Rightarrow> message" where
  "update_place m old = old\<lparr>msg_offset := msg_offset m, msg_length := msg_length m\<rparr>"

definition gc_update :: "message \<Rightarrow> queue_message \<Rightarrow> queue_message" where
  "gc_update m q =
     (case map_of (qm_durable_msgs q) (msg_id m) of
        None \<Rightarrow> (push_msg m q)\<lparr>qm_durable_msgs :=
            um_insert (msg_id m) (length (qm_store q)) (qm_durable_msgs q)\<rparr>
      | Some r \<Rightarrow> q\<lparr>qm_store := (qm_store q)[r := update_place m (deref q r)]\<rparr>)"

definition qm_gc ::
  "(payload \<Rightarrow> bytes) \<Rightarrow> (bytes \<Rightarrow> payload) \<Rightarrow> queue_message \<Rightarrow> fs \<Rightarrow> (queue_message \<times> fs) result" where
  "qm_gc ser par q s =
     (if \<not> gc_check q then Inr (q, s)
      else rbind (mm_gc ser par (qm_mapper q) s) (\<lambda>(s', ms).
        if word_of_nat (length ms) \<noteq> qm_valid_count q then Inl Aborts
        else Inr ((fold gc_update ms q)\<lparr>qm_valid_count := word_of_nat (length ms),
                    qm_total_count := word_of_nat (length ms)\<rparr>, s')))"

definition qm_remove ::
  "(payload \<Rightarrow> bytes) \<Rightarrow> (bytes \<Rightarrow> payload) \<Rightarrow> string \<Rightarrow> queue_message \<Rightarrow> fs \<Rightarrow> (queue_message \<times> fs) result" where
  "qm_remove ser par mid q s =
     (case map_of (qm_wait_ack_msgs q) mid of
        None \<Rightarrow> Inr (q, s)
      | Some r \<Rightarrow>
          rbind
            (if msg_mode (deref q r) = DURABLE then
               (case mm_remove ser (qm_mapper q) s (deref q r) of
                  (ret, s1, m1) \<Rightarrow>
                    qm_gc ser par (q\<lparr>qm_store := (qm_store q)[r := m1],
                      qm_durable_msgs := um_erase mid (qm_durable_msgs q),
                      qm_valid_count := qm_valid_count q - 1\<rparr>) s1)
             else Inr (q, s))
            (\<lambda>(q', s'). Inr (q'\<lparr>qm_wait_ack_msgs := um_erase mid (qm_wait_ack_msgs q')\<rparr>, s')))"

definition qm_getable_count :: "queue_message \<Rightarrow> nat" where
  "qm_getable_count q = length (qm_msgs q)"

definition qm_durable_count :: "queue_message \<Rightarrow> nat" where
  "qm_durable_count q = length (qm_durable_msgs q)"

definition qm_wait_ack_count :: "queue_message \<Rightarrow> nat" where
  "qm_wait_ack_count q = length (qm_wait_ack_msgs q)"

definition qm_clear :: "queue_message \<Rightarrow> fs \<Rightarrow> queue_message \<times> fs" where
  "qm_clear q s =
     (q\<lparr>qm_msgs := [], qm_durable_msgs := [], qm_wait_ack_msgs := [], qm_valid_count := 0,
        qm_total_count := 0\<rparr>, remove_msg_file (qm_mapper q) s)"

section \<open>Specification\<close>

text \<open>
  What a queue promises: the messages waiting, those delivered and not acknowledged, and the
  durable messages that a restart brings back.
\<close>

record spec_queue =
  sq_ready :: "payload list"
  sq_unacked :: "(string, payload) umap"
  sq_stored :: "payload list"

definition pay_id :: "payload \<Rightarrow> string" where
  "pay_id p = bp_id (properties p)"

definition pay_durable :: "payload \<Rightarrow> bool" where
  "pay_durable p \<longleftrightarrow> bp_delivery_mode (properties p) = DURABLE"

definition spec_put :: "payload \<Rightarrow> spec_queue \<Rightarrow> spec_queue" where
  "spec_put p A = A\<lparr>sq_ready := sq_ready A @ [p],
     sq_stored := sq_stored A @ (if pay_durable p then [p] else [])\<rparr>"

definition spec_take :: "spec_queue \<Rightarrow> payload option \<times> spec_queue" where
  "spec_take A =
     (case sq_ready A of
        [] \<Rightarrow> (None, A)
      | p # ps \<Rightarrow> (Some p, A\<lparr>sq_ready := ps, sq_unacked := (pay_id p, p) # sq_unacked A\<rparr>))"

definition spec_ack :: "string \<Rightarrow> spec_queue \<Rightarrow> spec_queue" where
  "spec_ack i A =
     (if map_of (sq_unacked A) i = None then A
      else A\<lparr>sq_unacked := um_erase i (sq_unacked A),
             sq_stored := filter (\<lambda>p. pay_id p \<noteq> i) (sq_stored A)\<rparr>)"

definition spec_restart :: "spec_queue \<Rightarrow> spec_queue" where
  "spec_restart A = A\<lparr>sq_ready := sq_stored A, sq_unacked := []\<rparr>"

definition spec_empty :: spec_queue where
  "spec_empty = \<lparr>sq_ready = [], sq_unacked = [], sq_stored = []\<rparr>"

definition spec_ids :: "spec_queue \<Rightarrow> string list" where
  "spec_ids A = map pay_id (sq_ready A) @ map fst (sq_unacked A)"

section \<open>The representation\<close>

definition held :: "queue_message \<Rightarrow> ref list" where
  "held q = qm_msgs q @ map snd (qm_wait_ack_msgs q)"

definition ident :: "queue_message \<Rightarrow> ref \<Rightarrow> string" where
  "ident q r = msg_id (deref q r)"

text \<open>
  Each record of the file is live, and then belongs to one message in memory, or dead: \<open>own\<close>
  names the owner of each record.
\<close>

definition owners :: "ref option list \<Rightarrow> ref list" where
  "owners own = map the (filter (\<lambda>x. x \<noteq> None) own)"

definition record_ok :: "(payload \<Rightarrow> bytes) \<Rightarrow> queue_message \<Rightarrow> payload list \<Rightarrow> nat \<Rightarrow> ref option \<Rightarrow> bool" where
  "record_ok ser q ps i x \<longleftrightarrow>
     (case x of
        None \<Rightarrow> pl_valid (ps ! i) = ''0''
      | Some r \<Rightarrow> placed ser ps i (deref q r) \<and> pl_valid (ps ! i) = ''1'')"

definition logged :: "(payload \<Rightarrow> bytes) \<Rightarrow> queue_message \<Rightarrow> payload list \<Rightarrow> ref option list \<Rightarrow> bool" where
  "logged ser q ps own \<longleftrightarrow> length own = length ps \<and> (\<forall>i < length ps. record_ok ser q ps i (own ! i))"

definition held_ok :: "queue_message \<Rightarrow> bool" where
  "held_ok q \<longleftrightarrow> distinct (map (ident q) (held q)) \<and> (\<forall>r \<in> set (held q). r < length (qm_store q)) \<and>
     map fst (qm_wait_ack_msgs q) = map (ident q) (map snd (qm_wait_ack_msgs q))"

definition owners_ok :: "queue_message \<Rightarrow> ref option list \<Rightarrow> bool" where
  "owners_ok q own \<longleftrightarrow> distinct (owners own) \<and>
     set (owners own) = {r \<in> set (held q). msg_mode (deref q r) = DURABLE} \<and>
     um_wf (qm_durable_msgs q) \<and> set (qm_durable_msgs q) = (\<lambda>r. (ident q r, r)) ` set (owners own)"

definition counts_ok :: "queue_message \<Rightarrow> nat \<Rightarrow> nat \<Rightarrow> bool" where
  "counts_ok q v n \<longleftrightarrow> qm_valid_count q = word_of_nat v \<and> qm_total_count q = word_of_nat n"

text \<open>How much of the file the automatic collection lets be garbage.\<close>

definition garbage_ok :: "nat \<Rightarrow> nat \<Rightarrow> bool" where
  "garbage_ok v n \<longleftrightarrow> n \<le> 2000 + v \<or> n \<le> 2 * v"

definition on_disk ::
  "(payload \<Rightarrow> bytes) \<Rightarrow> (payload \<Rightarrow> bool) \<Rightarrow> queue_message \<Rightarrow> fs \<Rightarrow> payload list \<Rightarrow> bool" where
  "on_disk ser ok q s ps \<longleftrightarrow> mapper_ready (qm_mapper q) s \<and>
     fs_files s (mm_data_file (qm_mapper q)) = Some (frames ser ps) \<and> (\<forall>p \<in> set ps. ok p)"

definition queue_inv ::
  "(payload \<Rightarrow> bytes) \<Rightarrow> (payload \<Rightarrow> bool) \<Rightarrow> queue_message \<Rightarrow> fs \<Rightarrow> payload list \<Rightarrow> ref option list \<Rightarrow> bool" where
  "queue_inv ser ok q s ps own \<longleftrightarrow> on_disk ser ok q s ps \<and> logged ser q ps own \<and> held_ok q \<and>
     owners_ok q own \<and> counts_ok q (length (owners own)) (length ps)"

definition abs_queue :: "queue_message \<Rightarrow> payload list \<Rightarrow> spec_queue" where
  "abs_queue q ps =
     \<lparr>sq_ready = map (\<lambda>r. msg_payload (deref q r)) (qm_msgs q),
      sq_unacked = map (\<lambda>(k, r). (k, msg_payload (deref q r))) (qm_wait_ack_msgs q),
      sq_stored = live ps\<rparr>"

definition represents ::
  "(payload \<Rightarrow> bytes) \<Rightarrow> (payload \<Rightarrow> bool) \<Rightarrow> queue_message \<Rightarrow> fs \<Rightarrow> spec_queue \<Rightarrow> bool" where
  "represents ser ok q s A \<longleftrightarrow> (\<exists>ps own. queue_inv ser ok q s ps own \<and>
     garbage_ok (length (owners own)) (length ps) \<and> A = abs_queue q ps)"

lemma queue_invD:
  assumes "queue_inv ser ok q s ps own"
  shows "on_disk ser ok q s ps" and "logged ser q ps own" and "held_ok q" and "owners_ok q own"
    and "counts_ok q (length (owners own)) (length ps)"
  using assms by (simp_all add: queue_inv_def)

lemma owners_okD:
  assumes "owners_ok q own"
  shows "distinct (owners own)" and "set (owners own) = {r \<in> set (held q). msg_mode (deref q r) = DURABLE}"
    and "um_wf (qm_durable_msgs q)" and "set (qm_durable_msgs q) = (\<lambda>r. (ident q r, r)) ` set (owners own)"
  using assms by (simp_all add: owners_ok_def)

subsection \<open>Owners\<close>

lemma owners_simps [simp]:
  "owners [] = []" "owners (None # own) = owners own" "owners (Some r # own) = r # owners own"
  "owners (own @ own') = owners own @ owners own'" "owners (map Some rs) = rs"
  by (simp_all add: owners_def comp_def)

lemma owners_iff: "r \<in> set (owners own) \<longleftrightarrow> Some r \<in> set own"
  by (force simp: owners_def)

lemma owner_nth: "own ! i = Some r \<Longrightarrow> i < length own \<Longrightarrow> r \<in> set (owners own)"
  using nth_mem [of i own] by (simp add: owners_iff)

lemma owners_clear:
  assumes "distinct (owners own)" and "i < length own" and "own ! i = Some r"
  shows "owners (own[i := None]) = remove1 r (owners own)"
  using assms
proof (induction own arbitrary: i)
  case (Cons x own)
  show ?case
  proof (cases i)
    case (Suc j)
    then have "Some r \<in> set own" using Cons.prems nth_mem [of j own] by simp
    then have "r \<in> set (owners own)" by (simp add: owners_iff)
    with Cons Suc show ?thesis by (cases x) auto
  qed (use Cons.prems in simp)
qed simp

lemma live_map:
  assumes "length own = length ps"
    and "\<forall>i < length ps. (case own ! i of None \<Rightarrow> pl_valid (ps ! i) = ''0''
          | Some r \<Rightarrow> f r = ps ! i \<and> pl_valid (ps ! i) = ''1'')"
  shows "live ps = map f (owners own)"
  using assms
proof (induction own ps rule: list_induct2)
  case (Cons x own p ps)
  have "live ps = map f (owners own)"
  proof (rule Cons.IH, intro allI impI)
    fix i assume "i < length ps"
    then show "case own ! i of None \<Rightarrow> pl_valid (ps ! i) = ''0'' | Some r \<Rightarrow> f r = ps ! i \<and> pl_valid (ps ! i) = ''1''"
      using Cons.prems [rule_format, of "Suc i"] by (simp split: option.splits)
  qed
  with Cons.prems [rule_format, of 0] show ?case by (auto split: option.splits)
qed simp

lemma live_owned:
  assumes "logged ser q ps own"
  shows "live ps = map (\<lambda>r. msg_payload (deref q r)) (owners own)"
proof (rule live_map, goal_cases)
  case 1
  show ?case using assms by (simp add: logged_def)
next
  case 2
  show ?case
  proof (intro allI impI)
    fix i assume "i < length ps"
    then have "record_ok ser q ps i (own ! i)" using assms by (simp add: logged_def)
    then show "case own ! i of None \<Rightarrow> pl_valid (ps ! i) = ''0''
        | Some r \<Rightarrow> msg_payload (deref q r) = ps ! i \<and> pl_valid (ps ! i) = ''1''"
      by (simp add: record_ok_def placed_def split: option.splits)
  qed
qed

lemma owner_unique:
  assumes "distinct (owners own)" and "i < length own" and "own ! i = Some r"
    and "j < length own" and "own ! j = Some x" and "i \<noteq> j"
  shows "x \<noteq> r"
proof -
  have "own[i := None] ! j = Some x" using assms by simp
  then have "x \<in> set (owners (own[i := None]))" using assms(4) by (intro owner_nth [of _ j]) simp_all
  then show ?thesis using assms(1) unfolding owners_clear [OF assms(1-3)] by (simp add: set_remove1_eq)
qed

lemma offset_of_update:
  assumes "length (ser p) = length (ser (ps ! j))"
  shows "offset_of ser (ps[j := p]) k = offset_of ser ps k"
    and "length (frames ser (ps[j := p])) = length (frames ser ps)"
proof -
  have len: "length (frames ser xs) = sum_list (map (\<lambda>p. sizeof_size_t + length (ser p)) xs)" for xs
    by (induction xs) (simp_all add: length_frame)
  have upd: "map (\<lambda>p. sizeof_size_t + length (ser p)) (ps[j := p]) = map (\<lambda>p. sizeof_size_t + length (ser p)) ps"
    using assms by (cases "j < length ps") (simp_all add: map_update list_update_same_conv list_update_beyond)
  show "length (frames ser (ps[j := p])) = length (frames ser ps)" by (simp only: len upd)
  show "offset_of ser (ps[j := p]) k = offset_of ser ps k"
    by (simp only: offset_of_def len take_map [symmetric] upd)
qed

subsection \<open>A new object\<close>

lemma push_msg_simps [simp]:
  "qm_msgs (push_msg m q) = qm_msgs q @ [length (qm_store q)]"
  "qm_store (push_msg m q) = qm_store q @ [m]"
  "qm_wait_ack_msgs (push_msg m q) = qm_wait_ack_msgs q"
  "qm_durable_msgs (push_msg m q) = qm_durable_msgs q"
  "qm_mapper (push_msg m q) = qm_mapper q"
  "qm_valid_count (push_msg m q) = qm_valid_count q"
  "qm_total_count (push_msg m q) = qm_total_count q"
  "qm_queue_name (push_msg m q) = qm_queue_name q"
  by (simp_all add: push_msg_def alloc_def)

lemma deref_push [simp]:
  "r < length (qm_store q) \<Longrightarrow> deref (push_msg m q) r = deref q r"
  "deref (push_msg m q) (length (qm_store q)) = m"
  by (simp_all add: deref_def nth_append)

text \<open>Only the store and the containers matter for the representation.\<close>

definition same_objects :: "queue_message \<Rightarrow> queue_message \<Rightarrow> ref set \<Rightarrow> bool" where
  "same_objects q q' R \<longleftrightarrow> (\<forall>r \<in> R. deref q' r = deref q r)"

lemma logged_cong:
  assumes "logged ser q ps own" and "same_objects q q' (set (owners own))"
  shows "logged ser q' ps own"
  unfolding logged_def
proof (intro conjI allI impI)
  show "length own = length ps" using assms(1) by (simp add: logged_def)
  fix i assume i: "i < length ps"
  with assms(1) have "record_ok ser q ps i (own ! i)" and "i < length own"
    by (auto simp: logged_def)
  then show "record_ok ser q' ps i (own ! i)"
    using assms(2) by (cases "own ! i") (auto simp: record_ok_def same_objects_def owner_nth)
qed

lemma logged_push:
  assumes "logged ser q ps own" and "\<forall>r \<in> set (owners own). r < length (qm_store q)"
    and "placed ser (ps @ [msg_payload m]) (length ps) m" and "pl_valid (msg_payload m) = ''1''"
    and "same_objects (push_msg m q) q' (insert (length (qm_store q)) (set (owners own)))"
  shows "logged ser q' (ps @ [msg_payload m]) (own @ [Some (length (qm_store q))])"
  unfolding logged_def
proof (intro conjI allI impI)
  show "length (own @ [Some (length (qm_store q))]) = length (ps @ [msg_payload m])"
    using assms(1) by (simp add: logged_def)
  fix i assume i: "i < length (ps @ [msg_payload m])"
  have old: "logged ser q' ps own"
    using assms(2,5) by (intro logged_cong [OF assms(1)]) (simp add: same_objects_def)
  show "record_ok ser q' (ps @ [msg_payload m]) i ((own @ [Some (length (qm_store q))]) ! i)"
  proof (cases "i < length ps")
    case True
    then have "record_ok ser q' ps i (own ! i)" and "i < length own"
      using old by (auto simp: logged_def)
    with True show ?thesis
      by (auto simp: record_ok_def placed_def offset_of_def nth_append split: option.splits)
  next
    case False
    then have "i = length ps" "length own = length ps" using i assms(1) by (auto simp: logged_def)
    then show ?thesis using assms(3-5) by (simp add: record_ok_def same_objects_def nth_append)
  qed
qed

lemma held_ok_push:
  assumes "held_ok q" and "msg_id m \<notin> ident q ` set (held q)"
  shows "held_ok (push_msg m q)"
proof -
  have old: "ident (push_msg m q) r = ident q r" if "r \<in> set (held q)" for r
    using assms(1) that by (simp add: ident_def held_ok_def)
  have new: "ident (push_msg m q) (length (qm_store q)) = msg_id m" by (simp add: ident_def)
  have ids: "map (ident (push_msg m q)) (held (push_msg m q)) =
      map (ident q) (qm_msgs q) @ [msg_id m] @ map (ident q) (map snd (qm_wait_ack_msgs q))"
    using old new by (simp add: held_def)
  have "map (ident (push_msg m q)) (map snd (qm_wait_ack_msgs q)) = map (ident q) (map snd (qm_wait_ack_msgs q))"
    by (rule map_cong [OF refl], rule old) (simp add: held_def)
  moreover have "distinct (map (ident (push_msg m q)) (held (push_msg m q)))"
    using assms unfolding ids by (auto simp: held_ok_def held_def)
  moreover have "\<forall>r \<in> set (held (push_msg m q)). r < length (qm_store (push_msg m q))"
    using assms(1) by (auto simp: held_ok_def held_def ball_Un intro: less_SucI)
  ultimately show ?thesis
    using assms(1) by (simp add: held_ok_def)
qed

lemma held_push: "set (held (push_msg m q)) = insert (length (qm_store q)) (set (held q))"
  by (auto simp: held_def)

subsection \<open>Taking a message\<close>

lemma front_inv:
  assumes inv: "queue_inv ser ok q s ps own" and f: "qm_front q = (x, q')"
  shows "queue_inv ser ok q' s ps own"
    and "(map_option msg_payload x, abs_queue q' ps) = spec_take (abs_queue q ps)"
proof -
  have "queue_inv ser ok q' s ps own \<and>
     (map_option msg_payload x, abs_queue q' ps) = spec_take (abs_queue q ps)"
  proof (cases "qm_msgs q")
    case Nil
    then show ?thesis using inv f by (auto simp: qm_front_def spec_take_def abs_queue_def)
  next
    case (Cons r rs)
    have held: "held_ok q" using inv by (simp add: queue_inv_def)
    have "map_of (qm_wait_ack_msgs q) (ident q r) = None"
    proof -
      have "ident q r \<notin> set (map (ident q) (map snd (qm_wait_ack_msgs q)))"
        using held Cons by (simp add: held_ok_def held_def)
      then have "ident q r \<notin> set (map fst (qm_wait_ack_msgs q))"
        using held by (simp add: held_ok_def del: map_map)
      then show ?thesis by (simp add: map_of_eq_None_iff)
    qed
    then have new: "qm_front q = (Some (deref q r), q\<lparr>qm_msgs := rs, qm_wait_ack_msgs := (ident q r, r) # qm_wait_ack_msgs q\<rparr>)"
      using Cons by (simp add: qm_front_def um_insert_fresh ident_def)
    then have x: "x = Some (deref q r)"
      and q': "q' = q\<lparr>qm_msgs := rs, qm_wait_ack_msgs := (ident q r, r) # qm_wait_ack_msgs q\<rparr>"
      using f by auto
    have same: "deref q' = deref q" "ident q' = ident q" by (auto simp: q' deref_def ident_def fun_eq_iff)
    have sets: "set (held q') = set (held q)" using Cons by (auto simp: held_def q')
    have "held_ok q'"
      using held Cons unfolding held_ok_def sets same by (auto simp: held_def q')
    moreover have "owners_ok q' own"
      using inv unfolding queue_inv_def owners_ok_def sets same by (simp add: q')
    moreover have "logged ser q' ps own"
      by (rule logged_cong [OF queue_invD(2) [OF inv]]) (simp add: same_objects_def same)
    ultimately have "queue_inv ser ok q' s ps own"
      using inv by (simp add: queue_inv_def on_disk_def counts_ok_def q')
    moreover have "(map_option msg_payload x, abs_queue q' ps) = spec_take (abs_queue q ps)"
      using Cons unfolding abs_queue_def same
      by (simp add: x q' spec_take_def ident_def msg_id_def pay_id_def)
    ultimately show ?thesis by blast
  qed
  then show "queue_inv ser ok q' s ps own"
    and "(map_option msg_payload x, abs_queue q' ps) = spec_take (abs_queue q ps)" by auto
qed

subsection \<open>Putting a message\<close>

definition put_payload :: "string \<Rightarrow> BasicProperties option \<Rightarrow> string \<Rightarrow> bool \<Rightarrow> payload" where
  "put_payload uuid bp body queue_durable =
     (let p = make_payload uuid bp body queue_durable in
      if pay_durable p then p\<lparr>pl_valid := ''1''\<rparr> else p)"

lemma properties_valid [simp]: "properties (p\<lparr>pl_valid := v\<rparr>) = properties p"
  by (simp add: properties_def)

lemma valid_irrelevant [simp]:
  "pay_durable (p\<lparr>pl_valid := v\<rparr>) = pay_durable p" "pay_id (p\<lparr>pl_valid := v\<rparr>) = pay_id p"
  by (simp_all add: pay_durable_def pay_id_def)

lemma put_payload_facts:
  "pay_durable (put_payload uuid bp body qd) = pay_durable (make_payload uuid bp body qd)"
  "pay_id (put_payload uuid bp body qd) = pay_id (make_payload uuid bp body qd)"
  by (simp_all add: put_payload_def Let_def)

lemma abs_push:
  assumes "held_ok q"
  shows "abs_queue (push_msg m q) ps =
    (abs_queue q ps)\<lparr>sq_ready := sq_ready (abs_queue q ps) @ [msg_payload m]\<rparr>"
proof -
  have old: "deref (push_msg m q) r = deref q r" if "r \<in> set (held q)" for r
    using assms that by (simp add: held_ok_def)
  have "map (\<lambda>r. msg_payload (deref (push_msg m q) r)) (qm_msgs q) = map (\<lambda>r. msg_payload (deref q r)) (qm_msgs q)"
    using old by (auto simp: held_def)
  moreover have "map (\<lambda>(k, r). (k, msg_payload (deref (push_msg m q) r))) (qm_wait_ack_msgs q) =
      map (\<lambda>(k, r). (k, msg_payload (deref q r))) (qm_wait_ack_msgs q)"
    using old by (force simp: held_def)
  ultimately show ?thesis by (simp add: abs_queue_def)
qed

lemma insert_transient:
  assumes inv: "queue_inv ser ok q s ps own"
    and p: "p = put_payload uuid bp body qd" and mode: "\<not> pay_durable p"
    and fresh: "pay_id p \<notin> ident q ` set (held q)"
  obtains q' where "qm_insert ser uuid bp body qd q s = (True, q', s)"
    and "queue_inv ser ok q' s ps own" and "abs_queue q' ps = spec_put p (abs_queue q ps)"
proof -
  let ?m = "new_message\<lparr>msg_payload := p\<rparr>" and ?n = "length (qm_store q)"
  let ?q = "push_msg ?m q"
  have plain: "\<not> pay_durable (make_payload uuid bp body qd)" "p = make_payload uuid bp body qd"
    using mode by (simp_all add: p put_payload_def Let_def split: if_splits)
  have held: "held_ok q" and own: "owners_ok q own" using inv by (simp_all add: queue_inv_def)
  have old: "deref ?q r = deref q r" "ident ?q r = ident q r" if "r \<in> set (held q)" for r
    using held that by (simp_all add: held_ok_def ident_def)
  have run: "qm_insert ser uuid bp body qd q s = (True, ?q, s)"
    using plain by (simp add: qm_insert_def Let_def msg_mode_def pay_durable_def)
  have "held_ok ?q"
    using fresh by (intro held_ok_push [OF held]) (simp add: msg_id_def pay_id_def)
  moreover have "owners_ok ?q own"
  proof -
    have "{r \<in> set (held ?q). msg_mode (deref ?q r) = DURABLE} = {r \<in> set (held q). msg_mode (deref q r) = DURABLE}"
      using mode old by (auto simp: held_push msg_mode_def pay_durable_def)
    moreover have "(\<lambda>r. (ident ?q r, r)) ` set (owners own) = (\<lambda>r. (ident q r, r)) ` set (owners own)"
      using own old by (intro image_cong refl) (simp add: owners_ok_def)
    ultimately show ?thesis using own by (simp add: owners_ok_def)
  qed
  moreover have "logged ser ?q ps own"
    using own old by (intro logged_cong [OF queue_invD(2) [OF inv]]) (simp add: same_objects_def owners_ok_def)
  ultimately have "queue_inv ser ok ?q s ps own"
    using inv by (simp add: queue_inv_def on_disk_def counts_ok_def)
  moreover have "abs_queue ?q ps = spec_put p (abs_queue q ps)"
    using mode unfolding abs_push [OF held] by (cases "abs_queue q ps") (simp add: spec_put_def)
  ultimately show ?thesis by (rule that [OF run])
qed

subsection \<open>Acknowledging\<close>

text \<open>\<open>gc\<close> does not look at the messages waiting for acknowledgement.\<close>

lemma push_msg_wait: "push_msg m (q\<lparr>qm_wait_ack_msgs := w\<rparr>) = (push_msg m q)\<lparr>qm_wait_ack_msgs := w\<rparr>"
  by (simp add: push_msg_def alloc_def)

lemma gc_update_wait: "gc_update m (q\<lparr>qm_wait_ack_msgs := w\<rparr>) = (gc_update m q)\<lparr>qm_wait_ack_msgs := w\<rparr>"
  by (simp add: gc_update_def push_msg_wait deref_def split: option.split)

lemma fold_gc_update_wait:
  "fold gc_update ms (q\<lparr>qm_wait_ack_msgs := w\<rparr>) = (fold gc_update ms q)\<lparr>qm_wait_ack_msgs := w\<rparr>"
  by (induction ms arbitrary: q) (simp_all add: gc_update_wait)

lemma gc_update_wait_same [simp]: "qm_wait_ack_msgs (gc_update m q) = qm_wait_ack_msgs q"
  by (simp add: gc_update_def split: option.split)

lemma fold_gc_update_wait_same [simp]: "qm_wait_ack_msgs (fold gc_update ms q) = qm_wait_ack_msgs q"
  by (induction ms arbitrary: q) simp_all

lemma qm_gc_wait:
  "rbind (qm_gc ser par q s) (\<lambda>(q', s'). Inr (q'\<lparr>qm_wait_ack_msgs := um_erase i (qm_wait_ack_msgs q')\<rparr>, s')) =
   qm_gc ser par (q\<lparr>qm_wait_ack_msgs := um_erase i (qm_wait_ack_msgs q)\<rparr>) s"
  by (cases "mm_gc ser par (qm_mapper q) s")
    (auto simp: qm_gc_def gc_check_def fold_gc_update_wait split: prod.split)

lemma held_ok_acked:
  assumes held: "held_ok q" and found: "map_of (qm_wait_ack_msgs q) i = Some r"
    and same: "map (ident q') (held q') = map (ident q) (qm_msgs q @ map snd (um_erase i (qm_wait_ack_msgs q)))"
    and refs: "qm_msgs q' = qm_msgs q" "qm_wait_ack_msgs q' = um_erase i (qm_wait_ack_msgs q)"
      "length (qm_store q') = length (qm_store q)"
  shows "held_ok q'" and "set (held q') = set (held q) - {r}" and "ident q r = i" and "r \<in> set (held q)"
proof -
  let ?w = "qm_wait_ack_msgs q"
  have keys: "fst e = ident q (snd e)" if "e \<in> set ?w" for e
    using held that by (simp add: held_ok_def)
  have r: "(i, r) \<in> set ?w" using found by (rule map_of_SomeD)
  show i: "ident q r = i" using keys [OF r] by simp
  show "r \<in> set (held q)" using r by (force simp: held_def)
  have inj: "inj_on (ident q) (set (held q))" and dist: "distinct (map (ident q) (held q))"
    using held by (simp_all add: held_ok_def distinct_map)
  have "r \<notin> set (qm_msgs q)"
    using dist r i by (force simp: held_def)
  moreover have "snd ` set (um_erase i ?w) = snd ` set ?w - {r}"
  proof -
    have "fst e \<noteq> i \<longleftrightarrow> snd e \<noteq> r" if "e \<in> set ?w" for e
    proof -
      have "snd e \<in> set (held q)" "r \<in> set (held q)" using that r by (force simp: held_def)+
      then show ?thesis using keys [OF that] i inj by (auto dest: inj_onD)
    qed
    then show ?thesis by (auto simp: um_set_erase)
  qed
  ultimately show sets: "set (held q') = set (held q) - {r}"
    by (auto simp: held_def refs)
  have "distinct (map (ident q') (held q'))"
    using dist unfolding same by (auto simp: held_def um_erase_def distinct_map_filter)
  moreover have "map fst (qm_wait_ack_msgs q') = map (ident q') (map snd (qm_wait_ack_msgs q'))"
  proof -
    have "map (ident q') (map snd (qm_wait_ack_msgs q')) = map (ident q) (map snd (um_erase i ?w))"
      using same unfolding held_def refs map_append by (simp del: map_map)
    then show ?thesis using keys by (simp add: refs um_set_erase)
  qed
  ultimately show "held_ok q'"
    using held sets unfolding held_ok_def refs(3) by blast
qed

text \<open>The loop after garbage collection moves each live message to its new place.\<close>

definition places_at :: "message list \<Rightarrow> ref list \<Rightarrow> message list \<Rightarrow> message list" where
  "places_at ms rs st = fold (\<lambda>(m, r) st. st[r := update_place m (st ! r)]) (zip ms rs) st"

lemma places_at_simps [simp]:
  "places_at [] rs st = st"
  "places_at (m # ms) (r # rs) st = places_at ms rs (st[r := update_place m (st ! r)])"
  by (simp_all add: places_at_def)

lemma length_places_at [simp]: "length ms = length rs \<Longrightarrow> length (places_at ms rs st) = length st"
  by (induction ms rs arbitrary: st rule: list_induct2) simp_all

lemma places_at_other:
  "length ms = length rs \<Longrightarrow> x \<notin> set rs \<Longrightarrow> places_at ms rs st ! x = st ! x"
  by (induction ms rs arbitrary: st rule: list_induct2) simp_all

lemma places_at_nth:
  assumes "length ms = length rs" and "distinct rs" and "\<forall>r \<in> set rs. r < length st" and "j < length rs"
  shows "places_at ms rs st ! (rs ! j) = update_place (ms ! j) (st ! (rs ! j))"
  using assms
proof (induction ms rs arbitrary: st j rule: list_induct2)
  case (Cons m ms r rs)
  show ?case
  proof (cases j)
    case 0
    then show ?thesis using Cons by (simp add: places_at_other)
  next
    case (Suc k)
    then have "rs ! k \<noteq> r" using Cons.prems by auto
    with Cons Suc show ?thesis by simp
  qed
qed simp

lemma fold_gc_update:
  assumes "length ms = length rs"
    and "\<forall>j < length rs. map_of (qm_durable_msgs q) (msg_id (ms ! j)) = Some (rs ! j)"
  shows "fold gc_update ms q = q\<lparr>qm_store := places_at ms rs (qm_store q)\<rparr>"
  using assms
proof (induction ms rs arbitrary: q rule: list_induct2)
  case (Cons m ms r rs)
  have "map_of (qm_durable_msgs q) (msg_id m) = Some r" using Cons.prems by (metis length_greater_0_conv list.discI nth_Cons_0)
  moreover have "\<forall>j < length rs. map_of (qm_durable_msgs q) (msg_id (ms ! j)) = Some (rs ! j)"
    using Cons.prems by fastforce
  ultimately show ?case
    using Cons.IH [of "q\<lparr>qm_store := (qm_store q)[r := update_place m (qm_store q ! r)]\<rparr>"]
    by (simp add: gc_update_def deref_def)
qed simp

subsection \<open>Recovering\<close>

lemma fold_note_durable:
  assumes "distinct (map (ident q) rs)" and "fst ` set (qm_durable_msgs q) \<inter> ident q ` set rs = {}"
  shows "fold note_durable rs q =
    q\<lparr>qm_durable_msgs := rev (map (\<lambda>r. (ident q r, r)) rs) @ qm_durable_msgs q\<rparr>"
  using assms
proof (induction rs arbitrary: q)
  case (Cons r rs)
  let ?q = "q\<lparr>qm_durable_msgs := (ident q r, r) # qm_durable_msgs q\<rparr>"
  have "map_of (qm_durable_msgs q) (ident q r) = None"
    using Cons.prems by (auto simp: map_of_eq_None_iff)
  then have step: "note_durable r q = ?q"
    by (simp add: note_durable_def um_insert_fresh ident_def)
  have "ident ?q = ident q" by (simp add: fun_eq_iff ident_def deref_def)
  with Cons.IH [of ?q] Cons.prems show ?case by (auto simp: step)
qed simp

context payload_codec
begin

lemma insert_durable:
  assumes inv: "queue_inv ser ok q s ps own"
    and p: "p = put_payload uuid bp body qd" and mode: "pay_durable p"
    and fresh: "pay_id p \<notin> ident q ` set (held q)" and okp: "ok p"
  obtains q' where "qm_insert ser uuid bp body qd q s =
      (True, q', put_file (mm_data_file (qm_mapper q)) (Some (frames ser (ps @ [p]))) s)"
    and "queue_inv ser ok q' (put_file (mm_data_file (qm_mapper q)) (Some (frames ser (ps @ [p]))) s)
      (ps @ [p]) (own @ [Some (length (qm_store q))])"
    and "abs_queue q' (ps @ [p]) = spec_put p (abs_queue q ps)"
    and "qm_mapper q' = qm_mapper q"
proof -
  let ?n = "length (qm_store q)" and ?m = "new_message\<lparr>msg_payload := make_payload uuid bp body qd\<rparr>"
  let ?s = "put_file (mm_data_file (qm_mapper q)) (Some (frames ser (ps @ [p]))) s"
  have made: "pay_durable (make_payload uuid bp body qd)" "p = (make_payload uuid bp body qd)\<lparr>pl_valid := ''1''\<rparr>"
    using mode by (simp_all add: p put_payload_def Let_def split: if_splits)
  have held: "held_ok q" and own: "owners_ok q own" and disk: "on_disk ser ok q s ps"
    using inv by (simp_all add: queue_inv_def)
  obtain m1 where m1: "mm_insert ser (qm_mapper q) s (set_valid ''1'' ?m) = (True, ?s, m1)"
    "placed ser (ps @ [p]) (length ps) m1"
    using insert_log [of s "qm_mapper q" ps "set_valid ''1'' ?m"] disk
    by (auto simp: on_disk_def set_valid_def made(2))
  have pay: "msg_payload m1 = p" using m1(2) by (simp add: placed_def)
  let ?q = "(push_msg m1 q)\<lparr>qm_valid_count := qm_valid_count q + 1,
      qm_total_count := qm_total_count q + 1,
      qm_durable_msgs := um_insert (msg_id m1) ?n (qm_durable_msgs q)\<rparr>"
  have run: "qm_insert ser uuid bp body qd q s = (True, ?q, ?s)"
    using made(1) m1(1) by (simp add: qm_insert_def Let_def msg_mode_def pay_durable_def)
  have same: "deref ?q = deref (push_msg m1 q)" "held ?q = held (push_msg m1 q)"
    by (simp_all add: deref_def fun_eq_iff held_def)
  then have same_id: "ident ?q = ident (push_msg m1 q)" by (simp add: ident_def fun_eq_iff)
  have lt: "r < ?n" if "r \<in> set (held q)" for r using held that by (simp add: held_ok_def)
  have old: "deref (push_msg m1 q) r = deref q r" "ident (push_msg m1 q) r = ident q r" if "r \<in> set (held q)" for r
    using lt [OF that] by (simp_all add: ident_def)
  have new: "ident (push_msg m1 q) ?n = pay_id p"
    by (simp add: ident_def msg_id_def pay_id_def pay)
  have own_held: "set (owners own) \<subseteq> set (held q)" using own by (auto simp: owners_ok_def)
  have "held_ok (push_msg m1 q)"
    using fresh by (intro held_ok_push [OF held]) (simp add: msg_id_def pay_id_def pay)
  then have "held_ok ?q" by (simp add: held_ok_def same same_id)
  moreover have "owners_ok ?q (own @ [Some ?n])"
  proof -
    have n: "?n \<notin> set (owners own)" "?n \<notin> set (held q)" using lt own_held by auto
    have "map_of (qm_durable_msgs q) (msg_id m1) = None"
    proof -
      have "fst ` set (qm_durable_msgs q) = ident q ` set (owners own)"
        using own by (simp add: owners_ok_def image_image)
      then have "msg_id m1 \<notin> fst ` set (qm_durable_msgs q)"
        using fresh own_held by (auto simp: msg_id_def pay_id_def pay)
      then show ?thesis by (simp add: map_of_eq_None_iff)
    qed
    then have dur: "qm_durable_msgs ?q = (pay_id p, ?n) # qm_durable_msgs q"
      by (simp add: um_insert_fresh msg_id_def pay_id_def pay)
    have wf: "um_wf (qm_durable_msgs ?q)"
      using own by (simp add: owners_ok_def um_wf_insert)
    have "{r \<in> set (held ?q). msg_mode (deref ?q r) = DURABLE} =
        insert ?n {r \<in> set (held q). msg_mode (deref q r) = DURABLE}"
      using mode old unfolding same by (auto simp: held_push msg_mode_def pay_durable_def pay)
    moreover have "(\<lambda>r. (ident ?q r, r)) ` set (owners own) = (\<lambda>r. (ident q r, r)) ` set (owners own)"
      using own_held old unfolding same_id by (intro image_cong refl) auto
    ultimately show ?thesis
      using own n wf new unfolding owners_ok_def dur by (auto simp: same_id)
  qed
  moreover have "logged ser ?q (ps @ [p]) (own @ [Some ?n])"
    using logged_push [OF queue_invD(2) [OF inv], of m1 ?q] own_held lt m1(2) made(2)
    by (auto simp: same_objects_def same pay)
  moreover have "on_disk ser ok ?q ?s (ps @ [p])"
    using disk okp by (simp add: on_disk_def)
  ultimately have "queue_inv ser ok ?q ?s (ps @ [p]) (own @ [Some ?n])"
    using queue_invD(5) [OF inv] by (simp add: queue_inv_def counts_ok_def)
  moreover have "abs_queue ?q (ps @ [p]) = spec_put p (abs_queue q ps)"
  proof -
    have "abs_queue ?q (ps @ [p]) = (abs_queue (push_msg m1 q) ps)\<lparr>sq_stored := live (ps @ [p])\<rparr>"
      by (simp add: abs_queue_def same)
    then show ?thesis
      using mode made(2) unfolding abs_push [OF held] by (simp add: spec_put_def abs_queue_def pay)
  qed
  ultimately show ?thesis by (intro that [OF run]) simp_all
qed

lemma gc_inv:
  assumes inv: "queue_inv ser ok q s ps own" and small: "length (frames ser ps) < 2 ^ 32"
  obtains q' s' ps' own' where "qm_gc ser par q s = Inr (q', s')"
    and "queue_inv ser ok q' s' ps' own'" and "abs_queue q' ps' = abs_queue q ps"
    and "garbage_ok (length (owners own')) (length ps')" and "qm_mapper q' = qm_mapper q"
proof (cases "gc_check q")
  case False
  have "length ps \<le> length (frames ser ps)"
    by (induction ps) (auto simp: length_frame sizeof_size_t_def)
  then have n: "length ps < 2 ^ 64" using small by simp
  have "length (owners own) \<le> length own" by (simp add: owners_def length_filter_le)
  then have v: "length (owners own) < 2 ^ 64" using n queue_invD(2) [OF inv] by (simp add: logged_def)
  have "garbage_ok (length (owners own)) (length ps)"
    using False queue_invD(5) [OF inv] n v
    by (auto simp: gc_check_def counts_ok_def garbage_ok_def unat_of_nat_small)
  then show ?thesis by (intro that [of q s ps own]) (use False inv in \<open>simp_all add: qm_gc_def\<close>)
next
  case True
  note disk = queue_invD(1) [OF inv] and log = queue_invD(2) [OF inv] and held = queue_invD(3) [OF inv]
    and own = queue_invD(4) [OF inv]
  let ?rs = "owners own" and ?d = "mm_data_file (qm_mapper q)" and ?t = "mm_tmp_file (qm_mapper q)"
  let ?s = "put_file ?t None (put_file ?d (Some (frames ser (live ps))) s)"
  have live: "live ps = map (\<lambda>r. msg_payload (deref q r)) ?rs" by (rule live_owned [OF log])
  obtain ms where ms: "mm_gc ser par (qm_mapper q) s = Inr (?s, ms)" "length ms = length (live ps)"
    "\<forall>i < length (live ps). placed ser (live ps) i (ms ! i)"
    using disk by (auto simp: on_disk_def elim!: gc_log)
  have len: "length ms = length ?rs" using ms(2) live by simp
  have lt: "r < length (qm_store q)" if "r \<in> set (held q)" for r using held that by (simp add: held_ok_def)
  have own_held: "set ?rs \<subseteq> set (held q)" using own by (auto simp: owners_ok_def)
  have pay_ms: "msg_payload (ms ! j) = msg_payload (deref q (?rs ! j))" if "j < length ?rs" for j
    using ms(3) that live by (simp add: placed_def)
  have "map_of (qm_durable_msgs q) (msg_id (ms ! j)) = Some (?rs ! j)" if j: "j < length ?rs" for j
  proof -
    have "(ident q (?rs ! j), ?rs ! j) \<in> set (qm_durable_msgs q)"
      unfolding owners_okD(4) [OF own] using j by simp
    moreover have "msg_id (ms ! j) = ident q (?rs ! j)"
      using pay_ms [OF j] by (simp add: msg_id_def ident_def)
    ultimately show ?thesis by (simp add: um_wf_find [OF owners_okD(3) [OF own], symmetric])
  qed
  then have moved: "fold gc_update ms q = q\<lparr>qm_store := places_at ms ?rs (qm_store q)\<rparr>"
    by (intro fold_gc_update [OF len]) blast
  define q1 where "q1 = q\<lparr>qm_store := places_at ms ?rs (qm_store q), qm_valid_count := word_of_nat (length ms),
      qm_total_count := word_of_nat (length ms)\<rparr>"
  have q1: "qm_store q1 = places_at ms ?rs (qm_store q)" "qm_msgs q1 = qm_msgs q"
    "qm_wait_ack_msgs q1 = qm_wait_ack_msgs q" "qm_durable_msgs q1 = qm_durable_msgs q"
    "qm_mapper q1 = qm_mapper q" "qm_valid_count q1 = word_of_nat (length ms)"
    "qm_total_count q1 = word_of_nat (length ms)"
    by (simp_all add: q1_def)
  have run: "qm_gc ser par q s = Inr (q1, ?s)"
    using True queue_invD(5) [OF inv] len by (simp add: qm_gc_def ms(1) moved counts_ok_def q1_def)
  have at: "deref q1 (?rs ! j) = update_place (ms ! j) (deref q (?rs ! j))" if "j < length ?rs" for j
    using places_at_nth [OF len] own own_held lt that by (auto simp: deref_def owners_ok_def q1)
  have pays: "msg_payload (deref q1 r) = msg_payload (deref q r)" for r
  proof (cases "r \<in> set ?rs")
    case True
    then obtain j where "j < length ?rs" "r = ?rs ! j" by (auto simp: in_set_conv_nth)
    then show ?thesis using at by (simp add: update_place_def)
  qed (simp add: deref_def q1 places_at_other [OF len])
  then have ids: "ident q1 = ident q" and modes: "msg_mode (deref q1 r) = msg_mode (deref q r)" for r
    by (simp_all add: fun_eq_iff ident_def msg_id_def msg_mode_def)
  have holds: "held q1 = held q" by (simp add: held_def q1)
  have "held_ok q1" using held by (simp add: held_ok_def ids holds q1 len)
  moreover have "owners_ok q1 (map Some ?rs)"
    using own by (simp add: owners_ok_def ids holds modes q1)
  moreover have "logged ser q1 (live ps) (map Some ?rs)"
  proof -
    have "record_ok ser q1 (live ps) j (Some (?rs ! j))" if j: "j < length ?rs" for j
    proof -
      have "live ps ! j \<in> set ps" using j ms(2) len by (metis live_def filter_is_subset nth_mem subsetD)
      moreover have "pl_valid (live ps ! j) \<noteq> ''0''"
        using j ms(2) len nth_mem [of j "live ps"] by (simp add: live_def)
      ultimately have "pl_valid (live ps ! j) = ''1''"
        using log by (auto simp: logged_def record_ok_def in_set_conv_nth split: option.splits)
      moreover have "placed ser (live ps) j (update_place (ms ! j) (deref q (?rs ! j)))"
        using ms(3) j live by (simp add: placed_def update_place_def)
      ultimately show ?thesis using at [OF j] by (simp add: record_ok_def)
    qed
    then show ?thesis using live by (simp add: logged_def)
  qed
  moreover have "on_disk ser ok q1 ?s (live ps)"
    using disk by (auto simp: on_disk_def live_def mapper_ready_def q1)
  moreover have "counts_ok q1 (length ?rs) (length (live ps))"
    using len ms(2) by (simp add: counts_ok_def q1)
  ultimately have "queue_inv ser ok q1 ?s (live ps) (map Some ?rs)"
    by (simp add: queue_inv_def)
  moreover have "abs_queue q1 (live ps) = abs_queue q ps"
    by (simp add: abs_queue_def pays q1) (simp add: live_def)
  ultimately show ?thesis
    using live by (intro that [OF run, of "live ps" "map Some ?rs"]) (simp_all add: garbage_ok_def q1)
qed

lemma remove_inv:
  assumes inv: "queue_inv ser ok q s ps own" and bound: "garbage_ok (length (owners own)) (length ps)"
    and small: "length (frames ser ps) < 2 ^ 32"
  obtains q' s' ps' own' where "qm_remove ser par i q s = Inr (q', s')"
    and "queue_inv ser ok q' s' ps' own'" and "abs_queue q' ps' = spec_ack i (abs_queue q ps)"
    and "garbage_ok (length (owners own')) (length ps')" and "qm_mapper q' = qm_mapper q"
proof (cases "map_of (qm_wait_ack_msgs q) i")
  case None
  then have "spec_ack i (abs_queue q ps) = abs_queue q ps"
    by (simp add: spec_ack_def abs_queue_def map_of_map_vals)
  with None show ?thesis
    by (intro that [of q s ps own]) (use inv bound in \<open>simp_all add: qm_remove_def\<close>)
next
  case (Some r)
  note disk = queue_invD(1) [OF inv] and log = queue_invD(2) [OF inv] and held = queue_invD(3) [OF inv]
    and own = queue_invD(4) [OF inv]
  have inj: "inj_on (ident q) (set (held q))" using held by (simp add: held_ok_def distinct_map)
  have own_held: "set (owners own) \<subseteq> set (held q)" using own by (auto simp: owners_ok_def)
  let ?w = "um_erase i (qm_wait_ack_msgs q)"
  have unacked: "map_of (sq_unacked (abs_queue q ps)) i \<noteq> None"
    using Some by (simp add: abs_queue_def map_of_map_vals)
  then have acked_spec: "spec_ack i (abs_queue q ps) = (abs_queue q ps)\<lparr>
      sq_unacked := um_erase i (sq_unacked (abs_queue q ps)),
      sq_stored := filter (\<lambda>p. pay_id p \<noteq> i) (sq_stored (abs_queue q ps))\<rparr>"
    by (auto simp: spec_ack_def)
  have filt: "filter (\<lambda>p. pay_id p \<noteq> i) (live ps) =
      map (\<lambda>r. msg_payload (deref q r)) (filter (\<lambda>x. x \<noteq> r) (owners own))"
  proof -
    have "pay_id (msg_payload (deref q x)) \<noteq> i \<longleftrightarrow> x \<noteq> r" if "x \<in> set (owners own)" for x
    proof -
      have "ident q r = i" "r \<in> set (held q)" "x \<in> set (held q)"
        using held_ok_acked(3,4) [OF held Some, of "q\<lparr>qm_wait_ack_msgs := ?w\<rparr>"] that own_held
        by (auto simp: held_def ident_def deref_def)
      then have "ident q x \<noteq> i \<longleftrightarrow> x \<noteq> r" using inj by (auto dest: inj_onD)
      then show ?thesis by (simp add: ident_def msg_id_def pay_id_def)
    qed
    then show ?thesis unfolding live_owned [OF log] by (simp add: filter_map comp_def cong: filter_cong)
  qed
  show ?thesis
  proof (cases "msg_mode (deref q r) = DURABLE")
    case False
    let ?q = "q\<lparr>qm_wait_ack_msgs := ?w\<rparr>"
    have same: "deref ?q = deref q" "ident ?q = ident q" by (simp_all add: fun_eq_iff deref_def ident_def)
    note acked = held_ok_acked [OF held Some, of ?q]
    have facts: "held_ok ?q" "set (held ?q) = set (held q) - {r}"
      by (rule acked; simp add: same held_def)+
    have r: "r \<notin> set (owners own)" using own False by (simp add: owners_ok_def)
    have "owners_ok ?q own"
      using own False unfolding owners_ok_def facts same by auto
    moreover have "logged ser ?q ps own" by (rule logged_cong [OF log]) (simp add: same_objects_def same)
    ultimately have "queue_inv ser ok ?q s ps own"
      using inv facts by (simp add: queue_inv_def on_disk_def counts_ok_def)
    moreover have "abs_queue ?q ps = spec_ack i (abs_queue q ps)"
    proof -
      have "filter (\<lambda>p. pay_id p \<noteq> i) (live ps) = live ps"
        using filt r unfolding live_owned [OF log] by (metis (mono_tags, lifting) filter_True)
      then show ?thesis
        unfolding acked_spec by (simp add: abs_queue_def same um_erase_map)
    qed
    moreover have "qm_remove ser par i q s = Inr (?q, s)"
      using Some False by (simp add: qm_remove_def)
    ultimately show ?thesis using bound by (intro that [of ?q s ps own]) simp_all
  next
    case True
    have rown: "r \<in> set (owners own)"
      using own True held_ok_acked(4) [OF held Some, of "q\<lparr>qm_wait_ack_msgs := ?w\<rparr>"]
      by (simp add: owners_ok_def held_def ident_def deref_def)
    then have "Some r \<in> set own" by (simp only: owners_iff)
    then obtain j where j: "j < length own" "own ! j = Some r" by (auto simp: in_set_conv_nth)
    have "record_ok ser q ps j (Some r)" and jp: "j < length ps"
      using log j by (auto simp: logged_def)
    then have at: "placed ser ps j (deref q r)" "pl_valid (ps ! j) = ''1''"
      by (simp_all add: record_ok_def)
    let ?p = "(ps ! j)\<lparr>pl_valid := ''0''\<rparr>"
    let ?ps = "ps[j := ?p]" and ?own = "own[j := None]"
    let ?s = "put_file (mm_data_file (qm_mapper q)) (Some (frames ser ?ps)) s"
    have okj: "ok (ps ! j)" using disk jp by (simp add: on_disk_def)
    have rem: "mm_remove ser (qm_mapper q) s (deref q r) = (True, ?s, invalidate (deref q r))"
      using disk at okj small by (intro remove_log) (auto simp: on_disk_def)
    define q1 where "q1 = q\<lparr>qm_store := (qm_store q)[r := invalidate (deref q r)],
        qm_durable_msgs := um_erase i (qm_durable_msgs q),
        qm_valid_count := qm_valid_count q - 1, qm_wait_ack_msgs := ?w\<rparr>"
    have q1: "qm_store q1 = (qm_store q)[r := invalidate (deref q r)]" "qm_msgs q1 = qm_msgs q"
      "qm_wait_ack_msgs q1 = ?w" "qm_durable_msgs q1 = um_erase i (qm_durable_msgs q)"
      "qm_mapper q1 = qm_mapper q" "qm_valid_count q1 = qm_valid_count q - 1"
      "qm_total_count q1 = qm_total_count q"
      by (simp_all add: q1_def)
    have run: "qm_remove ser par i q s = qm_gc ser par q1 ?s"
      using Some True by (simp add: qm_remove_def rem qm_gc_wait q1_def)
    have other: "deref q1 x = deref q x" if "x \<noteq> r" for x using that by (simp add: deref_def q1)
    have ids: "ident q1 = ident q"
    proof
      fix x
      show "ident q1 x = ident q x"
        by (cases "x = r"; cases "r < length (qm_store q)")
          (simp_all add: ident_def deref_def q1 invalidate_def msg_id_def list_update_beyond)
    qed
    note acked = held_ok_acked [OF held Some, of q1]
    have facts: "held_ok q1" "set (held q1) = set (held q) - {r}" "ident q r = i" "r \<in> set (held q)"
      by (rule acked; simp add: ids held_def q1)+
    have drop: "owners ?own = remove1 r (owners own)" by (rule owners_clear [OF owners_okD(1) [OF own] j])
    have dropset: "set (owners ?own) = set (owners own) - {r}"
      unfolding drop using owners_okD(1) [OF own] by (simp add: set_remove1_eq)
    note len = length_invalid [OF okj at(2)]
    have "owners_ok q1 ?own"
    proof -
      have "{x \<in> set (held q1). msg_mode (deref q1 x) = DURABLE} = set (owners own) - {r}"
        using own other unfolding facts by (auto simp: owners_ok_def)
      moreover have "set (qm_durable_msgs q1) = (\<lambda>x. (ident q x, x)) ` (set (owners own) - {r})"
      proof -
        have "x = r" if "x \<in> set (owners own)" "ident q x = i" for x
          using that facts(3,4) inj own_held by (auto dest: inj_onD)
        then show ?thesis using facts(3) unfolding q1 um_set_erase owners_okD(4) [OF own] by auto
      qed
      ultimately show ?thesis
        using owners_okD(1,3) [OF own] unfolding owners_ok_def dropset ids
        by (simp add: drop um_wf_erase q1)
    qed
    moreover have log1: "logged ser q1 ?ps ?own"
      unfolding logged_def
    proof (intro conjI allI impI)
      show "length ?own = length ?ps" using log by (simp add: logged_def)
      fix k assume k: "k < length ?ps"
      show "record_ok ser q1 ?ps k (?own ! k)"
      proof (cases "k = j")
        case True
        then show ?thesis using j jp by (simp add: record_ok_def)
      next
        case False
        have "record_ok ser q ps k (own ! k)" "k < length own" using log k by (simp_all add: logged_def)
        then show ?thesis
          using False owner_unique [OF owners_okD(1) [OF own] j, of k] other
          by (auto simp: record_ok_def placed_def offset_of_update(1) [OF len] split: option.splits)
      qed
    qed
    moreover have "on_disk ser ok q1 ?s ?ps"
      using disk ok_invalid [OF okj at(2)] set_update_subset_insert [of ps j ?p] by (auto simp: on_disk_def q1)
    moreover have "counts_ok q1 (length (owners ?own)) (length ?ps)"
    proof -
      obtain k where "length (owners own) = Suc k" using length_pos_if_in_set [OF rown] by (cases "length (owners own)") auto
      then show ?thesis
        using queue_invD(5) [OF inv] rown by (simp add: counts_ok_def q1 drop length_remove1)
    qed
    ultimately have inv': "queue_inv ser ok q1 ?s ?ps ?own" using facts by (simp add: queue_inv_def)
    have abs1: "abs_queue q1 ?ps = spec_ack i (abs_queue q ps)"
    proof -
      have ne: "x \<noteq> r" if "x \<in> set (qm_msgs q) \<or> x \<in> snd ` set ?w" for x
        using facts(2) that by (auto simp: held_def q1)
      have "map (\<lambda>x. msg_payload (deref q1 x)) (qm_msgs q) = map (\<lambda>x. msg_payload (deref q x)) (qm_msgs q)"
        using ne by (simp add: other)
      moreover have "map (\<lambda>(k, x). (k, msg_payload (deref q1 x))) ?w = map (\<lambda>(k, x). (k, msg_payload (deref q x))) ?w"
        using ne by (force simp: other)
      moreover have "live ?ps = filter (\<lambda>p. pay_id p \<noteq> i) (live ps)"
      proof -
        have "live ?ps = map (\<lambda>x. msg_payload (deref q1 x)) (owners ?own)" by (rule live_owned [OF log1])
        also have "\<dots> = map (\<lambda>x. msg_payload (deref q x)) (filter (\<lambda>x. x \<noteq> r) (owners own))"
          using dropset other by (simp add: drop distinct_remove1_removeAll [OF owners_okD(1) [OF own]]
              removeAll_filter_not_eq eq_commute)
        finally show ?thesis by (simp only: filt)
      qed
      ultimately show ?thesis unfolding acked_spec by (simp add: abs_queue_def q1 um_erase_map)
    qed
    have "length (frames ser ?ps) < 2 ^ 32" using small by (simp add: offset_of_update(2) [OF len])
    from gc_inv [OF inv' this] obtain q' s' ps' own' where "qm_gc ser par q1 ?s = Inr (q', s')"
      "queue_inv ser ok q' s' ps' own'" "abs_queue q' ps' = abs_queue q1 ?ps"
      "garbage_ok (length (owners own')) (length ps')" "qm_mapper q' = qm_mapper q1" .
    then show ?thesis by (intro that [of q' s' ps' own']) (simp_all add: run abs1 q1)
  qed
qed

text \<open>What a file may hold when the server starts.\<close>

lemma recovery_inv:
  assumes ready: "mapper_ready (qm_mapper q) s"
    and disk: "fs_files s (mm_data_file (qm_mapper q)) = Some (frames ser ps)" "\<forall>p \<in> set ps. ok p"
    and valid: "\<forall>p \<in> set (live ps). pl_valid p = ''1'' \<and> pay_durable p" and ids: "distinct (map pay_id (live ps))"
    and empty: "qm_store q = []" "qm_msgs q = []" "qm_durable_msgs q = []" "qm_wait_ack_msgs q = []"
  obtains q' s' where "qm_recovery ser par q s = Inr (q', s')"
    and "queue_inv ser ok q' s' (live ps) (map Some [0..<length (live ps)])"
    and "abs_queue q' (live ps) = \<lparr>sq_ready = live ps, sq_unacked = [], sq_stored = live ps\<rparr>"
    and "qm_mapper q' = qm_mapper q"
proof -
  let ?n = "length (live ps)" and ?d = "mm_data_file (qm_mapper q)" and ?t = "mm_tmp_file (qm_mapper q)"
  let ?s = "put_file ?t None (put_file ?d (Some (frames ser (live ps))) s)"
  obtain ms where ms: "mm_gc ser par (qm_mapper q) s = Inr (?s, ms)" "length ms = ?n"
    "\<forall>i < ?n. placed ser (live ps) i (ms ! i)"
    using gc_log [OF ready disk] by auto
  define q0 where "q0 = q\<lparr>qm_store := ms, qm_msgs := [0..<?n]\<rparr>"
  have pays: "map msg_payload ms = live ps"
    using ms(2,3) by (rule map_payload_placed)
  have at: "msg_payload (ms ! r) = live ps ! r" if "r < ?n" for r
    using that ms(3) by (simp add: placed_def)
  have ident: "map (ident q0) [0..<?n] = map pay_id (live ps)"
    by (rule nth_equalityI) (simp_all add: q0_def ident_def deref_def msg_id_def pay_id_def at)
  have noted: "fold note_durable [0..<?n] q0 = q0\<lparr>qm_durable_msgs := rev (map (\<lambda>r. (ident q0 r, r)) [0..<?n])\<rparr>"
    using fold_note_durable [of q0 "[0..<?n]"] ids empty by (simp only: ident) (simp add: q0_def)
  define q1 where "q1 = q0\<lparr>qm_durable_msgs := rev (map (\<lambda>r. (ident q0 r, r)) [0..<?n]),
      qm_valid_count := word_of_nat ?n, qm_total_count := word_of_nat ?n\<rparr>"
  have q1: "qm_store q1 = ms" "qm_msgs q1 = [0..<?n]" "qm_wait_ack_msgs q1 = []"
    "qm_durable_msgs q1 = rev (map (\<lambda>r. (ident q1 r, r)) [0..<?n])" "qm_mapper q1 = qm_mapper q"
    using empty by (simp_all add: q1_def q0_def ident_def deref_def)
  have run: "qm_recovery ser par q s = Inr (q1, ?s)"
    using empty noted by (simp add: qm_recovery_def ms Let_def q0_def [symmetric] q1_def)
  have ident1: "map (ident q1) [0..<?n] = map pay_id (live ps)"
  proof -
    have "ident q1 = ident q0" by (simp add: fun_eq_iff ident_def deref_def q1_def)
    then show ?thesis by (simp only: ident)
  qed
  have held: "held q1 = [0..<?n]" by (simp add: held_def q1)
  have "held_ok q1"
    using ids ms(2) unfolding held_ok_def held ident1 by (simp add: q1)
  moreover have "owners_ok q1 (map Some [0..<?n])"
  proof -
    have "msg_mode (deref q1 r) = DURABLE" if "r < ?n" for r
      using valid that nth_mem [OF that] by (simp add: msg_mode_def deref_def q1 at pay_durable_def)
    then have "{r \<in> set (held q1). msg_mode (deref q1 r) = DURABLE} = {0..<?n}"
      unfolding held by auto
    moreover have "um_wf (qm_durable_msgs q1)"
      using ids ident1 unfolding q1(4) um_wf_def by (simp add: rev_map [symmetric] comp_def)
    ultimately show ?thesis unfolding owners_ok_def owners_simps q1(4) by simp
  qed
  moreover have "logged ser q1 (live ps) (map Some [0..<?n])"
    using ms(3) valid by (simp add: logged_def record_ok_def deref_def q1)
  moreover have "on_disk ser ok q1 ?s (live ps)"
    using ready disk by (auto simp: on_disk_def q1 live_def mapper_ready_def)
  moreover have "counts_ok q1 (length (owners (map Some [0..<?n]))) ?n"
    by (simp add: counts_ok_def q1_def)
  ultimately have "queue_inv ser ok q1 ?s (live ps) (map Some [0..<?n])"
    by (simp add: queue_inv_def)
  moreover have "abs_queue q1 (live ps) = \<lparr>sq_ready = live ps, sq_unacked = [], sq_stored = live ps\<rparr>"
  proof -
    have "map (\<lambda>r. msg_payload (deref q1 r)) [0..<?n] = live ps"
      by (rule nth_equalityI) (simp_all add: deref_def q1 at)
    then show ?thesis by (simp add: abs_queue_def q1) (simp add: live_def)
  qed
  ultimately show ?thesis by (rule that [OF run _ _ q1(5)])
qed

end

end
