(* ===== verification/Queue_Refinement.thy ===== *)
theory Queue_Refinement
  imports Queue_Message
begin

text \<open>
  A queue driven by a sequence of operations, restarts of the server included, refines the
  specification of \<open>Queue_Message\<close>; the operations of one queue touch only its own two files.
\<close>

section \<open>Which files an operation touches\<close>

definition touches_only :: "path set \<Rightarrow> fs \<Rightarrow> fs \<Rightarrow> bool" where
  "touches_only F s s' \<longleftrightarrow> fs_dirs s' = fs_dirs s \<and> (\<forall>f. f \<notin> F \<longrightarrow> fs_files s' f = fs_files s f)"

definition own_files :: "message_mapper \<Rightarrow> path set" where
  "own_files mm = {mm_data_file mm, mm_tmp_file mm}"

named_theorems touches

lemma touches_refl [touches]: "touches_only F s s"
  by (simp add: touches_only_def)

lemma touches_trans: "touches_only F s s1 \<Longrightarrow> touches_only F s1 s2 \<Longrightarrow> touches_only F s s2"
  by (simp add: touches_only_def)

lemma touches_put [touches]: "f \<in> F \<Longrightarrow> touches_only F s (put_file f b s)"
  by (auto simp: touches_only_def)

lemma touches_write: "write_at s f d off = (b, s') \<Longrightarrow> f \<in> F \<Longrightarrow> touches_only F s s'"
  by (auto simp: write_at_def touches split: option.splits)

lemma touches_create [touches]: "f \<in> F \<Longrightarrow> touches_only F s (snd (file_create s f))"
  by (simp add: file_create_def touches)

lemma touches_remove: "file_remove s f = (b, s') \<Longrightarrow> f \<in> F \<Longrightarrow> touches_only F s s'"
  by (auto simp: file_remove_def touches split: option.splits)

lemma touches_rename [touches]: "f \<in> F \<Longrightarrow> g \<in> F \<Longrightarrow> touches_only F s (snd (file_rename s f g))"
  by (auto simp: file_rename_def touches_only_def split: option.splits)

lemma touches_append: "append_msg ser f s m = (b, s', m') \<Longrightarrow> f \<in> F \<Longrightarrow> touches_only F s s'"
  by (auto simp: append_msg_def Let_def dest!: touches_write [where F = F] intro: touches_trans
      split: prod.splits bool.splits)

lemma touches_append_all: "append_all ser f s ms = (b, s', ms') \<Longrightarrow> f \<in> F \<Longrightarrow> touches_only F s s'"
proof (induction ser f s ms arbitrary: b s' ms' rule: append_all.induct)
  case (2 ser f s m ms)
  obtain b1 s1 m1 where m: "append_msg ser f s m = (b1, s1, m1)" by (cases "append_msg ser f s m") auto
  have "touches_only F s s1" by (rule touches_append [OF m "2.prems"(2)])
  with "2" m show ?case
    by (cases b1; cases "append_all ser f s1 ms") (auto intro: touches_trans)
qed (simp add: touches)

lemma touches_mm_remove: "mm_remove ser mm s m = (b, s', m') \<Longrightarrow> touches_only (own_files mm) s s'"
  by (auto simp: mm_remove_def Let_def own_files_def touches dest!: touches_write [where F = "own_files mm"]
      split: prod.splits if_splits)

lemma touches_compact: "mm_compact ser mm s ms = (s', ms') \<Longrightarrow> touches_only (own_files mm) s s'"
proof -
  assume c: "mm_compact ser mm s ms = (s', ms')"
  have files: "mm_data_file mm \<in> own_files mm" "mm_tmp_file mm \<in> own_files mm"
    by (simp_all add: own_files_def)
  obtain b s2 ms2 where a: "append_all ser (mm_tmp_file mm) (snd (file_create s (mm_tmp_file mm))) ms = (b, s2, ms2)"
    by (cases "append_all ser (mm_tmp_file mm) (snd (file_create s (mm_tmp_file mm))) ms") auto
  have s2: "touches_only (own_files mm) s s2"
    using touches_create [OF files(2)] touches_append_all [OF a files(2)] by (rule touches_trans)
  obtain r s3 where r: "file_remove s2 (mm_data_file mm) = (r, s3)"
    by (cases "file_remove s2 (mm_data_file mm)") auto
  have s3: "touches_only (own_files mm) s s3"
    using s2 touches_remove [OF r files(1)] by (rule touches_trans)
  show ?thesis
    using c s2 s3 touches_trans [OF s3 touches_rename [OF files(2,1)]]
    by (cases b; cases r) (auto simp: mm_compact_def Let_def a r)
qed

lemma touches_mm_gc: "mm_gc ser par mm s = Inr (s', ms) \<Longrightarrow> touches_only (own_files mm) s s'"
  by (auto simp: mm_gc_def rbind_Inr_conv touches split: if_splits dest: touches_compact)

lemma gc_update_mapper [simp]: "qm_mapper (gc_update m q) = qm_mapper q"
  by (simp add: gc_update_def split: option.split)

lemma fold_gc_update_mapper [simp]: "qm_mapper (fold gc_update ms q) = qm_mapper q"
  by (induction ms arbitrary: q) simp_all

lemma touches_qm_gc:
  "qm_gc ser par q s = Inr (q', s') \<Longrightarrow> touches_only (own_files (qm_mapper q)) s s' \<and> qm_mapper q' = qm_mapper q"
  by (auto simp: qm_gc_def rbind_Inr_conv touches split: if_splits dest: touches_mm_gc)

lemma touches_qm_remove:
  assumes "qm_remove ser par i q s = Inr (q', s')"
  shows "touches_only (own_files (qm_mapper q)) s s' \<and> qm_mapper q' = qm_mapper q"
proof (cases "map_of (qm_wait_ack_msgs q) i")
  case None
  with assms show ?thesis by (simp add: qm_remove_def touches)
next
  case (Some r)
  obtain b s1 m1 where m: "mm_remove ser (qm_mapper q) s (deref q r) = (b, s1, m1)"
    by (cases "mm_remove ser (qm_mapper q) s (deref q r)") auto
  show ?thesis
    using assms Some touches_trans [OF touches_mm_remove [OF m]]
    by (auto simp: qm_remove_def m rbind_Inr_conv touches split: if_splits dest!: touches_qm_gc)
qed

lemma touches_qm_insert:
  assumes "qm_insert ser uuid bp body qd q s = (b, q', s')"
  shows "touches_only (own_files (qm_mapper q)) s s' \<and> qm_mapper q' = qm_mapper q"
  using assms
  by (auto simp: qm_insert_def Let_def mm_insert_def own_files_def touches split: if_splits prod.splits bool.splits
      dest!: touches_append [where F = "own_files (qm_mapper q)"])

lemma touches_qm_recovery:
  assumes "qm_recovery ser par q s = Inr (q', s')"
  shows "touches_only (own_files (qm_mapper q)) s s'"
  using assms by (auto simp: qm_recovery_def rbind_Inr_conv Let_def dest: touches_mm_gc)

lemma touches_qm_clear:
  assumes "qm_clear q s = (q', s')"
  shows "touches_only (own_files (qm_mapper q)) s s'"
proof -
  obtain b s1 where r: "file_remove s (mm_data_file (qm_mapper q)) = (b, s1)"
    by (cases "file_remove s (mm_data_file (qm_mapper q))") auto
  obtain c s2 where r2: "file_remove s1 (mm_tmp_file (qm_mapper q)) = (c, s2)"
    by (cases "file_remove s1 (mm_tmp_file (qm_mapper q))") auto
  show ?thesis
    using assms touches_trans [OF touches_remove [OF r] touches_remove [OF r2], of "own_files (qm_mapper q)"]
    by (auto simp: qm_clear_def remove_msg_file_def r r2 own_files_def)
qed

section \<open>Restarting\<close>

definition at_home :: "string \<Rightarrow> string \<Rightarrow> queue_message \<Rightarrow> fs \<Rightarrow> bool" where
  "at_home base_dir qname q s \<longleftrightarrow> base_dir \<noteq> [] \<and> qm_mapper q = mapper_paths base_dir qname \<and>
     dir_exists s (strip_slashes (with_slash base_dir))"

lemma mapper_new_home:
  assumes "base_dir \<noteq> []" and "dir_exists s (strip_slashes (with_slash base_dir))"
    and "fs_files s (mm_data_file (mapper_paths base_dir qname)) \<noteq> None"
  shows "mapper_new base_dir qname s = Inr (mapper_paths base_dir qname, s)"
proof -
  have "with_slash base_dir \<noteq> []" using assms(1) by (simp add: with_slash_def)
  then have "file_exists s (with_slash base_dir)" using assms(2) by (simp add: file_exists_def)
  moreover have "file_exists s (mm_data_file (mapper_paths base_dir qname))"
    using assms(3) by (simp add: file_exists_def)
  ultimately show ?thesis
    using assms(1) by (simp add: mapper_new_def Let_def create_msg_file_def)
qed

definition restart ::
  "(payload \<Rightarrow> bytes) \<Rightarrow> (bytes \<Rightarrow> payload) \<Rightarrow> string \<Rightarrow> string \<Rightarrow> fs \<Rightarrow> (queue_message \<times> fs) result" where
  "restart ser par base_dir qname s =
     rbind (qm_new base_dir qname s) (\<lambda>(q, s1). qm_recovery ser par q s1)"

lemma qm_recovery_mapper:
  assumes "qm_recovery ser par q s = Inr (q', s')"
  shows "qm_mapper q' = qm_mapper q"
proof -
  have "qm_mapper (fold note_durable rs x) = qm_mapper x" for rs x
    by (induction rs arbitrary: x) (simp_all add: note_durable_def)
  with assms show ?thesis by (auto simp: qm_recovery_def rbind_Inr_conv Let_def)
qed

lemma stored_facts:
  assumes inv: "queue_inv ser ok q s ps own"
  shows "\<forall>p \<in> set (live ps). pl_valid p = ''1'' \<and> pay_durable p" and "distinct (map pay_id (live ps))"
    and "length (live ps) = length (owners own)"
proof -
  note log = queue_invD(2) [OF inv] and held = queue_invD(3) [OF inv] and own = queue_invD(4) [OF inv]
  note live = live_owned [OF log]
  have valid: "pl_valid p = ''1''" if p: "p \<in> set (live ps)" for p
  proof -
    have "p \<in> set ps" "pl_valid p \<noteq> ''0''" using p by (auto simp: live_def)
    then obtain i where "i < length ps" "p = ps ! i" by (auto simp: in_set_conv_nth)
    with log \<open>pl_valid p \<noteq> ''0''\<close> show ?thesis
      by (auto simp: logged_def record_ok_def split: option.splits)
  qed
  have "pay_durable p" if "p \<in> set (live ps)" for p
    using that own unfolding live by (auto simp: owners_ok_def pay_durable_def msg_mode_def)
  with valid show "\<forall>p \<in> set (live ps). pl_valid p = ''1'' \<and> pay_durable p" by blast
  have ids: "map pay_id (live ps) = map (ident q) (owners own)"
    unfolding live by (simp add: ident_def msg_id_def pay_id_def)
  have "inj_on (ident q) (set (held q))" using held by (simp add: held_ok_def distinct_map)
  then have "inj_on (ident q) (set (owners own))"
    using own by (elim inj_on_subset) (auto simp: owners_ok_def)
  then show "distinct (map pay_id (live ps))"
    unfolding ids using own by (simp add: distinct_map owners_ok_def)
  show "length (live ps) = length (owners own)" by (simp add: live)
qed

lemma spec_ids_abs:
  assumes "held_ok q"
  shows "set (spec_ids (abs_queue q ps)) = ident q ` set (held q)"
proof -
  have "map fst (qm_wait_ack_msgs q) = map (ident q) (map snd (qm_wait_ack_msgs q))"
    using assms by (simp add: held_ok_def)
  then have "fst ` set (qm_wait_ack_msgs q) = ident q ` snd ` set (qm_wait_ack_msgs q)"
    by (metis set_map)
  then show ?thesis
    by (simp add: spec_ids_def abs_queue_def held_def image_Un image_image case_prod_beta comp_def
        ident_def msg_id_def pay_id_def)
qed

section \<open>Sequences of operations\<close>

datatype queue_cmd =
  Put string "BasicProperties option" string bool \<comment> \<open>fresh uuid, properties, body, durable queue\<close>
| Take
| Ack string
| Restart

datatype queue_out = Accepted bool | Delivered "payload option" | Acked | Restarted

fun queue_step ::
  "(payload \<Rightarrow> bytes) \<Rightarrow> (bytes \<Rightarrow> payload) \<Rightarrow> string \<Rightarrow> string \<Rightarrow> queue_cmd \<Rightarrow> queue_message \<times> fs \<Rightarrow>
     (queue_out \<times> queue_message \<times> fs) result" where
  "queue_step ser par base_dir qname (Put uuid bp body qd) (q, s) =
     (case qm_insert ser uuid bp body qd q s of (b, q', s') \<Rightarrow> Inr (Accepted b, q', s'))"
| "queue_step ser par base_dir qname Take (q, s) =
     (case qm_front q of (m, q') \<Rightarrow> Inr (Delivered (map_option msg_payload m), q', s))"
| "queue_step ser par base_dir qname (Ack i) (q, s) =
     rbind (qm_remove ser par i q s) (\<lambda>(q', s'). Inr (Acked, q', s'))"
| "queue_step ser par base_dir qname Restart (q, s) =
     rbind (restart ser par base_dir qname s) (\<lambda>(q', s'). Inr (Restarted, q', s'))"

fun queue_run ::
  "(payload \<Rightarrow> bytes) \<Rightarrow> (bytes \<Rightarrow> payload) \<Rightarrow> string \<Rightarrow> string \<Rightarrow> queue_cmd list \<Rightarrow> queue_message \<times> fs \<Rightarrow>
     (queue_out list \<times> queue_message \<times> fs) result" where
  "queue_run ser par base_dir qname [] x = Inr ([], x)"
| "queue_run ser par base_dir qname (c # cs) x =
     rbind (queue_step ser par base_dir qname c x) (\<lambda>(out, x1).
       rbind (queue_run ser par base_dir qname cs x1) (\<lambda>(outs, x2). Inr (out # outs, x2)))"

fun spec_step :: "queue_cmd \<Rightarrow> spec_queue \<Rightarrow> queue_out \<times> spec_queue" where
  "spec_step (Put uuid bp body qd) A = (Accepted True, spec_put (put_payload uuid bp body qd) A)"
| "spec_step Take A = (case spec_take A of (p, A') \<Rightarrow> (Delivered p, A'))"
| "spec_step (Ack i) A = (Acked, spec_ack i A)"
| "spec_step Restart A = (Restarted, spec_restart A)"

fun spec_run :: "queue_cmd list \<Rightarrow> spec_queue \<Rightarrow> queue_out list \<times> spec_queue" where
  "spec_run [] A = ([], A)"
| "spec_run (c # cs) A =
     (case spec_step c A of (out, A1) \<Rightarrow> case spec_run cs A1 of (outs, A2) \<Rightarrow> (out # outs, A2))"

text \<open>
  Message identifiers are fresh, durable payloads can be stored and at most \<open>N\<close> of them are
  stored at a time.
\<close>

fun cmd_ok :: "(payload \<Rightarrow> bool) \<Rightarrow> nat \<Rightarrow> queue_cmd \<Rightarrow> spec_queue \<Rightarrow> bool" where
  "cmd_ok ok N (Put uuid bp body qd) A \<longleftrightarrow>
     pay_id (put_payload uuid bp body qd) \<notin> set (spec_ids A) \<and>
     (pay_durable (put_payload uuid bp body qd) \<longrightarrow>
        ok (put_payload uuid bp body qd) \<and> length (sq_stored A) < N)"
| "cmd_ok ok N c A \<longleftrightarrow> True"

fun cmds_ok :: "(payload \<Rightarrow> bool) \<Rightarrow> nat \<Rightarrow> queue_cmd list \<Rightarrow> spec_queue \<Rightarrow> bool" where
  "cmds_ok ok N [] A \<longleftrightarrow> True"
| "cmds_ok ok N (c # cs) A \<longleftrightarrow> cmd_ok ok N c A \<and> cmds_ok ok N cs (snd (spec_step c A))"

definition serves ::
  "(payload \<Rightarrow> bytes) \<Rightarrow> (payload \<Rightarrow> bool) \<Rightarrow> nat \<Rightarrow> string \<Rightarrow> string \<Rightarrow> queue_message \<times> fs \<Rightarrow> spec_queue \<Rightarrow> bool" where
  "serves ser ok N base_dir qname x A \<longleftrightarrow>
     (case x of (q, s) \<Rightarrow> represents ser ok q s A \<and> at_home base_dir qname q s) \<and> length (sq_stored A) \<le> N"

lemma serves_pair: "serves ser ok N base_dir qname (q, s) A \<longleftrightarrow>
    represents ser ok q s A \<and> at_home base_dir qname q s \<and> length (sq_stored A) \<le> N"
  by (auto simp: serves_def)

lemma at_home_touches:
  "at_home base_dir qname q s \<Longrightarrow> touches_only F s s' \<Longrightarrow> qm_mapper q' = qm_mapper q \<Longrightarrow> at_home base_dir qname q' s'"
  by (simp add: at_home_def touches_only_def dir_exists_def)

lemma frames_bound: "\<forall>p \<in> set ps. length (frame ser p) \<le> M \<Longrightarrow> length (frames ser ps) \<le> length ps * M"
  by (induction ps) auto

text \<open>A directory in which the queue has no file yet.\<close>

definition fresh_home :: "string \<Rightarrow> string \<Rightarrow> fs \<Rightarrow> bool" where
  "fresh_home base_dir qname s \<longleftrightarrow> base_dir \<noteq> [] \<and> CHR ''/'' \<notin> set qname \<and>
     dir_exists s (strip_slashes (with_slash base_dir)) \<and>
     (\<forall>f \<in> own_files (mapper_paths base_dir qname). fs_files s f = None \<and> \<not> dir_exists s (strip_slashes f))"

lemma dir_part_mapper:
  assumes "base_dir \<noteq> []" and "CHR ''/'' \<notin> set qname"
  shows "dir_part (mm_data_file (mapper_paths base_dir qname)) = strip_slashes (with_slash base_dir)"
    and "dir_part (mm_tmp_file (mapper_paths base_dir qname)) = strip_slashes (with_slash base_dir)"
proof -
  obtain b where b: "with_slash base_dir = b @ ''/''"
  proof (cases "last base_dir = CHR ''/''")
    case True
    then show ?thesis using assms(1) that [of "butlast base_dir"] append_butlast_last_id [of base_dir]
      by (simp add: with_slash_def)
  qed (use that [of base_dir] in \<open>simp add: with_slash_def\<close>)
  show "dir_part (mm_data_file (mapper_paths base_dir qname)) = strip_slashes (with_slash base_dir)"
    using dir_part_name(2) [of "qname @ ''.mqd''" b] assms(2) by (simp add: mapper_paths_def b)
  show "dir_part (mm_tmp_file (mapper_paths base_dir qname)) = strip_slashes (with_slash base_dir)"
    using dir_part_name(2) [of "qname @ ''.mqd.tmp''" b] assms(2) by (simp add: mapper_paths_def b)
qed

lemma fresh_ready:
  assumes "fresh_home base_dir qname s"
  shows "mapper_ready (mapper_paths base_dir qname) s"
proof -
  have "mm_data_file (mapper_paths base_dir qname) \<noteq> mm_tmp_file (mapper_paths base_dir qname)"
    by (simp add: mapper_paths_def)
  then show ?thesis
    using assms dir_part_mapper [of base_dir qname]
    by (simp add: mapper_ready_def fresh_home_def own_files_def)
qed

lemma mapper_new_fresh:
  assumes "fresh_home base_dir qname s"
  shows "mapper_new base_dir qname s =
    Inr (mapper_paths base_dir qname, put_file (mm_data_file (mapper_paths base_dir qname)) (Some []) s)"
proof -
  have "with_slash base_dir \<noteq> []" using assms by (simp add: fresh_home_def with_slash_def)
  then have "file_exists s (with_slash base_dir)"
    using assms by (simp add: file_exists_def fresh_home_def)
  moreover have "\<not> file_exists s (mm_data_file (mapper_paths base_dir qname))"
    using assms by (simp add: file_exists_def fresh_home_def own_files_def)
  ultimately show ?thesis
    using assms dir_part_mapper [of base_dir qname]
    by (simp add: mapper_new_def Let_def create_msg_file_def file_create_def fresh_home_def own_files_def)
qed

context payload_codec
begin

lemma represents_restart:
  assumes rep: "represents ser ok q s A" and home: "at_home base_dir qname q s"
  obtains q' s' where "restart ser par base_dir qname s = Inr (q', s')"
    and "represents ser ok q' s' (spec_restart A)" and "at_home base_dir qname q' s'"
proof -
  obtain ps own where inv: "queue_inv ser ok q s ps own" and A: "A = abs_queue q ps"
    using rep by (auto simp: represents_def)
  note disk = queue_invD(1) [OF inv]
  let ?mm = "mapper_paths base_dir qname"
  define q0 where "q0 = \<lparr>qm_queue_name = qname, qm_valid_count = 0, qm_total_count = 0, qm_mapper = ?mm,
      qm_msgs = [], qm_durable_msgs = [], qm_wait_ack_msgs = [], qm_store = []\<rparr>"
  have new: "qm_new base_dir qname s = Inr (q0, s)"
    using home disk by (simp add: qm_new_def mapper_new_home at_home_def on_disk_def q0_def)
  have mm: "qm_mapper q0 = qm_mapper q" using home by (simp add: q0_def at_home_def)
  obtain q' s' where q': "qm_recovery ser par q0 s = Inr (q', s')"
    "queue_inv ser ok q' s' (live ps) (map Some [0..<length (live ps)])"
    "abs_queue q' (live ps) = \<lparr>sq_ready = live ps, sq_unacked = [], sq_stored = live ps\<rparr>"
    "qm_mapper q' = qm_mapper q0"
  proof (rule recovery_inv [of q0 s ps])
    show "mapper_ready (qm_mapper q0) s" "fs_files s (mm_data_file (qm_mapper q0)) = Some (frames ser ps)"
      "\<forall>p \<in> set ps. ok p" using disk by (simp_all add: mm on_disk_def)
  qed (use stored_facts [OF inv] in \<open>simp_all add: q0_def\<close>)
  have "represents ser ok q' s' (spec_restart A)"
    unfolding represents_def using q'(2,3)
    by (intro exI [of _ "live ps"] exI [of _ "map Some [0..<length (live ps)]"])
      (simp add: garbage_ok_def A spec_restart_def abs_queue_def)
  moreover have "at_home base_dir qname q' s'"
    by (rule at_home_touches [OF home touches_qm_recovery [OF q'(1)]]) (simp add: q'(4) mm)
  moreover have "restart ser par base_dir qname s = Inr (q', s')"
    by (simp add: restart_def new q'(1))
  ultimately show ?thesis by (intro that)
qed

lemma represents_small:
  assumes inv: "queue_inv ser ok q s ps own" and bound: "garbage_ok (length (owners own)) (length ps)"
    and N: "length (live ps) \<le> N" and M: "\<And>p. ok p \<Longrightarrow> length (frame ser p) \<le> M"
    and NM: "(2000 + 2 * N) * M < 2 ^ 32"
  shows "length (frames ser ps) < 2 ^ 32"
proof -
  have "length ps \<le> 2000 + 2 * N"
  proof -
    have "length (owners own) \<le> N" using N by (simp only: stored_facts(3) [OF inv])
    moreover have "length ps \<le> 2000 + length (owners own) \<or> length ps \<le> 2 * length (owners own)"
      using bound by (simp only: garbage_ok_def)
    ultimately show ?thesis by linarith
  qed
  then have le: "length ps * M \<le> (2000 + 2 * N) * M" by (rule mult_le_mono1)
  have "\<forall>p \<in> set ps. length (frame ser p) \<le> M"
    using queue_invD(1) [OF inv] M by (simp add: on_disk_def)
  then have "length (frames ser ps) \<le> length ps * M" by (rule frames_bound)
  then show ?thesis using le NM by (metis le_less_trans)
qed

lemma step_refines:
  assumes srv: "serves ser ok N base_dir qname x A" and c: "cmd_ok ok N c A"
    and M: "\<And>p. ok p \<Longrightarrow> length (frame ser p) \<le> M" and NM: "(2000 + 2 * N) * M < 2 ^ 32"
  obtains x' where "queue_step ser par base_dir qname c x = Inr (fst (spec_step c A), x')"
    and "serves ser ok N base_dir qname x' (snd (spec_step c A))"
proof -
  obtain q s where x: "x = (q, s)" by (cases x)
  have rep: "represents ser ok q s A" and home: "at_home base_dir qname q s" and N: "length (sq_stored A) \<le> N"
    using srv by (simp_all add: x serves_pair)
  obtain ps own where inv: "queue_inv ser ok q s ps own"
    and bound: "garbage_ok (length (owners own)) (length ps)" and A: "A = abs_queue q ps"
    using rep by (auto simp: represents_def)
  show ?thesis
  proof (cases c)
    case (Put uuid bp body qd)
    let ?p = "put_payload uuid bp body qd"
    have fresh: "pay_id ?p \<notin> ident q ` set (held q)"
      using c by (simp add: Put A spec_ids_abs [OF queue_invD(3) [OF inv]])
    have "\<exists>q' s' ps' own'. qm_insert ser uuid bp body qd q s = (True, q', s') \<and> queue_inv ser ok q' s' ps' own' \<and>
        garbage_ok (length (owners own')) (length ps') \<and> abs_queue q' ps' = spec_put ?p (abs_queue q ps)"
    proof (cases "pay_durable ?p")
      case True
      then have "ok ?p" using c by (simp add: Put)
      then obtain q' s' where "qm_insert ser uuid bp body qd q s = (True, q', s')"
        "queue_inv ser ok q' s' (ps @ [?p]) (own @ [Some (length (qm_store q))])"
        "abs_queue q' (ps @ [?p]) = spec_put ?p (abs_queue q ps)"
        by (rule insert_durable [OF inv refl True fresh])
      moreover have "garbage_ok (length (owners (own @ [Some (length (qm_store q))]))) (length (ps @ [?p]))"
        using bound by (auto simp: garbage_ok_def)
      ultimately show ?thesis by blast
    next
      case False
      show ?thesis using bound by (rule_tac insert_transient [OF inv refl False fresh]) auto
    qed
    then obtain q' s' where q': "qm_insert ser uuid bp body qd q s = (True, q', s')"
      "represents ser ok q' s' (spec_put ?p A)"
      unfolding represents_def A by metis
    have "at_home base_dir qname q' s'"
      using at_home_touches [OF home] touches_qm_insert [OF q'(1)] by blast
    moreover have "length (sq_stored (spec_put ?p A)) \<le> N"
      using c N by (auto simp: Put spec_put_def)
    ultimately show ?thesis
      using q' by (intro that [of "(q', s')"]) (simp_all add: Put x serves_pair)
  next
    case Take
    obtain m q' where f: "qm_front q = (m, q')" by (cases "qm_front q")
    have out: "(map_option msg_payload m, abs_queue q' ps) = spec_take A"
      using front_inv(2) [OF inv f] by (simp add: A)
    have st: "spec_step Take A = (Delivered (map_option msg_payload m), abs_queue q' ps)"
      by (simp flip: out)
    have "represents ser ok q' s (abs_queue q' ps)"
      using front_inv(1) [OF inv f] bound by (auto simp: represents_def)
    moreover have "at_home base_dir qname q' s"
      using home f by (auto simp: at_home_def qm_front_def split: list.splits)
    moreover have "length (sq_stored (abs_queue q' ps)) \<le> N"
      using N by (simp add: A abs_queue_def)
    ultimately show ?thesis
      using st by (intro that [of "(q', s)"]) (simp_all add: Take x serves_pair f)
  next
    case (Ack i)
    have "length (live ps) \<le> N" using N by (simp add: A abs_queue_def)
    then have small: "length (frames ser ps) < 2 ^ 32"
      by (rule represents_small [OF inv bound _ M NM])
    obtain q' s' ps' own' where q': "qm_remove ser par i q s = Inr (q', s')"
      "queue_inv ser ok q' s' ps' own'" "abs_queue q' ps' = spec_ack i (abs_queue q ps)"
      "garbage_ok (length (owners own')) (length ps')"
      by (rule remove_inv [OF inv bound small, of i]) blast
    have "represents ser ok q' s' (spec_ack i A)"
      unfolding represents_def A using q'(2-4) by metis
    moreover have "at_home base_dir qname q' s'"
      using at_home_touches [OF home] touches_qm_remove [OF q'(1)] by blast
    moreover have "length (sq_stored (spec_ack i A)) \<le> N"
      using N by (auto simp: spec_ack_def intro: order_trans [OF length_filter_le])
    ultimately show ?thesis
      using q'(1) by (intro that [of "(q', s')"]) (simp_all add: Ack x serves_pair)
  next
    case Restart
    obtain q' s' where q': "restart ser par base_dir qname s = Inr (q', s')"
      "represents ser ok q' s' (spec_restart A)" "at_home base_dir qname q' s'"
      by (rule represents_restart [OF rep home])
    moreover have "length (sq_stored (spec_restart A)) \<le> N" using N by (simp add: spec_restart_def)
    ultimately show ?thesis
      by (intro that [of "(q', s')"]) (simp_all add: Restart x serves_pair)
  qed
qed

lemma run_refines:
  assumes "serves ser ok N base_dir qname x A" and "cmds_ok ok N cs A"
    and M: "\<And>p. ok p \<Longrightarrow> length (frame ser p) \<le> M" and NM: "(2000 + 2 * N) * M < 2 ^ 32"
  shows "\<exists>x'. queue_run ser par base_dir qname cs x = Inr (fst (spec_run cs A), x') \<and>
    serves ser ok N base_dir qname x' (snd (spec_run cs A))"
  using assms(1,2)
proof (induction cs arbitrary: x A)
  case Nil
  then show ?case by simp
next
  case (Cons c cs)
  obtain x1 where x1: "queue_step ser par base_dir qname c x = Inr (fst (spec_step c A), x1)"
    "serves ser ok N base_dir qname x1 (snd (spec_step c A))"
    using step_refines [OF Cons.prems(1) _ M NM, of c] Cons.prems(2) by auto
  with Cons.IH [OF x1(2)] Cons.prems(2) show ?case
    by (auto split: prod.splits)
qed

lemma start_fresh:
  assumes fresh: "fresh_home base_dir qname s"
  obtains q s' where "restart ser par base_dir qname s = Inr (q, s')"
    and "represents ser ok q s' spec_empty" and "at_home base_dir qname q s'"
proof -
  let ?mm = "mapper_paths base_dir qname"
  define q0 where "q0 = \<lparr>qm_queue_name = qname, qm_valid_count = 0, qm_total_count = 0, qm_mapper = ?mm,
      qm_msgs = [], qm_durable_msgs = [], qm_wait_ack_msgs = [], qm_store = []\<rparr>"
  let ?s = "put_file (mm_data_file ?mm) (Some []) s"
  have new: "qm_new base_dir qname s = Inr (q0, ?s)"
    using mapper_new_fresh [OF fresh] by (simp add: qm_new_def q0_def)
  obtain q' s' where q': "qm_recovery ser par q0 ?s = Inr (q', s')"
    "queue_inv ser ok q' s' (live []) (map Some [0..<length (live [])])"
    "abs_queue q' (live []) = \<lparr>sq_ready = live [], sq_unacked = [], sq_stored = live []\<rparr>"
    "qm_mapper q' = qm_mapper q0"
    by (rule recovery_inv [of q0 ?s "[]"]) (use fresh_ready [OF fresh] in \<open>simp_all add: q0_def\<close>)
  have "represents ser ok q' s' spec_empty"
    unfolding represents_def using q'(2,3)
    by (intro exI [of _ "[]"]) (simp add: garbage_ok_def spec_empty_def)
  moreover have "at_home base_dir qname q0 s" using fresh by (simp add: at_home_def fresh_home_def q0_def)
  then have "at_home base_dir qname q0 ?s" by (simp add: at_home_def)
  then have "at_home base_dir qname q' s'"
    by (rule at_home_touches [OF _ touches_qm_recovery [OF q'(1)] q'(4)])
  ultimately show ?thesis by (intro that) (simp_all add: restart_def new q'(1))
qed

end

section \<open>Facts of the specification\<close>

lemma spec_run_append:
  "spec_run (cs @ cs') A =
    (fst (spec_run cs A) @ fst (spec_run cs' (snd (spec_run cs A))), snd (spec_run cs' (snd (spec_run cs A))))"
  by (induction cs arbitrary: A) (auto split: prod.splits)

lemma cmds_ok_append:
  "cmds_ok ok N (cs @ cs') A \<longleftrightarrow> cmds_ok ok N cs A \<and> cmds_ok ok N cs' (snd (spec_run cs A))"
  by (induction cs arbitrary: A) (auto split: prod.splits)

lemma cmds_ok_takes: "cmds_ok ok N (replicate n Take) A"
  by (induction n arbitrary: A) auto

lemma spec_run_takes:
  "sq_ready A = ps \<Longrightarrow>
    fst (spec_run (replicate (Suc (length ps)) Take) A) = map (\<lambda>p. Delivered (Some p)) ps @ [Delivered None]"
proof (induction ps arbitrary: A)
  case (Cons p ps)
  let ?A = "A\<lparr>sq_ready := ps, sq_unacked := (pay_id p, p) # sq_unacked A\<rparr>"
  have "spec_step Take A = (Delivered (Some p), ?A)" using Cons.prems by (simp add: spec_take_def)
  with Cons.IH [of ?A] show ?case
    by (simp only: list.size replicate_Suc [of "Suc (length ps)"] add_Suc_right add_0_right spec_run.simps)
      (simp add: split_beta del: replicate_Suc)
qed (simp add: spec_take_def)

lemma durable_count_owners:
  assumes "owners_ok q own"
  shows "length (qm_durable_msgs q) = length (owners own)"
proof -
  have "distinct (qm_durable_msgs q)"
    using owners_okD(3) [OF assms] by (simp add: um_wf_def distinct_map)
  then have "length (qm_durable_msgs q) = card (set (qm_durable_msgs q))" by (simp add: distinct_card)
  also have "\<dots> = card (set (owners own))"
    unfolding owners_okD(4) [OF assms] by (rule card_image) (simp add: inj_on_def)
  also have "\<dots> = length (owners own)" using owners_okD(1) [OF assms] by (rule distinct_card)
  finally show ?thesis .
qed

section \<open>Properties\<close>

text \<open>Payloads of at most \<open>M\<close> bytes with their length field.\<close>

definition fits :: "pb_runtime \<Rightarrow> nat \<Rightarrow> payload \<Rightarrow> bool" where
  "fits rt M p \<longleftrightarrow> storable rt p \<and> length (frame (SerializeAsString rt) p) \<le> M"

interpretation sized: payload_codec "SerializeAsString rt" "par_payload rt" "fits rt M" for rt M
proof unfold_locales
  fix p
  assume p: "fits rt M p"
  then have st: "storable rt p" by (simp add: fits_def)
  show "par_payload rt (SerializeAsString rt p) = p" by (rule pb.par_ser [OF st])
  show "length (SerializeAsString rt p) < 2 ^ 31" by (rule pb.length_ser [OF st])
  assume valid: "pl_valid p = ''1''"
  show len: "length (SerializeAsString rt (p\<lparr>pl_valid := ''0''\<rparr>)) = length (SerializeAsString rt p)"
    by (rule pb.length_invalid [OF st valid])
  show "fits rt M (p\<lparr>pl_valid := ''0''\<rparr>)"
    using p len pb.ok_invalid [OF st valid] by (simp add: fits_def length_frame)
qed

definition queue_history ::
  "pb_runtime \<Rightarrow> string \<Rightarrow> string \<Rightarrow> queue_cmd list \<Rightarrow> fs \<Rightarrow> (queue_out list \<times> queue_message \<times> fs) result" where
  "queue_history rt base_dir qname cs s =
     rbind (restart (SerializeAsString rt) (par_payload rt) base_dir qname s)
       (queue_run (SerializeAsString rt) (par_payload rt) base_dir qname cs)"

lemma history_serves:
  assumes "fresh_home base_dir qname s" and "cmds_ok (fits rt M) N cs spec_empty"
    and "(2000 + 2 * N) * M < 2 ^ 32"
  obtains q s' where "queue_history rt base_dir qname cs s = Inr (fst (spec_run cs spec_empty), q, s')"
    and "serves (SerializeAsString rt) (fits rt M) N base_dir qname (q, s') (snd (spec_run cs spec_empty))"
proof -
  obtain q0 s0 where q0: "restart (SerializeAsString rt) (par_payload rt) base_dir qname s = Inr (q0, s0)"
    "represents (SerializeAsString rt) (fits rt M) q0 s0 spec_empty" "at_home base_dir qname q0 s0"
    by (rule sized.start_fresh [OF assms(1), of rt M])
  then have "serves (SerializeAsString rt) (fits rt M) N base_dir qname (q0, s0) spec_empty"
    by (simp add: serves_pair spec_empty_def)
  from sized.run_refines [OF this assms(2) _ assms(3)] show ?thesis
    using that by (auto simp: queue_history_def q0(1) fits_def)
qed

text \<open>
  C7: A queue started in a directory without its file and driven by any sequence of inserts, fronts,
  acknowledgements and restarts of the server never aborts, throws or fails: it answers each
  operation as the specification does (messages come out in the order they went in, each at most
  once until the next restart) and its memory and file represent the specification's state.  The
  identifiers are fresh, durable payloads serialize into at most \<open>M\<close> bytes and at most \<open>N\<close> of them
  are stored at a time, with \<open>(2000 + 2 * N) * M\<close> below the 4 GiB an offset can hold.
\<close>

theorem queue_refines_spec:
  assumes "fresh_home base_dir qname s" and "cmds_ok (fits rt M) N cs spec_empty"
    and "(2000 + 2 * N) * M < 2 ^ 32"
  shows "\<exists>q s'. queue_history rt base_dir qname cs s = Inr (fst (spec_run cs spec_empty), q, s') \<and>
    represents (SerializeAsString rt) (fits rt M) q s' (snd (spec_run cs spec_empty))"
  using history_serves [OF assms] by (metis serves_pair)

definition sample_cmds :: "queue_cmd list" where
  "sample_cmds = [Put ''u'' None ''hi'' True, Put ''v'' None ''yo'' False, Take, Ack ''w'']"

lemma sample_home: "fresh_home ''./data'' ''q'' \<lparr>fs_files = \<lambda>_. None, fs_dirs = [''./data'']\<rparr>"
  by (simp add: fresh_home_def own_files_def with_slash_def dir_exists_def strip_slashes_def mapper_paths_def)

lemma sample_put_fits: "fits wire_rt 100 (put_payload ''u'' None ''hi'' True)"
proof -
  let ?p = "put_payload ''u'' None ''hi'' True"
  have ok: "payload_ok wire_rt ?p"
    by (simp add: payload_ok_def wire_rt_ok put_payload_def make_payload_def pay_durable_def properties_def
        properties_ok_def mode_ok_def int32_def mode_of_num_def default_payload_def default_properties_def)
      (simp add: wire_rt_def ascii_def)
  have size: "payload_byte_size wire_rt ?p < 50"
    by (simp add: payload_byte_size_def properties_byte_size_def put_payload_def make_payload_def wire_rt_def
        pay_durable_def properties_def default_payload_def default_properties_def varint.simps enum_bits_def)
  with ok have st: "storable wire_rt ?p" by (simp add: storable_def)
  then show ?thesis
    using size by (simp add: fits_def length_frame sizeof_size_t_def storable_ser
        length_ser_payload [OF storable_sizes [OF st]])
qed

lemmas spec_eval = sample_cmds_def spec_put_def spec_take_def spec_ack_def spec_ids_def spec_empty_def
  spec_restart_def put_payload_def make_payload_def pay_durable_def pay_id_def properties_def
  default_payload_def default_properties_def

lemma sample_cmds_ok: "cmds_ok (fits wire_rt 100) 1 sample_cmds spec_empty"
proof -
  note fits = sample_put_fits [unfolded spec_eval, simplified]
  show ?thesis by (simp add: spec_eval fits)
qed

theorem queue_refines_spec_witness:
  "\<exists>q s'. queue_history wire_rt ''./data'' ''q'' sample_cmds \<lparr>fs_files = \<lambda>_. None, fs_dirs = [''./data'']\<rparr> =
      Inr (fst (spec_run sample_cmds spec_empty), q, s') \<and>
    represents (SerializeAsString wire_rt) (fits wire_rt 100) q s' (snd (spec_run sample_cmds spec_empty))"
  by (rule queue_refines_spec [OF sample_home sample_cmds_ok]) simp

text \<open>
  C11: Durability.  Kill the server after any such history and start it again: recovery succeeds, and
  the fronts that follow deliver exactly the durable messages that were inserted and not yet
  acknowledged, in the order of their insertion, and then nothing.
\<close>

theorem restart_redelivers_unacknowledged:
  assumes "fresh_home base_dir qname s" and "cmds_ok (fits rt M) N cs spec_empty"
    and "(2000 + 2 * N) * M < 2 ^ 32"
  shows "\<exists>x. queue_history rt base_dir qname
        (cs @ Restart # replicate (Suc (length (sq_stored (snd (spec_run cs spec_empty))))) Take) s =
      Inr (fst (spec_run cs spec_empty) @ Restarted #
        map (\<lambda>p. Delivered (Some p)) (sq_stored (snd (spec_run cs spec_empty))) @ [Delivered None], x)"
proof -
  let ?A = "snd (spec_run cs spec_empty)"
  let ?cs = "cs @ Restart # replicate (Suc (length (sq_stored ?A))) Take"
  have "cmds_ok (fits rt M) N ?cs spec_empty"
    using assms(2) by (simp add: cmds_ok_append cmds_ok_takes del: replicate_Suc)
  then obtain q s' where "queue_history rt base_dir qname ?cs s = Inr (fst (spec_run ?cs spec_empty), q, s')"
    by (rule history_serves [OF assms(1) _ assms(3)])
  then show ?thesis
    by (simp add: spec_run_append spec_run_takes spec_restart_def split_beta del: replicate_Suc)
qed

theorem restart_redelivers_unacknowledged_witness:
  "\<exists>x. queue_history wire_rt ''./data'' ''q''
        (sample_cmds @ Restart # replicate (Suc (length (sq_stored (snd (spec_run sample_cmds spec_empty))))) Take)
        \<lparr>fs_files = \<lambda>_. None, fs_dirs = [''./data'']\<rparr> =
      Inr (fst (spec_run sample_cmds spec_empty) @ Restarted #
        map (\<lambda>p. Delivered (Some p)) (sq_stored (snd (spec_run sample_cmds spec_empty))) @ [Delivered None], x)"
  by (rule restart_redelivers_unacknowledged [OF sample_home sample_cmds_ok]) simp

text \<open>
  C26: Garbage is bounded: after any such history the queue's file consists of whole records, the live
  ones are exactly the stored messages, in order, and there are at most 2000 more records than twice
  the stored messages; the three counters are exact.
\<close>

theorem garbage_is_bounded:
  assumes "fresh_home base_dir qname s" and "cmds_ok (fits rt M) N cs spec_empty"
    and "(2000 + 2 * N) * M < 2 ^ 32"
  shows "\<exists>q s' ps. queue_history rt base_dir qname cs s = Inr (fst (spec_run cs spec_empty), q, s') \<and>
    fs_files s' (mm_data_file (qm_mapper q)) = Some (frames (SerializeAsString rt) ps) \<and>
    live ps = sq_stored (snd (spec_run cs spec_empty)) \<and>
    length ps \<le> 2000 + 2 * length (live ps) \<and> qm_total_count q = word_of_nat (length ps) \<and>
    qm_valid_count q = word_of_nat (length (live ps)) \<and> qm_durable_count q = length (live ps)"
proof -
  obtain q s' where run: "queue_history rt base_dir qname cs s = Inr (fst (spec_run cs spec_empty), q, s')"
    and srv: "serves (SerializeAsString rt) (fits rt M) N base_dir qname (q, s') (snd (spec_run cs spec_empty))"
    by (rule history_serves [OF assms])
  then obtain ps own where inv: "queue_inv (SerializeAsString rt) (fits rt M) q s' ps own"
    and bound: "garbage_ok (length (owners own)) (length ps)" and A: "snd (spec_run cs spec_empty) = abs_queue q ps"
    by (auto simp: serves_pair represents_def)
  note len = stored_facts(3) [OF inv]
  have "length (qm_durable_msgs q) = length (owners own)"
    using durable_count_owners [OF queue_invD(4) [OF inv]] .
  with run inv bound show ?thesis
    by (intro exI [of _ q] exI [of _ s'] exI [of _ ps])
      (auto simp: A abs_queue_def len qm_durable_count_def garbage_ok_def queue_inv_def on_disk_def counts_ok_def)
qed

theorem garbage_is_bounded_witness:
  "\<exists>q s' ps. queue_history wire_rt ''./data'' ''q'' sample_cmds \<lparr>fs_files = \<lambda>_. None, fs_dirs = [''./data'']\<rparr> =
      Inr (fst (spec_run sample_cmds spec_empty), q, s') \<and>
    fs_files s' (mm_data_file (qm_mapper q)) = Some (frames (SerializeAsString wire_rt) ps) \<and>
    live ps = sq_stored (snd (spec_run sample_cmds spec_empty)) \<and>
    length ps \<le> 2000 + 2 * length (live ps) \<and> qm_total_count q = word_of_nat (length ps) \<and>
    qm_valid_count q = word_of_nat (length (live ps)) \<and> qm_durable_count q = length (live ps)"
  by (rule garbage_is_bounded [OF sample_home sample_cmds_ok]) simp

end
