(* ===== verification/Message_Manager.thy ===== *)
theory Message_Manager
  imports Queue_Refinement Simulation
begin

text \<open>
  \<open>message_manager\<close> of \<open>HareMQ/mqserver/message.hpp\<close>: the messages of all queues.  The manager's
  mutex protects its map and each queue's own mutex the queue, so a call is one step.
\<close>

section \<open>The manager\<close>

record message_manager =
  mg_base_dir :: string
  mg_queue_msgs :: "(string, queue_message) umap"

definition message_manager_new :: "string \<Rightarrow> message_manager" where
  "message_manager_new base_dir = \<lparr>mg_base_dir = base_dir, mg_queue_msgs = []\<rparr>"

definition init_queue_msg ::
  "(payload \<Rightarrow> bytes) \<Rightarrow> (bytes \<Rightarrow> payload) \<Rightarrow> string \<Rightarrow> message_manager \<Rightarrow> fs \<Rightarrow> (message_manager \<times> fs) result" where
  "init_queue_msg ser par qname g s =
     (case map_of (mg_queue_msgs g) qname of
        Some qmp \<Rightarrow> Inr (g, s)
      | None \<Rightarrow>
          rbind (qm_new (mg_base_dir g) qname s) (\<lambda>(qmp, s1).
            rbind (qm_recovery ser par qmp s1) (\<lambda>(qmp', s2).
              Inr (g\<lparr>mg_queue_msgs := um_insert qname qmp' (mg_queue_msgs g)\<rparr>, s2))))"

definition destroy_queue_msg :: "string \<Rightarrow> message_manager \<Rightarrow> fs \<Rightarrow> message_manager \<times> fs" where
  "destroy_queue_msg qname g s =
     (case map_of (mg_queue_msgs g) qname of
        None \<Rightarrow> (g, s)
      | Some qmp \<Rightarrow> (g\<lparr>mg_queue_msgs := um_erase qname (mg_queue_msgs g)\<rparr>, snd (qm_clear qmp s)))"

definition mg_insert ::
  "(payload \<Rightarrow> bytes) \<Rightarrow> string \<Rightarrow> string \<Rightarrow> BasicProperties option \<Rightarrow> string \<Rightarrow> bool \<Rightarrow>
     message_manager \<Rightarrow> fs \<Rightarrow> bool \<times> message_manager \<times> fs" where
  "mg_insert ser uuid qname bp body queue_durable g s =
     (case map_of (mg_queue_msgs g) qname of
        None \<Rightarrow> (False, g, s)
      | Some qmp \<Rightarrow>
          (case qm_insert ser uuid bp body queue_durable qmp s of
             (b, qmp', s') \<Rightarrow> (b, g\<lparr>mg_queue_msgs := um_put qname qmp' (mg_queue_msgs g)\<rparr>, s')))"

definition mg_front :: "string \<Rightarrow> message_manager \<Rightarrow> message option \<times> message_manager" where
  "mg_front qname g =
     (case map_of (mg_queue_msgs g) qname of
        None \<Rightarrow> (None, g)
      | Some qmp \<Rightarrow>
          (case qm_front qmp of
             (m, qmp') \<Rightarrow> (m, g\<lparr>mg_queue_msgs := um_put qname qmp' (mg_queue_msgs g)\<rparr>)))"

definition mg_ack ::
  "(payload \<Rightarrow> bytes) \<Rightarrow> (bytes \<Rightarrow> payload) \<Rightarrow> string \<Rightarrow> string \<Rightarrow> message_manager \<Rightarrow> fs \<Rightarrow>
     (message_manager \<times> fs) result" where
  "mg_ack ser par qname mid g s =
     (case map_of (mg_queue_msgs g) qname of
        None \<Rightarrow> Inr (g, s)
      | Some qmp \<Rightarrow>
          rbind (qm_remove ser par mid qmp s) (\<lambda>(qmp', s').
            Inr (g\<lparr>mg_queue_msgs := um_put qname qmp' (mg_queue_msgs g)\<rparr>, s')))"

definition mg_getable_count :: "string \<Rightarrow> message_manager \<Rightarrow> nat" where
  "mg_getable_count qname g =
     (case map_of (mg_queue_msgs g) qname of None \<Rightarrow> 0 | Some qmp \<Rightarrow> qm_getable_count qmp)"

definition mg_total_count :: "string \<Rightarrow> message_manager \<Rightarrow> 64 word" where
  "mg_total_count qname g =
     (case map_of (mg_queue_msgs g) qname of None \<Rightarrow> 0 | Some qmp \<Rightarrow> qm_total_count qmp)"

definition mg_durable_count :: "string \<Rightarrow> message_manager \<Rightarrow> nat" where
  "mg_durable_count qname g =
     (case map_of (mg_queue_msgs g) qname of None \<Rightarrow> 0 | Some qmp \<Rightarrow> qm_durable_count qmp)"

definition mg_wait_ack_count :: "string \<Rightarrow> message_manager \<Rightarrow> nat" where
  "mg_wait_ack_count qname g =
     (case map_of (mg_queue_msgs g) qname of None \<Rightarrow> 0 | Some qmp \<Rightarrow> qm_wait_ack_count qmp)"

fun clear_all :: "(string, queue_message) umap \<Rightarrow> fs \<Rightarrow> (string, queue_message) umap \<times> fs" where
  "clear_all [] s = ([], s)"
| "clear_all ((qname, q) # qs) s =
     (case qm_clear q s of (q', s1) \<Rightarrow> case clear_all qs s1 of (qs', s2) \<Rightarrow> ((qname, q') # qs', s2))"

definition mg_clear :: "message_manager \<Rightarrow> fs \<Rightarrow> message_manager \<times> fs" where
  "mg_clear g s = (case clear_all (mg_queue_msgs g) s of (qs, s') \<Rightarrow> (g\<lparr>mg_queue_msgs := qs\<rparr>, s'))"

section \<open>Queues do not share files\<close>

abbreviation files_of :: "string \<Rightarrow> string \<Rightarrow> path set" where
  "files_of base_dir qname \<equiv> own_files (mapper_paths base_dir qname)"

lemma own_files_disjoint: "q \<noteq> r \<Longrightarrow> files_of base_dir q \<inter> files_of base_dir r = {}"
proof -
  assume "q \<noteq> r"
  have "rev (x @ ''.mqd.tmp'') \<noteq> rev (y @ ''.mqd'')" for x y :: string by simp
  then have "x @ ''.mqd.tmp'' \<noteq> y @ ''.mqd''" for x y :: string by metis
  with \<open>q \<noteq> r\<close> show ?thesis by (auto simp: own_files_def mapper_paths_def)
qed

lemma touches_other:
  "touches_only (files_of base_dir q) s s' \<Longrightarrow> q \<noteq> r \<Longrightarrow> f \<in> files_of base_dir r \<Longrightarrow> fs_files s' f = fs_files s f"
  using own_files_disjoint [of q r base_dir] by (auto simp: touches_only_def)

lemma touches_dirs: "touches_only F s s' \<Longrightarrow> dir_exists s' d = dir_exists s d"
  by (simp add: touches_only_def dir_exists_def)

lemma fresh_home_frame:
  "fresh_home base_dir r s \<Longrightarrow> touches_only (files_of base_dir q) s s' \<Longrightarrow> q \<noteq> r \<Longrightarrow> fresh_home base_dir r s'"
  using touches_other [of base_dir q s s' r] by (simp add: fresh_home_def touches_dirs)

lemma serves_frame:
  assumes srv: "serves ser ok N base_dir r (qm, s) A" and t: "touches_only (files_of base_dir q) s s'" and "q \<noteq> r"
  shows "serves ser ok N base_dir r (qm, s') A"
proof -
  have mm: "qm_mapper qm = mapper_paths base_dir r" using srv by (simp add: serves_pair at_home_def)
  have same: "fs_files s' (mm_data_file (qm_mapper qm)) = fs_files s (mm_data_file (qm_mapper qm))"
    using touches_other [OF t assms(3)] by (simp add: mm own_files_def)
  have "on_disk ser ok qm s' ps \<longleftrightarrow> on_disk ser ok qm s ps" for ps
    by (simp add: on_disk_def same mapper_ready_def touches_dirs [OF t])
  then have "represents ser ok qm s' A \<longleftrightarrow> represents ser ok qm s A" by (simp add: represents_def queue_inv_def)
  then show ?thesis using srv by (simp add: serves_pair at_home_def touches_dirs [OF t])
qed

section \<open>What the manager promises\<close>

type_synonym spec_store = "string \<Rightarrow> spec_queue option"

text \<open>\<open>S\<close> is what opening a closed queue would bring back.\<close>

definition spec_init :: "(string \<Rightarrow> spec_queue) \<Rightarrow> string \<Rightarrow> spec_store \<Rightarrow> spec_store" where
  "spec_init S qname A = (if A qname = None then A(qname \<mapsto> S qname) else A)"

definition asleep ::
  "(payload \<Rightarrow> bytes) \<Rightarrow> (payload \<Rightarrow> bool) \<Rightarrow> nat \<Rightarrow> string \<Rightarrow> string \<Rightarrow> fs \<Rightarrow> spec_queue \<Rightarrow> bool" where
  "asleep ser ok N base_dir qname s b \<longleftrightarrow> fresh_home base_dir qname s \<and> b = spec_empty \<or>
     (\<exists>qm a. serves ser ok N base_dir qname (qm, s) a \<and> b = spec_restart a)"

definition slash_free :: "string \<Rightarrow> bool" where
  "slash_free qname \<longleftrightarrow> CHR ''/'' \<notin> set qname"

definition clear_of_dirs :: "string \<Rightarrow> fs \<Rightarrow> bool" where
  "clear_of_dirs base_dir s \<longleftrightarrow> base_dir \<noteq> [] \<and> dir_exists s (strip_slashes (with_slash base_dir)) \<and>
     (\<forall>qname. slash_free qname \<longrightarrow> (\<forall>f \<in> files_of base_dir qname. \<not> dir_exists s (strip_slashes f)))"

definition queue_entry ::
  "(payload \<Rightarrow> bytes) \<Rightarrow> (payload \<Rightarrow> bool) \<Rightarrow> nat \<Rightarrow> string \<Rightarrow> string \<Rightarrow> queue_message option \<Rightarrow> fs \<Rightarrow>
     spec_queue option \<Rightarrow> spec_queue \<Rightarrow> bool" where
  "queue_entry ser ok N base_dir qname e s a b \<longleftrightarrow>
     (case (e, a) of
        (None, None) \<Rightarrow> slash_free qname \<longrightarrow> asleep ser ok N base_dir qname s b
      | (Some qm, Some a) \<Rightarrow> slash_free qname \<and> serves ser ok N base_dir qname (qm, s) a
      | _ \<Rightarrow> False)"

definition store_rel ::
  "(payload \<Rightarrow> bytes) \<Rightarrow> (payload \<Rightarrow> bool) \<Rightarrow> nat \<Rightarrow> string \<Rightarrow> (string \<Rightarrow> spec_queue) \<Rightarrow> message_manager \<Rightarrow> fs \<Rightarrow>
     spec_store \<Rightarrow> bool" where
  "store_rel ser ok N base_dir S g s A \<longleftrightarrow> mg_base_dir g = base_dir \<and> um_wf (mg_queue_msgs g) \<and>
     clear_of_dirs base_dir s \<and>
     (\<forall>qname. queue_entry ser ok N base_dir qname (map_of (mg_queue_msgs g) qname) s (A qname) (S qname))"

lemma queue_entry_frame:
  "queue_entry ser ok N base_dir r e s a b \<Longrightarrow> touches_only (files_of base_dir q) s s' \<Longrightarrow> q \<noteq> r \<Longrightarrow>
    queue_entry ser ok N base_dir r e s' a b"
  by (auto simp: queue_entry_def asleep_def intro: fresh_home_frame serves_frame split: option.splits)

lemma store_rel_update:
  assumes rel: "store_rel ser ok N base_dir S g s A" and t: "touches_only (files_of base_dir q) s s'"
    and e: "queue_entry ser ok N base_dir q e s' a b" and wf: "um_wf m"
    and m: "\<And>j. map_of m j = (if j = q then e else map_of (mg_queue_msgs g) j)"
    and b: "S q = b \<or> a \<noteq> None"
  shows "store_rel ser ok N base_dir S (g\<lparr>mg_queue_msgs := m\<rparr>) s' (A(q := a))"
proof -
  have "queue_entry ser ok N base_dir q e s' a (S q)"
    using e b by (auto simp: queue_entry_def split: option.splits)
  with rel wf queue_entry_frame [OF _ t] show ?thesis
    by (auto simp: store_rel_def m clear_of_dirs_def touches_dirs [OF t])
qed

lemma store_entry: "store_rel ser ok N base_dir S g s A \<Longrightarrow>
    queue_entry ser ok N base_dir q (map_of (mg_queue_msgs g) q) s (A q) (S q)"
  by (simp add: store_rel_def)

lemma store_known:
  assumes "store_rel ser ok N base_dir S g s A" and "A q = Some a"
  obtains qm where "map_of (mg_queue_msgs g) q = Some qm" and "slash_free q"
    and "serves ser ok N base_dir q (qm, s) a"
  using store_entry [OF assms(1), of q] assms(2) that by (auto simp: queue_entry_def split: option.splits)

lemma store_unknown: "store_rel ser ok N base_dir S g s A \<Longrightarrow> A q = None \<longleftrightarrow> map_of (mg_queue_msgs g) q = None"
  using store_entry [of ser ok N base_dir S g s A q] by (auto simp: queue_entry_def split: option.splits)

text \<open>Destroying removes both files of the queue.\<close>

lemma clear_fresh:
  assumes srv: "serves ser ok N base_dir q (qm, s) a" and sf: "slash_free q" and dirs: "clear_of_dirs base_dir s"
  shows "fresh_home base_dir q (snd (qm_clear qm s))" and "touches_only (files_of base_dir q) s (snd (qm_clear qm s))"
proof -
  have mm: "qm_mapper qm = mapper_paths base_dir q" using srv by (simp add: serves_pair at_home_def)
  show t: "touches_only (files_of base_dir q) s (snd (qm_clear qm s))"
    using touches_qm_clear [of qm s "fst (qm_clear qm s)" "snd (qm_clear qm s)"] by (simp add: mm)
  have "\<forall>f \<in> files_of base_dir q. fs_files (snd (qm_clear qm s)) f = None"
    by (auto simp: qm_clear_def remove_msg_file_def mm own_files_def file_remove_def split: option.splits)
  then show "fresh_home base_dir q (snd (qm_clear qm s))"
    using dirs sf by (simp add: fresh_home_def touches_dirs [OF t] clear_of_dirs_def slash_free_def)
qed

lemma destroy_rel:
  assumes rel: "store_rel ser ok N base_dir S g s A" and S: "S q = spec_empty"
  shows "store_rel ser ok N base_dir S (fst (destroy_queue_msg q g s)) (snd (destroy_queue_msg q g s)) (A(q := None))"
proof (cases "A q")
  case None
  then have "map_of (mg_queue_msgs g) q = None" using store_unknown [OF rel] by simp
  moreover have "A(q := None) = A" using None by (simp add: fun_upd_idem)
  ultimately show ?thesis using rel by (simp add: destroy_queue_msg_def)
next
  case (Some a)
  obtain qm where qm: "map_of (mg_queue_msgs g) q = Some qm" "slash_free q" "serves ser ok N base_dir q (qm, s) a"
    by (rule store_known [OF rel Some])
  have dirs: "clear_of_dirs base_dir s" using rel by (simp add: store_rel_def)
  note c = clear_fresh [OF qm(3,2) dirs]
  have "queue_entry ser ok N base_dir q None (snd (qm_clear qm s)) None spec_empty"
    using c(1) by (simp add: queue_entry_def asleep_def)
  moreover have "um_wf (um_erase q (mg_queue_msgs g))" using rel by (simp add: store_rel_def um_wf_erase)
  ultimately have "store_rel ser ok N base_dir S (g\<lparr>mg_queue_msgs := um_erase q (mg_queue_msgs g)\<rparr>)
      (snd (qm_clear qm s)) (A(q := None))"
    by (intro store_rel_update [OF rel c(2)]) (simp_all add: um_find_erase S)
  then show ?thesis by (simp add: destroy_queue_msg_def qm(1))
qed

lemma put_rel:
  assumes rel: "store_rel ser ok N base_dir S g s A" and q: "slash_free q"
    and t: "touches_only (files_of base_dir q) s s'" and srv: "serves ser ok N base_dir q (qm, s') a"
  shows "store_rel ser ok N base_dir S (g\<lparr>mg_queue_msgs := um_put q qm (mg_queue_msgs g)\<rparr>) s' (A(q \<mapsto> a))"
    and "map_of (mg_queue_msgs g) q = None \<Longrightarrow>
      store_rel ser ok N base_dir S (g\<lparr>mg_queue_msgs := um_insert q qm (mg_queue_msgs g)\<rparr>) s' (A(q \<mapsto> a))"
proof -
  have e: "queue_entry ser ok N base_dir q (Some qm) s' (Some a) b" for b using srv q by (simp add: queue_entry_def)
  have wf: "um_wf (mg_queue_msgs g)" using rel by (simp add: store_rel_def)
  show "store_rel ser ok N base_dir S (g\<lparr>mg_queue_msgs := um_put q qm (mg_queue_msgs g)\<rparr>) s' (A(q \<mapsto> a))"
    by (rule store_rel_update [OF rel t e um_wf_put [OF wf]]) (simp_all add: um_find_put)
  assume "map_of (mg_queue_msgs g) q = None"
  then show "store_rel ser ok N base_dir S (g\<lparr>mg_queue_msgs := um_insert q qm (mg_queue_msgs g)\<rparr>) s' (A(q \<mapsto> a))"
    by (intro store_rel_update [OF rel t e um_wf_insert [OF wf]]) (simp_all add: um_find_insert)
qed

context payload_codec
begin

lemma asleep_restart:
  assumes d: "asleep ser ok N base_dir q s b" and "slash_free q"
  obtains qm s' where "restart ser par base_dir q s = Inr (qm, s')"
    and "serves ser ok N base_dir q (qm, s') b"
  using d unfolding asleep_def
proof (elim disjE exE conjE)
  assume "fresh_home base_dir q s" and b: "b = spec_empty"
  then obtain qm s' where "restart ser par base_dir q s = Inr (qm, s')"
    "represents ser ok qm s' spec_empty" "at_home base_dir q qm s'"
    using start_fresh by blast
  then show ?thesis using b by (intro that) (simp_all add: serves_pair spec_empty_def)
next
  fix qm a
  assume srv: "serves ser ok N base_dir q (qm, s) a" and b: "b = spec_restart a"
  obtain qm' s' where qm': "restart ser par base_dir q s = Inr (qm', s')"
    "represents ser ok qm' s' (spec_restart a)" "at_home base_dir q qm' s'"
    by (rule represents_restart [of qm s a base_dir q]) (use srv in \<open>simp_all add: serves_pair\<close>)
  have "length (sq_stored (spec_restart a)) \<le> N" using srv by (simp add: serves_pair spec_restart_def)
  then show ?thesis using qm' by (intro that) (simp_all add: serves_pair b)
qed

lemma restart_touches:
  assumes "restart ser par base_dir q s = Inr (qm, s')" and "clear_of_dirs base_dir s"
  shows "touches_only (files_of base_dir q) s s'"
proof -
  obtain q0 s1 where q0: "qm_new base_dir q s = Inr (q0, s1)" "qm_recovery ser par q0 s1 = Inr (qm, s')"
    using assms(1) by (auto simp: restart_def rbind_Inr_conv)
  have "file_exists s (with_slash base_dir)" and base: "base_dir \<noteq> []"
    using assms(2) by (auto simp: clear_of_dirs_def file_exists_def with_slash_def)
  then have "qm_mapper q0 = mapper_paths base_dir q \<and> s1 = snd (create_msg_file (mapper_paths base_dir q) s)"
    using q0(1) by (auto simp: qm_new_def mapper_new_def Let_def rbind_Inr_conv)
  moreover have "touches_only (files_of base_dir q) s (snd (create_msg_file (mapper_paths base_dir q) s))"
    by (auto simp: create_msg_file_def own_files_def intro: touches)
  ultimately show ?thesis
    using touches_trans [OF _ touches_qm_recovery [OF q0(2)]] by auto
qed

lemma init_rel:
  assumes rel: "store_rel ser ok N base_dir S g s A" and q: "slash_free q"
  obtains g' s' where "init_queue_msg ser par q g s = Inr (g', s')"
    and "store_rel ser ok N base_dir S g' s' (spec_init S q A)" and "touches_only (files_of base_dir q) s s'"
proof (cases "A q")
  case None
  have e: "map_of (mg_queue_msgs g) q = None" using store_unknown [OF rel] None by simp
  have dirs: "clear_of_dirs base_dir s" and base: "mg_base_dir g = base_dir" using rel by (simp_all add: store_rel_def)
  have "asleep ser ok N base_dir q s (S q)"
    using store_entry [OF rel, of q] q by (simp add: queue_entry_def e None)
  then obtain qm s' where r: "restart ser par base_dir q s = Inr (qm, s')"
    and srv: "serves ser ok N base_dir q (qm, s') (S q)"
    by (rule asleep_restart [OF _ q])
  note t = restart_touches [OF r dirs]
  have "init_queue_msg ser par q g s = Inr (g\<lparr>mg_queue_msgs := um_insert q qm (mg_queue_msgs g)\<rparr>, s')"
    using r by (auto simp: init_queue_msg_def e base restart_def rbind_Inr_conv)
  then show ?thesis
    using put_rel(2) [OF rel q t srv e] t None by (intro that) (simp_all add: spec_init_def)
next
  case (Some a)
  then obtain qm where "map_of (mg_queue_msgs g) q = Some qm" using store_known [OF rel] by blast
  then show ?thesis
    using rel Some by (intro that [of g s]) (simp_all add: init_queue_msg_def spec_init_def touches)
qed

lemma insert_rel:
  assumes rel: "store_rel ser ok N base_dir S g s A" and a: "A q = Some a"
    and c: "cmd_ok ok N (Put uuid bp body qd) a"
    and M: "\<And>p. ok p \<Longrightarrow> length (frame ser p) \<le> M" and NM: "(2000 + 2 * N) * M < 2 ^ 32"
  obtains g' s' where "mg_insert ser uuid q bp body qd g s = (True, g', s')"
    and "store_rel ser ok N base_dir S g' s' (A(q \<mapsto> spec_put (put_payload uuid bp body qd) a))"
    and "touches_only (files_of base_dir q) s s'"
proof -
  obtain qm where qm: "map_of (mg_queue_msgs g) q = Some qm" "slash_free q" "serves ser ok N base_dir q (qm, s) a"
    by (rule store_known [OF rel a])
  obtain b qm' s' where i: "qm_insert ser uuid bp body qd qm s = (b, qm', s')"
    by (cases "qm_insert ser uuid bp body qd qm s")
  have b: b and srv: "serves ser ok N base_dir q (qm', s') (spec_put (put_payload uuid bp body qd) a)"
    using step_refines [OF qm(3) c M NM] by (auto simp: i)
  have t: "touches_only (files_of base_dir q) s s'"
    using touches_qm_insert [OF i] qm(3) by (simp add: serves_pair at_home_def)
  show ?thesis
    by (rule that [OF _ put_rel(1) [OF rel qm(2) t srv] t]) (simp add: mg_insert_def qm(1) i b)
qed

lemma front_rel:
  assumes rel: "store_rel ser ok N base_dir S g s A" and a: "A q = Some a"
    and M: "\<And>p. ok p \<Longrightarrow> length (frame ser p) \<le> M" and NM: "(2000 + 2 * N) * M < 2 ^ 32"
  obtains m g' where "mg_front q g = (m, g')" and "map_option msg_payload m = fst (spec_take a)"
    and "store_rel ser ok N base_dir S g' s (A(q \<mapsto> snd (spec_take a)))"
proof -
  obtain qm where qm: "map_of (mg_queue_msgs g) q = Some qm" "slash_free q" "serves ser ok N base_dir q (qm, s) a"
    by (rule store_known [OF rel a])
  obtain m qm' where f: "qm_front qm = (m, qm')" by (cases "qm_front qm")
  have out: "map_option msg_payload m = fst (spec_take a)"
    and srv: "serves ser ok N base_dir q (qm', s) (snd (spec_take a))"
    using step_refines [OF qm(3), of Take, OF _ M NM] by (auto simp: f split_beta)
  show ?thesis
    by (rule that [OF _ out put_rel(1) [OF rel qm(2) touches_refl srv]]) (simp add: mg_front_def qm(1) f)
qed

lemma ack_rel:
  assumes rel: "store_rel ser ok N base_dir S g s A" and a: "A q = Some a"
    and M: "\<And>p. ok p \<Longrightarrow> length (frame ser p) \<le> M" and NM: "(2000 + 2 * N) * M < 2 ^ 32"
  obtains g' s' where "mg_ack ser par q i g s = Inr (g', s')"
    and "store_rel ser ok N base_dir S g' s' (A(q \<mapsto> spec_ack i a))" and "touches_only (files_of base_dir q) s s'"
proof -
  obtain qm where qm: "map_of (mg_queue_msgs g) q = Some qm" "slash_free q" "serves ser ok N base_dir q (qm, s) a"
    by (rule store_known [OF rel a])
  obtain qm' s' where r: "qm_remove ser par i qm s = Inr (qm', s')"
    and srv: "serves ser ok N base_dir q (qm', s') (spec_ack i a)"
    using step_refines [OF qm(3), of "Ack i", OF _ M NM] by (auto simp: rbind_Inr_conv) blast
  have t: "touches_only (files_of base_dir q) s s'"
    using touches_qm_remove [OF r] qm(3) by (simp add: serves_pair at_home_def)
  show ?thesis
    by (rule that [OF _ put_rel(1) [OF rel qm(2) t srv] t]) (simp add: mg_ack_def qm(1) r)
qed

text \<open>Opening the queues of a list, one after the other.\<close>

lemma init_all_rel:
  assumes "store_rel ser ok N base_dir S g s A" and "\<forall>q \<in> set qs. slash_free q"
  obtains g' s' where "foldl (\<lambda>r q. rbind r (\<lambda>(g, s). init_queue_msg ser par q g s)) (Inr (g, s)) qs = Inr (g', s')"
    and "store_rel ser ok N base_dir S g' s' (fold (spec_init S) qs A)" and "fs_dirs s' = fs_dirs s"
  using assms
proof (induction qs arbitrary: g s A thesis)
  case (Cons q qs)
  obtain g1 s1 where 1: "init_queue_msg ser par q g s = Inr (g1, s1)"
    "store_rel ser ok N base_dir S g1 s1 (spec_init S q A)" "touches_only (files_of base_dir q) s s1"
    using init_rel [OF Cons.prems(2), of q] Cons.prems(3) by auto
  obtain g' s' where 2: "foldl (\<lambda>r q. rbind r (\<lambda>(g, s). init_queue_msg ser par q g s)) (Inr (g1, s1)) qs = Inr (g', s')"
    "store_rel ser ok N base_dir S g' s' (fold (spec_init S) qs (spec_init S q A))" "fs_dirs s' = fs_dirs s1"
    using Cons.IH [OF _ 1(2)] Cons.prems(3) by auto
  show ?case
    by (rule Cons.prems(1) [of g' s']) (use 1 2 in \<open>simp_all add: touches_only_def\<close>)
qed auto

end

text \<open>A new manager on the files the old one left.\<close>

lemma store_crash:
  assumes rel: "store_rel ser ok N base_dir (\<lambda>q. spec_empty) g s A"
  shows "store_rel ser ok N base_dir (\<lambda>q. case A q of None \<Rightarrow> spec_empty | Some a \<Rightarrow> spec_restart a)
    (message_manager_new base_dir) s (\<lambda>q. None)"
proof -
  have "queue_entry ser ok N base_dir q None s None (case A q of None \<Rightarrow> spec_empty | Some a \<Rightarrow> spec_restart a)" for q
    using store_entry [OF rel, of q] by (auto simp: queue_entry_def asleep_def split: option.splits)
  then show ?thesis using rel by (simp add: store_rel_def message_manager_new_def)
qed

lemma fold_spec_init:
  "fold (spec_init S) qs A q = (case A q of Some a \<Rightarrow> Some a | None \<Rightarrow> if q \<in> set qs then Some (S q) else None)"
  by (induction qs arbitrary: A) (auto simp: spec_init_def split: option.splits)

lemma store_rel_closed:
  assumes rel: "store_rel ser ok N base_dir S g s A" and "\<And>q. A q = None \<Longrightarrow> S q = S' q"
  shows "store_rel ser ok N base_dir S' g s A"
proof -
  have "queue_entry ser ok N base_dir q (map_of (mg_queue_msgs g) q) s (A q) (S' q)" for q
    using store_entry [OF rel, of q] assms(2) [of q] by (auto simp: queue_entry_def split: option.splits)
  then show ?thesis using rel by (simp add: store_rel_def)
qed

section \<open>Histories\<close>

datatype store_cmd =
  OpenQueue string
| DestroyQueue string
| PutMsg string string "BasicProperties option" string bool \<comment> \<open>queue, fresh uuid, properties, body, durable queue\<close>
| TakeMsg string
| AckMsg string string

datatype store_out = Done | Stored bool | Taken "payload option"

fun store_step ::
  "(payload \<Rightarrow> bytes) \<Rightarrow> (bytes \<Rightarrow> payload) \<Rightarrow> store_cmd \<Rightarrow> message_manager \<times> fs \<Rightarrow>
     (store_out \<times> message_manager \<times> fs) result" where
  "store_step ser par (OpenQueue q) (g, s) = rbind (init_queue_msg ser par q g s) (\<lambda>x. Inr (Done, x))"
| "store_step ser par (DestroyQueue q) (g, s) = Inr (Done, destroy_queue_msg q g s)"
| "store_step ser par (PutMsg q uuid bp body qd) (g, s) =
     (case mg_insert ser uuid q bp body qd g s of (b, x) \<Rightarrow> Inr (Stored b, x))"
| "store_step ser par (TakeMsg q) (g, s) =
     (case mg_front q g of (m, g') \<Rightarrow> Inr (Taken (map_option msg_payload m), g', s))"
| "store_step ser par (AckMsg q i) (g, s) = rbind (mg_ack ser par q i g s) (\<lambda>x. Inr (Done, x))"

fun store_spec :: "store_cmd \<Rightarrow> spec_store \<Rightarrow> store_out \<times> spec_store" where
  "store_spec (OpenQueue q) A = (Done, spec_init (\<lambda>q. spec_empty) q A)"
| "store_spec (DestroyQueue q) A = (Done, A(q := None))"
| "store_spec (PutMsg q uuid bp body qd) A =
     (case A q of
        None \<Rightarrow> (Stored False, A)
      | Some a \<Rightarrow> (Stored True, A(q \<mapsto> spec_put (put_payload uuid bp body qd) a)))"
| "store_spec (TakeMsg q) A =
     (case A q of
        None \<Rightarrow> (Taken None, A)
      | Some a \<Rightarrow> (Taken (fst (spec_take a)), A(q \<mapsto> snd (spec_take a))))"
| "store_spec (AckMsg q i) A =
     (Done, case A q of None \<Rightarrow> A | Some a \<Rightarrow> A(q \<mapsto> spec_ack i a))"

fun store_cmd_ok :: "(payload \<Rightarrow> bool) \<Rightarrow> nat \<Rightarrow> store_cmd \<Rightarrow> spec_store \<Rightarrow> bool" where
  "store_cmd_ok ok N (OpenQueue q) A \<longleftrightarrow> slash_free q"
| "store_cmd_ok ok N (PutMsg q uuid bp body qd) A \<longleftrightarrow>
     (case A q of None \<Rightarrow> True | Some a \<Rightarrow> cmd_ok ok N (Put uuid bp body qd) a)"
| "store_cmd_ok ok N c A \<longleftrightarrow> True"

context payload_codec
begin

lemma store_step_refines:
  assumes rel: "store_rel ser ok N base_dir (\<lambda>q. spec_empty) g s A" and c: "store_cmd_ok ok N c A"
    and M: "\<And>p. ok p \<Longrightarrow> length (frame ser p) \<le> M" and NM: "(2000 + 2 * N) * M < 2 ^ 32"
  shows "\<exists>g' s'. store_step ser par c (g, s) = Inr (fst (store_spec c A), g', s') \<and>
    store_rel ser ok N base_dir (\<lambda>q. spec_empty) g' s' (snd (store_spec c A))"
proof (cases c)
  case (OpenQueue q)
  then have sf: "slash_free q" using c by simp
  obtain g' s' where "init_queue_msg ser par q g s = Inr (g', s')"
    "store_rel ser ok N base_dir (\<lambda>q. spec_empty) g' s' (spec_init (\<lambda>q. spec_empty) q A)"
    by (rule init_rel [OF rel sf])
  then show ?thesis by (simp add: OpenQueue)
next
  case (DestroyQueue q)
  with destroy_rel [OF rel refl, of q] show ?thesis
    by (cases "destroy_queue_msg q g s") simp
next
  case (PutMsg q uuid bp body qd)
  show ?thesis
  proof (cases "A q")
    case None
    then show ?thesis using rel store_unknown [OF rel, of q] by (simp add: PutMsg mg_insert_def)
  next
    case (Some a)
    then have "cmd_ok ok N (Put uuid bp body qd) a" using c by (simp add: PutMsg)
    then obtain g' s' where "mg_insert ser uuid q bp body qd g s = (True, g', s')"
      "store_rel ser ok N base_dir (\<lambda>q. spec_empty) g' s' (A(q \<mapsto> spec_put (put_payload uuid bp body qd) a))"
      by (rule insert_rel [OF rel Some _ M NM])
    then show ?thesis by (simp add: PutMsg Some)
  qed
next
  case (TakeMsg q)
  show ?thesis
  proof (cases "A q")
    case None
    then show ?thesis using rel store_unknown [OF rel, of q] by (simp add: TakeMsg mg_front_def)
  next
    case (Some a)
    obtain m g' where "mg_front q g = (m, g')" "map_option msg_payload m = fst (spec_take a)"
      "store_rel ser ok N base_dir (\<lambda>q. spec_empty) g' s (A(q \<mapsto> snd (spec_take a)))"
      by (rule front_rel [OF rel Some M NM])
    then show ?thesis by (simp add: TakeMsg Some)
  qed
next
  case (AckMsg q i)
  show ?thesis
  proof (cases "A q")
    case None
    then show ?thesis using rel store_unknown [OF rel, of q] by (simp add: AckMsg mg_ack_def)
  next
    case (Some a)
    obtain g' s' where "mg_ack ser par q i g s = Inr (g', s')"
      "store_rel ser ok N base_dir (\<lambda>q. spec_empty) g' s' (A(q \<mapsto> spec_ack i a))"
      by (rule ack_rel [OF rel Some M NM])
    then show ?thesis by (simp add: AckMsg Some)
  qed
qed

end

definition store_serves ::
  "pb_runtime \<Rightarrow> nat \<Rightarrow> nat \<Rightarrow> string \<Rightarrow> message_manager \<times> fs \<Rightarrow> spec_store \<Rightarrow> bool" where
  "store_serves rt M N base_dir x A \<longleftrightarrow> (2000 + 2 * N) * M < 2 ^ 32 \<and>
     (case x of (g, s) \<Rightarrow> store_rel (SerializeAsString rt) (fits rt M) N base_dir (\<lambda>q. spec_empty) g s A)"

interpretation store: simulation "store_step (SerializeAsString rt) (par_payload rt)" store_spec
  "store_cmd_ok (fits rt M) N" "store_serves rt M N base_dir" for rt M N base_dir
proof unfold_locales
  fix x A c
  assume "store_serves rt M N base_dir x A" and c: "store_cmd_ok (fits rt M) N c A"
  then obtain g s where x: "x = (g, s)" and NM: "(2000 + 2 * N) * M < 2 ^ 32"
    and rel: "store_rel (SerializeAsString rt) (fits rt M) N base_dir (\<lambda>q. spec_empty) g s A"
    by (auto simp: store_serves_def)
  show "\<exists>x'. store_step (SerializeAsString rt) (par_payload rt) c x = Inr (fst (store_spec c A), x') \<and>
      store_serves rt M N base_dir x' (snd (store_spec c A))"
    using sized.store_step_refines [OF rel c _ NM] NM by (auto simp: x store_serves_def fits_def)
qed

text \<open>A data directory without message files.\<close>

definition empty_data_dir :: "string \<Rightarrow> fs \<Rightarrow> bool" where
  "empty_data_dir base_dir s \<longleftrightarrow> clear_of_dirs base_dir s \<and>
     (\<forall>qname. slash_free qname \<longrightarrow> (\<forall>f \<in> files_of base_dir qname. fs_files s f = None))"

lemma store_start:
  assumes "empty_data_dir base_dir s"
  shows "store_rel ser ok N base_dir (\<lambda>q. spec_empty) (message_manager_new base_dir) s (\<lambda>q. None)"
  using assms by (auto simp: store_rel_def empty_data_dir_def message_manager_new_def queue_entry_def asleep_def
      fresh_home_def clear_of_dirs_def slash_free_def)

section \<open>Properties\<close>

text \<open>
  C21: The queues are isolated.  Any sequence of openings, destructions, inserts, fronts and
  acknowledgements of any queues behaves as independent queues that each follow their own
  specification: no call aborts, throws or disturbs another queue's memory or file, unknown queues
  refuse messages and have none, and destroying a queue leaves no file behind that would bring its
  messages back when it is opened again.
\<close>

theorem queues_are_isolated:
  assumes "empty_data_dir base_dir s" and "run_ok store_spec (store_cmd_ok (fits rt M) N) cs (\<lambda>q. None)"
    and "(2000 + 2 * N) * M < 2 ^ 32"
  shows "\<exists>x. run_cmds (store_step (SerializeAsString rt) (par_payload rt)) cs (message_manager_new base_dir, s) =
      Inr (fst (run_spec store_spec cs (\<lambda>q. None)), x) \<and>
    store_serves rt M N base_dir x (snd (run_spec store_spec cs (\<lambda>q. None)))"
  using store.run_sim [OF _ assms(2)] store_start [OF assms(1)] assms(3) by (simp add: store_serves_def)

definition sample_store_cmds :: "store_cmd list" where
  "sample_store_cmds = [OpenQueue ''a'', OpenQueue ''b'', PutMsg ''a'' ''u'' None ''hi'' True,
     PutMsg ''b'' ''u'' None ''yo'' False, TakeMsg ''b'', AckMsg ''b'' ''u'', DestroyQueue ''b'', TakeMsg ''b'']"

lemma sample_data_dir: "empty_data_dir ''./data'' \<lparr>fs_files = \<lambda>_. None, fs_dirs = [''./data'']\<rparr>"
  by (simp add: empty_data_dir_def clear_of_dirs_def own_files_def with_slash_def dir_exists_def strip_slashes_def
      mapper_paths_def)

lemma sample_store_ok: "run_ok store_spec (store_cmd_ok (fits wire_rt 100) 1) sample_store_cmds (\<lambda>q. None)"
proof -
  note fits = sample_put_fits [unfolded spec_eval, simplified]
  show ?thesis by (simp add: sample_store_cmds_def slash_free_def spec_init_def spec_eval fits)
qed

theorem queues_are_isolated_witness:
  "\<exists>x. run_cmds (store_step (SerializeAsString wire_rt) (par_payload wire_rt)) sample_store_cmds
        (message_manager_new ''./data'', \<lparr>fs_files = \<lambda>_. None, fs_dirs = [''./data'']\<rparr>) =
      Inr (fst (run_spec store_spec sample_store_cmds (\<lambda>q. None)), x) \<and>
    store_serves wire_rt 100 1 ''./data'' x (snd (run_spec store_spec sample_store_cmds (\<lambda>q. None)))"
  by (rule queues_are_isolated [OF sample_data_dir sample_store_ok]) simp

end
