(* ===== verification/Virtual_Host.thy ===== *)
theory Virtual_Host
  imports Exchange Msg_Queue Binding Message_Manager
begin

text \<open>
  \<open>HareMQ/mqserver/virtual_host.hpp\<close>: exchanges, queues, bindings and messages together.  The three
  mappers open the same database file, so they share one database.
\<close>

section \<open>The host\<close>

text \<open>The libraries the server is linked with.\<close>

record 'db libs =
  lb_sqlite :: "'db sqlite"
  lb_split :: splitter
  lb_protobuf :: pb_runtime

record virtual_host =
  vh_host_name :: string
  vh_exchanges :: exchanges
  vh_queues :: queue_map
  vh_bindings :: binding_map
  vh_messages :: message_manager

type_synonym 'db hosted = "virtual_host \<times> fs \<times> 'db"

abbreviation ser_of :: "'db libs \<Rightarrow> payload \<Rightarrow> bytes" where
  "ser_of L \<equiv> SerializeAsString (lb_protobuf L)"

abbreviation par_of :: "'db libs \<Rightarrow> bytes \<Rightarrow> payload" where
  "par_of L \<equiv> par_payload (lb_protobuf L)"

definition recover_queues ::
  "'db libs \<Rightarrow> string list \<Rightarrow> message_manager \<times> fs \<Rightarrow> (message_manager \<times> fs) result" where
  "recover_queues L qs x =
     foldl (\<lambda>r q. rbind r (\<lambda>(g, s). init_queue_msg (ser_of L) (par_of L) q g s)) (Inr x) qs"

definition virtual_host_new ::
  "'db libs \<Rightarrow> string \<Rightarrow> string \<Rightarrow> string \<Rightarrow> fs \<Rightarrow> 'db \<Rightarrow> 'db hosted result" where
  "virtual_host_new L host_name basedir dbfile s db =
     rbind (exchange_manager_new (lb_sqlite L) (lb_split L) dbfile s db) (\<lambda>(em, s1, db1).
     rbind (msg_queue_manager_new (lb_sqlite L) (lb_split L) dbfile s1 db1) (\<lambda>(qm, s2, db2).
     rbind (binding_manager_new (lb_sqlite L) dbfile s2 db2) (\<lambda>(bm, s3, db3).
     rbind (recover_queues L (map fst (all_queues qm)) (message_manager_new basedir, s3)) (\<lambda>(mm, s4).
       Inr (\<lparr>vh_host_name = host_name, vh_exchanges = em, vh_queues = qm, vh_bindings = bm,
             vh_messages = mm\<rparr>, s4, db3)))))"

definition vh_declare_exchange ::
  "'db libs \<Rightarrow> string \<Rightarrow> ExchangeType \<Rightarrow> bool \<Rightarrow> bool \<Rightarrow> arg_map \<Rightarrow> 'db hosted \<Rightarrow> (bool \<times> 'db hosted) result" where
  "vh_declare_exchange L name type durable auto_delete args x =
     (case x of (v, s, db) \<Rightarrow>
        rbind (declare_exchange (lb_sqlite L) name type durable auto_delete args (vh_exchanges v) db)
          (\<lambda>(b, m, db'). Inr (b, v\<lparr>vh_exchanges := m\<rparr>, s, db')))"

definition vh_delete_exchange :: "'db libs \<Rightarrow> string \<Rightarrow> 'db hosted \<Rightarrow> 'db hosted result" where
  "vh_delete_exchange L name x =
     (case x of (v, s, db) \<Rightarrow>
        rbind (unbind_exchange (lb_sqlite L) name (vh_bindings v) db) (\<lambda>(bm, db1).
        rbind (delete_exchange (lb_sqlite L) name (vh_exchanges v) db1) (\<lambda>(em, db2).
          Inr (v\<lparr>vh_bindings := bm, vh_exchanges := em\<rparr>, s, db2))))"

definition vh_declare_queue ::
  "'db libs \<Rightarrow> string \<Rightarrow> bool \<Rightarrow> bool \<Rightarrow> bool \<Rightarrow> arg_map \<Rightarrow> 'db hosted \<Rightarrow> (bool \<times> 'db hosted) result" where
  "vh_declare_queue L qname qdurable qexclusive qauto_delete qargs x =
     (case x of (v, s, db) \<Rightarrow>
        rbind (init_queue_msg (ser_of L) (par_of L) qname (vh_messages v) s) (\<lambda>(mm, s').
        rbind (declare_queue (lb_sqlite L) qname qdurable qexclusive qauto_delete qargs (vh_queues v) db)
          (\<lambda>(b, qm, db'). Inr (b, v\<lparr>vh_messages := mm, vh_queues := qm\<rparr>, s', db'))))"

definition vh_delete_queue :: "'db libs \<Rightarrow> string \<Rightarrow> 'db hosted \<Rightarrow> 'db hosted result" where
  "vh_delete_queue L name x =
     (case x of (v, s, db) \<Rightarrow>
        case destroy_queue_msg name (vh_messages v) s of (mm, s') \<Rightarrow>
        rbind (unbind_queue (lb_sqlite L) name (vh_bindings v) db) (\<lambda>(bm, db1).
        rbind (delete_queue (lb_sqlite L) name (vh_queues v) db1) (\<lambda>(qm, db2).
          Inr (v\<lparr>vh_messages := mm, vh_bindings := bm, vh_queues := qm\<rparr>, s', db2))))"

definition vh_bind :: "'db libs \<Rightarrow> string \<Rightarrow> string \<Rightarrow> string \<Rightarrow> 'db hosted \<Rightarrow> (bool \<times> 'db hosted) result" where
  "vh_bind L ename qname key x =
     (case x of (v, s, db) \<Rightarrow>
        case select_exchange ename (vh_exchanges v) of
          None \<Rightarrow> Inr (False, v, s, db)
        | Some ep \<Rightarrow>
            (case select_queue qname (vh_queues v) of
               None \<Rightarrow> Inr (False, v, s, db)
             | Some mqp \<Rightarrow>
                 rbind (bind_queue (lb_sqlite L) ename qname key (ex_durable ep \<and> mq_durable mqp) (vh_bindings v) db)
                   (\<lambda>(b, bm, db'). Inr (b, v\<lparr>vh_bindings := bm\<rparr>, s, db'))))"

definition vh_unbind :: "'db libs \<Rightarrow> string \<Rightarrow> string \<Rightarrow> 'db hosted \<Rightarrow> 'db hosted result" where
  "vh_unbind L ename qname x =
     (case x of (v, s, db) \<Rightarrow>
        rbind (unbind (lb_sqlite L) ename qname (vh_bindings v) db)
          (\<lambda>(bm, db'). Inr (v\<lparr>vh_bindings := bm\<rparr>, s, db')))"

definition vh_exchange_bindings :: "string \<Rightarrow> virtual_host \<Rightarrow> msg_queue_binding_map" where
  "vh_exchange_bindings ename v = get_exchange_bindings (vh_bindings v) ename"

definition vh_all_queues :: "virtual_host \<Rightarrow> queue_map" where
  "vh_all_queues v = all_queues (vh_queues v)"

definition vh_basic_publish ::
  "'db libs \<Rightarrow> string \<Rightarrow> string \<Rightarrow> BasicProperties option \<Rightarrow> string \<Rightarrow> 'db hosted \<Rightarrow> bool \<times> 'db hosted" where
  "vh_basic_publish L uuid qname bp body x =
     (case x of (v, s, db) \<Rightarrow>
        case select_queue qname (vh_queues v) of
          None \<Rightarrow> (False, v, s, db)
        | Some mqp \<Rightarrow>
            (case mg_insert (ser_of L) uuid qname bp body (mq_durable mqp) (vh_messages v) s of
               (b, mm, s') \<Rightarrow> (b, v\<lparr>vh_messages := mm\<rparr>, s', db)))"

definition vh_basic_consume :: "string \<Rightarrow> 'db hosted \<Rightarrow> message option \<times> 'db hosted" where
  "vh_basic_consume qname x =
     (case x of (v, s, db) \<Rightarrow>
        case mg_front qname (vh_messages v) of (m, mm) \<Rightarrow> (m, v\<lparr>vh_messages := mm\<rparr>, s, db))"

definition vh_basic_ack :: "'db libs \<Rightarrow> string \<Rightarrow> string \<Rightarrow> 'db hosted \<Rightarrow> 'db hosted result" where
  "vh_basic_ack L qname msgid x =
     (case x of (v, s, db) \<Rightarrow>
        rbind (mg_ack (ser_of L) (par_of L) qname msgid (vh_messages v) s)
          (\<lambda>(mm, s'). Inr (v\<lparr>vh_messages := mm\<rparr>, s', db)))"

subsection \<open>The query\<close>

definition yellow_bold :: string where
  "yellow_bold = CHR 0x1B # ''[1;33m''"

definition reset :: string where
  "reset = CHR 0x1B # ''[0m''"

text \<open>The loop over the exchanges; the assertion aborts.\<close>

fun query_bindings :: "exchanges \<Rightarrow> virtual_host \<Rightarrow> binding list result" where
  "query_bindings [] v = Inr []"
| "query_bindings ((ename, e) # es) v =
     (if \<forall>(q, b) \<in> set (vh_exchange_bindings ename v). bd_exchange_name b = ename
      then rbind (query_bindings es v) (\<lambda>bs. Inr (map snd (vh_exchange_bindings ename v) @ bs))
      else Inl Aborts)"

definition name_list :: "string list \<Rightarrow> string" where
  "name_list names = concat (map (\<lambda>n. n @ '', '') names)"

definition binding_line :: "binding \<Rightarrow> string" where
  "binding_line b =
     ''    '' @ bd_exchange_name b @ ''<-->'' @ bd_msg_queue_name b @ '', binding_key: '' @ bd_binding_key b @
     [CHR 0x0A]"

definition vh_basic_query :: "virtual_host \<Rightarrow> string result" where
  "vh_basic_query v =
     rbind (query_bindings (select_all_exchanges (vh_exchanges v)) v) (\<lambda>all_bindings.
       Inr (yellow_bold @ ''------------------------ Query ------------------------'' @ [CHR 0x0A] @ reset @
         yellow_bold @ ''exists exchanges: '' @ reset @ [CHR 0x0A] @
         ''    '' @ name_list (map fst (select_all_exchanges (vh_exchanges v))) @ [CHR 0x0A] @
         yellow_bold @ ''exists queues: '' @ [CHR 0x0A] @ reset @
         ''    '' @ name_list (map fst (vh_all_queues v)) @ [CHR 0x0A] @
         yellow_bold @ ''exists bindings: '' @ [CHR 0x0A] @ reset @
         concat (map binding_line all_bindings) @
         yellow_bold @ ''-------------------------------------------------------'' @ reset))"

definition vh_clear :: "'db libs \<Rightarrow> 'db hosted \<Rightarrow> 'db hosted result" where
  "vh_clear L x =
     (case x of (v, s, db) \<Rightarrow>
        rbind (clear_exchange (lb_sqlite L) (vh_exchanges v) db) (\<lambda>(em, db1).
        rbind (clear_queues (lb_sqlite L) (vh_queues v) db1) (\<lambda>(qm, db2).
        rbind (clear_bindings (lb_sqlite L) (vh_bindings v) db2) (\<lambda>(bm, db3).
        case mg_clear (vh_messages v) s of (mm, s') \<Rightarrow>
          Inr (v\<lparr>vh_exchanges := em, vh_queues := qm, vh_bindings := bm, vh_messages := mm\<rparr>, s', db3)))))"

definition vh_exists_exchange :: "string \<Rightarrow> virtual_host \<Rightarrow> bool" where
  "vh_exists_exchange ename v = exchange_exists ename (vh_exchanges v)"

definition vh_exists_queue :: "string \<Rightarrow> virtual_host \<Rightarrow> bool" where
  "vh_exists_queue qname v = queue_exists qname (vh_queues v)"

definition vh_exists_binding :: "string \<Rightarrow> string \<Rightarrow> virtual_host \<Rightarrow> bool" where
  "vh_exists_binding ename qname v = binding_exists (vh_bindings v) ename qname"

definition vh_select_exchange :: "string \<Rightarrow> virtual_host \<Rightarrow> exchange option" where
  "vh_select_exchange ename v = select_exchange ename (vh_exchanges v)"

end
