(* ===== verification/Host_Refinement.thy ===== *)
theory Host_Refinement
  imports Virtual_Host
begin

text \<open>
  What a virtual host promises, and the proof that the host keeps it over any sequence of calls and
  restarts: exchanges, queues, bindings and messages stay consistent in memory, in the tables of the
  database and in the message files.
\<close>

section \<open>Specification\<close>

record spec_host =
  sh_exchanges :: "exchange declared"
  sh_queues :: "msg_queue declared"
  sh_bindings :: spec_bindings
  sh_messages :: spec_store

datatype host_cmd =
  HDeclareExchange string ExchangeType bool bool arg_map
| HDeleteExchange string
| HDeclareQueue string bool bool bool arg_map
| HDeleteQueue string
| HBind string string string
| HUnbind string string
| HPublish string string "BasicProperties option" string \<comment> \<open>queue, fresh uuid, properties, body\<close>
| HConsume string
| HAck string string
| HRestart

datatype host_out = Answer bool | Message "payload option"

definition declared_flag :: "('v \<Rightarrow> bool) \<Rightarrow> ('v \<times> bool) option \<Rightarrow> bool" where
  "declared_flag f x = (case x of None \<Rightarrow> False | Some (v, b) \<Rightarrow> f v)"

fun host_spec :: "host_cmd \<Rightarrow> spec_host \<Rightarrow> host_out \<times> spec_host" where
  "host_spec (HDeclareExchange name t d a args) H =
     (Answer True, H\<lparr>sh_exchanges := spec_declare ex_name
        \<lparr>ex_name = name, ex_type = t, ex_durable = d, ex_auto_delete = a, ex_args = args\<rparr> (sh_exchanges H)\<rparr>)"
| "host_spec (HDeleteExchange name) H =
     (Answer True, H\<lparr>sh_exchanges := (sh_exchanges H)(name := None),
        sh_bindings := spec_unbind (\<lambda>e q. e = name) (sh_bindings H)\<rparr>)"
| "host_spec (HDeclareQueue name d x a args) H =
     (Answer True, H\<lparr>sh_queues := spec_declare mq_name
        \<lparr>mq_name = name, mq_durable = d, mq_exclusive = x, mq_auto_delete = a, mq_args = args\<rparr> (sh_queues H),
        sh_messages := spec_init (\<lambda>q. spec_empty) name (sh_messages H)\<rparr>)"
| "host_spec (HDeleteQueue name) H =
     (Answer True, H\<lparr>sh_queues := (sh_queues H)(name := None),
        sh_bindings := spec_unbind (\<lambda>e q. q = name) (sh_bindings H),
        sh_messages := (sh_messages H)(name := None)\<rparr>)"
| "host_spec (HBind e q k) H =
     (if sh_exchanges H e = None \<or> sh_queues H q = None then (Answer False, H)
      else (Answer True, H\<lparr>sh_bindings := spec_bind e q k
        (declared_flag ex_durable (sh_exchanges H e) \<and> declared_flag mq_durable (sh_queues H q)) (sh_bindings H)\<rparr>))"
| "host_spec (HUnbind e q) H =
     (Answer True, H\<lparr>sh_bindings := spec_unbind (\<lambda>e' q'. e' = e \<and> q' = q) (sh_bindings H)\<rparr>)"
| "host_spec (HPublish q uuid bp body) H =
     (case sh_messages H q of
        None \<Rightarrow> (Answer False, H)
      | Some a \<Rightarrow> (Answer True, H\<lparr>sh_messages := (sh_messages H)(q \<mapsto>
          spec_put (put_payload uuid bp body (declared_flag mq_durable (sh_queues H q))) a)\<rparr>))"
| "host_spec (HConsume q) H =
     (case sh_messages H q of
        None \<Rightarrow> (Message None, H)
      | Some a \<Rightarrow> (Message (fst (spec_take a)), H\<lparr>sh_messages := (sh_messages H)(q \<mapsto> snd (spec_take a))\<rparr>))"
| "host_spec (HAck q i) H =
     (Answer True, case sh_messages H q of
        None \<Rightarrow> H
      | Some a \<Rightarrow> H\<lparr>sh_messages := (sh_messages H)(q \<mapsto> spec_ack i a)\<rparr>)"
| "host_spec HRestart H =
     (Answer True, \<lparr>sh_exchanges = spec_reload ex_durable (sh_exchanges H),
        sh_queues = spec_reload mq_durable (sh_queues H), sh_bindings = spec_durable (sh_bindings H),
        sh_messages = (\<lambda>q. if declared_flag mq_durable (sh_queues H q)
          then map_option spec_restart (sh_messages H q) else None)\<rparr>)"

text \<open>What the callers must respect: text the mappers can store, message identifiers that are new.\<close>

fun host_cmd_ok :: "(payload \<Rightarrow> bool) \<Rightarrow> nat \<Rightarrow> host_cmd \<Rightarrow> spec_host \<Rightarrow> bool" where
  "host_cmd_ok ok N (HDeclareExchange name t d a args) H \<longleftrightarrow>
     (d \<longrightarrow> ex_storable \<lparr>ex_name = name, ex_type = t, ex_durable = d, ex_auto_delete = a, ex_args = args\<rparr>)"
| "host_cmd_ok ok N (HDeleteExchange name) H \<longleftrightarrow> short name"
| "host_cmd_ok ok N (HDeclareQueue name d x a args) H \<longleftrightarrow> slash_free name \<and>
     (d \<longrightarrow> mq_storable \<lparr>mq_name = name, mq_durable = d, mq_exclusive = x, mq_auto_delete = a, mq_args = args\<rparr>)"
| "host_cmd_ok ok N (HDeleteQueue name) H \<longleftrightarrow> short name"
| "host_cmd_ok ok N (HBind e q k) H \<longleftrightarrow> short e \<and> short q \<and> short k"
| "host_cmd_ok ok N (HUnbind e q) H \<longleftrightarrow> short e \<and> short q"
| "host_cmd_ok ok N (HPublish q uuid bp body) H \<longleftrightarrow>
     store_cmd_ok ok N (PutMsg q uuid bp body (declared_flag mq_durable (sh_queues H q))) (sh_messages H)"
| "host_cmd_ok ok N c H \<longleftrightarrow> True"

text \<open>
  Bindings join a declared exchange and a declared queue, durable ones two durable ones; every
  declared queue has its messages, and only durable queues store any.
\<close>

definition host_wf :: "spec_host \<Rightarrow> bool" where
  "host_wf H \<longleftrightarrow>
     (\<forall>e q k d. sh_bindings H e q = Some (k, d) \<longrightarrow> sh_exchanges H e \<noteq> None \<and> sh_queues H q \<noteq> None \<and>
        (d \<longrightarrow> declared_flag ex_durable (sh_exchanges H e) \<and> declared_flag mq_durable (sh_queues H q))) \<and>
     (\<forall>q. sh_messages H q = None \<longleftrightarrow> sh_queues H q = None) \<and>
     (\<forall>q a. sh_messages H q = Some a \<longrightarrow> \<not> declared_flag mq_durable (sh_queues H q) \<longrightarrow> sq_stored a = [])"

definition spec_host_empty :: spec_host where
  "spec_host_empty = \<lparr>sh_exchanges = (\<lambda>e. None), sh_queues = (\<lambda>q. None), sh_bindings = (\<lambda>e q. None),
     sh_messages = (\<lambda>q. None)\<rparr>"

lemma put_not_durable: "\<not> d \<Longrightarrow> \<not> pay_durable (put_payload uuid bp body d)"
  by (auto simp: pay_durable_def put_payload_def make_payload_def properties_def split: option.splits)

lemma host_wf_empty: "host_wf spec_host_empty"
  by (simp add: host_wf_def spec_host_empty_def)

lemma declared_flag_simps [simp]:
  "declared_flag f None = False" "declared_flag f (Some (v, b)) = f v"
  by (simp_all add: declared_flag_def)

lemma declared_flag_reload: "declared_flag f (spec_reload f D k) = declared_flag f (D k)"
  by (auto simp: declared_flag_def spec_reload_def split: option.splits)

lemma spec_durable_Some: "spec_durable A e q = Some (k, d) \<longleftrightarrow> d \<and> A e q = Some (k, True)"
  by (auto simp: spec_durable_def split: option.splits bool.splits)

lemma spec_reload_None: "spec_reload f D k = None \<longleftrightarrow> \<not> declared_flag f (D k)"
  by (auto simp: declared_flag_def spec_reload_def split: option.splits)

lemma host_wfD:
  assumes "host_wf H"
  shows "sh_bindings H e q = Some (k, d) \<Longrightarrow> sh_exchanges H e \<noteq> None \<and> sh_queues H q \<noteq> None"
    and "sh_bindings H e q = Some (k, True) \<Longrightarrow>
      declared_flag ex_durable (sh_exchanges H e) \<and> declared_flag mq_durable (sh_queues H q)"
    and "sh_messages H q = None \<longleftrightarrow> sh_queues H q = None"
    and "sh_messages H q = Some a \<Longrightarrow> \<not> declared_flag mq_durable (sh_queues H q) \<Longrightarrow> sq_stored a = []"
  using assms unfolding host_wf_def by metis+

lemma host_wf_restart:
  assumes "host_wf H"
  shows "host_wf (snd (host_spec HRestart H))"
proof -
  have "sh_messages H q = None \<Longrightarrow> \<not> declared_flag mq_durable (sh_queues H q)" for q
    using host_wfD(3) [OF assms] by simp
  then show ?thesis
    using host_wfD(2) [OF assms]
    by (auto simp: host_wf_def spec_durable_Some spec_reload_None declared_flag_reload simp del: not_None_eq split: if_splits)
qed

lemma host_wf_put:
  assumes "host_wf H" and "sh_messages H q = Some b"
    and "\<not> declared_flag mq_durable (sh_queues H q) \<Longrightarrow> sq_stored b = [] \<Longrightarrow> sq_stored a = []"
  shows "host_wf (H\<lparr>sh_messages := (sh_messages H)(q \<mapsto> a)\<rparr>)"
proof -
  have "sh_queues H q \<noteq> None" using host_wfD(3) [OF assms(1), of q] assms(2) by simp
  moreover have "\<not> declared_flag mq_durable (sh_queues H q) \<Longrightarrow> sq_stored a = []"
    using host_wfD(4) [OF assms(1,2)] assms(3) by blast
  ultimately show ?thesis using assms(1) by (simp add: host_wf_def del: not_None_eq)
qed

lemma host_wf_step:
  assumes wf: "host_wf H"
  shows "host_wf (snd (host_spec c H))"
proof (cases c)
  case HRestart
  with host_wf_restart [OF wf] show ?thesis by simp
next
  case (HPublish q uuid bp body)
  show ?thesis
    using wf by (auto simp: HPublish spec_put_def put_not_durable split: option.split intro!: host_wf_put)
next
  case (HConsume q)
  show ?thesis
    using wf by (auto simp: HConsume spec_take_def split: option.split list.split intro!: host_wf_put)
next
  case (HAck q i)
  show ?thesis
    using wf by (auto simp: HAck spec_ack_def split: option.split intro!: host_wf_put)
next
  case (HBind e q k)
  show ?thesis
    using wf by (simp add: HBind host_wf_def spec_bind_def del: not_None_eq)
next
  case (HDeclareExchange name t d a args)
  show ?thesis
    using wf by (auto simp: HDeclareExchange host_wf_def spec_declare_def simp del: not_None_eq)
next
  case (HDeclareQueue name d x a args)
  show ?thesis
    using wf by (auto simp: HDeclareQueue host_wf_def spec_declare_def spec_init_def spec_empty_def simp del: not_None_eq)
qed (use wf in \<open>simp_all add: host_wf_def spec_unbind_def del: not_None_eq\<close>)

section \<open>Sharing the database\<close>

text \<open>Each manager's rows survive what the others do to their own tables.\<close>

lemma ex_inv_rest: "ex_inv sq tabs bsplit T m db D \<Longrightarrow> t \<noteq> ''exchange_table'' \<Longrightarrow> tabs db t = T t"
  by (auto simp: ex_inv_def tracks_def holds_rows_def ex_stored_def table_holds_def)

lemma mq_inv_rest: "mq_inv sq tabs bsplit T m db D \<Longrightarrow> t \<noteq> ''queue_table'' \<Longrightarrow> tabs db t = T t"
  by (auto simp: mq_inv_def tracks_def holds_rows_def mq_stored_def table_holds_def)

lemma bd_inv_rest: "bd_inv sq tabs T m db A \<Longrightarrow> t \<noteq> ''binding_table'' \<Longrightarrow> tabs db t = T t"
  by (simp add: bd_inv_def bd_rows_def)

lemma ex_inv_move:
  assumes "ex_inv sq tabs bsplit T m db D" and "tabs db' ''exchange_table'' = tabs db ''exchange_table''"
  shows "ex_inv sq tabs bsplit (tabs db') m db' D"
proof -
  have "ex_stored sq tabs (tabs db') db' es \<longleftrightarrow> ex_stored sq tabs (tabs db) db es" for es
    using assms(2) by (simp add: ex_stored_def table_holds_def)
  moreover have "ex_stored sq tabs T db es \<Longrightarrow> ex_stored sq tabs (tabs db) db es" for es
    by (simp add: ex_stored_def table_holds_def)
  ultimately show ?thesis
    using assms(1) unfolding ex_inv_def tracks_def holds_rows_def by blast
qed

lemma mq_inv_move:
  assumes "mq_inv sq tabs bsplit T m db D" and "tabs db' ''queue_table'' = tabs db ''queue_table''"
  shows "mq_inv sq tabs bsplit (tabs db') m db' D"
proof -
  have "mq_stored sq tabs (tabs db') db' qs \<longleftrightarrow> mq_stored sq tabs (tabs db) db qs" for qs
    using assms(2) by (simp add: mq_stored_def table_holds_def)
  moreover have "mq_stored sq tabs T db qs \<Longrightarrow> mq_stored sq tabs (tabs db) db qs" for qs
    by (simp add: mq_stored_def table_holds_def)
  ultimately show ?thesis
    using assms(1) unfolding mq_inv_def tracks_def holds_rows_def by blast
qed

lemma bd_inv_move:
  assumes "bd_inv sq tabs T m db A" and "tabs db' ''binding_table'' = tabs db ''binding_table''"
  shows "bd_inv sq tabs (tabs db') m db' A"
  using assms by (simp add: bd_inv_def bd_rows_def)

definition tables_rel :: "'db libs \<Rightarrow> ('db \<Rightarrow> tables) \<Rightarrow> virtual_host \<Rightarrow> 'db \<Rightarrow> spec_host \<Rightarrow> bool" where
  "tables_rel L tabs v db H \<longleftrightarrow>
     ex_inv (lb_sqlite L) tabs (lb_split L) (tabs db) (vh_exchanges v) db (sh_exchanges H) \<and>
     mq_inv (lb_sqlite L) tabs (lb_split L) (tabs db) (vh_queues v) db (sh_queues H) \<and>
     bd_inv (lb_sqlite L) tabs (tabs db) (vh_bindings v) db (sh_bindings H)"

lemma tables_relD:
  assumes "tables_rel L tabs v db H"
  shows "ex_inv (lb_sqlite L) tabs (lb_split L) (tabs db) (vh_exchanges v) db (sh_exchanges H)"
    and "mq_inv (lb_sqlite L) tabs (lb_split L) (tabs db) (vh_queues v) db (sh_queues H)"
    and "bd_inv (lb_sqlite L) tabs (tabs db) (vh_bindings v) db (sh_bindings H)"
  using assms by (simp_all add: tables_rel_def)

text \<open>One manager has worked on its table; the other two still agree with theirs.\<close>

lemma tables_rel_exchanges:
  assumes "tables_rel L tabs v db H"
    and "ex_inv (lb_sqlite L) tabs (lb_split L) (tabs db) m db' D"
  shows "tables_rel L tabs (v\<lparr>vh_exchanges := m\<rparr>) db' (H\<lparr>sh_exchanges := D\<rparr>)"
  using ex_inv_move [OF assms(2) refl] mq_inv_move [OF tables_relD(2) [OF assms(1)], of db']
    bd_inv_move [OF tables_relD(3) [OF assms(1)], of db'] ex_inv_rest [OF assms(2)]
  by (simp add: tables_rel_def)

lemma tables_rel_queues:
  assumes "tables_rel L tabs v db H"
    and "mq_inv (lb_sqlite L) tabs (lb_split L) (tabs db) m db' D"
  shows "tables_rel L tabs (v\<lparr>vh_queues := m\<rparr>) db' (H\<lparr>sh_queues := D\<rparr>)"
  using mq_inv_move [OF assms(2) refl] ex_inv_move [OF tables_relD(1) [OF assms(1)], of db']
    bd_inv_move [OF tables_relD(3) [OF assms(1)], of db'] mq_inv_rest [OF assms(2)]
  by (simp add: tables_rel_def)

lemma tables_rel_bindings:
  assumes "tables_rel L tabs v db H"
    and "bd_inv (lb_sqlite L) tabs (tabs db) m db' A"
  shows "tables_rel L tabs (v\<lparr>vh_bindings := m\<rparr>) db' (H\<lparr>sh_bindings := A\<rparr>)"
  using bd_inv_move [OF assms(2) refl] ex_inv_move [OF tables_relD(1) [OF assms(1)], of db']
    mq_inv_move [OF tables_relD(2) [OF assms(1)], of db'] bd_inv_rest [OF assms(2)]
  by (simp add: tables_rel_def)

lemma tables_rel_messages [simp]:
  "tables_rel L tabs (v\<lparr>vh_messages := g\<rparr>) db H = tables_rel L tabs v db H"
  "tables_rel L tabs v db (H\<lparr>sh_messages := A\<rparr>) = tables_rel L tabs v db H"
  by (simp_all add: tables_rel_def)

text \<open>Starting again on the tables.\<close>

lemma tables_restart:
  assumes rel: "tables_rel L tabs v db H" and dir: "snd (create_dir s (parent_dir dbfile)) = s"
  obtains em db1 qm db2 bm db3
  where "exchange_manager_new (lb_sqlite L) (lb_split L) dbfile s db = Inr (em, s, db1)"
    and "msg_queue_manager_new (lb_sqlite L) (lb_split L) dbfile s db1 = Inr (qm, s, db2)"
    and "binding_manager_new (lb_sqlite L) dbfile s db2 = Inr (bm, s, db3)"
    and "\<forall>w. tables_rel L tabs (w\<lparr>vh_exchanges := em, vh_queues := qm, vh_bindings := bm\<rparr>) db3
      (H\<lparr>sh_exchanges := spec_reload ex_durable (sh_exchanges H), sh_queues := spec_reload mq_durable (sh_queues H),
         sh_bindings := spec_durable (sh_bindings H)\<rparr>)"
proof -
  obtain em db1 where e: "exchange_manager_new (lb_sqlite L) (lb_split L) dbfile s db = Inr (em, s, db1)"
    and ei: "ex_inv (lb_sqlite L) tabs (lb_split L) (tabs db) em db1 (spec_reload ex_durable (sh_exchanges H))"
    using exchange_inv_restart [OF tables_relD(1) [OF rel], of dbfile s] unfolding dir by (elim exE conjE)
  have r1: "tables_rel L tabs (v\<lparr>vh_exchanges := em\<rparr>) db1 (H\<lparr>sh_exchanges := spec_reload ex_durable (sh_exchanges H)\<rparr>)"
    by (rule tables_rel_exchanges [OF rel ei])
  obtain qm db2 where q: "msg_queue_manager_new (lb_sqlite L) (lb_split L) dbfile s db1 = Inr (qm, s, db2)"
    and qi: "mq_inv (lb_sqlite L) tabs (lb_split L) (tabs db1) qm db2 (spec_reload mq_durable (sh_queues H))"
    using queue_inv_restart [OF tables_relD(2) [OF r1], of dbfile s] unfolding dir by auto
  note r2 = tables_rel_queues [OF r1 qi]
  obtain bm db3 where b: "binding_manager_new (lb_sqlite L) dbfile s db2 = Inr (bm, s, db3)"
    and bi: "bd_inv (lb_sqlite L) tabs (tabs db2) bm db3 (spec_durable (sh_bindings H))"
    using bindings_restart [of "lb_sqlite L" tabs "tabs db2" db2 "sh_bindings H" dbfile s]
      tables_relD(3) [OF r2] unfolding dir by (auto simp: bd_inv_def)
  from tables_rel_bindings [OF r2 bi] e q b show ?thesis
    by (intro that) (simp_all add: tables_rel_def)
qed

section \<open>The host follows the specification\<close>

fun host_step ::
  "'db libs \<Rightarrow> string \<Rightarrow> string \<Rightarrow> string \<Rightarrow> host_cmd \<Rightarrow> 'db hosted \<Rightarrow> (host_out \<times> 'db hosted) result" where
  "host_step L host_name basedir dbfile (HDeclareExchange name t d a args) x =
     rbind (vh_declare_exchange L name t d a args x) (\<lambda>(b, x'). Inr (Answer b, x'))"
| "host_step L host_name basedir dbfile (HDeleteExchange name) x =
     rbind (vh_delete_exchange L name x) (\<lambda>x'. Inr (Answer True, x'))"
| "host_step L host_name basedir dbfile (HDeclareQueue name d e a args) x =
     rbind (vh_declare_queue L name d e a args x) (\<lambda>(b, x'). Inr (Answer b, x'))"
| "host_step L host_name basedir dbfile (HDeleteQueue name) x =
     rbind (vh_delete_queue L name x) (\<lambda>x'. Inr (Answer True, x'))"
| "host_step L host_name basedir dbfile (HBind e q k) x =
     rbind (vh_bind L e q k x) (\<lambda>(b, x'). Inr (Answer b, x'))"
| "host_step L host_name basedir dbfile (HUnbind e q) x =
     rbind (vh_unbind L e q x) (\<lambda>x'. Inr (Answer True, x'))"
| "host_step L host_name basedir dbfile (HPublish q uuid bp body) x =
     (case vh_basic_publish L uuid q bp body x of (b, x') \<Rightarrow> Inr (Answer b, x'))"
| "host_step L host_name basedir dbfile (HConsume q) x =
     (case vh_basic_consume q x of (m, x') \<Rightarrow> Inr (Message (map_option msg_payload m), x'))"
| "host_step L host_name basedir dbfile (HAck q i) x =
     rbind (vh_basic_ack L q i x) (\<lambda>x'. Inr (Answer True, x'))"
| "host_step L host_name basedir dbfile HRestart x =
     (case x of (v, s, db) \<Rightarrow>
        rbind (virtual_host_new L host_name basedir dbfile s db) (\<lambda>x'. Inr (Answer True, x')))"

text \<open>The directory of the database file is there, so making it again changes nothing.\<close>

definition settled :: "string \<Rightarrow> fs \<Rightarrow> bool" where
  "settled dbfile s \<longleftrightarrow> (\<forall>s'. fs_dirs s' = fs_dirs s \<longrightarrow> snd (create_dir s' (parent_dir dbfile)) = s')"

definition messages_rel ::
  "'db libs \<Rightarrow> nat \<Rightarrow> nat \<Rightarrow> string \<Rightarrow> message_manager \<Rightarrow> fs \<Rightarrow> spec_store \<Rightarrow> bool" where
  "messages_rel L M N basedir g s A \<longleftrightarrow>
     store_rel (ser_of L) (fits (lb_protobuf L) M) N basedir (\<lambda>q. spec_empty) g s A"

definition host_rel ::
  "'db libs \<Rightarrow> ('db \<Rightarrow> tables) \<Rightarrow> nat \<Rightarrow> nat \<Rightarrow> string \<Rightarrow> string \<Rightarrow> 'db hosted \<Rightarrow> spec_host \<Rightarrow> bool" where
  "host_rel L tabs M N basedir dbfile x H \<longleftrightarrow> (2000 + 2 * N) * M < 2 ^ 32 \<and> host_wf H \<and>
     (case x of (v, s, db) \<Rightarrow> tables_rel L tabs v db H \<and>
        messages_rel L M N basedir (vh_messages v) s (sh_messages H) \<and> settled dbfile s)"

lemma settled_touches: "settled dbfile s \<Longrightarrow> touches_only F s s' \<Longrightarrow> settled dbfile s'"
  by (simp add: settled_def touches_only_def)

lemma fits_length: "fits rt M p \<Longrightarrow> length (frame (SerializeAsString rt) p) \<le> M"
  by (simp add: fits_def)

lemma destroy_touches:
  assumes "messages_rel L M N basedir g s A" and "destroy_queue_msg q g s = (g', s')"
  shows "fs_dirs s' = fs_dirs s"
proof (cases "map_of (mg_queue_msgs g) q")
  case None
  then show ?thesis using assms(2) by (simp add: destroy_queue_msg_def)
next
  case (Some qm)
  have "touches_only (own_files (qm_mapper qm)) s (snd (qm_clear qm s))"
    using touches_qm_clear [of qm s "fst (qm_clear qm s)" "snd (qm_clear qm s)"] by simp
  then show ?thesis using assms(2) Some by (auto simp: destroy_queue_msg_def touches_only_def)
qed

lemma host_restart:
  assumes wf: "host_wf H" and tab: "tables_rel L tabs v db H"
    and msg: "messages_rel L M N basedir (vh_messages v) s (sh_messages H)" and dir: "settled dbfile s"
  obtains v' s' db' where "virtual_host_new L host_name basedir dbfile s db = Inr (v', s', db')"
    and "tables_rel L tabs v' db' (snd (host_spec HRestart H))"
    and "messages_rel L M N basedir (vh_messages v') s' (sh_messages (snd (host_spec HRestart H)))"
    and "settled dbfile s'"
proof -
  let ?H = "snd (host_spec HRestart H)"
  have "snd (create_dir s (parent_dir dbfile)) = s" using dir by (simp add: settled_def)
  then obtain em db1 qm db2 bm db3 where
    new: "exchange_manager_new (lb_sqlite L) (lb_split L) dbfile s db = Inr (em, s, db1)"
      "msg_queue_manager_new (lb_sqlite L) (lb_split L) dbfile s db1 = Inr (qm, s, db2)"
      "binding_manager_new (lb_sqlite L) dbfile s db2 = Inr (bm, s, db3)"
    and rel: "\<forall>w. tables_rel L tabs (w\<lparr>vh_exchanges := em, vh_queues := qm, vh_bindings := bm\<rparr>) db3
      (H\<lparr>sh_exchanges := spec_reload ex_durable (sh_exchanges H), sh_queues := spec_reload mq_durable (sh_queues H),
         sh_bindings := spec_durable (sh_bindings H)\<rparr>)"
    by (rule tables_restart [OF tab])
  define S where "S = (\<lambda>q. case sh_messages H q of None \<Rightarrow> spec_empty | Some a \<Rightarrow> spec_restart a)"
  let ?names = "map fst (all_queues qm)"
  have "map_of qm q = map_option (current (mq_reloaded (lb_split L))) (spec_reload mq_durable (sh_queues H) q)" for q
    using mq_inv_find [OF tables_relD(2) [OF rel [rule_format, of v]]] by simp
  then have "map_of qm q = None \<longleftrightarrow> spec_reload mq_durable (sh_queues H) q = None" for q by simp
  moreover have "q \<notin> set ?names \<longleftrightarrow> map_of qm q = None" for q by (simp add: all_queues_def map_of_eq_None_iff)
  ultimately have "q \<in> set ?names \<longleftrightarrow> spec_reload mq_durable (sh_queues H) q \<noteq> None" for q
    by (metis (no_types))
  then have names: "q \<in> set ?names \<longleftrightarrow> declared_flag mq_durable (sh_queues H q)" for q
    by (simp only: spec_reload_None not_not)
  have known: "declared_flag mq_durable (sh_queues H q) \<Longrightarrow> sh_messages H q \<noteq> None" for q
    using host_wfD(3) [OF wf, of q] by (cases "sh_queues H q") auto
  have "slash_free q" if "q \<in> set ?names" for q
  proof -
    have "sh_messages H q \<noteq> None" by (rule known [OF names [THEN iffD1, OF that]])
    then obtain a where "sh_messages H q = Some a" by blast
    then show ?thesis by (rule store_known [OF msg [unfolded messages_rel_def]])
  qed
  then have sf: "\<forall>q \<in> set ?names. slash_free q" by blast
  have crash: "store_rel (ser_of L) (fits (lb_protobuf L) M) N basedir S (message_manager_new basedir) s (\<lambda>q. None)"
    unfolding S_def by (rule store_crash [OF msg [unfolded messages_rel_def]])
  obtain g' s' where run: "recover_queues L ?names (message_manager_new basedir, s) = Inr (g', s')"
    and g': "store_rel (ser_of L) (fits (lb_protobuf L) M) N basedir S g' s' (fold (spec_init S) ?names (\<lambda>q. None))"
    and dirs: "fs_dirs s' = fs_dirs s"
    unfolding recover_queues_def by (rule sized.init_all_rel [OF crash sf])
  have msgs: "fold (spec_init S) ?names (\<lambda>q. None) = sh_messages ?H"
  proof
    fix q
    show "fold (spec_init S) ?names (\<lambda>q. None) q = sh_messages ?H q"
      using names [of q] known [of q] by (cases "sh_messages H q") (auto simp: fold_spec_init S_def)
  qed
  have closed: "S q = spec_empty" if "sh_messages ?H q = None" for q
  proof (cases "sh_messages H q")
    case (Some a)
    then have "\<not> declared_flag mq_durable (sh_queues H q)" using that by (auto split: if_splits)
    then have "sq_stored a = []" using host_wfD(4) [OF wf Some] by simp
    then show ?thesis by (cases a) (simp add: S_def Some spec_restart_def spec_empty_def)
  qed (simp add: S_def)
  have "messages_rel L M N basedir g' s' (sh_messages ?H)"
    unfolding messages_rel_def by (rule store_rel_closed [OF g' [unfolded msgs]]) (rule closed)
  moreover have "settled dbfile s'" using dir by (simp add: settled_def dirs)
  moreover have "tables_rel L tabs \<lparr>vh_host_name = host_name, vh_exchanges = em, vh_queues = qm, vh_bindings = bm,
      vh_messages = g'\<rparr> db3 ?H"
    using rel [rule_format, of "\<lparr>vh_host_name = host_name, vh_exchanges = em, vh_queues = qm, vh_bindings = bm, vh_messages = g'\<rparr>"]
    by (simp add: tables_rel_def)
  ultimately show ?thesis
    using new run
    by (intro that [of "\<lparr>vh_host_name = host_name, vh_exchanges = em, vh_queues = qm, vh_bindings = bm,
        vh_messages = g'\<rparr>" s' db3]) (simp_all add: virtual_host_new_def)
qed

lemma host_relE:
  assumes "host_rel L tabs M N basedir dbfile x H"
  obtains v s db where "x = (v, s, db)" and "(2000 + 2 * N) * M < 2 ^ 32" and "host_wf H" and "tables_rel L tabs v db H"
    and "messages_rel L M N basedir (vh_messages v) s (sh_messages H)" and "settled dbfile s"
  using assms by (cases x) (auto simp: host_rel_def)

lemma host_relI:
  assumes "host_rel L tabs M N basedir dbfile x H" and "tables_rel L tabs v' db' (snd (host_spec c H))"
    and "messages_rel L M N basedir (vh_messages v') s' (sh_messages (snd (host_spec c H)))" and "settled dbfile s'"
  shows "host_rel L tabs M N basedir dbfile (v', s', db') (snd (host_spec c H))"
  using assms host_wf_step [of H c] by (cases x) (simp add: host_rel_def)

text \<open>One lemma for each command.\<close>

definition host_follows ::
  "'db libs \<Rightarrow> ('db \<Rightarrow> tables) \<Rightarrow> nat \<Rightarrow> nat \<Rightarrow> string \<Rightarrow> string \<Rightarrow> string \<Rightarrow> host_cmd \<Rightarrow> 'db hosted \<Rightarrow> spec_host \<Rightarrow> bool" where
  "host_follows L tabs M N host_name basedir dbfile c x H \<longleftrightarrow>
     (\<exists>x'. host_step L host_name basedir dbfile c x = Inr (fst (host_spec c H), x') \<and>
        host_rel L tabs M N basedir dbfile x' (snd (host_spec c H)))"

lemma follows_declare_exchange:
  assumes rel: "host_rel L tabs M N basedir dbfile x H"
    and c: "host_cmd_ok (fits (lb_protobuf L) M) N (HDeclareExchange name t d a args) H"
  shows "host_follows L tabs M N host_name basedir dbfile (HDeclareExchange name t d a args) x H"
proof -
  obtain v s db where x: "x = (v, s, db)" and NM: "(2000 + 2 * N) * M < 2 ^ 32" and wf: "host_wf H"
    and tab: "tables_rel L tabs v db H" and msg: "messages_rel L M N basedir (vh_messages v) s (sh_messages H)"
    and dir: "settled dbfile s"
    by (rule host_relE [OF rel])
  note m = msg [unfolded messages_rel_def]
  obtain em db' where "declare_exchange (lb_sqlite L) name t d a args (vh_exchanges v) db = Inr (True, em, db')"
    "ex_inv (lb_sqlite L) tabs (lb_split L) (tabs db) em db' (spec_declare ex_name
       \<lparr>ex_name = name, ex_type = t, ex_durable = d, ex_auto_delete = a, ex_args = args\<rparr> (sh_exchanges H))"
    using declare_exchange_inv [OF tables_relD(1) [OF tab] refl, of d name t a args] c by auto
  then show ?thesis
    using host_relI [OF rel, of "v\<lparr>vh_exchanges := em\<rparr>" db' "HDeclareExchange name t d a args" s]
      tables_rel_exchanges [OF tab] msg dir
    by (simp add: x host_follows_def vh_declare_exchange_def)
qed

lemma follows_delete_exchange:
  assumes rel: "host_rel L tabs M N basedir dbfile x H"
    and c: "host_cmd_ok (fits (lb_protobuf L) M) N (HDeleteExchange name) H"
  shows "host_follows L tabs M N host_name basedir dbfile (HDeleteExchange name) x H"
proof -
  obtain v s db where x: "x = (v, s, db)" and NM: "(2000 + 2 * N) * M < 2 ^ 32" and wf: "host_wf H"
    and tab: "tables_rel L tabs v db H" and msg: "messages_rel L M N basedir (vh_messages v) s (sh_messages H)"
    and dir: "settled dbfile s"
    by (rule host_relE [OF rel])
  note m = msg [unfolded messages_rel_def]
  obtain bm db1 where b: "unbind_exchange (lb_sqlite L) name (vh_bindings v) db = Inr (bm, db1)"
    and bi: "bd_inv (lb_sqlite L) tabs (tabs db) bm db1 (spec_unbind (\<lambda>e q. e = name) (sh_bindings H))"
    using unbind_exchange_refines [OF tables_relD(3) [OF tab], of name] c by auto
  note r1 = tables_rel_bindings [OF tab bi]
  obtain em db2 where "delete_exchange (lb_sqlite L) name (vh_exchanges v) db1 = Inr (em, db2)"
    "ex_inv (lb_sqlite L) tabs (lb_split L) (tabs db1) em db2 ((sh_exchanges H)(name := None))"
    using delete_exchange_inv [OF tables_relD(1) [OF r1], of name] by auto
  then show ?thesis
    using host_relI [OF rel, of "v\<lparr>vh_bindings := bm, vh_exchanges := em\<rparr>" db2 "HDeleteExchange name" s]
      tables_rel_exchanges [OF r1] msg dir b
    by (simp add: x host_follows_def vh_delete_exchange_def tables_rel_def)
qed

lemma follows_declare_queue:
  assumes rel: "host_rel L tabs M N basedir dbfile x H"
    and c: "host_cmd_ok (fits (lb_protobuf L) M) N (HDeclareQueue name d e a args) H"
  shows "host_follows L tabs M N host_name basedir dbfile (HDeclareQueue name d e a args) x H"
proof -
  obtain v s db where x: "x = (v, s, db)" and NM: "(2000 + 2 * N) * M < 2 ^ 32" and wf: "host_wf H"
    and tab: "tables_rel L tabs v db H" and msg: "messages_rel L M N basedir (vh_messages v) s (sh_messages H)"
    and dir: "settled dbfile s"
    by (rule host_relE [OF rel])
  note m = msg [unfolded messages_rel_def]
  have sf: "slash_free name" using c by simp
  obtain g s' where g: "init_queue_msg (ser_of L) (par_of L) name (vh_messages v) s = Inr (g, s')"
    "store_rel (ser_of L) (fits (lb_protobuf L) M) N basedir (\<lambda>q. spec_empty) g s'
      (spec_init (\<lambda>q. spec_empty) name (sh_messages H))"
    "touches_only (files_of basedir name) s s'"
    by (rule sized.init_rel [OF m sf])
  obtain qm db' where "declare_queue (lb_sqlite L) name d e a args (vh_queues v) db = Inr (True, qm, db')"
    "mq_inv (lb_sqlite L) tabs (lb_split L) (tabs db) qm db' (spec_declare mq_name
       \<lparr>mq_name = name, mq_durable = d, mq_exclusive = e, mq_auto_delete = a, mq_args = args\<rparr> (sh_queues H))"
    using declare_queue_inv [OF tables_relD(2) [OF tab] refl, of d name e a args] c by auto
  then show ?thesis
    using host_relI [OF rel, of "v\<lparr>vh_messages := g, vh_queues := qm\<rparr>" db' "HDeclareQueue name d e a args" s']
      tables_rel_queues [OF tab] g
      settled_touches [OF dir g(3)]
    by (simp add: x host_follows_def vh_declare_queue_def messages_rel_def tables_rel_def)
qed

lemma follows_delete_queue:
  assumes rel: "host_rel L tabs M N basedir dbfile x H"
    and c: "host_cmd_ok (fits (lb_protobuf L) M) N (HDeleteQueue name) H"
  shows "host_follows L tabs M N host_name basedir dbfile (HDeleteQueue name) x H"
proof -
  obtain v s db where x: "x = (v, s, db)" and NM: "(2000 + 2 * N) * M < 2 ^ 32" and wf: "host_wf H"
    and tab: "tables_rel L tabs v db H" and msg: "messages_rel L M N basedir (vh_messages v) s (sh_messages H)"
    and dir: "settled dbfile s"
    by (rule host_relE [OF rel])
  note m = msg [unfolded messages_rel_def]
  obtain g s' where g: "destroy_queue_msg name (vh_messages v) s = (g, s')"
    by (cases "destroy_queue_msg name (vh_messages v) s")
  have gm: "store_rel (ser_of L) (fits (lb_protobuf L) M) N basedir (\<lambda>q. spec_empty) g s' ((sh_messages H)(name := None))"
    using destroy_rel [OF m refl, of name] by (simp add: g)
  have dir': "settled dbfile s'" using dir destroy_touches [OF msg g] by (simp add: settled_def)
  obtain bm db1 where b: "unbind_queue (lb_sqlite L) name (vh_bindings v) db = Inr (bm, db1)"
    and bi: "bd_inv (lb_sqlite L) tabs (tabs db) bm db1 (spec_unbind (\<lambda>e q. q = name) (sh_bindings H))"
    using unbind_queue_refines [OF tables_relD(3) [OF tab], of name] c by auto
  note r1 = tables_rel_bindings [OF tab bi]
  obtain qm db2 where "delete_queue (lb_sqlite L) name (vh_queues v) db1 = Inr (qm, db2)"
    "mq_inv (lb_sqlite L) tabs (lb_split L) (tabs db1) qm db2 ((sh_queues H)(name := None))"
    using delete_queue_inv [OF tables_relD(2) [OF r1], of name] by auto
  then show ?thesis
    using host_relI [OF rel, of "v\<lparr>vh_messages := g, vh_bindings := bm, vh_queues := qm\<rparr>" db2 "HDeleteQueue name" s']
      tables_rel_queues [OF r1] gm dir' b
    by (simp add: x host_follows_def vh_delete_queue_def g messages_rel_def tables_rel_def)
qed

lemma follows_bind:
  assumes rel: "host_rel L tabs M N basedir dbfile x H"
    and c: "host_cmd_ok (fits (lb_protobuf L) M) N (HBind e q k) H"
  shows "host_follows L tabs M N host_name basedir dbfile (HBind e q k) x H"
proof -
  obtain v s db where x: "x = (v, s, db)" and NM: "(2000 + 2 * N) * M < 2 ^ 32" and wf: "host_wf H"
    and tab: "tables_rel L tabs v db H" and msg: "messages_rel L M N basedir (vh_messages v) s (sh_messages H)"
    and dir: "settled dbfile s"
    by (rule host_relE [OF rel])
  note m = msg [unfolded messages_rel_def]
  have find: "select_exchange e (vh_exchanges v) = map_option (current (ex_reloaded (lb_split L))) (sh_exchanges H e)"
    "select_queue q (vh_queues v) = map_option (current (mq_reloaded (lb_split L))) (sh_queues H q)"
    using ex_inv_find [OF tables_relD(1) [OF tab]] mq_inv_find [OF tables_relD(2) [OF tab]]
    by (simp_all add: select_exchange_def select_queue_def)
  show ?thesis
  proof (cases "sh_exchanges H e = None \<or> sh_queues H q = None")
    case True
    then show ?thesis using rel by (auto simp: x host_follows_def vh_bind_def find split: option.split)
  next
    case False
    then obtain ep mqp where ep: "sh_exchanges H e = Some ep" and mqp: "sh_queues H q = Some mqp" by auto
    let ?d = "ex_durable (current (ex_reloaded (lb_split L)) ep) \<and> mq_durable (current (mq_reloaded (lb_split L)) mqp)"
    have d: "?d = (declared_flag ex_durable (sh_exchanges H e) \<and> declared_flag mq_durable (sh_queues H q))"
      by (simp add: ep mqp declared_flag_def case_prod_beta ex.durable_current mq.durable_current)
    obtain bm db' where "bind_queue (lb_sqlite L) e q k ?d (vh_bindings v) db = Inr (True, bm, db')"
      "bd_inv (lb_sqlite L) tabs (tabs db) bm db' (spec_bind e q k ?d (sh_bindings H))"
      using bind_refines [OF tables_relD(3) [OF tab], of ?d e q k] c by auto
    then show ?thesis
      using host_relI [OF rel, of "v\<lparr>vh_bindings := bm\<rparr>" db' "HBind e q k" s]
      tables_rel_bindings [OF tab] msg dir
      by (simp add: x host_follows_def vh_bind_def find ep mqp d [simplified ep mqp])
  qed
qed

lemma follows_unbind:
  assumes rel: "host_rel L tabs M N basedir dbfile x H"
    and c: "host_cmd_ok (fits (lb_protobuf L) M) N (HUnbind e q) H"
  shows "host_follows L tabs M N host_name basedir dbfile (HUnbind e q) x H"
proof -
  obtain v s db where x: "x = (v, s, db)" and NM: "(2000 + 2 * N) * M < 2 ^ 32" and wf: "host_wf H"
    and tab: "tables_rel L tabs v db H" and msg: "messages_rel L M N basedir (vh_messages v) s (sh_messages H)"
    and dir: "settled dbfile s"
    by (rule host_relE [OF rel])
  note m = msg [unfolded messages_rel_def]
  obtain bm db' where "unbind (lb_sqlite L) e q (vh_bindings v) db = Inr (bm, db')"
    "bd_inv (lb_sqlite L) tabs (tabs db) bm db' (spec_unbind (\<lambda>e' q'. e' = e \<and> q' = q) (sh_bindings H))"
    using unbind_refines [OF tables_relD(3) [OF tab], of e q] c by auto
  then show ?thesis
    using host_relI [OF rel, of "v\<lparr>vh_bindings := bm\<rparr>" db' "HUnbind e q" s]
      tables_rel_bindings [OF tab] msg dir
    by (simp add: x host_follows_def vh_unbind_def)
qed

lemma follows_publish:
  assumes rel: "host_rel L tabs M N basedir dbfile x H"
    and c: "host_cmd_ok (fits (lb_protobuf L) M) N (HPublish q uuid bp body) H"
  shows "host_follows L tabs M N host_name basedir dbfile (HPublish q uuid bp body) x H"
proof -
  obtain v s db where x: "x = (v, s, db)" and NM: "(2000 + 2 * N) * M < 2 ^ 32" and wf: "host_wf H"
    and tab: "tables_rel L tabs v db H" and msg: "messages_rel L M N basedir (vh_messages v) s (sh_messages H)"
    and dir: "settled dbfile s"
    by (rule host_relE [OF rel])
  note m = msg [unfolded messages_rel_def]
  have find: "select_queue q (vh_queues v) = map_option (current (mq_reloaded (lb_split L))) (sh_queues H q)"
    using mq_inv_find [OF tables_relD(2) [OF tab]] by (simp add: select_queue_def)
  show ?thesis
  proof (cases "sh_messages H q")
    case None
    then have "sh_queues H q = None" using host_wfD(3) [OF wf] by simp
    then show ?thesis using rel None by (simp add: x host_follows_def vh_basic_publish_def find)
  next
    case (Some a)
    then obtain mqp where mqp: "sh_queues H q = Some mqp" using host_wfD(3) [OF wf, of q] by auto
    have d: "mq_durable (current (mq_reloaded (lb_split L)) mqp) = declared_flag mq_durable (sh_queues H q)"
      by (simp add: mqp declared_flag_def case_prod_beta mq.durable_current)
    have ok: "cmd_ok (fits (lb_protobuf L) M) N (Put uuid bp body (declared_flag mq_durable (sh_queues H q))) a"
      using c by (simp add: Some)
    obtain g s' where g: "mg_insert (ser_of L) uuid q bp body (declared_flag mq_durable (sh_queues H q))
        (vh_messages v) s = (True, g, s')"
      "store_rel (ser_of L) (fits (lb_protobuf L) M) N basedir (\<lambda>q. spec_empty) g s'
        ((sh_messages H)(q \<mapsto> spec_put (put_payload uuid bp body (declared_flag mq_durable (sh_queues H q))) a))"
      "touches_only (files_of basedir q) s s'"
      by (rule sized.insert_rel [OF m Some ok fits_length NM])
    then show ?thesis
      using host_relI [OF rel, of "v\<lparr>vh_messages := g\<rparr>" db "HPublish q uuid bp body" s']
      tab settled_touches [OF dir g(3)]
      by (simp add: Some x host_follows_def vh_basic_publish_def find mqp d [unfolded mqp] messages_rel_def)
  qed
qed

lemma follows_consume:
  assumes rel: "host_rel L tabs M N basedir dbfile x H"
    and c: "host_cmd_ok (fits (lb_protobuf L) M) N (HConsume q) H"
  shows "host_follows L tabs M N host_name basedir dbfile (HConsume q) x H"
proof -
  obtain v s db where x: "x = (v, s, db)" and NM: "(2000 + 2 * N) * M < 2 ^ 32" and wf: "host_wf H"
    and tab: "tables_rel L tabs v db H" and msg: "messages_rel L M N basedir (vh_messages v) s (sh_messages H)"
    and dir: "settled dbfile s"
    by (rule host_relE [OF rel])
  note m = msg [unfolded messages_rel_def]
  show ?thesis
  proof (cases "sh_messages H q")
    case None
    then have "map_of (mg_queue_msgs (vh_messages v)) q = None" using store_unknown [OF m] by simp
    then show ?thesis using rel None by (simp add: x host_follows_def vh_basic_consume_def mg_front_def)
  next
    case (Some a)
    obtain mp g where "mg_front q (vh_messages v) = (mp, g)" "map_option msg_payload mp = fst (spec_take a)"
      "store_rel (ser_of L) (fits (lb_protobuf L) M) N basedir (\<lambda>q. spec_empty) g s ((sh_messages H)(q \<mapsto> snd (spec_take a)))"
      by (rule sized.front_rel [OF m Some fits_length NM])
    then show ?thesis
      using host_relI [OF rel, of "v\<lparr>vh_messages := g\<rparr>" db "HConsume q" s]
      tab dir
      by (simp add: Some x host_follows_def vh_basic_consume_def messages_rel_def)
  qed
qed

lemma follows_ack:
  assumes rel: "host_rel L tabs M N basedir dbfile x H"
    and c: "host_cmd_ok (fits (lb_protobuf L) M) N (HAck q i) H"
  shows "host_follows L tabs M N host_name basedir dbfile (HAck q i) x H"
proof -
  obtain v s db where x: "x = (v, s, db)" and NM: "(2000 + 2 * N) * M < 2 ^ 32" and wf: "host_wf H"
    and tab: "tables_rel L tabs v db H" and msg: "messages_rel L M N basedir (vh_messages v) s (sh_messages H)"
    and dir: "settled dbfile s"
    by (rule host_relE [OF rel])
  note m = msg [unfolded messages_rel_def]
  show ?thesis
  proof (cases "sh_messages H q")
    case None
    then have "map_of (mg_queue_msgs (vh_messages v)) q = None" using store_unknown [OF m] by simp
    then show ?thesis using rel None by (simp add: x host_follows_def vh_basic_ack_def mg_ack_def)
  next
    case (Some a)
    obtain g s' where g: "mg_ack (ser_of L) (par_of L) q i (vh_messages v) s = Inr (g, s')"
      "store_rel (ser_of L) (fits (lb_protobuf L) M) N basedir (\<lambda>q. spec_empty) g s' ((sh_messages H)(q \<mapsto> spec_ack i a))"
      "touches_only (files_of basedir q) s s'"
      by (rule sized.ack_rel [OF m Some fits_length NM])
    then show ?thesis
      using host_relI [OF rel, of "v\<lparr>vh_messages := g\<rparr>" db "HAck q i" s']
      tab settled_touches [OF dir g(3)]
      by (simp add: Some x host_follows_def vh_basic_ack_def messages_rel_def)
  qed
qed

lemma follows_restart:
  assumes rel: "host_rel L tabs M N basedir dbfile x H"
    and c: "host_cmd_ok (fits (lb_protobuf L) M) N HRestart H"
  shows "host_follows L tabs M N host_name basedir dbfile HRestart x H"
proof -
  obtain v s db where x: "x = (v, s, db)" and NM: "(2000 + 2 * N) * M < 2 ^ 32" and wf: "host_wf H"
    and tab: "tables_rel L tabs v db H" and msg: "messages_rel L M N basedir (vh_messages v) s (sh_messages H)"
    and dir: "settled dbfile s"
    by (rule host_relE [OF rel])
  note m = msg [unfolded messages_rel_def]
  obtain v' s' db' where "virtual_host_new L host_name basedir dbfile s db = Inr (v', s', db')"
    "tables_rel L tabs v' db' (snd (host_spec HRestart H))"
    "messages_rel L M N basedir (vh_messages v') s' (sh_messages (snd (host_spec HRestart H)))"
    "settled dbfile s'"
    by (rule host_restart [OF wf tab msg dir])
  then show ?thesis
    using host_relI [OF rel, of v' db' HRestart s'] by (simp add: x host_follows_def)
qed

lemmas host_follows = follows_declare_exchange follows_delete_exchange follows_declare_queue
  follows_delete_queue follows_bind follows_unbind follows_publish follows_consume follows_ack follows_restart

lemma host_step_sim:
  assumes "host_rel L tabs M N basedir dbfile x H" and "host_cmd_ok (fits (lb_protobuf L) M) N c H"
  shows "\<exists>x'. host_step L host_name basedir dbfile c x = Inr (fst (host_spec c H), x') \<and>
    host_rel L tabs M N basedir dbfile x' (snd (host_spec c H))"
  using host_follows [OF assms(1)] assms(2) by (cases c) (simp_all only: host_follows_def)

interpretation host: simulation "host_step L host_name basedir dbfile" host_spec
  "host_cmd_ok (fits (lb_protobuf L) M) N" "host_rel L tabs M N basedir dbfile" for L host_name basedir dbfile M N tabs
  by unfold_locales (rule host_step_sim)

section \<open>The first start\<close>

definition fresh_tables :: "('db \<Rightarrow> tables) \<Rightarrow> 'db \<Rightarrow> bool" where
  "fresh_tables tabs db \<longleftrightarrow> tabs db ''exchange_table'' = None \<and> tabs db ''queue_table'' = None \<and>
     tabs db ''binding_table'' = None"

lemma host_start:
  assumes sq: "sqlite_ok (lb_sqlite L) tabs" and db: "fresh_tables tabs db" and data: "empty_data_dir basedir s"
    and dir: "settled dbfile s" and NM: "(2000 + 2 * N) * M < 2 ^ 32"
  shows "\<exists>x. virtual_host_new L host_name basedir dbfile s db = Inr x \<and>
    host_rel L tabs M N basedir dbfile x spec_host_empty"
proof -
  have same: "snd (create_dir s (parent_dir dbfile)) = s" using dir by (simp add: settled_def)
  obtain db1 where e: "exchange_manager_new (lb_sqlite L) (lb_split L) dbfile s db = Inr ([], s, db1)"
    and es: "ex_stored (lb_sqlite L) tabs (tabs db) db1 []"
    using exchange_manager_fresh [OF sq, of db "tabs db" "lb_split L" dbfile s] db
    unfolding same fresh_tables_def by (elim conjE meta_impE exE) simp_all
  have ei: "ex_inv (lb_sqlite L) tabs (lb_split L) (tabs db) [] db1 (\<lambda>k. None)"
    unfolding ex_inv_def by (rule tracks_empty [where stored = "ex_stored (lb_sqlite L) tabs (tabs db)", OF es])
  have "tabs db1 ''queue_table'' = None" using ex_inv_rest [OF ei, of "''queue_table''"] db by (simp add: fresh_tables_def)
  then obtain db2 where q: "msg_queue_manager_new (lb_sqlite L) (lb_split L) dbfile s db1 = Inr ([], s, db2)"
    and qs: "mq_stored (lb_sqlite L) tabs (tabs db1) db2 []"
    using queue_manager_fresh [OF sq, of db1 "tabs db1" "lb_split L" dbfile s]
    unfolding same by (elim meta_impE exE conjE) simp_all
  have qi: "mq_inv (lb_sqlite L) tabs (lb_split L) (tabs db1) [] db2 (\<lambda>k. None)"
    unfolding mq_inv_def by (rule tracks_empty [where stored = "mq_stored (lb_sqlite L) tabs (tabs db1)", OF qs])
  have "tabs db2 ''binding_table'' = None"
    using mq_inv_rest [OF qi, of "''binding_table''"] ex_inv_rest [OF ei, of "''binding_table''"] db
    by (simp add: fresh_tables_def)
  then obtain bm db3 where b: "binding_manager_new (lb_sqlite L) dbfile s db2 = Inr (bm, s, db3)"
    and bi: "bd_inv (lb_sqlite L) tabs (tabs db2) bm db3 (\<lambda>e q. None)"
    using bindings_fresh [OF sq, of db2 dbfile s] unfolding same by (elim meta_impE exE conjE) simp_all
  let ?v = "\<lparr>vh_host_name = host_name, vh_exchanges = [], vh_queues = [], vh_bindings = bm,
    vh_messages = message_manager_new basedir\<rparr>"
  have "ex_inv (lb_sqlite L) tabs (lb_split L) (tabs db3) [] db3 (\<lambda>k. None)"
    using ex_inv_move [OF ei, of db3] mq_inv_rest [OF qi] bd_inv_rest [OF bi] by simp
  moreover have "mq_inv (lb_sqlite L) tabs (lb_split L) (tabs db3) [] db3 (\<lambda>k. None)"
    using mq_inv_move [OF qi, of db3] bd_inv_rest [OF bi] by simp
  ultimately have "tables_rel L tabs ?v db3 spec_host_empty"
    using bd_inv_move [OF bi refl] by (simp add: tables_rel_def spec_host_empty_def)
  moreover have "messages_rel L M N basedir (vh_messages ?v) s (sh_messages spec_host_empty)"
    using store_start [OF data] by (simp add: messages_rel_def spec_host_empty_def)
  ultimately have "host_rel L tabs M N basedir dbfile (?v, s, db3) spec_host_empty"
    using NM dir host_wf_empty by (simp add: host_rel_def)
  moreover have "virtual_host_new L host_name basedir dbfile s db = Inr (?v, s, db3)"
    by (simp add: virtual_host_new_def e q b recover_queues_def all_queues_def)
  ultimately show ?thesis by blast
qed

text \<open>A host started on an empty directory and run over a sequence of calls and restarts.\<close>

definition host_history ::
  "'db libs \<Rightarrow> string \<Rightarrow> string \<Rightarrow> string \<Rightarrow> host_cmd list \<Rightarrow> fs \<Rightarrow> 'db \<Rightarrow> (host_out list \<times> 'db hosted) result" where
  "host_history L host_name basedir dbfile cs s db =
     rbind (virtual_host_new L host_name basedir dbfile s db) (run_cmds (host_step L host_name basedir dbfile) cs)"

lemma host_history_rel:
  assumes "sqlite_ok (lb_sqlite L) tabs" and "fresh_tables tabs db" and "empty_data_dir basedir s"
    and "settled dbfile s" and "(2000 + 2 * N) * M < 2 ^ 32"
    and ok: "run_ok host_spec (host_cmd_ok (fits (lb_protobuf L) M) N) cs spec_host_empty"
  shows "\<exists>x. host_history L host_name basedir dbfile cs s db = Inr (fst (run_spec host_spec cs spec_host_empty), x) \<and>
    host_rel L tabs M N basedir dbfile x (snd (run_spec host_spec cs spec_host_empty))"
proof -
  obtain x0 where x0: "virtual_host_new L host_name basedir dbfile s db = Inr x0"
    "host_rel L tabs M N basedir dbfile x0 spec_host_empty"
    using host_start [OF assms(1-5), of host_name] by (elim exE conjE)
  from host.run_sim [OF x0(2) ok, of host_name] show ?thesis by (simp add: host_history_def x0(1))
qed

lemma host_bindings_sound:
  assumes rel: "host_rel L tabs M N basedir dbfile (v, s, db) H" and b: "map_of (vh_exchange_bindings e v) q = Some b"
  shows "bd_exchange_name b = e \<and> bd_msg_queue_name b = q \<and> vh_exists_exchange e v \<and> vh_exists_queue q v"
proof -
  have wf: "host_wf H" and tab: "tables_rel L tabs v db H" using rel by (simp_all add: host_rel_def)
  have "find_binding (vh_bindings v) e q = Some b"
    using b by (auto simp: vh_exchange_bindings_def get_exchange_bindings_def find_binding_def split: option.splits)
  moreover have "find_binding (vh_bindings v) e q = map_option (\<lambda>(k, d). mk_binding e q k) (sh_bindings H e q)"
    using tables_relD(3) [OF tab] by (simp add: bd_inv_def bd_map_def)
  ultimately obtain k d where k: "sh_bindings H e q = Some (k, d)" "b = mk_binding e q k" by auto
  have "sh_exchanges H e \<noteq> None \<and> sh_queues H q \<noteq> None" using host_wfD(1) [OF wf k(1)] .
  then show ?thesis
    using k(2) ex_inv_find [OF tables_relD(1) [OF tab], of e] mq_inv_find [OF tables_relD(2) [OF tab], of q]
    by (auto simp: mk_binding_def vh_exists_exchange_def exchange_exists_def vh_exists_queue_def queue_exists_def)
qed

lemma query_bindings_ok:
  assumes "\<And>e q b. (q, b) \<in> set (vh_exchange_bindings e v) \<Longrightarrow> bd_exchange_name b = e"
  shows "query_bindings es v = Inr (concat (map (\<lambda>(e, x). map snd (vh_exchange_bindings e v)) es))"
  using assms by (induction es v rule: query_bindings.induct) auto

lemma host_query_ok:
  assumes rel: "host_rel L tabs M N basedir dbfile (v, s, db) H"
  shows "\<exists>out. vh_basic_query v = Inr out"
proof -
  have inv: "bd_map (vh_bindings v) (sh_bindings H)"
    using rel by (simp add: host_rel_def tables_rel_def bd_inv_def)
  have "bd_exchange_name b = e" if qb: "(q, b) \<in> set (vh_exchange_bindings e v)" for e q b
  proof -
    have "um_wf (vh_exchange_bindings e v)"
      using inv by (auto simp: bd_map_def vh_exchange_bindings_def get_exchange_bindings_def dest!: map_of_SomeD
          split: option.split)
    then have "map_of (vh_exchange_bindings e v) q = Some b" using qb by (simp add: um_wf_find)
    with host_bindings_sound [OF rel] show ?thesis by blast
  qed
  from query_bindings_ok [OF this] show ?thesis by (simp add: vh_basic_query_def)
qed

section \<open>Properties\<close>

text \<open>
  C5: The virtual host keeps its promises.  Started on an empty data directory and driven by any
  sequence of declarations, deletions, bindings, publications, consumptions, acknowledgements and
  restarts of the server, it never aborts, throws or fails, answers every call as the
  specification, and keeps memory, database and message files representing the specification's
  state: restarts keep exactly the durable exchanges, queues and bindings and the unacknowledged
  durable messages of durable queues.
\<close>

theorem host_refines_spec:
  assumes "sqlite_ok (lb_sqlite L) tabs" and "fresh_tables tabs db" and "empty_data_dir basedir s"
    and "settled dbfile s" and "(2000 + 2 * N) * M < 2 ^ 32"
    and "run_ok host_spec (host_cmd_ok (fits (lb_protobuf L) M) N) cs spec_host_empty"
  shows "\<exists>x. host_history L host_name basedir dbfile cs s db = Inr (fst (run_spec host_spec cs spec_host_empty), x) \<and>
    host_rel L tabs M N basedir dbfile x (snd (run_spec host_spec cs spec_host_empty))"
  by (rule host_history_rel [OF assms])

definition sample_libs :: "tables libs" where
  "sample_libs = \<lparr>lb_sqlite = mini_sqlite, lb_split = ref_split, lb_protobuf = wire_rt\<rparr>"

definition sample_disk :: fs where
  "sample_disk = \<lparr>fs_files = \<lambda>_. None, fs_dirs = [''./data'']\<rparr>"

definition sample_host_cmds :: "host_cmd list" where
  "sample_host_cmds = [HDeclareExchange ''e'' TOPIC True False [], HDeclareQueue ''q'' True False False [],
     HBind ''e'' ''q'' ''news.#'', HPublish ''q'' ''u'' None ''hi'', HRestart, HConsume ''q'', HAck ''q'' ''u'']"

lemma sample_settled: "settled ''./data/meta.db'' sample_disk"
  by (simp add: settled_def sample_disk_def parent_dir_def create_dir_def create_dir_loop.simps mkdir_def
      file_exists_def dir_exists_def strip_slashes_def str_find_def find_last_of_def)

lemma sample_host_ok: "run_ok host_spec (host_cmd_ok (fits wire_rt 100) 1) sample_host_cmds spec_host_empty"
proof -
  note fits = sample_put_fits [unfolded spec_eval, simplified]
  show ?thesis
    by (simp add: sample_host_cmds_def spec_host_empty_def spec_declare_def spec_init_def spec_bind_def short_def
        plain_def slash_free_def spec_eval fits declared_flag_def ex_storable_def mq_storable_def ex_get_args_def
        mq_get_args_def format_args_def plain_args_def type_of_num_def ex_values_def mq_values_def quote_def flag_def
        show_int_def show_nat.simps)
qed

theorem host_refines_spec_witness:
  "\<exists>x. host_history sample_libs ''h'' ''./data'' ''./data/meta.db'' sample_host_cmds sample_disk (\<lambda>_. None) =
      Inr (fst (run_spec host_spec sample_host_cmds spec_host_empty), x) \<and>
    host_rel sample_libs (\<lambda>db. db) 100 1 ''./data'' ''./data/meta.db'' x
      (snd (run_spec host_spec sample_host_cmds spec_host_empty))"
  by (rule host_refines_spec)
    (use mini_sqlite_ok sample_data_dir sample_settled sample_host_ok in
      \<open>simp_all add: sample_libs_def fresh_tables_def sample_disk_def\<close>)

text \<open>
  C16: No dangling bindings.  After any such sequence every binding an exchange lists carries that
  exchange's name and the queue's name it is listed under, and both the exchange and the queue are
  declared; so the assertion of the query never fails and the query answers.
\<close>

theorem no_dangling_bindings:
  assumes "sqlite_ok (lb_sqlite L) tabs" and "fresh_tables tabs db" and "empty_data_dir basedir s"
    and "settled dbfile s" and "(2000 + 2 * N) * M < 2 ^ 32"
    and "run_ok host_spec (host_cmd_ok (fits (lb_protobuf L) M) N) cs spec_host_empty"
  shows "\<exists>outs v s' db' out. host_history L host_name basedir dbfile cs s db = Inr (outs, v, s', db') \<and>
    (\<forall>e q b. map_of (vh_exchange_bindings e v) q = Some b \<longrightarrow>
       bd_exchange_name b = e \<and> bd_msg_queue_name b = q \<and> vh_exists_exchange e v \<and> vh_exists_queue q v) \<and>
    vh_basic_query v = Inr out"
proof -
  obtain x where run: "host_history L host_name basedir dbfile cs s db = Inr (fst (run_spec host_spec cs spec_host_empty), x)"
    and rel: "host_rel L tabs M N basedir dbfile x (snd (run_spec host_spec cs spec_host_empty))"
    using host_history_rel [OF assms, of host_name] by (elim exE conjE)
  obtain v s' db' where x: "x = (v, s', db')" by (cases x)
  obtain out where "vh_basic_query v = Inr out" using host_query_ok [OF rel [unfolded x]] by (elim exE)
  with run host_bindings_sound [OF rel [unfolded x]] show ?thesis unfolding x by blast
qed

theorem no_dangling_bindings_witness:
  "\<exists>outs v s' db' out. host_history sample_libs ''h'' ''./data'' ''./data/meta.db'' sample_host_cmds sample_disk (\<lambda>_. None) =
      Inr (outs, v, s', db') \<and>
    (\<forall>e q b. map_of (vh_exchange_bindings e v) q = Some b \<longrightarrow>
       bd_exchange_name b = e \<and> bd_msg_queue_name b = q \<and> vh_exists_exchange e v \<and> vh_exists_queue q v) \<and>
    vh_basic_query v = Inr out"
  by (rule no_dangling_bindings [where tabs = "\<lambda>db. db" and M = 100 and N = 1])
    (use mini_sqlite_ok sample_data_dir sample_settled sample_host_ok in
      \<open>simp_all add: sample_libs_def fresh_tables_def sample_disk_def\<close>)

end
