(* ===== verification/Consumer.thy ===== *)
theory Consumer
  imports MQ_Prelude
begin

text \<open>
  \<open>HareMQ/mqserver/consumer.hpp\<close>: the subscribers of each queue and the round robin that picks the
  one a message goes to.  A consumer's callback is a parameter \<open>'cb\<close>: the channels decide what it is.
\<close>

section \<open>The consumers of one queue\<close>

record 'cb consumer =
  cs_tag :: string
  cs_qname :: string
  cs_auto_ack :: bool
  cs_callback :: 'cb

record 'cb queue_consumer =
  qc_qname :: string
  qc_rr_seq :: "64 word"
  qc_consumers :: "'cb consumer list"

definition queue_consumer_new :: "string \<Rightarrow> 'cb queue_consumer" where
  "queue_consumer_new qname = \<lparr>qc_qname = qname, qc_rr_seq = 0, qc_consumers = []\<rparr>"

fun has_tag :: "string \<Rightarrow> 'cb consumer list \<Rightarrow> bool" where
  "has_tag ctag [] = False"
| "has_tag ctag (e # es) = (if cs_tag e = ctag then True else has_tag ctag es)"

definition qc_create ::
  "string \<Rightarrow> string \<Rightarrow> bool \<Rightarrow> 'cb \<Rightarrow> 'cb queue_consumer \<Rightarrow> 'cb consumer option \<times> 'cb queue_consumer" where
  "qc_create ctag queue_name ack_flag cb qc =
     (if has_tag ctag (qc_consumers qc) then (None, qc)
      else
        let new_consumer = \<lparr>cs_tag = ctag, cs_qname = queue_name, cs_auto_ack = ack_flag, cs_callback = cb\<rparr>
        in (Some new_consumer, qc\<lparr>qc_consumers := qc_consumers qc @ [new_consumer]\<rparr>))"

fun erase_tag :: "string \<Rightarrow> 'cb consumer list \<Rightarrow> 'cb consumer list" where
  "erase_tag ctag [] = []"
| "erase_tag ctag (e # es) = (if cs_tag e = ctag then es else e # erase_tag ctag es)"

definition qc_remove :: "string \<Rightarrow> 'cb queue_consumer \<Rightarrow> 'cb queue_consumer" where
  "qc_remove ctag qc = qc\<lparr>qc_consumers := erase_tag ctag (qc_consumers qc)\<rparr>"

text \<open>
  The remainder of the \<open>uint64_t\<close> counter is stored in an \<open>int\<close>; a negative index, or one past the
  end, is undefined behaviour of \<open>operator[]\<close>.
\<close>

definition rr_choose :: "'cb queue_consumer \<Rightarrow> ('cb consumer option \<times> 'cb queue_consumer) result" where
  "rr_choose qc =
     (if length (qc_consumers qc) = 0 then Inr (None, qc)
      else
        let idx = ucast (qc_rr_seq qc mod word_of_nat (length (qc_consumers qc))) :: 32 word;
            qc' = qc\<lparr>qc_rr_seq := qc_rr_seq qc + 1\<rparr>
        in if sint idx < 0 \<or> int (length (qc_consumers qc)) \<le> sint idx then Inl Undefined
           else Inr (Some (qc_consumers qc ! nat (sint idx)), qc'))"

definition qc_empty :: "'cb queue_consumer \<Rightarrow> bool" where
  "qc_empty qc = (length (qc_consumers qc) = 0)"

definition qc_exists :: "string \<Rightarrow> 'cb queue_consumer \<Rightarrow> bool" where
  "qc_exists ctag qc = has_tag ctag (qc_consumers qc)"

definition qc_clear :: "'cb queue_consumer \<Rightarrow> 'cb queue_consumer" where
  "qc_clear qc = qc\<lparr>qc_consumers := [], qc_rr_seq := 0\<rparr>"

section \<open>The manager\<close>

type_synonym 'cb consumers = "(string, 'cb queue_consumer) umap"

definition init_queue_consumer :: "string \<Rightarrow> 'cb consumers \<Rightarrow> 'cb consumers" where
  "init_queue_consumer qname m =
     (case map_of m qname of
        Some qc \<Rightarrow> m
      | None \<Rightarrow> um_insert qname (queue_consumer_new qname) m)"

definition destroy_queue_consumer :: "string \<Rightarrow> 'cb consumers \<Rightarrow> 'cb consumers" where
  "destroy_queue_consumer qname m = um_erase qname m"

definition cm_create ::
  "string \<Rightarrow> string \<Rightarrow> bool \<Rightarrow> 'cb \<Rightarrow> 'cb consumers \<Rightarrow> 'cb consumer option \<times> 'cb consumers" where
  "cm_create ctag queue_name ack_flag cb m =
     (case map_of m queue_name of
        None \<Rightarrow> (None, m)
      | Some qc \<Rightarrow>
          let (c, qc') = qc_create ctag queue_name ack_flag cb qc in (c, um_put queue_name qc' m))"

definition cm_remove :: "string \<Rightarrow> string \<Rightarrow> 'cb consumers \<Rightarrow> 'cb consumers" where
  "cm_remove ctag queue_name m =
     (case map_of m queue_name of
        None \<Rightarrow> m
      | Some qc \<Rightarrow> um_put queue_name (qc_remove ctag qc) m)"

definition cm_choose :: "string \<Rightarrow> 'cb consumers \<Rightarrow> ('cb consumer option \<times> 'cb consumers) result" where
  "cm_choose queue_name m =
     (case map_of m queue_name of
        None \<Rightarrow> Inr (None, m)
      | Some qc \<Rightarrow> rbind (rr_choose qc) (\<lambda>(c, qc'). Inr (c, um_put queue_name qc' m)))"

definition cm_empty :: "string \<Rightarrow> 'cb consumers \<Rightarrow> bool" where
  "cm_empty queue_name m = (case map_of m queue_name of None \<Rightarrow> False | Some qc \<Rightarrow> qc_empty qc)"

definition cm_exists :: "string \<Rightarrow> string \<Rightarrow> 'cb consumers \<Rightarrow> bool" where
  "cm_exists ctag queue_name m = (case map_of m queue_name of None \<Rightarrow> False | Some qc \<Rightarrow> qc_exists ctag qc)"

definition cm_clear :: "'cb consumers \<Rightarrow> 'cb consumers" where
  "cm_clear m = []"

section \<open>Invariant\<close>

text \<open>Each queue's consumers have different tags and belong to the queue.\<close>

definition qc_ok :: "string \<Rightarrow> 'cb queue_consumer \<Rightarrow> bool" where
  "qc_ok qname qc \<longleftrightarrow> qc_qname qc = qname \<and> distinct (map cs_tag (qc_consumers qc)) \<and>
     (\<forall>c \<in> set (qc_consumers qc). cs_qname c = qname)"

definition consumers_ok :: "'cb consumers \<Rightarrow> bool" where
  "consumers_ok m \<longleftrightarrow> um_wf m \<and> (\<forall>(qname, qc) \<in> set m. qc_ok qname qc)"

lemma has_tag_iff: "has_tag ctag cs \<longleftrightarrow> ctag \<in> cs_tag ` set cs"
  by (induction cs) auto

lemma erase_tag_filter:
  "distinct (map cs_tag cs) \<Longrightarrow> erase_tag ctag cs = filter (\<lambda>c. cs_tag c \<noteq> ctag) cs"
proof (induction cs)
  case (Cons a cs)
  then have "filter (\<lambda>c. cs_tag c \<noteq> cs_tag a) cs = cs" by (auto simp: filter_id_conv image_iff)
  with Cons show ?case by auto
qed simp

lemma qc_create_ok: "qc_ok qname qc \<Longrightarrow> qc_ok qname (snd (qc_create ctag qname ack_flag cb qc))"
  by (auto simp: qc_ok_def qc_create_def has_tag_iff Let_def)

lemma qc_remove_ok: "qc_ok qname qc \<Longrightarrow> qc_ok qname (qc_remove ctag qc)"
  by (auto simp: qc_ok_def qc_remove_def erase_tag_filter distinct_map_filter)

lemma qc_choose_ok: "qc_ok qname qc \<Longrightarrow> rr_choose qc = Inr (c, qc') \<Longrightarrow> qc_ok qname qc'"
  by (auto simp: rr_choose_def qc_ok_def Let_def split: if_splits)

lemma consumers_find: "consumers_ok m \<Longrightarrow> map_of m qname = Some qc \<Longrightarrow> qc_ok qname qc"
  by (auto simp: consumers_ok_def dest: map_of_SomeD)

lemma consumers_put:
  assumes "consumers_ok m" and "qc_ok qname qc"
  shows "consumers_ok (um_put qname qc m)"
proof -
  have "\<forall>(q, c) \<in> set (um_put qname qc m). qc_ok q c"
    using assms by (auto simp: consumers_ok_def um_put_def split: option.splits)
  then show ?thesis using assms(1) by (simp add: consumers_ok_def um_wf_put)
qed

lemma consumers_ok_ops [preserves]:
  assumes "consumers_ok m"
  shows "consumers_ok (init_queue_consumer qname m)"
    and "consumers_ok (destroy_queue_consumer qname m)"
    and "consumers_ok (snd (cm_create ctag qname ack_flag cb m))"
    and "consumers_ok (cm_remove ctag qname m)"
    and "cm_choose qname m = Inr (c, m') \<Longrightarrow> consumers_ok m'"
proof -
  show "consumers_ok (init_queue_consumer qname m)"
    using assms by (auto simp: init_queue_consumer_def consumers_ok_def um_wf_insert um_insert_fresh
        queue_consumer_new_def qc_ok_def split: option.split)
  show "consumers_ok (destroy_queue_consumer qname m)"
    using assms by (auto simp: destroy_queue_consumer_def consumers_ok_def um_wf_erase um_set_erase)
  show "consumers_ok (snd (cm_create ctag qname ack_flag cb m))"
    using assms by (auto simp: cm_create_def case_prod_beta Let_def
        intro!: consumers_put qc_create_ok consumers_find split: option.split)
  show "consumers_ok (cm_remove ctag qname m)"
    using assms by (auto simp: cm_remove_def intro!: consumers_put qc_remove_ok consumers_find split: option.split)
  show "cm_choose qname m = Inr (c, m') \<Longrightarrow> consumers_ok m'"
    using assms by (auto simp: cm_choose_def rbind_Inr_conv split: option.splits
        intro!: consumers_put elim!: qc_choose_ok [OF consumers_find])
qed

section \<open>The round robin\<close>

text \<open>\<open>k\<close> choices in a row for a queue.\<close>

fun choose_many :: "nat \<Rightarrow> string \<Rightarrow> 'cb consumers \<Rightarrow> ('cb consumer option list \<times> 'cb consumers) result" where
  "choose_many 0 qname m = Inr ([], m)"
| "choose_many (Suc k) qname m =
     rbind (cm_choose qname m) (\<lambda>(c, m1). rbind (choose_many k qname m1) (\<lambda>(cs, m2). Inr (c # cs, m2)))"

lemma rr_index:
  assumes "0 < n" and "n < 2 ^ 31"
  shows "sint (ucast (seq mod word_of_nat n :: 64 word) :: 32 word) = int (unat seq mod n)"
proof -
  have n: "unat (word_of_nat n :: 64 word) = n" using assms by (intro unat_of_nat_small) simp
  have small: "unat seq mod n < 2 ^ 31" using assms by (meson less_trans mod_less_divisor)
  define w where "w = seq mod word_of_nat n"
  have "uint w = int (unat w)" by simp
  also have "unat w = unat seq mod n" by (simp add: w_def unat_mod_distrib n)
  finally have w: "uint w = int (unat seq mod n)" .
  have "sint (ucast w :: 32 word) = signed_take_bit 31 (uint w)" by (simp add: signed_ucast_eq)
  also have "\<dots> = uint w" using small by (intro signed_take_bit_int_eq_self) (simp_all add: w)
  finally show ?thesis by (simp add: w w_def [symmetric])
qed

lemma rr_choose_nth:
  assumes "qc_consumers qc \<noteq> []" and "length (qc_consumers qc) < 2 ^ 31"
  shows "rr_choose qc = Inr (Some (qc_consumers qc ! (unat (qc_rr_seq qc) mod length (qc_consumers qc))),
    qc\<lparr>qc_rr_seq := qc_rr_seq qc + 1\<rparr>)"
  using assms rr_index [of "length (qc_consumers qc)" "qc_rr_seq qc"]
  by (simp add: rr_choose_def Let_def mod_less_divisor linorder_not_le nat_mod_distrib)

lemma choose_many_nth:
  assumes "map_of m qname = Some qc" and "qc_consumers qc \<noteq> []" and "length (qc_consumers qc) < 2 ^ 31"
    and "unat (qc_rr_seq qc) + k < 2 ^ 64"
  shows "\<exists>m'. choose_many k qname m = Inr (map (\<lambda>i. Some (qc_consumers qc !
      ((unat (qc_rr_seq qc) + i) mod length (qc_consumers qc)))) [0..<k], m')"
  using assms
proof (induction k arbitrary: m qc)
  case (Suc k)
  let ?qc = "qc\<lparr>qc_rr_seq := qc_rr_seq qc + 1\<rparr>"
  have seq: "unat (qc_rr_seq qc + 1) = Suc (unat (qc_rr_seq qc))"
    using Suc.prems(4) by (simp add: unat_word_ariths(1))
  have one: "cm_choose qname m = Inr (Some (qc_consumers qc ! (unat (qc_rr_seq qc) mod length (qc_consumers qc))),
      um_put qname ?qc m)"
    using Suc.prems by (simp add: cm_choose_def rr_choose_nth)
  have "map_of (um_put qname ?qc m) qname = Some ?qc" by (simp add: um_find_put)
  from Suc.IH [OF this] obtain m' where "choose_many k qname (um_put qname ?qc m) =
      Inr (map (\<lambda>i. Some (qc_consumers qc ! ((Suc (unat (qc_rr_seq qc)) + i) mod length (qc_consumers qc)))) [0..<k], m')"
    using Suc.prems seq by auto
  then show ?case by (simp add: one upt_conv_Cons map_Suc_upt [symmetric] comp_def del: upt_Suc)
qed simp

lemma window_once: "j < n \<Longrightarrow> count_list (map (\<lambda>i. (s + i) mod n) [0..<n]) j = 1"
proof (induction s)
  case 0
  have "map (\<lambda>i. (0 + i) mod n) [0..<n] = [0..<n]" by (rule map_idI) simp
  moreover have "count_list [0..<n] j = 1" using 0 by (induction n) (auto simp: less_Suc_eq count_list_0_iff)
  ultimately show ?case by simp
next
  case (Suc s)
  obtain n' where n: "n = Suc n'" using Suc.prems by (cases n) auto
  have "map (\<lambda>i. (s + i) mod n) [0..<n] = s mod n # map (\<lambda>i. (Suc s + i) mod n) [0..<n']"
    by (simp add: n upt_conv_Cons map_Suc_upt [symmetric] comp_def del: upt_Suc)
  moreover have "map (\<lambda>i. (Suc s + i) mod n) [0..<n] = map (\<lambda>i. (Suc s + i) mod n) [0..<n'] @ [s mod n]"
    by (simp add: n) (metis add_Suc_right add_Suc mod_add_self2)
  ultimately show ?case using Suc by (auto split: if_splits)
qed

lemma window_count:
  assumes "j < n"
  shows "count_list (map (\<lambda>i. (s + i) mod n) [0..<k]) j \<in> {k div n, Suc (k div n)}"
proof (induction k arbitrary: s rule: less_induct)
  case (less k)
  show ?case
  proof (cases "k < n")
    case True
    have "[0..<n] = [0..<k] @ [k..<n]" using True upt_add_eq_append [of 0 k "n - k"] by simp
    then have "count_list (map (\<lambda>i. (s + i) mod n) [0..<k]) j \<le> 1"
      using window_once [OF assms, of s] by simp
    then show ?thesis using True by auto
  next
    case False
    have "[0..<k] = [0..<n] @ map (\<lambda>i. i + n) [0..<k - n]"
      using False upt_add_eq_append [of 0 n "k - n"] map_add_upt [of n "k - n"] by simp
    then have "map (\<lambda>i. (s + i) mod n) [0..<k] =
        map (\<lambda>i. (s + i) mod n) [0..<n] @ map (\<lambda>i. ((s + n) + i) mod n) [0..<k - n]"
      by (simp add: comp_def ac_simps)
    moreover have "k div n = Suc ((k - n) div n)" using False assms by (simp add: le_div_geq)
    ultimately show ?thesis using less.IH [of "k - n" "s + n"] window_once [OF assms, of s] False assms by auto
  qed
qed

lemma count_list_nth:
  assumes "distinct cs" and "j < length cs" and "\<forall>i \<in> set js. i < length cs"
  shows "count_list (map (\<lambda>i. Some (cs ! i)) js) (Some (cs ! j)) = count_list js j"
  using assms(3) by (induction js) (auto simp: nth_eq_iff_index_eq [OF assms(1)] assms(2))

section \<open>Properties\<close>

text \<open>
  C30: The round robin is fair.  When a queue has \<open>n\<close> consumers, each of them gets \<open>k div n\<close> or one
  more of any \<open>k\<close> messages pushed in a row, and every message goes to somebody, as long as the
  64-bit counter does not wrap in between.
\<close>

theorem round_robin_fair:
  assumes "consumers_ok m" and "map_of m qname = Some qc" and "c \<in> set (qc_consumers qc)"
    and "length (qc_consumers qc) < 2 ^ 31" and "unat (qc_rr_seq qc) + k < 2 ^ 64"
  shows "\<exists>cs m'. choose_many k qname m = Inr (cs, m') \<and> length cs = k \<and> None \<notin> set cs \<and>
    count_list cs (Some c) \<in> {k div length (qc_consumers qc), Suc (k div length (qc_consumers qc))}"
proof -
  let ?cs = "qc_consumers qc"
  let ?js = "map (\<lambda>i. (unat (qc_rr_seq qc) + i) mod length ?cs) [0..<k]"
  obtain j where j: "j < length ?cs" "c = ?cs ! j" using assms(3) by (auto simp: in_set_conv_nth)
  have "distinct ?cs"
    using consumers_find [OF assms(1,2)] by (simp add: qc_ok_def distinct_map)
  then have "count_list (map (\<lambda>i. Some (?cs ! i)) ?js) (Some c) = count_list ?js j"
    unfolding j(2) using j(1) by (intro count_list_nth) (auto intro!: mod_less_divisor)
  then have count: "count_list (map (\<lambda>i. Some (?cs ! i)) ?js) (Some c) \<in> {k div length ?cs, Suc (k div length ?cs)}"
    using window_count [OF j(1), of "unat (qc_rr_seq qc)" k] by (simp only:)
  have "?cs \<noteq> []" using assms(3) by auto
  from choose_many_nth [OF assms(2) this assms(4,5)]
  obtain m' where run: "choose_many k qname m = Inr (map (\<lambda>i. Some (?cs ! i)) ?js, m')"
    by (auto simp: comp_def)
  have "length (map (\<lambda>i. Some (?cs ! i)) ?js) = k" and "None \<notin> set (map (\<lambda>i. Some (?cs ! i)) ?js)"
    by (simp, simp only: set_map) blast
  with run count show ?thesis by blast
qed

definition sample_consumers :: "bool consumers" where
  "sample_consumers = snd (cm_create ''b'' ''q'' False True (snd (cm_create ''a'' ''q'' True True
     (init_queue_consumer ''q'' []))))"

lemma sample_consumers_ok: "consumers_ok sample_consumers"
  unfolding sample_consumers_def by (intro consumers_ok_ops(1-4)) (simp add: consumers_ok_def)

lemma sample_consumers_find: "map_of sample_consumers ''q'' = Some \<lparr>qc_qname = ''q'', qc_rr_seq = 0,
    qc_consumers = [\<lparr>cs_tag = ''a'', cs_qname = ''q'', cs_auto_ack = True, cs_callback = True\<rparr>,
      \<lparr>cs_tag = ''b'', cs_qname = ''q'', cs_auto_ack = False, cs_callback = True\<rparr>]\<rparr>"
  by (simp add: sample_consumers_def init_queue_consumer_def um_insert_def queue_consumer_new_def cm_create_def
      qc_create_def um_put_def Let_def)

theorem round_robin_fair_witness:
  "\<exists>cs m'. choose_many 7 ''q'' sample_consumers = Inr (cs, m') \<and> length cs = 7 \<and> None \<notin> set cs \<and>
    count_list cs (Some \<lparr>cs_tag = ''b'', cs_qname = ''q'', cs_auto_ack = False, cs_callback = True\<rparr>) \<in> {3, 4}"
  using round_robin_fair [OF sample_consumers_ok sample_consumers_find, of
      "\<lparr>cs_tag = ''b'', cs_qname = ''q'', cs_auto_ack = False, cs_callback = True\<rparr>" 7]
  by (simp add: numeral_2_eq_2 [symmetric])

text \<open>
  C31: Subscribing fails exactly when the queue is unknown or has the tag already, and otherwise adds
  exactly that subscription; cancelling, and destroying a queue's consumers, remove exactly what they
  name; preparing a queue for consumers adds and removes nobody.
\<close>

theorem consumer_registry:
  assumes "consumers_ok m"
  shows "(fst (cm_create ctag qname a cb m) = None \<longleftrightarrow> map_of m qname = None \<or> cm_exists ctag qname m) \<and>
    (cm_exists t q (snd (cm_create ctag qname a cb m)) \<longleftrightarrow>
       cm_exists t q m \<or> (t = ctag \<and> q = qname \<and> map_of m qname \<noteq> None)) \<and>
    (cm_exists t q (cm_remove ctag qname m) \<longleftrightarrow> cm_exists t q m \<and> (t, q) \<noteq> (ctag, qname)) \<and>
    (cm_exists t q (destroy_queue_consumer qname m) \<longleftrightarrow> cm_exists t q m \<and> q \<noteq> qname) \<and>
    (cm_exists t q (init_queue_consumer qname m) \<longleftrightarrow> cm_exists t q m)"
proof (intro conjI)
  show "fst (cm_create ctag qname a cb m) = None \<longleftrightarrow> map_of m qname = None \<or> cm_exists ctag qname m"
    by (auto simp: cm_create_def qc_create_def cm_exists_def qc_exists_def Let_def split: option.split)
  show "cm_exists t q (snd (cm_create ctag qname a cb m)) \<longleftrightarrow>
       cm_exists t q m \<or> (t = ctag \<and> q = qname \<and> map_of m qname \<noteq> None)"
    by (auto simp: cm_create_def qc_create_def cm_exists_def qc_exists_def Let_def um_find_put has_tag_iff
        split: option.split if_splits)
  show "cm_exists t q (cm_remove ctag qname m) \<longleftrightarrow> cm_exists t q m \<and> (t, q) \<noteq> (ctag, qname)"
    using consumers_find [OF assms]
    by (auto simp: cm_remove_def qc_remove_def cm_exists_def qc_exists_def um_find_put has_tag_iff qc_ok_def
        erase_tag_filter split: option.splits if_splits)
  show "cm_exists t q (destroy_queue_consumer qname m) \<longleftrightarrow> cm_exists t q m \<and> q \<noteq> qname"
    by (auto simp: destroy_queue_consumer_def cm_exists_def um_find_erase split: option.split)
  show "cm_exists t q (init_queue_consumer qname m) \<longleftrightarrow> cm_exists t q m"
    by (auto simp: init_queue_consumer_def cm_exists_def um_insert_fresh queue_consumer_new_def qc_exists_def
        split: option.splits)
qed

theorem consumer_registry_witness:
  "cm_exists ''a'' ''q'' sample_consumers \<and> \<not> cm_exists ''a'' ''q'' (cm_remove ''a'' ''q'' sample_consumers) \<and>
   cm_exists ''b'' ''q'' (cm_remove ''a'' ''q'' sample_consumers)"
proof -
  have e: "cm_exists ''a'' ''q'' sample_consumers" "cm_exists ''b'' ''q'' sample_consumers"
    by (simp_all add: cm_exists_def sample_consumers_find qc_exists_def)
  show ?thesis
    using e consumer_registry [OF sample_consumers_ok, where t = "''a''" and q = "''q''" and ctag = "''a''" and qname = "''q''"]
      consumer_registry [OF sample_consumers_ok, where t = "''b''" and q = "''q''" and ctag = "''a''" and qname = "''q''"]
    by simp
qed

end
