(* ===== verification/Thread_Pool.thy ===== *)
theory Thread_Pool
  imports MQ_Prelude "HOL-Library.Multiset"
begin

text \<open>
  \<open>HareMQ/mqcommon/thread_pool.hpp\<close>: a queue of tasks and the threads that run them.  A task is a
  parameter \<open>'task\<close>.  The places at which a thread of \<open>entry\<close> can be are the constructors of
  \<open>thread\<close>; the mutex is held between steps only by a thread that has found nothing to do and is
  about to block, so the lock is free when no thread is \<open>Deciding\<close>.
\<close>

section \<open>State\<close>

datatype 'task thread =
  Looping \<comment> \<open>at the test of the loop\<close>
| Entering \<comment> \<open>waiting for the mutex, in \<open>lock\<close> or woken inside \<open>wait\<close>\<close>
| Deciding \<comment> \<open>in \<open>wait\<close>, the predicate was false, not yet blocked\<close>
| Blocked
| Executing "'task list" \<comment> \<open>the swapped tasks still to run\<close>
| Exited

record 'task thread_pool =
  tp_stop_signal :: bool
  tp_task_queue :: "'task list"
  tp_threads :: "'task thread list"

definition thread_pool_new :: "nat \<Rightarrow> 'task thread_pool" where
  "thread_pool_new thread_count =
     \<lparr>tp_stop_signal = False, tp_task_queue = [], tp_threads = replicate thread_count Looping\<rparr>"

section \<open>Operations\<close>

fun wake :: "'task thread \<Rightarrow> 'task thread" where
  "wake Blocked = Entering"
| "wake t = t"

fun deciding :: "'task thread \<Rightarrow> bool" where
  "deciding Deciding = True"
| "deciding t = False"

definition lock_free :: "'task thread_pool \<Rightarrow> bool" where
  "lock_free p \<longleftrightarrow> list_all (\<lambda>t. \<not> deciding t) (tp_threads p)"

text \<open>\<open>notify_one\<close> wakes the thread \<open>j\<close> if it is blocked.\<close>

definition push_task :: "nat \<Rightarrow> 'task \<Rightarrow> 'task thread_pool \<Rightarrow> 'task thread_pool" where
  "push_task j t p =
     p\<lparr>tp_task_queue := tp_task_queue p @ [t], tp_threads := (tp_threads p)[j := wake (tp_threads p ! j)]\<rparr>"

text \<open>A thread that wants the mutex waits for a thread about to block to do so.\<close>

definition settle :: "'task thread_pool \<Rightarrow> 'task thread_pool" where
  "settle p = p\<lparr>tp_threads := map (\<lambda>t. if deciding t then Blocked else t) (tp_threads p)\<rparr>"

text \<open>\<open>stop\<close> up to the joins: it takes no lock.\<close>

definition stop_pool :: "'task thread_pool \<Rightarrow> 'task thread_pool" where
  "stop_pool p =
     (if tp_stop_signal p then p else p\<lparr>tp_stop_signal := True, tp_threads := map wake (tp_threads p)\<rparr>)"

definition set_thread :: "nat \<Rightarrow> 'task thread \<Rightarrow> 'task thread_pool \<Rightarrow> 'task thread_pool" where
  "set_thread i t p = p\<lparr>tp_threads := (tp_threads p)[i := t]\<rparr>"

text \<open>
  The next step of a thread in \<open>entry\<close>, with the task it runs; \<open>None\<close> when it cannot move.
\<close>

definition thread_step :: "nat \<Rightarrow> 'task thread_pool \<Rightarrow> ('task list \<times> 'task thread_pool) option" where
  "thread_step i p =
     (case tp_threads p ! i of
        Looping \<Rightarrow> Some ([], set_thread i (if tp_stop_signal p then Exited else Entering) p)
      | Entering \<Rightarrow>
          if \<not> lock_free p then None
          else if tp_stop_signal p \<or> tp_task_queue p \<noteq> []
          then Some ([], (set_thread i (Executing (tp_task_queue p)) p)\<lparr>tp_task_queue := []\<rparr>)
          else Some ([], set_thread i Deciding p)
      | Deciding \<Rightarrow> Some ([], set_thread i Blocked p)
      | Blocked \<Rightarrow> None
      | Executing [] \<Rightarrow> Some ([], set_thread i Looping p)
      | Executing (t # ts) \<Rightarrow> Some ([t], set_thread i (Executing ts) p)
      | Exited \<Rightarrow> None)"

section \<open>Runs\<close>

datatype 'task pool_event = Push nat 'task | Stop | Thread nat | Spurious nat

inductive pool_step :: "'task thread_pool \<Rightarrow> 'task pool_event \<Rightarrow> 'task list \<Rightarrow> 'task thread_pool \<Rightarrow> bool" where
  push: "\<lbrakk>lock_free p; \<forall>k < length (tp_threads p). tp_threads p ! k = Blocked \<longrightarrow>
      j < length (tp_threads p) \<and> tp_threads p ! j = Blocked\<rbrakk> \<Longrightarrow>
    pool_step p (Push j t) [] (push_task j t p)"
| stop: "pool_step p Stop [] (stop_pool p)"
| thread: "\<lbrakk>i < length (tp_threads p); thread_step i p = Some (did, p')\<rbrakk> \<Longrightarrow> pool_step p (Thread i) did p'"
| spurious: "\<lbrakk>i < length (tp_threads p); tp_threads p ! i = Blocked\<rbrakk> \<Longrightarrow>
    pool_step p (Spurious i) [] (set_thread i Entering p)"

inductive_cases pool_stepE: "pool_step p e did p'"

inductive_simps pool_step_simps:
  "pool_step p (Push j t) did p'" "pool_step p Stop did p'" "pool_step p (Thread i) did p'"
  "pool_step p (Spurious i) did p'"

fun pushed_by :: "'task pool_event \<Rightarrow> 'task list" where
  "pushed_by (Push j t) = [t]"
| "pushed_by e = []"

text \<open>The pools reached from a new one, with the tasks pushed and the tasks run, in order.\<close>

inductive pool_run :: "nat \<Rightarrow> 'task thread_pool \<Rightarrow> 'task list \<Rightarrow> 'task list \<Rightarrow> bool" for n where
  new: "pool_run n (thread_pool_new n) [] []"
| step: "\<lbrakk>pool_run n p pushed did; pool_step p e r p'\<rbrakk> \<Longrightarrow> pool_run n p' (pushed @ pushed_by e) (did @ r)"

section \<open>Invariants\<close>

fun tasks_of :: "'task thread \<Rightarrow> 'task list" where
  "tasks_of (Executing ts) = ts"
| "tasks_of t = []"

definition in_threads :: "'task thread_pool \<Rightarrow> 'task list" where
  "in_threads p = concat (map tasks_of (tp_threads p))"

lemma tasks_wake [simp]: "tasks_of (wake t) = tasks_of t"
  by (cases t) simp_all

lemma list_split_nth: "i < length xs \<Longrightarrow> \<exists>us vs. xs = us @ xs ! i # vs \<and> length us = i"
  by (metis id_take_nth_drop length_take min.absorb4)

lemma in_threads_set:
  assumes "i < length (tp_threads p)"
  shows "\<exists>us vs. in_threads p = us @ tasks_of (tp_threads p ! i) @ vs \<and>
    (\<forall>t. in_threads (set_thread i t p) = us @ tasks_of t @ vs)"
proof -
  obtain us vs where "tp_threads p = us @ tp_threads p ! i # vs" and "length us = i"
    using list_split_nth [OF assms] by blast
  moreover from this have "(tp_threads p)[i := t] = us @ t # vs" for t by (metis list_update_length)
  ultimately have "in_threads p = concat (map tasks_of us) @ tasks_of (tp_threads p ! i) @ concat (map tasks_of vs)"
    and "in_threads (set_thread i t p) = concat (map tasks_of us) @ tasks_of t @ concat (map tasks_of vs)" for t
    by (metis concat.simps(2) concat_append in_threads_def list.simps(9) map_append,
        simp add: in_threads_def set_thread_def)
  then show ?thesis by blast
qed

lemma in_threads_push [simp]: "in_threads (push_task j t p) = in_threads p"
  by (simp add: in_threads_def push_task_def map_update) (metis list_update_id map_update tasks_wake)

lemma in_threads_stop [simp]: "in_threads (stop_pool p) = in_threads p"
  by (simp add: in_threads_def stop_pool_def comp_def)

lemma in_threads_queue [simp]: "in_threads (p\<lparr>tp_task_queue := q\<rparr>) = in_threads p"
  by (simp add: in_threads_def)

definition work :: "'task thread_pool \<Rightarrow> 'task list" where
  "work p = in_threads p @ tp_task_queue p"

lemma thread_step_work:
  assumes i: "i < length (tp_threads p)" and s: "thread_step i p = Some (did, p')"
  shows "mset (work p) = mset did + mset (work p')"
proof -
  obtain us vs where 1: "in_threads p = us @ tasks_of (tp_threads p ! i) @ vs"
    and 2: "\<And>t. in_threads (set_thread i t p) = us @ tasks_of t @ vs"
    using in_threads_set [OF i] by blast
  show ?thesis
    using s 1 by (auto simp: thread_step_def work_def 2 set_thread_def [symmetric] split: thread.splits list.splits if_splits)
      (simp_all add: set_thread_def)
qed

lemma work_push: "work (push_task j t p) = work p @ [t]"
  by (simp add: work_def) (simp add: push_task_def)

lemma work_stop [simp]: "work (stop_pool p) = work p"
  by (simp add: work_def) (simp add: stop_pool_def)

lemma work_spurious:
  assumes "i < length (tp_threads p)" and "tp_threads p ! i = Blocked"
  shows "work (set_thread i Entering p) = work p"
  using in_threads_set [OF assms(1)] assms(2) by (auto simp: work_def set_thread_def)

lemma length_threads:
  "length (tp_threads (push_task j t p)) = length (tp_threads p)"
  "length (tp_threads (stop_pool p)) = length (tp_threads p)"
  "length (tp_threads (set_thread i x p)) = length (tp_threads p)"
  "thread_step i p = Some (did, p') \<Longrightarrow> length (tp_threads p') = length (tp_threads p)"
  by (auto simp: push_task_def stop_pool_def set_thread_def thread_step_def split: thread.splits list.splits if_splits)

text \<open>With one thread the order of the work is the order of pushing.\<close>

lemma thread_step_fifo:
  assumes "tp_threads p = [t]" and "thread_step 0 p = Some (did, p')"
  shows "work p = did @ work p'"
  using assms by (auto simp: thread_step_def work_def in_threads_def set_thread_def
      split: thread.splits list.splits if_splits)

text \<open>
  No task is overlooked: before a stop no thread exits, a thread holding the mutex has seen an empty
  queue, and while a task is queued some thread is awake.
\<close>

fun asleep :: "'task thread \<Rightarrow> bool" where
  "asleep Blocked = True"
| "asleep Exited = True"
| "asleep t = False"

definition pool_inv :: "nat \<Rightarrow> 'task thread_pool \<Rightarrow> bool" where
  "pool_inv n p \<longleftrightarrow> length (tp_threads p) = n \<and>
     (\<not> tp_stop_signal p \<longrightarrow> Exited \<notin> set (tp_threads p) \<and>
        (Deciding \<in> set (tp_threads p) \<longrightarrow> tp_task_queue p = []) \<and>
        (0 < n \<and> tp_task_queue p \<noteq> [] \<longrightarrow> (\<exists>t \<in> set (tp_threads p). \<not> asleep t)))"

lemma deciding_iff [simp]: "deciding t \<longleftrightarrow> t = Deciding"
  by (cases t) simp_all

lemma asleep_iff: "asleep t \<longleftrightarrow> t = Blocked \<or> t = Exited"
  by (cases t) simp_all

lemma lock_free_iff: "lock_free p \<longleftrightarrow> Deciding \<notin> set (tp_threads p)"
  by (auto simp: lock_free_def list_all_iff)

lemma wake_not_asleep: "\<not> asleep t \<Longrightarrow> wake t = t" "t = Blocked \<Longrightarrow> wake t = Entering"
  by (cases t; simp)+

lemma wake_eq_iff: "wake t = Exited \<longleftrightarrow> t = Exited" "wake t = Deciding \<longleftrightarrow> t = Deciding"
  "Exited = wake t \<longleftrightarrow> t = Exited" "Deciding = wake t \<longleftrightarrow> t = Deciding" "asleep (wake t) \<longleftrightarrow> t = Exited"
  by (cases t; simp)+

lemma pool_inv_new: "pool_inv n (thread_pool_new n)"
  by (auto simp: pool_inv_def thread_pool_new_def)

lemma pool_inv_push:
  assumes inv: "pool_inv n p" and lock: "lock_free p"
    and j: "\<forall>k < length (tp_threads p). tp_threads p ! k = Blocked \<longrightarrow>
      j < length (tp_threads p) \<and> tp_threads p ! j = Blocked"
  shows "pool_inv n (push_task j t p)"
proof -
  let ?ts = "(tp_threads p)[j := wake (tp_threads p ! j)]"
  have sub: "x \<in> set ?ts \<Longrightarrow> x \<in> set (tp_threads p) \<or> (\<exists>y \<in> set (tp_threads p). x = wake y)" for x
    by (cases "j < length (tp_threads p)") (auto simp: not_less list_update_beyond dest: set_update_subset_insert [THEN subsetD])
  have awake: "\<exists>x \<in> set ?ts. \<not> asleep x" if n: "0 < n" and ns: "\<not> tp_stop_signal p"
  proof (cases "\<exists>k < length (tp_threads p). tp_threads p ! k = Blocked")
    case True
    then have "j < length (tp_threads p)" "tp_threads p ! j = Blocked" using j by auto
    then have "Entering \<in> set ?ts" by (auto intro!: set_update_memI)
    then show ?thesis by force
  next
    case False
    have l: "0 < length (tp_threads p)" using inv n by (simp add: pool_inv_def)
    then have "tp_threads p ! 0 \<noteq> Blocked" and "tp_threads p ! 0 \<in> set (tp_threads p)" using False by auto
    then have "\<not> asleep (tp_threads p ! 0)" using inv ns by (auto simp: pool_inv_def asleep_iff)
    then have "\<not> asleep (?ts ! 0)" and "0 < length ?ts" using l by (cases "j = 0"; simp add: wake_not_asleep)+
    then show ?thesis by (meson nth_mem)
  qed
  show ?thesis
    unfolding pool_inv_def
  proof (intro conjI impI)
    show "length (tp_threads (push_task j t p)) = n" using inv by (simp add: pool_inv_def length_threads)
    assume "\<not> tp_stop_signal (push_task j t p)"
    then have ns: "\<not> tp_stop_signal p" by (simp add: push_task_def)
    show "Exited \<notin> set (tp_threads (push_task j t p))"
      using inv ns sub [of Exited] by (auto simp: push_task_def pool_inv_def wake_eq_iff)
    show "tp_task_queue (push_task j t p) = []" if "Deciding \<in> set (tp_threads (push_task j t p))"
      using that lock sub [of Deciding] by (auto simp: push_task_def lock_free_iff wake_eq_iff)
    show "\<exists>x \<in> set (tp_threads (push_task j t p)). \<not> asleep x"
      if "0 < n \<and> tp_task_queue (push_task j t p) \<noteq> []"
      using awake that ns by (simp add: push_task_def)
  qed
qed

lemma pool_inv_set:
  assumes inv: "pool_inv n p" and i: "i < length (tp_threads p)" and q: "q = tp_task_queue p \<or> q = []"
    and t: "\<not> tp_stop_signal p \<Longrightarrow> t \<noteq> Exited \<and> (t = Deciding \<longrightarrow> q = []) \<and> (q \<noteq> [] \<longrightarrow> \<not> asleep t)"
  shows "pool_inv n ((set_thread i t p)\<lparr>tp_task_queue := q\<rparr>)"
proof -
  have upd: "x \<in> set ((tp_threads p)[i := t]) \<Longrightarrow> x = t \<or> x \<in> set (tp_threads p)" for x
    by (auto dest: set_update_subset_insert [THEN subsetD])
  have "t \<in> set ((tp_threads p)[i := t])" using i by (simp add: set_update_memI)
  then show ?thesis
    using inv t q upd [of Exited] upd [of Deciding] by (auto simp: pool_inv_def set_thread_def)
qed

lemma pool_inv_thread:
  assumes inv: "pool_inv n p" and i: "i < length (tp_threads p)" and s: "thread_step i p = Some (did, p')"
  shows "pool_inv n p'"
proof -
  have mem: "tp_threads p ! i \<in> set (tp_threads p)" using i by simp
  have keep: "set_thread i t p = (set_thread i t p)\<lparr>tp_task_queue := tp_task_queue p\<rparr>" for t
    by (simp add: set_thread_def)
  have same: "pool_inv n (set_thread i t p)"
    if "\<not> tp_stop_signal p \<Longrightarrow> t \<noteq> Exited \<and> (t = Deciding \<longrightarrow> tp_task_queue p = []) \<and> (tp_task_queue p \<noteq> [] \<longrightarrow> \<not> asleep t)" for t
    by (subst keep) (rule pool_inv_set [OF inv i _ that], simp_all)
  have empty: "tp_threads p ! i = Deciding \<Longrightarrow> \<not> tp_stop_signal p \<Longrightarrow> tp_task_queue p = []"
    using inv mem by (auto simp: pool_inv_def)
  show ?thesis
    using s by (auto simp: thread_step_def split: thread.splits list.splits if_splits
        intro!: same pool_inv_set [OF inv i] dest: empty)
qed

lemma pool_inv_step:
  assumes inv: "pool_inv n p" and s: "pool_step p e did p'"
  shows "pool_inv n p'"
  using s
proof (cases rule: pool_step.cases)
  case (push j t)
  then show ?thesis using pool_inv_push [OF inv] by blast
next
  case stop
  then show ?thesis using inv by (auto simp: pool_inv_def stop_pool_def)
next
  case (thread i)
  then show ?thesis using pool_inv_thread [OF inv] by blast
next
  case (spurious i)
  then have "pool_inv n ((set_thread i Entering p)\<lparr>tp_task_queue := tp_task_queue p\<rparr>)"
    by (intro pool_inv_set [OF inv]) simp_all
  then show ?thesis using spurious by (simp add: set_thread_def)
qed

lemma pool_step_work:
  assumes "pool_step p e did p'"
  shows "mset (work p) + mset (pushed_by e) = mset did + mset (work p')"
  using assms by (cases rule: pool_step.cases) (simp_all add: work_push thread_step_work work_spurious)

lemma pool_run_inv:
  assumes "pool_run n p pushed did"
  shows "pool_inv n p \<and> mset pushed = mset did + mset (work p)"
  using assms
proof (induction rule: pool_run.induct)
  case new
  have "work (thread_pool_new n) = []"
    by (induction n) (simp_all add: work_def in_threads_def thread_pool_new_def)
  then show ?case by (simp add: pool_inv_new)
next
  case (step p pushed did e r p')
  then have "pool_inv n p'" using pool_inv_step by blast
  with step show ?case using pool_step_work [OF step.hyps(2)] by (simp add: ac_simps)
qed

lemma pool_run_fifo:
  assumes "pool_run 1 p pushed did"
  shows "pushed = did @ work p"
  using assms
proof (induction rule: pool_run.induct)
  case new
  show ?case by (simp add: work_def in_threads_def thread_pool_new_def)
next
  case (step p pushed did e r p')
  have one: "length (tp_threads p) = 1" using pool_run_inv [OF step.hyps(1)] by (simp add: pool_inv_def)
  then obtain t where t: "tp_threads p = [t]" by (auto simp: length_Suc_conv)
  have "work p @ pushed_by e = r @ work p'"
    using step.hyps(2)
    by (cases rule: pool_step.cases) (auto simp: work_push t work_spurious dest: thread_step_fifo [OF t])
  then show ?case using step.IH by simp
qed

section \<open>The threads come to rest\<close>

fun thread_weight :: "bool \<Rightarrow> 'task thread \<Rightarrow> nat" where
  "thread_weight stopped Looping = (if stopped then 1 else 3)"
| "thread_weight stopped Entering = (if stopped then 4 else 2)"
| "thread_weight stopped Deciding = 1"
| "thread_weight stopped Blocked = 0"
| "thread_weight stopped (Executing ts) = (if stopped then 2 else 4) + length ts"
| "thread_weight stopped Exited = 0"

definition pool_weight :: "'task thread_pool \<Rightarrow> nat" where
  "pool_weight p = sum_list (map (thread_weight (tp_stop_signal p)) (tp_threads p)) + 4 * length (tp_task_queue p)"

lemma sum_list_set:
  fixes xs :: "nat list"
  shows "i < length xs \<Longrightarrow> sum_list (xs[i := y]) + xs ! i = sum_list xs + y"
  by (induction xs arbitrary: i) (auto split: nat.splits)

lemma weight_set:
  assumes "i < length (tp_threads p)"
  shows "pool_weight (set_thread i t p) + thread_weight (tp_stop_signal p) (tp_threads p ! i) =
    pool_weight p + thread_weight (tp_stop_signal p) t"
  using sum_list_set [of i "map (thread_weight (tp_stop_signal p)) (tp_threads p)"] assms
  by (simp add: pool_weight_def set_thread_def map_update)

lemma thread_step_weight:
  assumes i: "i < length (tp_threads p)" and s: "thread_step i p = Some (did, p')"
  shows "pool_weight p' < pool_weight p"
proof -
  have queue: "pool_weight (q\<lparr>tp_task_queue := []\<rparr>) + 4 * length (tp_task_queue q) = pool_weight q" for q :: "'a thread_pool"
    by (simp add: pool_weight_def)
  show ?thesis
  proof (cases "tp_threads p ! i")
    case Looping
    then show ?thesis
      using s weight_set [OF i, of "if tp_stop_signal p then Exited else Entering"]
      by (auto simp: thread_step_def split: if_splits)
  next
    case Entering
    let ?q = "set_thread i (Executing (tp_task_queue p)) p"
    have "pool_weight (?q\<lparr>tp_task_queue := []\<rparr>) < pool_weight p" if "tp_stop_signal p \<or> tp_task_queue p \<noteq> []"
      using weight_set [OF i, of "Executing (tp_task_queue p)"] queue [of ?q] that Entering
      by (cases "tp_task_queue p") (auto simp: set_thread_def split: if_splits)
    then show ?thesis
      using s Entering weight_set [OF i, of Deciding] by (auto simp: thread_step_def split: if_splits)
  next
    case Deciding
    then show ?thesis using s weight_set [OF i, of Blocked] by (auto simp: thread_step_def)
  next
    case (Executing ts)
    then show ?thesis
      using s weight_set [OF i, of Looping] weight_set [OF i, of "Executing (tl ts)"]
      by (cases ts) (auto simp: thread_step_def split: if_splits)
  qed (use s in \<open>simp_all add: thread_step_def\<close>)
qed

section \<open>Properties\<close>

text \<open>Pushing to the pool of one thread, as the loop threads do.\<close>

lemma settle_facts:
  assumes "pool_inv 1 p" and "\<not> tp_stop_signal p"
  shows "pool_inv 1 (settle p)" and "lock_free (settle p)" and "in_threads (settle p) = in_threads p"
    and "tp_stop_signal (settle p) = tp_stop_signal p" and "work (settle p) = work p"
proof -
  obtain t where t: "tp_threads p = [t]" using assms(1) by (auto simp: pool_inv_def length_Suc_conv)
  show "pool_inv 1 (settle p)" using assms t by (auto simp: pool_inv_def settle_def)
  show "lock_free (settle p)" by (simp add: lock_free_iff settle_def t)
  show "in_threads (settle p) = in_threads p" by (simp add: in_threads_def settle_def t)
  then show "work (settle p) = work p" by (simp add: work_def) (simp add: settle_def)
  show "tp_stop_signal (settle p) = tp_stop_signal p" by (simp add: settle_def)
qed

lemma pool_push:
  assumes "pool_inv 1 p" and "\<not> tp_stop_signal p"
  shows "pool_inv 1 (push_task 0 t (settle p))" and "\<not> tp_stop_signal (push_task 0 t (settle p))"
    and "work (push_task 0 t (settle p)) = work p @ [t]" and "in_threads (push_task 0 t (settle p)) = in_threads p"
proof -
  note s = settle_facts [OF assms]
  have "length (tp_threads (settle p)) = 1" using s(1) by (simp add: pool_inv_def)
  then show "pool_inv 1 (push_task 0 t (settle p))" using s(2) by (intro pool_inv_push [OF s(1)]) auto
  show "\<not> tp_stop_signal (push_task 0 t (settle p))" using assms(2) s(4) by (simp add: push_task_def)
  show "work (push_task 0 t (settle p)) = work p @ [t]" by (simp add: work_push s(5))
  show "in_threads (push_task 0 t (settle p)) = in_threads p" by (simp add: s(3))
qed

text \<open>
  C18: Every task is run exactly once and in order.  However many threads the pool has and however
  they interleave with pushes, stops and spurious wake-ups, the tasks pushed are, counted with
  multiplicity, the tasks run, those a thread still holds and those queued; with the single thread
  of the server they are run in the order of pushing.
\<close>

theorem tasks_run_once_in_order:
  assumes "pool_run n p pushed did"
  shows "mset pushed = mset did + mset (in_threads p) + mset (tp_task_queue p) \<and>
    (n = 1 \<longrightarrow> pushed = did @ in_threads p @ tp_task_queue p)"
  using pool_run_inv [OF assms] pool_run_fifo [of p pushed did] assms by (auto simp: work_def)

text \<open>The threads move by themselves.\<close>

inductive threads_run :: "'task thread_pool \<Rightarrow> 'task list \<Rightarrow> 'task thread_pool \<Rightarrow> bool" where
  rest: "threads_run p [] p"
| move: "\<lbrakk>i < length (tp_threads p); thread_step i p = Some (did, p1); threads_run p1 rest p2\<rbrakk> \<Longrightarrow>
    threads_run p (did @ rest) p2"

definition at_rest :: "'task thread_pool \<Rightarrow> bool" where
  "at_rest p \<longleftrightarrow> (\<forall>i < length (tp_threads p). thread_step i p = None)"

lemma at_rest_asleep:
  assumes "at_rest p"
  shows "\<forall>t \<in> set (tp_threads p). asleep t"
proof -
  have stuck: "i < length (tp_threads p) \<Longrightarrow> thread_step i p = None" for i using assms by (simp add: at_rest_def)
  have "tp_threads p ! i \<noteq> Deciding" if "i < length (tp_threads p)" for i
    using stuck [OF that] by (auto simp: thread_step_def)
  then have lock: "lock_free p" by (auto simp: lock_free_iff in_set_conv_nth)
  have "asleep (tp_threads p ! i)" if "i < length (tp_threads p)" for i
    using stuck [OF that] lock
    by (auto simp: thread_step_def split: thread.splits list.splits if_splits)
  then show ?thesis by (auto simp: in_set_conv_nth)
qed

lemma threads_run_work:
  assumes "threads_run p did p'"
  shows "mset (work p) = mset did + mset (work p')"
  using assms by (induction rule: threads_run.induct) (auto dest: thread_step_work)

lemma threads_run_inv:
  assumes "threads_run p did p'" and "pool_inv n p"
  shows "pool_inv n p' \<and> tp_stop_signal p' = tp_stop_signal p"
  using assms
proof (induction rule: threads_run.induct)
  case (move i p did p1 rest p2)
  then have "tp_stop_signal p1 = tp_stop_signal p"
    by (auto simp: thread_step_def set_thread_def split: thread.splits list.splits if_splits)
  with move show ?case using pool_inv_thread by blast
qed simp

lemma threads_come_to_rest: "\<exists>did p'. threads_run p did p' \<and> at_rest p'"
proof (induction "pool_weight p" arbitrary: p rule: less_induct)
  case less
  show ?case
  proof (cases "at_rest p")
    case True
    then show ?thesis using threads_run.rest by blast
  next
    case False
    then obtain i did p1 where i: "i < length (tp_threads p)" and s: "thread_step i p = Some (did, p1)"
      by (auto simp: at_rest_def)
    from less [OF thread_step_weight [OF i s]] threads_run.move [OF i s] show ?thesis by blast
  qed
qed

lemma rest_is_done:
  assumes "pool_inv n p" and "at_rest p" and "0 < n" and "\<not> tp_stop_signal p"
  shows "work p = []"
proof -
  note sleep = at_rest_asleep [OF assms(2)]
  have "tp_task_queue p = []" using assms sleep by (auto simp: pool_inv_def)
  moreover have "tasks_of t = []" if "t \<in> set (tp_threads p)" for t
    using sleep that by (cases t) auto
  ultimately show ?thesis by (auto simp: work_def in_threads_def)
qed

text \<open>
  C19: The pool drains.  From every state of a pool that has a thread and was not stopped, the threads
  alone come to rest after finitely many steps, whatever the scheduler chooses: each of their steps
  decreases a measure.  At rest every task pushed so far has been run exactly once.
\<close>

theorem pool_drains:
  assumes "pool_run n p pushed did" and "0 < n" and "\<not> tp_stop_signal p"
  shows "(\<exists>more p'. threads_run p more p' \<and> at_rest p') \<and>
    (\<forall>more p'. threads_run p more p' \<and> at_rest p' \<longrightarrow> mset pushed = mset (did @ more)) \<and>
    (\<forall>i < length (tp_threads p). \<forall>r q. thread_step i p = Some (r, q) \<longrightarrow> pool_weight q < pool_weight p)"
proof (intro conjI)
  show "\<exists>more p'. threads_run p more p' \<and> at_rest p'" by (rule threads_come_to_rest)
  have inv: "pool_inv n p" and work: "mset pushed = mset did + mset (work p)"
    using pool_run_inv [OF assms(1)] by auto
  show "\<forall>more p'. threads_run p more p' \<and> at_rest p' \<longrightarrow> mset pushed = mset (did @ more)"
  proof (intro allI impI, elim conjE)
    fix more p'
    assume run: "threads_run p more p'" and rest: "at_rest p'"
    have "pool_inv n p'" and "\<not> tp_stop_signal p'" using threads_run_inv [OF run inv] assms(3) by auto
    then have "work p' = []" using rest_is_done [OF _ rest assms(2)] by blast
    then show "mset pushed = mset (did @ more)" using work threads_run_work [OF run] by simp
  qed
qed (use thread_step_weight in blast)

text \<open>A pool of one thread that is pushed a task and swaps it out.\<close>

lemma sample_pool_run:
  "pool_run 1 \<lparr>tp_stop_signal = False, tp_task_queue = [''b''], tp_threads = [Executing [''a'']]\<rparr> [''a'', ''b''] []"
proof -
  have 1: "pool_run 1 \<lparr>tp_stop_signal = False, tp_task_queue = [], tp_threads = [Entering]\<rparr> [] []"
    using pool_run.step [OF pool_run.new, where n = 1 and e = "Thread 0" and r = "[]"]
    by (simp add: pool_step_simps thread_pool_new_def thread_step_def set_thread_def)
  have 2: "pool_run 1 \<lparr>tp_stop_signal = False, tp_task_queue = [''a''], tp_threads = [Entering]\<rparr> [''a''] []"
    using pool_run.step [OF 1, where e = "Push 0 ''a''" and r = "[]"]
    by (simp add: pool_step_simps push_task_def lock_free_def)
  have 3: "pool_run 1 \<lparr>tp_stop_signal = False, tp_task_queue = [], tp_threads = [Executing [''a'']]\<rparr> [''a''] []"
    using pool_run.step [OF 2, where e = "Thread 0" and r = "[]"]
    by (simp add: pool_step_simps thread_step_def set_thread_def lock_free_def)
  show ?thesis
    using pool_run.step [OF 3, where e = "Push 0 ''b''" and r = "[]"]
    by (simp add: pool_step_simps push_task_def lock_free_def)
qed

theorem tasks_run_once_in_order_witness:
  "\<exists>p. pool_run 1 p [''a'', ''b''] [] \<and> in_threads p = [''a''] \<and>
     mset [''a'', ''b''] = mset [] + mset (in_threads p) + mset (tp_task_queue p) \<and>
     [''a'', ''b''] = [] @ in_threads p @ tp_task_queue p"
proof -
  let ?p = "\<lparr>tp_stop_signal = False, tp_task_queue = [''b''], tp_threads = [Executing [''a'']]\<rparr>"
  have held: "in_threads ?p = [''a'']" by (simp add: in_threads_def)
  have "mset [''a'', ''b''] = mset [] + mset (in_threads ?p) + mset (tp_task_queue ?p)"
    "[''a'', ''b''] = [] @ in_threads ?p @ tp_task_queue ?p"
    using tasks_run_once_in_order [OF sample_pool_run] by blast+
  with held sample_pool_run show ?thesis by blast
qed

theorem pool_drains_witness:
  "\<exists>more p'. threads_run \<lparr>tp_stop_signal = False, tp_task_queue = [''b''], tp_threads = [Executing [''a'']]\<rparr> more p' \<and>
     at_rest p' \<and> mset [''a'', ''b''] = mset more"
  using pool_drains [OF sample_pool_run] by auto

text \<open>
  C25: Stopping can hang.  \<open>stop\<close> sets the signal and notifies without holding the mutex, so its
  notification can fall between a thread's test of the predicate and its blocking: a pool of one
  thread reaches a state where it has been stopped, the thread is blocked for good and \<open>join\<close> waits
  forever; nothing but a spurious wake-up or a further push changes that state.
\<close>

theorem stop_can_hang:
  "\<exists>p. pool_run 1 p [] [] \<and> tp_stop_signal p \<and> tp_threads p = [Blocked] \<and>
     (\<nexists>e did p'. pool_step p e did p' \<and> p' \<noteq> p \<and> (\<forall>j t. e \<noteq> Push j t) \<and> (\<forall>i. e \<noteq> Spurious i))"
proof -
  have 1: "pool_run 1 \<lparr>tp_stop_signal = False, tp_task_queue = [], tp_threads = [Entering]\<rparr> [] []"
    using pool_run.step [OF pool_run.new, where n = 1 and e = "Thread 0" and r = "[]"]
    by (simp add: pool_step_simps thread_pool_new_def thread_step_def set_thread_def)
  have 2: "pool_run 1 \<lparr>tp_stop_signal = False, tp_task_queue = [], tp_threads = [Deciding]\<rparr> [] []"
    using pool_run.step [OF 1, where e = "Thread 0" and r = "[]"]
    by (simp add: pool_step_simps thread_step_def set_thread_def lock_free_def)
  have 3: "pool_run 1 \<lparr>tp_stop_signal = True, tp_task_queue = [], tp_threads = [Deciding]\<rparr> [] []"
    using pool_run.step [OF 2, where e = Stop and r = "[]"] by (simp add: pool_step_simps stop_pool_def)
  have 4: "pool_run 1 \<lparr>tp_stop_signal = True, tp_task_queue = [], tp_threads = [Blocked]\<rparr> [] []"
    using pool_run.step [OF 3, where e = "Thread 0" and r = "[]"]
    by (simp add: pool_step_simps thread_step_def set_thread_def)
  show ?thesis
    by (rule exI, intro conjI, rule 4)
      (auto simp: stop_pool_def thread_step_def elim!: pool_stepE)
qed

end
