(* ===== verification/Protocol.thy ===== *)
theory Protocol
  imports Route Queue_Message Registry
begin

text \<open>
  The messages clients and server exchange, \<open>HareMQ/mqcommon/protocol.proto\<close>, and \<open>map_helper\<close> of
  \<open>HareMQ/mqcommon/helper.hpp\<close>.  The message types a dispatcher tells apart are the constructors of
  one type; \<open>OtherMessage\<close> stands for every type no callback is registered for.
\<close>

section \<open>Requests and responses\<close>

datatype request =
  OpenChannelRequest (rq_rid: string) (rq_cid: string)
| CloseChannelRequest (rq_rid: string) (rq_cid: string)
| DeclareExchangeRequest (rq_rid: string) (rq_cid: string) string ExchangeType bool bool "(string \<times> string) list"
    \<comment> \<open>exchange_name, exchange_type, durable, auto_delete, args\<close>
| DeleteExchangeRequest (rq_rid: string) (rq_cid: string) string
| DeclareQueueRequest (rq_rid: string) (rq_cid: string) string bool bool bool "(string \<times> string) list"
    \<comment> \<open>queue_name, exclusive, durable, auto_delete, args\<close>
| DeleteQueueRequest (rq_rid: string) (rq_cid: string) string
| BindRequest (rq_rid: string) (rq_cid: string) string string string
    \<comment> \<open>exchange_name, queue_name, binding_key\<close>
| UnbindRequest (rq_rid: string) (rq_cid: string) string string
| BasicPublishRequest (rq_rid: string) (rq_cid: string) string string "BasicProperties option"
    \<comment> \<open>exchange_name, body, properties\<close>
| BasicAckRequest (rq_rid: string) (rq_cid: string) string string \<comment> \<open>queue_name, message_id\<close>
| BasicConsumeRequest (rq_rid: string) (rq_cid: string) string string bool
    \<comment> \<open>consumer_tag, queue_name, auto_ack\<close>
| BasicCancelRequest (rq_rid: string) (rq_cid: string) string string \<comment> \<open>consumer_tag, queue_name\<close>
| BasicQueryRequest (rq_rid: string) (rq_cid: string)
| OtherMessage string

datatype response =
  BasicCommonResponse (rs_rid: string) (rs_cid: string) (rs_ok: bool)
| BasicConsumeResponse (rs_cid: string) (rs_consumer_tag: string) (rs_body: string)
    (rs_properties: "BasicProperties option")
| BasicQueryResponse (rs_rid: string) (rs_cid: string) (rs_body: string)

text \<open>Responses that answer a request, and messages pushed on a channel.\<close>

fun is_answer :: "response \<Rightarrow> bool" where
  "is_answer (BasicConsumeResponse cid tag body bp) = False"
| "is_answer r = True"

fun push_for :: "string \<Rightarrow> response \<Rightarrow> bool" where
  "push_for cid (BasicConsumeResponse cid' tag body bp) \<longleftrightarrow> cid' = cid"
| "push_for cid r \<longleftrightarrow> False"

lemma not_answer: "\<not> is_answer resp \<Longrightarrow> push_for cid resp \<longleftrightarrow> cid = rs_cid resp"
  by (cases resp) auto

lemma push_not_answer: "push_for cid resp \<Longrightarrow> \<not> is_answer resp"
  by (cases resp) simp_all

section \<open>Maps\<close>

definition convert_map :: "(string \<times> string) list \<Rightarrow> arg_map" where
  "convert_map m = foldl (\<lambda>out kv. um_put (fst kv) (snd kv) out) [] m"

definition ConvertProtoMapToStdMap :: "(string \<times> string) list \<Rightarrow> arg_map" where
  "ConvertProtoMapToStdMap proto_map = convert_map proto_map"

definition ConvertStdMapToProtoMap :: "arg_map \<Rightarrow> (string \<times> string) list" where
  "ConvertStdMapToProtoMap std_map = convert_map std_map"

lemma foldl_put_find:
  assumes "um_wf m"
  shows "map_of (foldl (\<lambda>out kv. um_put (fst kv) (snd kv) out) out m) k =
    (case map_of m k of None \<Rightarrow> map_of out k | Some v \<Rightarrow> Some v)"
  using assms
proof (induction m arbitrary: out)
  case (Cons kv m)
  then show ?case by (cases kv) (auto simp: um_find_put split: option.split)
qed simp

lemma convert_map_find: "um_wf m \<Longrightarrow> map_of (convert_map m) k = map_of m k"
  by (simp add: convert_map_def foldl_put_find split: option.split)

lemma convert_map_wf: "um_wf (convert_map m)"
proof -
  have "um_wf out \<Longrightarrow> um_wf (foldl (\<lambda>out kv. um_put (fst kv) (snd kv) out) out m)" for out
    by (induction m arbitrary: out) (simp_all add: um_wf_put)
  then show ?thesis by (simp add: convert_map_def)
qed

text \<open>
  Converting a map of arguments to the one of a protobuf message and back keeps every entry
  and invents none.
\<close>

theorem map_conversion_round_trip:
  assumes "um_wf m"
  shows "map_of (ConvertProtoMapToStdMap (ConvertStdMapToProtoMap m)) = map_of m \<and>
    um_wf (ConvertProtoMapToStdMap (ConvertStdMapToProtoMap m))"
  using convert_map_find [OF assms] convert_map_find [OF convert_map_wf [of m]] convert_map_wf
  by (auto simp: ConvertProtoMapToStdMap_def ConvertStdMapToProtoMap_def)

theorem map_conversion_round_trip_witness:
  "map_of (ConvertProtoMapToStdMap (ConvertStdMapToProtoMap [(''a'', ''1''), (''b'', ''2'')])) ''b'' = Some ''2''"
  using map_conversion_round_trip [of "[(''a'', ''1''), (''b'', ''2'')]"] by simp

end
