(* ===== verification/Channel.thy ===== *)
theory Channel
  imports Virtual_Host Consumer Thread_Pool Protocol
begin

text \<open>
  \<open>HareMQ/mqserver/channel.hpp\<close>: a channel turns each request into calls of the host, the consumers
  and the thread pool, and answers it.  Channels are objects with an address: tasks and callbacks
  hold the raw \<open>this\<close> of the channel that made them, so a call through the address of a destroyed
  channel is \<open>Undefined\<close>.  What the channels share, which the code reaches through shared pointers,
  is the state \<open>server\<close>.
\<close>

section \<open>State\<close>

type_synonym addr = nat
type_synonym conn = nat \<comment> \<open>the identity of a \<open>TcpConnection\<close>\<close>

record channel =
  ch_cid :: string
  ch_consumer :: "addr consumer option"
  ch_conn :: conn

datatype task = Consume addr string \<comment> \<open>\<open>std::bind(&channel::consume, this, qname)\<close>\<close>

datatype outgoing = Send conn response | Shutdown conn

text \<open>How far the worker is in \<open>consume\<close>, the first of the tasks it holds.\<close>

datatype job =
  Fresh
| Fetched message
| Chosen message "addr consumer"
| Delivered message "addr consumer"

record 'db server =
  sv_host :: "'db hosted"
  sv_consumers :: "addr consumers"
  sv_pool :: "task thread_pool"
  sv_job :: job
  sv_objects :: "channel option list" \<comment> \<open>the channels by address, \<open>None\<close> when destroyed\<close>
  sv_out :: "outgoing list" \<comment> \<open>what the codec was told to send, in order\<close>

definition deref_channel :: "addr \<Rightarrow> 'db server \<Rightarrow> channel result" where
  "deref_channel this b =
     (if this < length (sv_objects b)
      then (case sv_objects b ! this of None \<Rightarrow> Inl Undefined | Some ch \<Rightarrow> Inr ch)
      else Inl Undefined)"

definition send :: "conn \<Rightarrow> response \<Rightarrow> 'db server \<Rightarrow> 'db server" where
  "send c r b = b\<lparr>sv_out := sv_out b @ [Send c r]\<rparr>"

definition basic_response :: "conn \<Rightarrow> bool \<Rightarrow> string \<Rightarrow> string \<Rightarrow> 'db server \<Rightarrow> 'db server" where
  "basic_response c ok rid cid b = send c (BasicCommonResponse rid cid ok) b"

section \<open>Pushing messages to subscribers\<close>

text \<open>
  \<open>consume\<close> runs in the worker thread while the loop thread handles requests: each of its calls into
  the shared state is a step of its own.
\<close>

definition consume_front :: "addr \<Rightarrow> string \<Rightarrow> 'db server \<Rightarrow> (message option \<times> 'db server) result" where
  "consume_front this qname b =
     rbind (deref_channel this b) (\<lambda>ch.
       case vh_basic_consume qname (sv_host b) of (mp, h) \<Rightarrow> Inr (mp, b\<lparr>sv_host := h\<rparr>))"

definition consume_choose :: "addr \<Rightarrow> string \<Rightarrow> 'db server \<Rightarrow> (addr consumer option \<times> 'db server) result" where
  "consume_choose this qname b =
     rbind (deref_channel this b) (\<lambda>ch.
     rbind (cm_choose qname (sv_consumers b)) (\<lambda>(cp, m). Inr (cp, b\<lparr>sv_consumers := m\<rparr>)))"

definition consume_cb ::
  "addr \<Rightarrow> string \<Rightarrow> BasicProperties option \<Rightarrow> string \<Rightarrow> 'db server \<Rightarrow> 'db server result" where
  "consume_cb this tag bp body b =
     rbind (deref_channel this b) (\<lambda>ch.
       let props = (case bp of
             None \<Rightarrow> None
           | Some p \<Rightarrow> Some (default_properties\<lparr>bp_id := bp_id p, bp_delivery_mode := bp_delivery_mode p,
               bp_routing_key := bp_routing_key p\<rparr>))
       in Inr (send (ch_conn ch) (BasicConsumeResponse (ch_cid ch) tag body props) b))"

definition consume_deliver :: "message \<Rightarrow> addr consumer \<Rightarrow> 'db server \<Rightarrow> 'db server result" where
  "consume_deliver mp cp b =
     consume_cb (cs_callback cp) (cs_tag cp) (Some (properties (msg_payload mp))) (pl_body (msg_payload mp)) b"

definition consume_ack ::
  "'db libs \<Rightarrow> addr \<Rightarrow> string \<Rightarrow> message \<Rightarrow> addr consumer \<Rightarrow> 'db server \<Rightarrow> 'db server result" where
  "consume_ack L this qname mp cp b =
     (if cs_auto_ack cp
      then rbind (deref_channel this b) (\<lambda>ch.
           rbind (vh_basic_ack L qname (bp_id (properties (msg_payload mp))) (sv_host b)) (\<lambda>h.
             Inr (b\<lparr>sv_host := h\<rparr>)))
      else Inr b)"

text \<open>The next step of the task; the flag tells that it has returned.\<close>

definition consume_step :: "'db libs \<Rightarrow> addr \<Rightarrow> string \<Rightarrow> 'db server \<Rightarrow> (bool \<times> 'db server) result" where
  "consume_step L this qname b =
     (case sv_job b of
        Fresh \<Rightarrow> rbind (consume_front this qname b) (\<lambda>(mp, b1).
          case mp of None \<Rightarrow> Inr (True, b1) | Some m \<Rightarrow> Inr (False, b1\<lparr>sv_job := Fetched m\<rparr>))
      | Fetched mp \<Rightarrow> rbind (consume_choose this qname b) (\<lambda>(cp, b1).
          case cp of None \<Rightarrow> Inr (True, b1) | Some c \<Rightarrow> Inr (False, b1\<lparr>sv_job := Chosen mp c\<rparr>))
      | Chosen mp cp \<Rightarrow> rbind (consume_deliver mp cp b) (\<lambda>b1. Inr (False, b1\<lparr>sv_job := Delivered mp cp\<rparr>))
      | Delivered mp cp \<Rightarrow> rbind (consume_ack L this qname mp cp b) (\<lambda>b1. Inr (True, b1)))"

section \<open>Requests\<close>

text \<open>The handlers of a channel that exists, \<open>ch\<close> at the address \<open>this\<close>.\<close>

definition push_consume :: "addr \<Rightarrow> string \<Rightarrow> 'db server \<Rightarrow> 'db server" where
  "push_consume this qname b = b\<lparr>sv_pool := push_task 0 (Consume this qname) (settle (sv_pool b))\<rparr>"

definition ch_declare_exchange ::
  "'db libs \<Rightarrow> channel \<Rightarrow> string \<Rightarrow> string \<Rightarrow> string \<Rightarrow> ExchangeType \<Rightarrow> bool \<Rightarrow> bool \<Rightarrow> (string \<times> string) list \<Rightarrow>
     'db server \<Rightarrow> 'db server result" where
  "ch_declare_exchange L ch rid cid exchange_name type durable auto_delete args b =
     rbind (vh_declare_exchange L exchange_name type durable auto_delete (ConvertProtoMapToStdMap args) (sv_host b))
       (\<lambda>(res, h). Inr (basic_response (ch_conn ch) res rid cid (b\<lparr>sv_host := h\<rparr>)))"

definition ch_delete_exchange ::
  "'db libs \<Rightarrow> channel \<Rightarrow> string \<Rightarrow> string \<Rightarrow> string \<Rightarrow> 'db server \<Rightarrow> 'db server result" where
  "ch_delete_exchange L ch rid cid exchange_name b =
     rbind (vh_delete_exchange L exchange_name (sv_host b)) (\<lambda>h.
       Inr (basic_response (ch_conn ch) True rid cid (b\<lparr>sv_host := h\<rparr>)))"

definition ch_declare_queue ::
  "'db libs \<Rightarrow> channel \<Rightarrow> string \<Rightarrow> string \<Rightarrow> string \<Rightarrow> bool \<Rightarrow> bool \<Rightarrow> bool \<Rightarrow> (string \<times> string) list \<Rightarrow>
     'db server \<Rightarrow> 'db server result" where
  "ch_declare_queue L ch rid cid queue_name exclusive durable auto_delete args b =
     rbind (vh_declare_queue L queue_name durable exclusive auto_delete (ConvertProtoMapToStdMap args) (sv_host b))
       (\<lambda>(ret, h). let b1 = b\<lparr>sv_host := h\<rparr> in
          if \<not> ret then Inr (basic_response (ch_conn ch) False rid cid b1)
          else Inr (basic_response (ch_conn ch) True rid cid
            (b1\<lparr>sv_consumers := init_queue_consumer queue_name (sv_consumers b1)\<rparr>)))"

definition ch_delete_queue ::
  "'db libs \<Rightarrow> channel \<Rightarrow> string \<Rightarrow> string \<Rightarrow> string \<Rightarrow> 'db server \<Rightarrow> 'db server result" where
  "ch_delete_queue L ch rid cid queue_name b =
     (let b1 = b\<lparr>sv_consumers := destroy_queue_consumer queue_name (sv_consumers b)\<rparr> in
      rbind (vh_delete_queue L queue_name (sv_host b1)) (\<lambda>h.
        Inr (basic_response (ch_conn ch) True rid cid (b1\<lparr>sv_host := h\<rparr>))))"

definition ch_bind ::
  "'db libs \<Rightarrow> channel \<Rightarrow> string \<Rightarrow> string \<Rightarrow> string \<Rightarrow> string \<Rightarrow> string \<Rightarrow> 'db server \<Rightarrow> 'db server result" where
  "ch_bind L ch rid cid exchange_name queue_name binding_key b =
     rbind (vh_bind L exchange_name queue_name binding_key (sv_host b)) (\<lambda>(ret, h).
       Inr (basic_response (ch_conn ch) ret rid cid (b\<lparr>sv_host := h\<rparr>)))"

definition ch_unbind ::
  "'db libs \<Rightarrow> channel \<Rightarrow> string \<Rightarrow> string \<Rightarrow> string \<Rightarrow> string \<Rightarrow> 'db server \<Rightarrow> 'db server result" where
  "ch_unbind L ch rid cid exchange_name queue_name b =
     rbind (vh_unbind L exchange_name queue_name (sv_host b)) (\<lambda>h.
       Inr (basic_response (ch_conn ch) True rid cid (b\<lparr>sv_host := h\<rparr>)))"

text \<open>
  The loop over the bindings of the exchange.  \<open>uuids q\<close> is the identifier the generator returns while
  the message for queue \<open>q\<close> is made; it is used only for a message without properties.
\<close>

fun publish_loop ::
  "'db libs \<Rightarrow> (string \<Rightarrow> string) \<Rightarrow> addr \<Rightarrow> ExchangeType \<Rightarrow> string \<Rightarrow> BasicProperties option \<Rightarrow> string \<Rightarrow>
     msg_queue_binding_map \<Rightarrow> 'db server \<Rightarrow> 'db server" where
  "publish_loop L uuids this type routing_key bp body [] b = b"
| "publish_loop L uuids this type routing_key bp body ((q, e) # es) b =
     (if route (lb_split L) type routing_key (bd_binding_key e)
      then (case vh_basic_publish L (uuids q) q bp body (sv_host b) of (ok, h) \<Rightarrow>
        publish_loop L uuids this type routing_key bp body es (push_consume this q (b\<lparr>sv_host := h\<rparr>)))
      else publish_loop L uuids this type routing_key bp body es b)"

definition ch_basic_publish ::
  "'db libs \<Rightarrow> (string \<Rightarrow> string) \<Rightarrow> addr \<Rightarrow> channel \<Rightarrow> string \<Rightarrow> string \<Rightarrow> string \<Rightarrow> string \<Rightarrow> BasicProperties option \<Rightarrow>
     'db server \<Rightarrow> 'db server result" where
  "ch_basic_publish L uuids this ch rid cid exchange_name body bp b =
     (let host = fst (sv_host b) in
      case vh_select_exchange exchange_name host of
        None \<Rightarrow> Inr (basic_response (ch_conn ch) False rid cid b)
      | Some ep \<Rightarrow>
          let mqbm = vh_exchange_bindings exchange_name host;
              routing_key = (case bp of None \<Rightarrow> '''' | Some p \<Rightarrow> bp_routing_key p)
          in Inr (basic_response (ch_conn ch) True rid cid
               (publish_loop L uuids this (ex_type ep) routing_key bp body mqbm b)))"

definition ch_basic_ack ::
  "'db libs \<Rightarrow> channel \<Rightarrow> string \<Rightarrow> string \<Rightarrow> string \<Rightarrow> string \<Rightarrow> 'db server \<Rightarrow> 'db server result" where
  "ch_basic_ack L ch rid cid queue_name message_id b =
     rbind (vh_basic_ack L queue_name message_id (sv_host b)) (\<lambda>h.
       Inr (basic_response (ch_conn ch) True rid cid (b\<lparr>sv_host := h\<rparr>)))"

definition ch_basic_consume ::
  "addr \<Rightarrow> channel \<Rightarrow> string \<Rightarrow> string \<Rightarrow> string \<Rightarrow> string \<Rightarrow> bool \<Rightarrow> 'db server \<Rightarrow> 'db server result" where
  "ch_basic_consume this ch rid cid consumer_tag queue_name auto_ack b =
     (if \<not> vh_exists_queue queue_name (fst (sv_host b)) then Inr (basic_response (ch_conn ch) False rid cid b)
      else case cm_create consumer_tag queue_name auto_ack this (sv_consumers b) of (c, m) \<Rightarrow>
        Inr (basic_response (ch_conn ch) True rid cid
          (b\<lparr>sv_consumers := m, sv_objects := (sv_objects b)[this := Some (ch\<lparr>ch_consumer := c\<rparr>)]\<rparr>)))"

definition ch_basic_cancel ::
  "channel \<Rightarrow> string \<Rightarrow> string \<Rightarrow> string \<Rightarrow> string \<Rightarrow> 'db server \<Rightarrow> 'db server result" where
  "ch_basic_cancel ch rid cid consumer_tag queue_name b =
     Inr (basic_response (ch_conn ch) False rid cid
       (b\<lparr>sv_consumers := cm_remove consumer_tag queue_name (sv_consumers b)\<rparr>))"

definition ch_basic_query :: "channel \<Rightarrow> string \<Rightarrow> 'db server \<Rightarrow> 'db server result" where
  "ch_basic_query ch rid b =
     rbind (vh_basic_query (fst (sv_host b))) (\<lambda>ret.
       Inr (send (ch_conn ch) (BasicQueryResponse rid (ch_cid ch) ret) b))"

section \<open>Lifetime\<close>

definition channel_new :: "string \<Rightarrow> conn \<Rightarrow> channel" where
  "channel_new cid conn = \<lparr>ch_cid = cid, ch_consumer = None, ch_conn = conn\<rparr>"

text \<open>The destructor, and the end of the object.\<close>

definition destroy_channel :: "addr \<Rightarrow> 'db server \<Rightarrow> 'db server result" where
  "destroy_channel this b =
     rbind (deref_channel this b) (\<lambda>ch.
       let m = (case ch_consumer ch of
           None \<Rightarrow> sv_consumers b
         | Some c \<Rightarrow> cm_remove (cs_tag c) (cs_qname c) (sv_consumers b))
       in Inr (b\<lparr>sv_consumers := m, sv_objects := (sv_objects b)[this := None]\<rparr>))"

type_synonym channel_manager = "(string, addr) umap"

definition cm_open_channel ::
  "string \<Rightarrow> conn \<Rightarrow> channel_manager \<Rightarrow> 'db server \<Rightarrow> bool \<times> channel_manager \<times> 'db server" where
  "cm_open_channel cid conn channels b =
     (case map_of channels cid of
        Some it \<Rightarrow> (False, channels, b)
      | None \<Rightarrow>
          let this = length (sv_objects b)
          in (True, um_insert cid this channels, b\<lparr>sv_objects := sv_objects b @ [Some (channel_new cid conn)]\<rparr>))"

text \<open>The map holds the only lasting reference, so erasing it destroys the channel.\<close>

definition cm_close_channel ::
  "string \<Rightarrow> channel_manager \<Rightarrow> 'db server \<Rightarrow> (channel_manager \<times> 'db server) result" where
  "cm_close_channel cid channels b =
     (case map_of channels cid of
        None \<Rightarrow> Inr (channels, b)
      | Some this \<Rightarrow> rbind (destroy_channel this b) (\<lambda>b1. Inr (um_erase cid channels, b1)))"

definition cm_select_channel :: "string \<Rightarrow> channel_manager \<Rightarrow> addr option" where
  "cm_select_channel cid channels = map_of channels cid"

end
