(* ===== verification/Connection.thy ===== *)
theory Connection
  imports Channel
begin

text \<open>
  \<open>HareMQ/mqserver/connection.hpp\<close>: a connection and its channels, and the table of connections.
\<close>

record connection =
  cn_conn :: conn
  cn_channels :: channel_manager

definition connection_new :: "conn \<Rightarrow> connection" where
  "connection_new conn = \<lparr>cn_conn = conn, cn_channels = []\<rparr>"

definition cn_open_channel :: "string \<Rightarrow> string \<Rightarrow> connection \<Rightarrow> 'db server \<Rightarrow> connection \<times> 'db server" where
  "cn_open_channel rid cid c b =
     (case cm_open_channel cid (cn_conn c) (cn_channels c) b of (ret, channels, b1) \<Rightarrow>
        if \<not> ret then (c\<lparr>cn_channels := channels\<rparr>, basic_response (cn_conn c) False rid cid b1)
        else (c\<lparr>cn_channels := channels\<rparr>, basic_response (cn_conn c) True rid cid b1))"

definition cn_close_channel ::
  "string \<Rightarrow> string \<Rightarrow> connection \<Rightarrow> 'db server \<Rightarrow> (connection \<times> 'db server) result" where
  "cn_close_channel rid cid c b =
     rbind (cm_close_channel cid (cn_channels c) b) (\<lambda>(channels, b1).
       Inr (c\<lparr>cn_channels := channels\<rparr>, basic_response (cn_conn c) True rid cid b1))"

definition cn_select_channel :: "string \<Rightarrow> connection \<Rightarrow> addr option" where
  "cn_select_channel cid c = cm_select_channel cid (cn_channels c)"

section \<open>The table\<close>

type_synonym connections = "(conn, connection) umap"

definition new_connection :: "conn \<Rightarrow> connections \<Rightarrow> connections" where
  "new_connection conn conns =
     (case map_of conns conn of
        Some it \<Rightarrow> conns
      | None \<Rightarrow> um_insert conn (connection_new conn) conns)"

text \<open>Erasing a connection destroys its channels.\<close>

fun destroy_channels :: "addr list \<Rightarrow> 'db server \<Rightarrow> 'db server result" where
  "destroy_channels [] b = Inr b"
| "destroy_channels (a # as) b = rbind (destroy_channel a b) (destroy_channels as)"

definition delete_connection :: "conn \<Rightarrow> connections \<Rightarrow> 'db server \<Rightarrow> (connections \<times> 'db server) result" where
  "delete_connection conn conns b =
     (case map_of conns conn of
        None \<Rightarrow> Inr (conns, b)
      | Some c \<Rightarrow> rbind (destroy_channels (map snd (cn_channels c)) b) (\<lambda>b1. Inr (um_erase conn conns, b1)))"

definition select_connection :: "conn \<Rightarrow> connections \<Rightarrow> connection option" where
  "select_connection conn conns = map_of conns conn"

end
