(* ===== verification/Broker_Server.thy ===== *)
theory Broker_Server
  imports Connection
begin

text \<open>
  \<open>HareMQ/mqserver/broker_server.hpp\<close> and \<open>server.cc\<close>: the server's start, the dispatch of each message
  to its handler, the connection callback, and the worker thread beside the loop.
\<close>

section \<open>The server\<close>

record 'db broker =
  br_server :: "'db server"
  br_connections :: connections

definition DBFILE_PATH :: string where "DBFILE_PATH = ''/meta.db''"
definition HOST_NAME :: string where "HOST_NAME = ''MyVirtualHost''"

definition init_consumers :: "string list \<Rightarrow> addr consumers" where
  "init_consumers qs = fold init_queue_consumer qs []"

definition BrokerServer :: "'db libs \<Rightarrow> string \<Rightarrow> fs \<Rightarrow> 'db \<Rightarrow> 'db broker result" where
  "BrokerServer L basedir s db =
     rbind (virtual_host_new L HOST_NAME basedir (basedir @ DBFILE_PATH) s db) (\<lambda>h.
       Inr \<lparr>br_server = \<lparr>sv_host = h, sv_consumers = init_consumers (map fst (vh_all_queues (fst h))),
              sv_pool = thread_pool_new 1, sv_job = Fresh, sv_objects = [], sv_out = []\<rparr>,
            br_connections = []\<rparr>)"

text \<open>\<open>main\<close> of \<open>server.cc\<close>, up to the loop.\<close>

definition server_main :: "'db libs \<Rightarrow> fs \<Rightarrow> 'db \<Rightarrow> 'db broker result" where
  "server_main L s db = BrokerServer L ''./data'' s db"

section \<open>Handlers\<close>

definition shutdown :: "conn \<Rightarrow> 'db server \<Rightarrow> 'db server" where
  "shutdown c b = b\<lparr>sv_out := sv_out b @ [Shutdown c]\<rparr>"

definition close_unknown :: "conn \<Rightarrow> 'db broker \<Rightarrow> 'db broker" where
  "close_unknown conn b = b\<lparr>br_server := shutdown conn (br_server b)\<rparr>"

definition on_openChannel :: "conn \<Rightarrow> string \<Rightarrow> string \<Rightarrow> 'db broker \<Rightarrow> 'db broker result" where
  "on_openChannel conn rid cid b =
     (case select_connection conn (br_connections b) of
        None \<Rightarrow> Inr (close_unknown conn b)
      | Some c \<Rightarrow>
          case cn_open_channel rid cid c (br_server b) of (c', s) \<Rightarrow>
            Inr (b\<lparr>br_server := s, br_connections := um_put conn c' (br_connections b)\<rparr>))"

definition on_closeChannel :: "conn \<Rightarrow> string \<Rightarrow> string \<Rightarrow> 'db broker \<Rightarrow> 'db broker result" where
  "on_closeChannel conn rid cid b =
     (case select_connection conn (br_connections b) of
        None \<Rightarrow> Inr (close_unknown conn b)
      | Some c \<Rightarrow>
          rbind (cn_close_channel rid cid c (br_server b)) (\<lambda>(c', s).
            Inr (b\<lparr>br_server := s, br_connections := um_put conn c' (br_connections b)\<rparr>)))"

text \<open>What the other handlers share: the connection, then its channel, then the channel's own handler.\<close>

definition on_channel ::
  "conn \<Rightarrow> string \<Rightarrow> (addr \<Rightarrow> channel \<Rightarrow> 'db server \<Rightarrow> 'db server result) \<Rightarrow> 'db broker \<Rightarrow> 'db broker result" where
  "on_channel conn cid handler b =
     (case select_connection conn (br_connections b) of
        None \<Rightarrow> Inr (close_unknown conn b)
      | Some c \<Rightarrow>
          case cn_select_channel cid c of
            None \<Rightarrow> Inr b
          | Some this \<Rightarrow>
              rbind (deref_channel this (br_server b)) (\<lambda>ch.
              rbind (handler this ch (br_server b)) (\<lambda>s. Inr (b\<lparr>br_server := s\<rparr>))))"

definition on_declareExchange where
  "on_declareExchange L conn rid cid name type durable auto_delete args b =
     on_channel conn cid (\<lambda>this ch. ch_declare_exchange L ch rid cid name type durable auto_delete args) b"

definition on_deleteExchange where
  "on_deleteExchange L conn rid cid name b = on_channel conn cid (\<lambda>this ch. ch_delete_exchange L ch rid cid name) b"

definition on_declareQueue where
  "on_declareQueue L conn rid cid name exclusive durable auto_delete args b =
     on_channel conn cid (\<lambda>this ch. ch_declare_queue L ch rid cid name exclusive durable auto_delete args) b"

definition on_deleteQueue where
  "on_deleteQueue L conn rid cid name b = on_channel conn cid (\<lambda>this ch. ch_delete_queue L ch rid cid name) b"

definition on_bind where
  "on_bind L conn rid cid ename qname key b = on_channel conn cid (\<lambda>this ch. ch_bind L ch rid cid ename qname key) b"

definition on_unbind where
  "on_unbind L conn rid cid ename qname b = on_channel conn cid (\<lambda>this ch. ch_unbind L ch rid cid ename qname) b"

definition on_basicPublish where
  "on_basicPublish L uuids conn rid cid ename body bp b =
     on_channel conn cid (\<lambda>this ch. ch_basic_publish L uuids this ch rid cid ename body bp) b"

definition on_basicAck where
  "on_basicAck L conn rid cid qname mid b = on_channel conn cid (\<lambda>this ch. ch_basic_ack L ch rid cid qname mid) b"

definition on_basicConsume where
  "on_basicConsume conn rid cid tag qname auto_ack b =
     on_channel conn cid (\<lambda>this ch. ch_basic_consume this ch rid cid tag qname auto_ack) b"

definition on_basicCancel where
  "on_basicCancel conn rid cid tag qname b = on_channel conn cid (\<lambda>this ch. ch_basic_cancel ch rid cid tag qname) b"

definition on_basicQuery where
  "on_basicQuery conn rid cid b = on_channel conn cid (\<lambda>this ch. ch_basic_query ch rid) b"

definition onUnknownMessage :: "conn \<Rightarrow> 'db broker \<Rightarrow> 'db broker result" where
  "onUnknownMessage conn b = Inr (close_unknown conn b)"

text \<open>The callbacks the constructor registers with the dispatcher.\<close>

fun onProtobufMessage ::
  "'db libs \<Rightarrow> (string \<Rightarrow> string) \<Rightarrow> conn \<Rightarrow> request \<Rightarrow> 'db broker \<Rightarrow> 'db broker result" where
  "onProtobufMessage L u c (OpenChannelRequest r i) b = on_openChannel c r i b"
| "onProtobufMessage L u c (CloseChannelRequest r i) b = on_closeChannel c r i b"
| "onProtobufMessage L u c (DeclareExchangeRequest r i n t d a args) b = on_declareExchange L c r i n t d a args b"
| "onProtobufMessage L u c (DeleteExchangeRequest r i n) b = on_deleteExchange L c r i n b"
| "onProtobufMessage L u c (DeclareQueueRequest r i n x d a args) b = on_declareQueue L c r i n x d a args b"
| "onProtobufMessage L u c (DeleteQueueRequest r i n) b = on_deleteQueue L c r i n b"
| "onProtobufMessage L u c (BindRequest r i e q k) b = on_bind L c r i e q k b"
| "onProtobufMessage L u c (UnbindRequest r i e q) b = on_unbind L c r i e q b"
| "onProtobufMessage L u c (BasicPublishRequest r i e body bp) b = on_basicPublish L u c r i e body bp b"
| "onProtobufMessage L u c (BasicAckRequest r i q m) b = on_basicAck L c r i q m b"
| "onProtobufMessage L u c (BasicConsumeRequest r i t q a) b = on_basicConsume c r i t q a b"
| "onProtobufMessage L u c (BasicCancelRequest r i t q) b = on_basicCancel c r i t q b"
| "onProtobufMessage L u c (BasicQueryRequest r i) b = on_basicQuery c r i b"
| "onProtobufMessage L u c (OtherMessage n) b = onUnknownMessage c b"

definition onConnection :: "conn \<Rightarrow> bool \<Rightarrow> 'db broker \<Rightarrow> 'db broker result" where
  "onConnection conn connected b =
     (if connected then Inr (b\<lparr>br_connections := new_connection conn (br_connections b)\<rparr>)
      else rbind (delete_connection conn (br_connections b) (br_server b)) (\<lambda>(conns, s).
        Inr (b\<lparr>br_server := s, br_connections := conns\<rparr>)))"

section \<open>The worker\<close>

text \<open>
  One step of the pool's thread: a step of the task it holds, which leaves the pool when it has
  returned, or a step of its loop.
\<close>

definition advance_pool :: "'db server \<Rightarrow> 'db server" where
  "advance_pool b = (case thread_step 0 (sv_pool b) of None \<Rightarrow> b | Some (did, p) \<Rightarrow> b\<lparr>sv_pool := p\<rparr>)"

definition worker_step :: "'db libs \<Rightarrow> 'db server \<Rightarrow> 'db server result" where
  "worker_step L b =
     (case tp_threads (sv_pool b) ! 0 of
        Executing (Consume this qname # ts) \<Rightarrow>
          rbind (consume_step L this qname b) (\<lambda>(returned, b1).
            Inr (if returned then (advance_pool b1)\<lparr>sv_job := Fresh\<rparr> else b1))
      | _ \<Rightarrow> Inr (advance_pool b))"

section \<open>Events\<close>

text \<open>
  What can happen next: a connection is made or lost, a request arrives (with the identifiers drawn
  while it is handled), the worker moves.
\<close>

datatype event =
  Connected conn
| Disconnected conn
| Request conn "string \<Rightarrow> string" request
| Worker

fun broker_step :: "'db libs \<Rightarrow> event \<Rightarrow> 'db broker \<Rightarrow> 'db broker result" where
  "broker_step L (Connected conn) b = onConnection conn True b"
| "broker_step L (Disconnected conn) b = onConnection conn False b"
| "broker_step L (Request conn uuids r) b = onProtobufMessage L uuids conn r b"
| "broker_step L Worker b = rbind (worker_step L (br_server b)) (\<lambda>s. Inr (b\<lparr>br_server := s\<rparr>))"

section \<open>Responses\<close>

lemma send_out [simp]: "sv_out (send c r b) = sv_out b @ [Send c r]"
  by (simp add: send_def)

lemma publish_loop_out [simp]: "sv_out (publish_loop L u this t k bp body es b) = sv_out b"
  by (induction L u this t k bp body es b rule: publish_loop.induct) (simp_all add: push_consume_def split: prod.split)

lemma destroy_channel_out: "destroy_channel a b = Inr b' \<Longrightarrow> sv_out b' = sv_out b"
  by (auto simp: destroy_channel_def rbind_Inr_conv Let_def)

lemma close_channel_out: "cm_close_channel cid chs b = Inr (chs', b') \<Longrightarrow> sv_out b' = sv_out b"
  by (auto simp: cm_close_channel_def rbind_Inr_conv dest: destroy_channel_out split: option.splits)

lemma open_channel_out: "cm_open_channel cid conn chs b = (ret, chs', b') \<Longrightarrow> sv_out b' = sv_out b"
  by (auto simp: cm_open_channel_def Let_def split: option.splits)

fun is_query :: "request \<Rightarrow> bool" where
  "is_query (BasicQueryRequest i j) = True"
| "is_query r = False"

fun response_to :: "request \<Rightarrow> response \<Rightarrow> bool" where
  "response_to r (BasicCommonResponse rid cid ok) \<longleftrightarrow> rid = rq_rid r \<and> cid = rq_cid r \<and> \<not> is_query r"
| "response_to r (BasicQueryResponse rid cid body) \<longleftrightarrow> rid = rq_rid r \<and> cid = rq_cid r \<and> is_query r"
| "response_to r (BasicConsumeResponse cid tag body bp) \<longleftrightarrow> False"

end
