(* ===== verification/Broker_Invariant.thy ===== *)
theory Broker_Invariant
  imports Broker_Server Host_Refinement
begin

text \<open>
  The invariant of the running server, and that every event keeps it: the host represents a state of
  its specification, exactly the declared queues have an entry for consumers, every subscription
  belongs to a living channel that knows it, and tasks and the worker's job refer to living channels.
\<close>

section \<open>Subscriptions\<close>

definition subscribers :: "string \<Rightarrow> 'cb consumers \<Rightarrow> 'cb consumer list" where
  "subscribers q m = (case map_of m q of None \<Rightarrow> [] | Some qc \<Rightarrow> qc_consumers qc)"

lemma subscribers_init [simp]: "subscribers q (init_queue_consumer q' m) = subscribers q m"
  by (auto simp: subscribers_def init_queue_consumer_def um_find_insert queue_consumer_new_def split: option.splits)

lemma subscribers_destroy [simp]:
  "subscribers q (destroy_queue_consumer q' m) = (if q = q' then [] else subscribers q m)"
  by (simp add: subscribers_def destroy_queue_consumer_def um_find_erase)

lemma subscribers_remove:
  assumes "consumers_ok m"
  shows "subscribers q (cm_remove t q' m) =
    (if q = q' then filter (\<lambda>c. cs_tag c \<noteq> t) (subscribers q m) else subscribers q m)"
  using consumers_find [OF assms, of q']
  by (auto simp: subscribers_def cm_remove_def um_find_put qc_remove_def qc_ok_def erase_tag_filter split: option.split)

lemma subscribers_create:
  "subscribers q (snd (cm_create t q' a cb m)) =
    (case fst (cm_create t q' a cb m) of
       None \<Rightarrow> subscribers q m
     | Some c \<Rightarrow> if q = q' then subscribers q m @ [c] else subscribers q m)"
  by (auto simp: subscribers_def cm_create_def qc_create_def um_find_put Let_def split: option.splits if_splits)

lemma create_consumer:
  assumes "fst (cm_create t q a cb m) = Some c"
  shows "c = \<lparr>cs_tag = t, cs_qname = q, cs_auto_ack = a, cs_callback = cb\<rparr>"
  using assms by (auto simp: cm_create_def qc_create_def Let_def split: option.splits if_splits)

lemma known_queues:
  "map_of (init_queue_consumer q' m) q = None \<longleftrightarrow> map_of m q = None \<and> q \<noteq> q'"
  "map_of (destroy_queue_consumer q' m) q = None \<longleftrightarrow> map_of m q = None \<or> q = q'"
  "map_of (cm_remove t q' m) q = None \<longleftrightarrow> map_of m q = None"
  "map_of (snd (cm_create t q' a cb m)) q = None \<longleftrightarrow> map_of m q = None"
  "cm_choose q' m = Inr (c, m') \<Longrightarrow> map_of m' q = None \<longleftrightarrow> map_of m q = None"
  by (auto simp: init_queue_consumer_def destroy_queue_consumer_def cm_remove_def cm_create_def cm_choose_def
      rbind_Inr_conv um_find_insert um_find_erase um_find_put Let_def split: option.splits prod.splits if_splits)

lemma subscribers_choose: "cm_choose q' m = Inr (c, m') \<Longrightarrow> subscribers q m' = subscribers q m"
  by (auto simp: subscribers_def cm_choose_def rr_choose_def rbind_Inr_conv um_find_put Let_def
      split: option.splits if_splits)

lemma choose_returns:
  assumes "length (subscribers q m) < 2 ^ 31"
  shows "\<exists>c m'. cm_choose q m = Inr (c, m') \<and> (c = None \<longleftrightarrow> subscribers q m = []) \<and>
    (\<forall>c'. c = Some c' \<longrightarrow> c' \<in> set (subscribers q m))"
proof (cases "map_of m q")
  case None
  then show ?thesis by (simp add: cm_choose_def subscribers_def)
next
  case (Some qc)
  show ?thesis
  proof (cases "qc_consumers qc = []")
    case True
    then show ?thesis by (simp add: cm_choose_def subscribers_def Some rr_choose_def)
  next
    case False
    then have "qc_consumers qc ! (unat (qc_rr_seq qc) mod length (qc_consumers qc)) \<in> set (qc_consumers qc)" by simp
    then show ?thesis
      using rr_choose_nth [OF False] assms by (simp add: cm_choose_def subscribers_def Some False)
  qed
qed

lemma subscriber_names:
  assumes "consumers_ok m" and "c \<in> set (subscribers q m)"
  shows "cs_qname c = q"
proof (cases "map_of m q")
  case (Some qc)
  then show ?thesis using assms(2) consumers_find [OF assms(1) Some] by (simp add: subscribers_def qc_ok_def)
qed (use assms(2) in \<open>simp add: subscribers_def\<close>)

lemma exists_subscriber: "cm_exists t q m \<longleftrightarrow> (\<exists>c \<in> set (subscribers q m). cs_tag c = t)"
  by (auto simp: cm_exists_def subscribers_def qc_exists_def has_tag_iff split: option.splits)

section \<open>The parts of the invariant\<close>

definition live :: "addr \<Rightarrow> 'db server \<Rightarrow> bool" where
  "live a s \<longleftrightarrow> returns (deref_channel a s)"

definition subs_ok :: "'db server \<Rightarrow> bool" where
  "subs_ok s \<longleftrightarrow> consumers_ok (sv_consumers s) \<and>
     (\<forall>q. length (subscribers q (sv_consumers s)) < 2 ^ 31 \<and>
        (\<forall>c \<in> set (subscribers q (sv_consumers s)).
           \<exists>ch. deref_channel (cs_callback c) s = Inr ch \<and> ch_consumer ch = Some c))"

lemma subs_okD:
  assumes "subs_ok s" and "c \<in> set (subscribers q (sv_consumers s))"
  shows "\<exists>ch. deref_channel (cs_callback c) s = Inr ch \<and> ch_consumer ch = Some c"
  using assms unfolding subs_ok_def by blast

definition job_live :: "'db server \<Rightarrow> bool" where
  "job_live s = (case sv_job s of Chosen mp cp \<Rightarrow> live (cs_callback cp) s | _ \<Rightarrow> True)"

definition tasks_ok :: "'db server \<Rightarrow> bool" where
  "tasks_ok s \<longleftrightarrow> pool_inv 1 (sv_pool s) \<and> \<not> tp_stop_signal (sv_pool s) \<and>
     (\<forall>a q. Consume a q \<in> set (work (sv_pool s)) \<longrightarrow> live a s) \<and> job_live s \<and>
     (sv_job s \<noteq> Fresh \<longrightarrow> in_threads (sv_pool s) \<noteq> [])"

definition registry_ok :: "'db server \<Rightarrow> spec_host \<Rightarrow> bool" where
  "registry_ok s H \<longleftrightarrow> (\<forall>q. map_of (sv_consumers s) q = None \<longleftrightarrow> sh_queues H q = None)"

definition server_rel ::
  "'db libs \<Rightarrow> ('db \<Rightarrow> tables) \<Rightarrow> nat \<Rightarrow> nat \<Rightarrow> string \<Rightarrow> 'db server \<Rightarrow> spec_host \<Rightarrow> bool" where
  "server_rel L tabs M N basedir s H \<longleftrightarrow>
     host_rel L tabs M N basedir (basedir @ DBFILE_PATH) (sv_host s) H \<and> subs_ok s \<and> tasks_ok s \<and> registry_ok s H"

text \<open>Channels keep their identity.\<close>

definition ident :: "addr \<Rightarrow> 'db server \<Rightarrow> (conn \<times> string) option" where
  "ident a s = (case deref_channel a s of Inl e \<Rightarrow> None | Inr ch \<Rightarrow> Some (ch_conn ch, ch_cid ch))"

definition same_channels :: "'db server \<Rightarrow> 'db server \<Rightarrow> bool" where
  "same_channels s s' \<longleftrightarrow> (\<forall>a. ident a s' = ident a s)"

lemma same_channels_objects: "sv_objects s' = sv_objects s \<Longrightarrow> same_channels s s'"
  by (simp add: same_channels_def ident_def deref_channel_def)

lemma ident_Some: "ident a s = Some (k, cid) \<longleftrightarrow> (\<exists>ch. deref_channel a s = Inr ch \<and> ch_conn ch = k \<and> ch_cid ch = cid)"
  by (auto simp: ident_def split: sum.splits)

text \<open>The connections' tables name exactly the living channels.\<close>

definition channel_at :: "conn \<Rightarrow> string \<Rightarrow> 'db broker \<Rightarrow> addr option" where
  "channel_at conn cid b =
     (case select_connection conn (br_connections b) of None \<Rightarrow> None | Some c \<Rightarrow> cn_select_channel cid c)"

definition channels_ok :: "'db broker \<Rightarrow> bool" where
  "channels_ok b \<longleftrightarrow> um_wf (br_connections b) \<and>
     (\<forall>k c. map_of (br_connections b) k = Some c \<longrightarrow> cn_conn c = k \<and> um_wf (cn_channels c)) \<and>
     (\<forall>k cid a. channel_at k cid b = Some a \<longleftrightarrow> ident a (br_server b) = Some (k, cid))"

definition broker_rel ::
  "'db libs \<Rightarrow> ('db \<Rightarrow> tables) \<Rightarrow> nat \<Rightarrow> nat \<Rightarrow> string \<Rightarrow> 'db broker \<Rightarrow> spec_host \<Rightarrow> bool" where
  "broker_rel L tabs M N basedir b H \<longleftrightarrow> server_rel L tabs M N basedir (br_server b) H \<and> channels_ok b"

text \<open>What each part looks at.\<close>

lemma deref_update [simp]:
  "deref_channel a (s\<lparr>sv_host := h\<rparr>) = deref_channel a s" "deref_channel a (s\<lparr>sv_consumers := m\<rparr>) = deref_channel a s"
  "deref_channel a (s\<lparr>sv_pool := p\<rparr>) = deref_channel a s" "deref_channel a (s\<lparr>sv_job := j\<rparr>) = deref_channel a s"
  "deref_channel a (s\<lparr>sv_out := out\<rparr>) = deref_channel a s" "deref_channel a (send c r s) = deref_channel a s"
  by (simp_all add: deref_channel_def send_def)

lemma deref_same: "sv_objects s' = sv_objects s \<Longrightarrow> deref_channel a s' = deref_channel a s"
  by (simp add: deref_channel_def)

lemma live_same: "sv_objects s' = sv_objects s \<Longrightarrow> live a s' = live a s"
  by (simp add: live_def deref_channel_def)

lemma subs_ok_same:
  "sv_consumers s' = sv_consumers s \<Longrightarrow> sv_objects s' = sv_objects s \<Longrightarrow> subs_ok s' = subs_ok s"
  by (simp add: subs_ok_def deref_channel_def)

lemma tasks_ok_same:
  "sv_pool s' = sv_pool s \<Longrightarrow> sv_job s' = sv_job s \<Longrightarrow> (\<And>a. live a s \<Longrightarrow> live a s') \<Longrightarrow> tasks_ok s \<Longrightarrow> tasks_ok s'"
  unfolding tasks_ok_def job_live_def by (cases "sv_job s") auto

lemma registry_ok_same: "sv_consumers s' = sv_consumers s \<Longrightarrow> sh_queues H' = sh_queues H \<Longrightarrow> registry_ok s' H' = registry_ok s H"
  by (simp add: registry_ok_def)

text \<open>Consumers may leave, and their order of service may move.\<close>

lemma subs_ok_fewer:
  assumes "subs_ok s" and "consumers_ok m"
    and "\<And>q. length (subscribers q m) \<le> length (subscribers q (sv_consumers s))"
    and "\<And>q. set (subscribers q m) \<subseteq> set (subscribers q (sv_consumers s))"
  shows "subs_ok (s\<lparr>sv_consumers := m\<rparr>)"
proof -
  have "length (subscribers q m) < 2 ^ 31" for q
    using assms(1) assms(3) [of q] by (simp add: subs_ok_def) (meson le_less_trans)
  moreover have "\<exists>ch. deref_channel (cs_callback c) s = Inr ch \<and> ch_consumer ch = Some c"
    if "c \<in> set (subscribers q m)" for q c
    using assms(1) assms(4) [of q] that by (auto simp: subs_ok_def)
  ultimately show ?thesis
    using assms(2) by (simp add: subs_ok_def)
qed

lemma subs_ok_update:
  "subs_ok (s\<lparr>sv_host := h\<rparr>) = subs_ok s" "subs_ok (s\<lparr>sv_out := out\<rparr>) = subs_ok s"
  "subs_ok (s\<lparr>sv_pool := p\<rparr>) = subs_ok s" "subs_ok (s\<lparr>sv_job := j\<rparr>) = subs_ok s"
  by (simp_all add: subs_ok_def)

lemma tasks_ok_update:
  "tasks_ok (s\<lparr>sv_host := h\<rparr>) = tasks_ok s" "tasks_ok (s\<lparr>sv_out := out\<rparr>) = tasks_ok s"
  "tasks_ok (s\<lparr>sv_consumers := m\<rparr>) = tasks_ok s"
  by (simp_all add: tasks_ok_def job_live_def live_def split: job.split)

lemma registry_ok_update:
  "registry_ok (s\<lparr>sv_host := h\<rparr>) H = registry_ok s H" "registry_ok (s\<lparr>sv_out := out\<rparr>) H = registry_ok s H"
  "registry_ok (s\<lparr>sv_pool := p\<rparr>) H = registry_ok s H" "registry_ok (s\<lparr>sv_job := j\<rparr>) H = registry_ok s H"
  by (simp_all add: registry_ok_def)

lemmas part_updates = subs_ok_update tasks_ok_update registry_ok_update

section \<open>Requests\<close>

text \<open>The calls of the host that handling a request makes.\<close>

fun request_cmds :: "'db libs \<Rightarrow> (string \<Rightarrow> string) \<Rightarrow> request \<Rightarrow> virtual_host \<Rightarrow> host_cmd list" where
  "request_cmds L u (DeclareExchangeRequest r i n t d a args) v =
     [HDeclareExchange n t d a (ConvertProtoMapToStdMap args)]"
| "request_cmds L u (DeleteExchangeRequest r i n) v = [HDeleteExchange n]"
| "request_cmds L u (DeclareQueueRequest r i n x d a args) v =
     [HDeclareQueue n d x a (ConvertProtoMapToStdMap args)]"
| "request_cmds L u (DeleteQueueRequest r i n) v = [HDeleteQueue n]"
| "request_cmds L u (BindRequest r i e q k) v = [HBind e q k]"
| "request_cmds L u (UnbindRequest r i e q) v = [HUnbind e q]"
| "request_cmds L u (BasicPublishRequest r i e body bp) v =
     (case vh_select_exchange e v of
        None \<Rightarrow> []
      | Some ep \<Rightarrow> map (\<lambda>(q, bd). HPublish q (u q) bp body)
          (filter (\<lambda>(q, bd). route (lb_split L) (ex_type ep)
             (case bp of None \<Rightarrow> '''' | Some p \<Rightarrow> bp_routing_key p) (bd_binding_key bd)) (vh_exchange_bindings e v)))"
| "request_cmds L u (BasicAckRequest r i q m) v = [HAck q m]"
| "request_cmds L u r v = []"

definition host_ok :: "'db libs \<Rightarrow> nat \<Rightarrow> nat \<Rightarrow> host_cmd list \<Rightarrow> spec_host \<Rightarrow> bool" where
  "host_ok L M N cmds H = run_ok host_spec (host_cmd_ok (fits (lb_protobuf L) M) N) cmds H"

definition host_after :: "host_cmd list \<Rightarrow> spec_host \<Rightarrow> spec_host" where
  "host_after cmds H = snd (run_spec host_spec cmds H)"

text \<open>
  What handling a request promises: the call returns, the host has followed the commands, the
  invariant holds, and exactly one response to the request was sent, on the channel's connection.
\<close>

definition handled ::
  "'db libs \<Rightarrow> ('db \<Rightarrow> tables) \<Rightarrow> nat \<Rightarrow> nat \<Rightarrow> string \<Rightarrow> 'db server \<Rightarrow> spec_host \<Rightarrow> conn \<Rightarrow> request \<Rightarrow>
     'db server result \<Rightarrow> bool" where
  "handled L tabs M N basedir s H conn r res \<longleftrightarrow>
     (\<exists>s' resp. res = Inr s' \<and> server_rel L tabs M N basedir s' H \<and> same_channels s s' \<and>
        sv_out s' = sv_out s @ [Send conn resp] \<and> response_to r resp)"

lemma host_call:
  assumes "server_rel L tabs M N basedir s H" and "host_ok L M N [c] H"
  shows "\<exists>x'. host_step L HOST_NAME basedir (basedir @ DBFILE_PATH) c (sv_host s) = Inr (fst (host_spec c H), x') \<and>
    host_rel L tabs M N basedir (basedir @ DBFILE_PATH) x' (host_after [c] H)"
  using host_step_sim [of L tabs M N basedir "basedir @ DBFILE_PATH" "sv_host s" H c HOST_NAME] assms
  by (simp add: server_rel_def host_ok_def host_after_def split_beta)

lemma server_rel_host:
  assumes "server_rel L tabs M N basedir s H"
    and "host_rel L tabs M N basedir (basedir @ DBFILE_PATH) x H'" and "sh_queues H' = sh_queues H"
  shows "server_rel L tabs M N basedir (s\<lparr>sv_host := x\<rparr>) H'"
  using assms by (simp add: server_rel_def part_updates registry_ok_def)

lemma server_rel_out:
  "server_rel L tabs M N basedir (s\<lparr>sv_out := out\<rparr>) H = server_rel L tabs M N basedir s H"
  by (simp add: server_rel_def part_updates)

lemma handledI:
  assumes "server_rel L tabs M N basedir mid H" and "same_channels s mid" and "sv_out mid = sv_out s"
    and "res = Inr (send conn resp mid)" and "response_to r resp"
  shows "handled L tabs M N basedir s H conn r res"
  unfolding handled_def
  using assms by (intro exI [of _ "send conn resp mid"] exI [of _ resp])
    (simp add: send_def server_rel_out same_channels_def ident_def)

definition answered ::
  "'db libs \<Rightarrow> ('db \<Rightarrow> tables) \<Rightarrow> nat \<Rightarrow> nat \<Rightarrow> string \<Rightarrow> (string \<Rightarrow> string) \<Rightarrow> 'db server \<Rightarrow> spec_host \<Rightarrow> channel \<Rightarrow>
     request \<Rightarrow> 'db server result \<Rightarrow> bool" where
  "answered L tabs M N basedir u s H ch r res \<longleftrightarrow>
     (let cmds = request_cmds L u r (fst (sv_host s)) in
      host_ok L M N cmds H \<longrightarrow> handled L tabs M N basedir s (host_after cmds H) (ch_conn ch) r res)"

lemma host_after_single: "host_after [c] H = snd (host_spec c H)"
  by (simp add: host_after_def split_beta)

lemma answered_declare_exchange:
  assumes rel: "server_rel L tabs M N basedir s H" and r: "r = DeclareExchangeRequest i j n t d a args"
  shows "answered L tabs M N basedir u s H ch r (ch_declare_exchange L ch i j n t d a args s)"
  unfolding answered_def Let_def
proof
  assume ok: "host_ok L M N (request_cmds L u r (fst (sv_host s))) H"
  obtain x' where "vh_declare_exchange L n t d a (ConvertProtoMapToStdMap args) (sv_host s) = Inr (True, x')"
    "host_rel L tabs M N basedir (basedir @ DBFILE_PATH) x' (host_after (request_cmds L u r (fst (sv_host s))) H)"
    using host_call [OF rel ok [unfolded r request_cmds.simps]] by (auto simp: r rbind_Inr_conv)
  then show "handled L tabs M N basedir s (host_after (request_cmds L u r (fst (sv_host s))) H) (ch_conn ch) r
      (ch_declare_exchange L ch i j n t d a args s)"
    by (intro handledI [OF server_rel_host [OF rel]])
      (auto simp: r ch_declare_exchange_def basic_response_def host_after_single same_channels_objects split: option.split)
qed

lemma answered_delete_exchange:
  assumes rel: "server_rel L tabs M N basedir s H" and r: "r = DeleteExchangeRequest i j n"
  shows "answered L tabs M N basedir u s H ch r (ch_delete_exchange L ch i j n s)"
  unfolding answered_def Let_def
proof
  assume ok: "host_ok L M N (request_cmds L u r (fst (sv_host s))) H"
  obtain x' where "vh_delete_exchange L n (sv_host s) = Inr x'"
    "host_rel L tabs M N basedir (basedir @ DBFILE_PATH) x' (host_after (request_cmds L u r (fst (sv_host s))) H)"
    using host_call [OF rel ok [unfolded r request_cmds.simps]] by (auto simp: r rbind_Inr_conv)
  then show "handled L tabs M N basedir s (host_after (request_cmds L u r (fst (sv_host s))) H) (ch_conn ch) r
      (ch_delete_exchange L ch i j n s)"
    by (intro handledI [OF server_rel_host [OF rel]])
      (auto simp: r ch_delete_exchange_def basic_response_def host_after_single same_channels_objects split: option.split)
qed

lemma host_then_consumers: "s\<lparr>sv_host := x, sv_consumers := m\<rparr> = s\<lparr>sv_consumers := m, sv_host := x\<rparr>"
  by (cases s) simp

lemma server_rel_consumers:
  assumes rel: "server_rel L tabs M N basedir s H"
    and host: "host_rel L tabs M N basedir (basedir @ DBFILE_PATH) x H'" and m: "consumers_ok m"
    and len: "\<And>q. length (subscribers q m) \<le> length (subscribers q (sv_consumers s))"
    and sub: "\<And>q. set (subscribers q m) \<subseteq> set (subscribers q (sv_consumers s))"
    and known: "\<And>q. map_of m q = None \<longleftrightarrow> sh_queues H' q = None"
  shows "server_rel L tabs M N basedir (s\<lparr>sv_consumers := m, sv_host := x\<rparr>) H'"
proof -
  have "subs_ok (s\<lparr>sv_consumers := m\<rparr>)"
    using rel m len sub by (intro subs_ok_fewer) (simp_all add: server_rel_def)
  then show ?thesis using rel host known by (simp add: server_rel_def part_updates registry_ok_def)
qed

lemma server_relD:
  assumes "server_rel L tabs M N basedir s H"
  shows "host_rel L tabs M N basedir (basedir @ DBFILE_PATH) (sv_host s) H" and "subs_ok s" and "tasks_ok s"
    and "consumers_ok (sv_consumers s)" and "map_of (sv_consumers s) q = None \<longleftrightarrow> sh_queues H q = None"
  using assms by (simp_all add: server_rel_def subs_ok_def registry_ok_def)

lemma answered_declare_queue:
  assumes rel: "server_rel L tabs M N basedir s H" and r: "r = DeclareQueueRequest i j n e d a args"
  shows "answered L tabs M N basedir u s H ch r (ch_declare_queue L ch i j n e d a args s)"
  unfolding answered_def Let_def
proof
  let ?m = "init_queue_consumer n (sv_consumers s)"
  let ?H = "host_after (request_cmds L u r (fst (sv_host s))) H"
  assume ok: "host_ok L M N (request_cmds L u r (fst (sv_host s))) H"
  obtain x' where x': "vh_declare_queue L n d e a (ConvertProtoMapToStdMap args) (sv_host s) = Inr (True, x')"
    "host_rel L tabs M N basedir (basedir @ DBFILE_PATH) x' ?H"
    using host_call [OF rel ok [unfolded r request_cmds.simps]] by (auto simp: r rbind_Inr_conv)
  have "map_of ?m q = None \<longleftrightarrow> sh_queues ?H q = None" for q
    using server_relD(5) [OF rel, of q]
    by (auto simp: r known_queues host_after_single spec_declare_def split: option.split)
  then have "server_rel L tabs M N basedir (s\<lparr>sv_consumers := ?m, sv_host := x'\<rparr>) ?H"
    using server_relD(4) [OF rel] by (intro server_rel_consumers [OF rel x'(2)] consumers_ok_ops(1-4)) simp_all
  then show "handled L tabs M N basedir s ?H (ch_conn ch) r (ch_declare_queue L ch i j n e d a args s)"
    by (rule handledI) (auto simp: r ch_declare_queue_def host_then_consumers x'(1) basic_response_def same_channels_objects)
qed

lemma answered_delete_queue:
  assumes rel: "server_rel L tabs M N basedir s H" and r: "r = DeleteQueueRequest i j n"
  shows "answered L tabs M N basedir u s H ch r (ch_delete_queue L ch i j n s)"
  unfolding answered_def Let_def
proof
  let ?m = "destroy_queue_consumer n (sv_consumers s)"
  let ?H = "host_after (request_cmds L u r (fst (sv_host s))) H"
  assume ok: "host_ok L M N (request_cmds L u r (fst (sv_host s))) H"
  obtain x' where x': "vh_delete_queue L n (sv_host s) = Inr x'"
    "host_rel L tabs M N basedir (basedir @ DBFILE_PATH) x' ?H"
    using host_call [OF rel ok [unfolded r request_cmds.simps]] by (auto simp: r rbind_Inr_conv)
  have "map_of ?m q = None \<longleftrightarrow> sh_queues ?H q = None" for q
    using server_relD(5) [OF rel, of q] by (auto simp: r known_queues host_after_single)
  then have "server_rel L tabs M N basedir (s\<lparr>sv_consumers := ?m, sv_host := x'\<rparr>) ?H"
    using server_relD(4) [OF rel] by (intro server_rel_consumers [OF rel x'(2)] consumers_ok_ops(1-4)) simp_all
  then show "handled L tabs M N basedir s ?H (ch_conn ch) r (ch_delete_queue L ch i j n s)"
    by (rule handledI) (auto simp: r ch_delete_queue_def x'(1) basic_response_def same_channels_objects)
qed

lemma answered_bind:
  assumes rel: "server_rel L tabs M N basedir s H" and r: "r = BindRequest i j e q k"
  shows "answered L tabs M N basedir u s H ch r (ch_bind L ch i j e q k s)"
  unfolding answered_def Let_def
proof
  assume ok: "host_ok L M N (request_cmds L u r (fst (sv_host s))) H"
  obtain ret x' where "vh_bind L e q k (sv_host s) = Inr (ret, x')"
    "host_rel L tabs M N basedir (basedir @ DBFILE_PATH) x' (host_after (request_cmds L u r (fst (sv_host s))) H)"
    using host_call [OF rel ok [unfolded r request_cmds.simps]] by (auto simp: r rbind_Inr_conv)
  then show "handled L tabs M N basedir s (host_after (request_cmds L u r (fst (sv_host s))) H) (ch_conn ch) r
      (ch_bind L ch i j e q k s)"
    by (intro handledI [OF server_rel_host [OF rel]])
      (auto simp: r ch_bind_def basic_response_def host_after_single same_channels_objects split: option.split)
qed

lemma answered_unbind:
  assumes rel: "server_rel L tabs M N basedir s H" and r: "r = UnbindRequest i j e q"
  shows "answered L tabs M N basedir u s H ch r (ch_unbind L ch i j e q s)"
  unfolding answered_def Let_def
proof
  assume ok: "host_ok L M N (request_cmds L u r (fst (sv_host s))) H"
  obtain x' where "vh_unbind L e q (sv_host s) = Inr x'"
    "host_rel L tabs M N basedir (basedir @ DBFILE_PATH) x' (host_after (request_cmds L u r (fst (sv_host s))) H)"
    using host_call [OF rel ok [unfolded r request_cmds.simps]] by (auto simp: r rbind_Inr_conv)
  then show "handled L tabs M N basedir s (host_after (request_cmds L u r (fst (sv_host s))) H) (ch_conn ch) r
      (ch_unbind L ch i j e q s)"
    by (intro handledI [OF server_rel_host [OF rel]])
      (auto simp: r ch_unbind_def basic_response_def host_after_single same_channels_objects split: option.split)
qed

lemma answered_ack:
  assumes rel: "server_rel L tabs M N basedir s H" and r: "r = BasicAckRequest i j q m"
  shows "answered L tabs M N basedir u s H ch r (ch_basic_ack L ch i j q m s)"
  unfolding answered_def Let_def
proof
  assume ok: "host_ok L M N (request_cmds L u r (fst (sv_host s))) H"
  obtain x' where "vh_basic_ack L q m (sv_host s) = Inr x'"
    "host_rel L tabs M N basedir (basedir @ DBFILE_PATH) x' (host_after (request_cmds L u r (fst (sv_host s))) H)"
    using host_call [OF rel ok [unfolded r request_cmds.simps]] by (auto simp: r rbind_Inr_conv)
  then show "handled L tabs M N basedir s (host_after (request_cmds L u r (fst (sv_host s))) H) (ch_conn ch) r
      (ch_basic_ack L ch i j q m s)"
    by (intro handledI [OF server_rel_host [OF rel]])
      (auto simp: r ch_basic_ack_def basic_response_def host_after_single same_channels_objects split: option.split)
qed

lemma answered_cancel:
  assumes rel: "server_rel L tabs M N basedir s H" and r: "r = BasicCancelRequest i j t q"
  shows "answered L tabs M N basedir u s H ch r (ch_basic_cancel ch i j t q s)"
  unfolding answered_def Let_def
proof
  let ?m = "cm_remove t q (sv_consumers s)"
  let ?H = "host_after (request_cmds L u r (fst (sv_host s))) H"
  have H: "?H = H" by (simp add: r host_after_def)
  have "map_of ?m q = None \<longleftrightarrow> sh_queues H q = None" for q
    using server_relD(5) [OF rel, of q] by (simp add: known_queues)
  moreover note ok = server_relD(4) [OF rel]
  moreover have "length (subscribers q' ?m) \<le> length (subscribers q' (sv_consumers s))"
    "set (subscribers q' ?m) \<subseteq> set (subscribers q' (sv_consumers s))" for q'
    by (auto simp: subscribers_remove [OF ok])
  ultimately have "server_rel L tabs M N basedir (s\<lparr>sv_consumers := ?m, sv_host := sv_host s\<rparr>) H"
    by (intro server_rel_consumers [OF rel server_relD(1) [OF rel]] consumers_ok_ops(1-4)) simp_all
  then show "handled L tabs M N basedir s ?H (ch_conn ch) r (ch_basic_cancel ch i j t q s)"
    unfolding H by (intro handledI [where mid = "s\<lparr>sv_consumers := ?m\<rparr>"])
      (auto simp: r ch_basic_cancel_def basic_response_def same_channels_objects)
qed

lemma answered_query:
  assumes rel: "server_rel L tabs M N basedir s H" and r: "r = BasicQueryRequest i j" and cid: "ch_cid ch = j"
  shows "answered L tabs M N basedir u s H ch r (ch_basic_query ch i s)"
  unfolding answered_def Let_def
proof
  obtain v f db where x: "sv_host s = (v, f, db)" by (cases "sv_host s")
  obtain out where "vh_basic_query v = Inr out"
    using host_query_ok [of L tabs M N basedir "basedir @ DBFILE_PATH" v f db H] server_relD(1) [OF rel] x by auto
  then show "handled L tabs M N basedir s (host_after (request_cmds L u r (fst (sv_host s))) H) (ch_conn ch) r
      (ch_basic_query ch i s)"
    using rel by (intro handledI [where mid = s])
      (auto simp: r x cid ch_basic_query_def host_after_def same_channels_objects)
qed

subsection \<open>Publishing\<close>

lemma tasks_ok_push:
  assumes "tasks_ok s" and "live a s"
  shows "tasks_ok (push_consume a q s)"
proof -
  have inv: "pool_inv 1 (sv_pool s)" "\<not> tp_stop_signal (sv_pool s)" using assms(1) by (simp_all add: tasks_ok_def)
  note p = pool_push [OF inv, of "Consume a q"]
  have live: "live b (push_consume a q s) = live b s" for b by (simp add: live_def push_consume_def)
  show ?thesis
    unfolding tasks_ok_def job_live_def live
    using assms p by (simp add: push_consume_def tasks_ok_def job_live_def)
qed

lemma server_rel_push:
  assumes "server_rel L tabs M N basedir s H" and "live a s"
  shows "server_rel L tabs M N basedir (push_consume a q s) H"
  using assms tasks_ok_push [of s a q]
  by (simp add: server_rel_def) (simp add: push_consume_def part_updates)

lemma push_consume_fields [simp]:
  "sv_host (push_consume a q s) = sv_host s" "sv_consumers (push_consume a q s) = sv_consumers s"
  "sv_objects (push_consume a q s) = sv_objects s" "sv_out (push_consume a q s) = sv_out s"
  "sv_job (push_consume a q s) = sv_job s" "live b (push_consume a q s) = live b s"
  "deref_channel b (push_consume a q s) = deref_channel b s"
  by (simp_all add: push_consume_def live_def)

text \<open>The queues a message goes to, in the order of the loop.\<close>

definition routed :: "splitter \<Rightarrow> ExchangeType \<Rightarrow> string \<Rightarrow> msg_queue_binding_map \<Rightarrow> string list" where
  "routed bsplit t k es = map fst (filter (\<lambda>(q, bd). route bsplit t k (bd_binding_key bd)) es)"

definition publish_cmds :: "(string \<Rightarrow> string) \<Rightarrow> BasicProperties option \<Rightarrow> string \<Rightarrow> string list \<Rightarrow> host_cmd list" where
  "publish_cmds u bp body qs = map (\<lambda>q. HPublish q (u q) bp body) qs"

lemma host_after_Cons: "host_after (c # cs) H = host_after cs (snd (host_spec c H))"
  by (simp add: host_after_def split_beta)

lemma host_ok_Cons:
  "host_ok L M N (c # cs) H \<longleftrightarrow> host_ok L M N [c] H \<and> host_ok L M N cs (snd (host_spec c H))"
  by (simp add: host_ok_def)

lemma publish_loop_rel:
  assumes "server_rel L tabs M N basedir s H" and "live this s"
    and "host_ok L M N (publish_cmds u bp body (routed (lb_split L) t k es)) H"
  shows "server_rel L tabs M N basedir (publish_loop L u this t k bp body es s)
      (host_after (publish_cmds u bp body (routed (lb_split L) t k es)) H) \<and>
    sv_objects (publish_loop L u this t k bp body es s) = sv_objects s \<and>
    sv_consumers (publish_loop L u this t k bp body es s) = sv_consumers s \<and>
    sv_job (publish_loop L u this t k bp body es s) = sv_job s \<and>
    work (sv_pool (publish_loop L u this t k bp body es s)) =
      work (sv_pool s) @ map (Consume this) (routed (lb_split L) t k es)"
  using assms
proof (induction es arbitrary: s H)
  case Nil
  then show ?case by (simp add: routed_def publish_cmds_def host_after_def)
next
  case (Cons qe es)
  obtain q e where qe: "qe = (q, e)" by (cases qe)
  show ?case
  proof (cases "route (lb_split L) t k (bd_binding_key e)")
    case False
    then show ?thesis using Cons by (simp add: qe routed_def)
  next
    case True
    have cmds: "publish_cmds u bp body (routed (lb_split L) t k (qe # es)) =
        HPublish q (u q) bp body # publish_cmds u bp body (routed (lb_split L) t k es)"
      using True by (simp add: qe routed_def publish_cmds_def)
    obtain ok h where pub: "vh_basic_publish L (u q) q bp body (sv_host s) = (ok, h)"
      by (cases "vh_basic_publish L (u q) q bp body (sv_host s)")
    let ?s1 = "push_consume this q (s\<lparr>sv_host := h\<rparr>)"
    have okc: "host_ok L M N [HPublish q (u q) bp body] H"
      and okr: "host_ok L M N (publish_cmds u bp body (routed (lb_split L) t k es)) (host_after [HPublish q (u q) bp body] H)"
      using host_ok_Cons [THEN iffD1, OF Cons.prems(3) [unfolded cmds]] by (simp_all add: host_after_single)
    have "host_rel L tabs M N basedir (basedir @ DBFILE_PATH) h (host_after [HPublish q (u q) bp body] H)"
      using host_call [OF Cons.prems(1) okc] by (auto simp: pub)
    moreover have "sh_queues (host_after [HPublish q (u q) bp body] H) = sh_queues H"
      by (simp add: host_after_single split: option.split)
    ultimately have s1: "server_rel L tabs M N basedir ?s1 (host_after [HPublish q (u q) bp body] H)"
      using Cons.prems(2) by (intro server_rel_push server_rel_host [OF Cons.prems(1)]) (simp_all add: live_def)
    have live: "live this ?s1" using Cons.prems(2) by (simp add: live_def)
    note IH = Cons.IH [OF s1 live okr]
    have "work (sv_pool ?s1) = work (sv_pool s) @ [Consume this q]"
      using pool_push(3) [of "sv_pool s" "Consume this q"] Cons.prems(1) by (simp add: push_consume_def server_rel_def tasks_ok_def)
    moreover have "routed (lb_split L) t k (qe # es) = q # routed (lb_split L) t k es"
      using True by (simp add: qe routed_def)
    ultimately show ?thesis
      unfolding cmds host_after_Cons using IH True by (simp add: qe pub host_after_single)
  qed
qed

lemma request_cmds_publish:
  "request_cmds L u (BasicPublishRequest r i e body bp) v =
    (case vh_select_exchange e v of
       None \<Rightarrow> []
     | Some ep \<Rightarrow> publish_cmds u bp body (routed (lb_split L) (ex_type ep)
         (case bp of None \<Rightarrow> '''' | Some p \<Rightarrow> bp_routing_key p) (vh_exchange_bindings e v)))"
  by (auto simp: publish_cmds_def routed_def split: option.split)

lemma answered_publish:
  assumes rel: "server_rel L tabs M N basedir s H" and r: "r = BasicPublishRequest i j e body bp"
    and live: "live this s"
  shows "answered L tabs M N basedir u s H ch r (ch_basic_publish L u this ch i j e body bp s)"
  unfolding answered_def Let_def
proof
  assume ok: "host_ok L M N (request_cmds L u r (fst (sv_host s))) H"
  let ?H = "host_after (request_cmds L u r (fst (sv_host s))) H"
  show "handled L tabs M N basedir s ?H (ch_conn ch) r (ch_basic_publish L u this ch i j e body bp s)"
  proof (cases "vh_select_exchange e (fst (sv_host s))")
    case None
    then show ?thesis
      using rel by (intro handledI [where mid = s])
        (auto simp: r ch_basic_publish_def basic_response_def host_after_def same_channels_objects)
  next
    case (Some ep)
    let ?k = "case bp of None \<Rightarrow> '''' | Some p \<Rightarrow> bp_routing_key p"
    let ?es = "vh_exchange_bindings e (fst (sv_host s))"
    have cmds: "request_cmds L u r (fst (sv_host s)) = publish_cmds u bp body (routed (lb_split L) (ex_type ep) ?k ?es)"
      unfolding r request_cmds_publish by (simp add: Some)
    note loop = publish_loop_rel [OF rel live ok [unfolded cmds]]
    show ?thesis
      unfolding cmds
      by (rule handledI [OF conjunct1 [OF loop]])
        (use loop in \<open>auto simp: r ch_basic_publish_def basic_response_def Some same_channels_objects\<close>)
  qed
qed

subsection \<open>Subscribing\<close>

lemma deref_set:
  "deref_channel a (s\<lparr>sv_objects := (sv_objects s)[this := x]\<rparr>) =
    (if a = this \<and> this < length (sv_objects s) then (case x of None \<Rightarrow> Inl Undefined | Some ch \<Rightarrow> Inr ch)
     else deref_channel a s)"
  by (auto simp: deref_channel_def nth_list_update split: option.splits)

lemma deref_in_range: "deref_channel a s = Inr ch \<Longrightarrow> a < length (sv_objects s)"
  by (auto simp: deref_channel_def split: if_splits)

text \<open>
  The channel has no subscription left when it makes a new one, and the queue has room for the
  signed index of the round robin.
\<close>

definition free_to_subscribe :: "channel \<Rightarrow> string \<Rightarrow> 'db server \<Rightarrow> bool" where
  "free_to_subscribe ch q s \<longleftrightarrow> length (subscribers q (sv_consumers s)) < 2 ^ 31 - 1 \<and>
     (case ch_consumer ch of None \<Rightarrow> True | Some c \<Rightarrow> \<not> cm_exists (cs_tag c) (cs_qname c) (sv_consumers s))"

lemma no_own_subscription:
  assumes "subs_ok s" and "deref_channel this s = Inr ch" and "free_to_subscribe ch q s"
    and "c \<in> set (subscribers q' (sv_consumers s))"
  shows "cs_callback c \<noteq> this"
proof
  assume "cs_callback c = this"
  then have own: "ch_consumer ch = Some c" using assms(1,2,4) unfolding subs_ok_def by fastforce
  have "cs_qname c = q'" using subscriber_names [OF _ assms(4)] assms(1) by (simp add: subs_ok_def)
  then have "cm_exists (cs_tag c) (cs_qname c) (sv_consumers s)" using assms(4) by (auto simp: exists_subscriber)
  then show False using assms(3) own by (simp add: free_to_subscribe_def)
qed

lemma subs_ok_subscribe:
  assumes ok: "subs_ok s" and ch: "deref_channel this s = Inr ch" and free: "free_to_subscribe ch q s"
    and create: "cm_create t q a this (sv_consumers s) = (c, m)"
  shows "subs_ok (s\<lparr>sv_consumers := m, sv_objects := (sv_objects s)[this := Some (ch\<lparr>ch_consumer := c\<rparr>)]\<rparr>)"
proof -
  let ?s = "s\<lparr>sv_consumers := m, sv_objects := (sv_objects s)[this := Some (ch\<lparr>ch_consumer := c\<rparr>)]\<rparr>"
  have deref: "deref_channel b ?s = (if b = this then Inr (ch\<lparr>ch_consumer := c\<rparr>) else deref_channel b s)" for b
    using deref_set [of b "s\<lparr>sv_consumers := m\<rparr>"] deref_in_range [OF ch] by simp
  have subs: "subscribers q' m = (case c of None \<Rightarrow> subscribers q' (sv_consumers s)
      | Some c \<Rightarrow> if q' = q then subscribers q' (sv_consumers s) @ [c] else subscribers q' (sv_consumers s))" for q'
    using subscribers_create [of q' t q a this "sv_consumers s"] by (simp add: create)
  have cb: "c = Some c' \<Longrightarrow> cs_callback c' = this" for c'
    using create_consumer [of t q a this "sv_consumers s" c'] by (simp add: create)
  have old: "\<exists>ch'. deref_channel (cs_callback c0) ?s = Inr ch' \<and> ch_consumer ch' = Some c0"
    if "c0 \<in> set (subscribers q' (sv_consumers s))" for q' c0
    using ok that no_own_subscription [OF ok ch free that] by (simp add: subs_ok_def deref)
  have "\<exists>ch'. deref_channel (cs_callback c0) ?s = Inr ch' \<and> ch_consumer ch' = Some c0"
    if "c0 \<in> set (subscribers q' m)" for q' c0
  proof -
    have "c0 \<in> set (subscribers q' (sv_consumers s)) \<or> c = Some c0"
      using that by (auto simp: subs split: option.splits if_splits)
    then show ?thesis using old cb deref [of this] by auto
  qed
  moreover have "consumers_ok m"
    using consumers_ok_ops(3) [of "sv_consumers s" t q a this] ok by (simp add: create subs_ok_def)
  moreover have "length (subscribers q' m) < 2 ^ 31" for q'
    using ok free by (auto simp: subs subs_ok_def free_to_subscribe_def split: option.split)
  ultimately show ?thesis by (simp add: subs_ok_def)
qed

lemma answered_consume:
  assumes rel: "server_rel L tabs M N basedir s H" and r: "r = BasicConsumeRequest i j t q a"
    and ch: "deref_channel this s = Inr ch" and free: "free_to_subscribe ch q s"
  shows "answered L tabs M N basedir u s H ch r (ch_basic_consume this ch i j t q a s)"
  unfolding answered_def Let_def
proof
  have H: "host_after (request_cmds L u r (fst (sv_host s))) H = H" by (simp add: r host_after_def)
  obtain c m where create: "cm_create t q a this (sv_consumers s) = (c, m)"
    by (cases "cm_create t q a this (sv_consumers s)")
  let ?s = "s\<lparr>sv_consumers := m, sv_objects := (sv_objects s)[this := Some (ch\<lparr>ch_consumer := c\<rparr>)]\<rparr>"
  have deref: "deref_channel b ?s = (if b = this then Inr (ch\<lparr>ch_consumer := c\<rparr>) else deref_channel b s)" for b
    using deref_set [of b "s\<lparr>sv_consumers := m\<rparr>"] deref_in_range [OF ch] by simp
  have live: "live b ?s = live b s" for b using ch by (simp add: live_def deref)
  have "tasks_ok ?s"
    using server_relD(3) [OF rel] by (rule tasks_ok_same [rotated -1]) (simp_all add: live)
  moreover have "registry_ok ?s H"
    using rel known_queues(4) [of t q a this "sv_consumers s"] by (simp add: server_rel_def registry_ok_def create)
  moreover have "subs_ok ?s" by (rule subs_ok_subscribe [OF server_relD(2) [OF rel] ch free create])
  ultimately have "server_rel L tabs M N basedir ?s H" using rel by (simp add: server_rel_def)
  moreover have "same_channels s ?s" using ch by (auto simp: same_channels_def ident_def deref)
  ultimately show "handled L tabs M N basedir s (host_after (request_cmds L u r (fst (sv_host s))) H) (ch_conn ch) r
      (ch_basic_consume this ch i j t q a s)"
    unfolding H
    using handledI [OF rel same_channels_objects refl, where conn = "ch_conn ch"]
      handledI [of L tabs M N basedir ?s H s, where conn = "ch_conn ch"]
    by (auto simp: r ch_basic_consume_def basic_response_def create)
qed

section \<open>Opening and closing channels\<close>

lemma server_rel_open:
  assumes "server_rel L tabs M N basedir s H"
  shows "server_rel L tabs M N basedir (s\<lparr>sv_objects := sv_objects s @ [Some ch]\<rparr>) H"
    and "deref_channel a s = Inr ch' \<Longrightarrow> deref_channel a (s\<lparr>sv_objects := sv_objects s @ [Some ch]\<rparr>) = Inr ch'"
    and "deref_channel (length (sv_objects s)) (s\<lparr>sv_objects := sv_objects s @ [Some ch]\<rparr>) = Inr ch"
proof -
  let ?s = "s\<lparr>sv_objects := sv_objects s @ [Some ch]\<rparr>"
  show old: "deref_channel a s = Inr ch' \<Longrightarrow> deref_channel a ?s = Inr ch'" for a ch'
    by (auto simp: deref_channel_def nth_append split: if_splits option.splits)
  show "deref_channel (length (sv_objects s)) ?s = Inr ch" by (simp add: deref_channel_def)
  have "subs_ok ?s" using assms old by (simp add: server_rel_def subs_ok_def) blast
  moreover have "live a s \<Longrightarrow> live a ?s" for a using old [of a] by (auto simp: live_def returns_iff)
  then have "tasks_ok ?s" by (intro tasks_ok_same [OF _ _ _ server_relD(3) [OF assms]]) simp_all
  ultimately show "server_rel L tabs M N basedir ?s H" using assms by (simp add: server_rel_def registry_ok_def)
qed

text \<open>Nothing under way refers to the channel.\<close>

definition quiet :: "addr \<Rightarrow> 'db server \<Rightarrow> bool" where
  "quiet this s \<longleftrightarrow> (\<forall>t \<in> set (work (sv_pool s)). \<forall>q. t \<noteq> Consume this q) \<and>
     (case sv_job s of Chosen mp cp \<Rightarrow> cs_callback cp \<noteq> this | _ \<Rightarrow> True)"

lemma channel_destroyed_rel:
  assumes rel: "server_rel L tabs M N basedir s H" and ch: "deref_channel this s = Inr ch" and quiet: "quiet this s"
  obtains s' where "destroy_channel this s = Inr s'" and "server_rel L tabs M N basedir s' H"
    and "sv_out s' = sv_out s" and "sv_pool s' = sv_pool s" and "sv_job s' = sv_job s"
    and "\<forall>a. a \<noteq> this \<longrightarrow> deref_channel a s' = deref_channel a s" and "deref_channel this s' = Inl Undefined"
proof -
  define m where "m = (case ch_consumer ch of
      None \<Rightarrow> sv_consumers s | Some c \<Rightarrow> cm_remove (cs_tag c) (cs_qname c) (sv_consumers s))"
  let ?s = "s\<lparr>sv_consumers := m, sv_objects := (sv_objects s)[this := None]\<rparr>"
  have deref: "deref_channel a ?s = deref_channel a s" if "a \<noteq> this" for a
    using deref_set [of a "s\<lparr>sv_consumers := m\<rparr>" this None] that by simp
  have okm: "consumers_ok m"
    using server_relD(4) [OF rel] by (auto simp: m_def intro: consumers_ok_ops split: option.split)
  have left: "c \<in> set (subscribers q m) \<Longrightarrow> c \<in> set (subscribers q (sv_consumers s)) \<and> cs_callback c \<noteq> this" for q c
  proof -
    assume c: "c \<in> set (subscribers q m)"
    then have old: "c \<in> set (subscribers q (sv_consumers s))"
      by (auto simp: m_def subscribers_remove [OF server_relD(4) [OF rel]] split: option.splits if_splits)
    moreover have "cs_callback c \<noteq> this"
    proof
      assume "cs_callback c = this"
      then have "ch_consumer ch = Some c"
        using server_relD(2) [OF rel] old ch unfolding subs_ok_def by fastforce
      moreover have "cs_qname c = q" by (rule subscriber_names [OF server_relD(4) [OF rel] old])
      ultimately show False using c by (auto simp: m_def subscribers_remove [OF server_relD(4) [OF rel]])
    qed
    ultimately show ?thesis by simp
  qed
  have "length (subscribers q m) \<le> length (subscribers q (sv_consumers s))" for q
    by (auto simp: m_def subscribers_remove [OF server_relD(4) [OF rel]] split: option.split)
  then have "length (subscribers q m) < 2 ^ 31" for q
    using server_relD(2) [OF rel] unfolding subs_ok_def by (meson le_less_trans)
  moreover have "\<exists>ch'. deref_channel (cs_callback c) ?s = Inr ch' \<and> ch_consumer ch' = Some c"
    if "c \<in> set (subscribers q m)" for q c
    using subs_okD [OF server_relD(2) [OF rel] conjunct1 [OF left [OF that]]] left [OF that] by (simp add: deref)
  ultimately have "subs_ok ?s" using okm by (simp add: subs_ok_def)
  moreover have "live a s \<Longrightarrow> a \<noteq> this \<Longrightarrow> live a ?s" for a by (simp add: live_def deref)
  then have "tasks_ok ?s"
    using server_relD(3) [OF rel] quiet by (auto simp: tasks_ok_def quiet_def job_live_def split: job.splits)
  moreover have "registry_ok ?s H"
    using rel by (auto simp: server_rel_def registry_ok_def m_def known_queues split: option.split)
  ultimately have "server_rel L tabs M N basedir ?s H" using rel by (simp add: server_rel_def)
  moreover have "deref_channel this ?s = Inl Undefined"
    using deref_set [of this "s\<lparr>sv_consumers := m\<rparr>" this None] deref_in_range [OF ch] by simp
  ultimately show ?thesis using deref by (intro that [of ?s]) (simp_all add: destroy_channel_def ch m_def Let_def)
qed

section \<open>The worker\<close>

lemma one_thread: "tasks_ok s \<Longrightarrow> \<exists>t. tp_threads (sv_pool s) = [t]"
  by (auto simp: tasks_ok_def pool_inv_def length_Suc_conv)

lemma advance_tasks_ok:
  assumes "tasks_ok s"
  shows "tasks_ok ((advance_pool s)\<lparr>sv_job := Fresh\<rparr>)"
proof (cases "thread_step 0 (sv_pool s)")
  case None
  then show ?thesis using assms by (simp add: advance_pool_def tasks_ok_def job_live_def live_def)
next
  case (Some dp)
  obtain did p where dp: "dp = (did, p)" by (cases dp)
  obtain t where t: "tp_threads (sv_pool s) = [t]" using one_thread [OF assms] by blast
  note step = Some [unfolded dp]
  have "pool_inv 1 p" using assms by (intro pool_inv_thread [OF _ _ step]) (simp_all add: tasks_ok_def t)
  moreover have "tp_stop_signal p = tp_stop_signal (sv_pool s)"
    using step by (auto simp: thread_step_def set_thread_def split: thread.splits list.splits if_splits)
  moreover have "set (work p) \<subseteq> set (work (sv_pool s))"
    using thread_step_fifo [OF t step] by (metis set_append sup_ge2)
  ultimately show ?thesis
    using assms step by (auto simp: advance_pool_def dp tasks_ok_def job_live_def live_def)
qed

lemma advance_rel:
  assumes "server_rel L tabs M N basedir s H"
  shows "server_rel L tabs M N basedir ((advance_pool s)\<lparr>sv_job := Fresh\<rparr>) H"
proof -
  have "subs_ok (advance_pool s) = subs_ok s" "registry_ok (advance_pool s) H = registry_ok s H"
    "sv_host (advance_pool s) = sv_host s"
    by (simp_all add: advance_pool_def part_updates split: option.split prod.split)
  then show ?thesis using assms advance_tasks_ok [of s] by (simp add: server_rel_def part_updates)
qed

lemma advance_objects [simp]: "sv_objects (advance_pool s) = sv_objects s"
  by (simp add: advance_pool_def split: option.split prod.split)

lemma server_rel_job:
  assumes "server_rel L tabs M N basedir s H" and "in_threads (sv_pool s) \<noteq> []"
    and "case j of Chosen mp cp \<Rightarrow> live (cs_callback cp) s | _ \<Rightarrow> True"
  shows "server_rel L tabs M N basedir (s\<lparr>sv_job := j\<rparr>) H"
  using assms by (simp add: server_rel_def part_updates tasks_ok_def job_live_def live_def split: job.splits)

definition worker_cmds :: "'db server \<Rightarrow> host_cmd list" where
  "worker_cmds s =
     (case tp_threads (sv_pool s) ! 0 of
        Executing (Consume this q # ts) \<Rightarrow>
          (case sv_job s of
             Fresh \<Rightarrow> [HConsume q]
           | Delivered mp cp \<Rightarrow> if cs_auto_ack cp then [HAck q (bp_id (properties (msg_payload mp)))] else []
           | _ \<Rightarrow> [])
      | _ \<Rightarrow> [])"

lemma consume_step_rel:
  assumes rel: "server_rel L tabs M N basedir s H"
    and th: "tp_threads (sv_pool s) ! 0 = Executing (Consume this q # ts)"
  shows "\<exists>fin s'. consume_step L this q s = Inr (fin, s') \<and>
    server_rel L tabs M N basedir s' (host_after (worker_cmds s) H) \<and> sv_objects s' = sv_objects s \<and> sv_pool s' = sv_pool s"
proof -
  have one: "tp_threads (sv_pool s) = [Executing (Consume this q # ts)]"
    using one_thread [OF server_relD(3) [OF rel]] th by auto
  then have busy: "in_threads (sv_pool s) \<noteq> []" and mem: "Consume this q \<in> set (work (sv_pool s))"
    by (simp_all add: in_threads_def work_def)
  obtain ch where ch: "deref_channel this s = Inr ch"
    using server_relD(3) [OF rel] mem by (auto simp: tasks_ok_def live_def returns_iff)
  have call: "\<exists>x'. host_step L HOST_NAME basedir (basedir @ DBFILE_PATH) c (sv_host s) = Inr (fst (host_spec c H), x') \<and>
      server_rel L tabs M N basedir (s\<lparr>sv_host := x'\<rparr>) (host_after [c] H)" if "c = HConsume q \<or> c = HAck q i" for c i
  proof -
    have "host_ok L M N [c] H" using that by (auto simp: host_ok_def)
    then obtain x' where x': "host_step L HOST_NAME basedir (basedir @ DBFILE_PATH) c (sv_host s) = Inr (fst (host_spec c H), x')"
      "host_rel L tabs M N basedir (basedir @ DBFILE_PATH) x' (host_after [c] H)"
      using host_call [OF rel] by blast
    have "sh_queues (host_after [c] H) = sh_queues H" using that by (auto simp: host_after_single split: option.split)
    from server_rel_host [OF rel x'(2) this] x'(1) show ?thesis by blast
  qed
  show ?thesis
  proof (cases "sv_job s")
    case Fresh
    obtain x' where x': "host_step L HOST_NAME basedir (basedir @ DBFILE_PATH) (HConsume q) (sv_host s) =
        Inr (fst (host_spec (HConsume q) H), x')" "server_rel L tabs M N basedir (s\<lparr>sv_host := x'\<rparr>) (host_after [HConsume q] H)"
      using call [of "HConsume q"] by blast
    obtain mp where mp: "vh_basic_consume q (sv_host s) = (mp, x')"
      using x'(1) by (auto split: prod.splits)
    have "server_rel L tabs M N basedir (s\<lparr>sv_host := x', sv_job := j\<rparr>) (host_after [HConsume q] H)"
      if "j = Fetched m" for j m
      using server_rel_job [OF x'(2)] busy that by simp
    then show ?thesis
      using x'(2) by (cases mp) (auto simp: consume_step_def consume_front_def ch mp Fresh worker_cmds_def th)
  next
    case (Fetched m)
    have cmds: "host_after (worker_cmds s) H = H" by (simp add: worker_cmds_def th Fetched host_after_def)
    have "length (subscribers q (sv_consumers s)) < 2 ^ 31" using server_relD(2) [OF rel] by (simp add: subs_ok_def)
    from choose_returns [OF this] obtain c n where c: "cm_choose q (sv_consumers s) = Inr (c, n)"
      "\<forall>c'. c = Some c' \<longrightarrow> c' \<in> set (subscribers q (sv_consumers s))" by blast
    have "server_rel L tabs M N basedir (s\<lparr>sv_consumers := n, sv_host := sv_host s\<rparr>) H"
      using server_relD(5) [OF rel] c(1)
      by (intro server_rel_consumers [OF rel server_relD(1) [OF rel]] consumers_ok_ops(5) [OF server_relD(4) [OF rel] c(1)])
        (auto simp: subscribers_choose known_queues(5))
    then have next_state: "server_rel L tabs M N basedir (s\<lparr>sv_consumers := n\<rparr>) H" by simp
    have "live (cs_callback c') s" if "c = Some c'" for c'
      using subs_okD [OF server_relD(2) [OF rel]] c(2) that by (fastforce simp: live_def)
    then have "server_rel L tabs M N basedir (s\<lparr>sv_consumers := n, sv_job := Chosen m c'\<rparr>) H" if "c = Some c'" for c'
      using server_rel_job [OF next_state] busy that by (simp add: live_def)
    then show ?thesis
      unfolding cmds using next_state
      by (cases c) (auto simp: consume_step_def consume_choose_def ch c(1) Fetched)
  next
    case (Chosen m cp)
    have cmds: "host_after (worker_cmds s) H = H" by (simp add: worker_cmds_def th Chosen host_after_def)
    obtain ch' where ch': "deref_channel (cs_callback cp) s = Inr ch'"
      using server_relD(3) [OF rel] by (auto simp: tasks_ok_def job_live_def Chosen live_def returns_iff)
    have "server_rel L tabs M N basedir (s\<lparr>sv_out := out, sv_job := Delivered m cp\<rparr>) H" for out
      using server_rel_job [of L tabs M N basedir "s\<lparr>sv_out := out\<rparr>" H "Delivered m cp"] rel busy
      by (simp add: server_rel_out)
    then show ?thesis
      unfolding cmds by (auto simp: consume_step_def consume_deliver_def consume_cb_def ch' Chosen send_def Let_def)
  next
    case (Delivered m cp)
    show ?thesis
    proof (cases "cs_auto_ack cp")
      case False
      then show ?thesis using rel by (auto simp: consume_step_def consume_ack_def Delivered worker_cmds_def th host_after_def)
    next
      case True
      let ?c = "HAck q (bp_id (properties (msg_payload m)))"
      obtain x' where "host_step L HOST_NAME basedir (basedir @ DBFILE_PATH) ?c (sv_host s) = Inr (fst (host_spec ?c H), x')"
        "server_rel L tabs M N basedir (s\<lparr>sv_host := x'\<rparr>) (host_after [?c] H)"
        using call [of ?c] by blast
      then show ?thesis
        by (auto simp: rbind_Inr_conv consume_step_def consume_ack_def ch Delivered worker_cmds_def th True)
    qed
  qed
qed

lemma worker_step_rel:
  assumes rel: "server_rel L tabs M N basedir s H"
  shows "\<exists>s'. worker_step L s = Inr s' \<and> server_rel L tabs M N basedir s' (host_after (worker_cmds s) H) \<and>
    sv_objects s' = sv_objects s"
proof (cases "\<exists>this q ts. tp_threads (sv_pool s) ! 0 = Executing (Consume this q # ts)")
  case True
  then obtain this q ts where th: "tp_threads (sv_pool s) ! 0 = Executing (Consume this q # ts)" by blast
  obtain fin s' where s': "consume_step L this q s = Inr (fin, s')"
    "server_rel L tabs M N basedir s' (host_after (worker_cmds s) H)" "sv_objects s' = sv_objects s"
    using consume_step_rel [OF rel th] by blast
  then show ?thesis using advance_rel [OF s'(2)] by (simp add: worker_step_def th)
next
  case False
  obtain t where t: "tp_threads (sv_pool s) = [t]" using one_thread [OF server_relD(3) [OF rel]] by blast
  have idle: "tp_threads (sv_pool s) ! 0 \<noteq> Executing (x # xs)" for x xs using False by (cases x) simp
  have step: "worker_step L s = Inr (advance_pool s)" and cmds: "worker_cmds s = []"
    using idle by (auto simp: worker_step_def worker_cmds_def split: thread.split list.split task.split)
  have "tasks_of t = []" using idle t by (cases "tasks_of t"; cases t; simp)
  then have "in_threads (sv_pool s) = []" by (simp add: in_threads_def t)
  then have "sv_job s = Fresh" using server_relD(3) [OF rel] by (simp add: tasks_ok_def)
  then have "(advance_pool s)\<lparr>sv_job := Fresh\<rparr> = advance_pool s"
    by (auto simp: advance_pool_def split: option.split prod.split)
  then show ?thesis using advance_rel [OF rel] by (simp add: step cmds host_after_def)
qed

end
