(* ===== verification/Broker_Run.thy ===== *)
theory Broker_Run
  imports Broker_Invariant
begin

text \<open>
  The server over time: which events clients may cause, that every such event keeps the invariant and
  is answered, and the states the server reaches over any interleaving of events and restarts.
\<close>

section \<open>One event\<close>

text \<open>The calls of the host an event makes.\<close>

fun event_cmds :: "'db libs \<Rightarrow> event \<Rightarrow> 'db broker \<Rightarrow> host_cmd list" where
  "event_cmds L (Request c u r) b =
     (if channel_at c (rq_cid r) b = None then [] else request_cmds L u r (fst (sv_host (br_server b))))"
| "event_cmds L Worker b = worker_cmds (br_server b)"
| "event_cmds L e b = []"

text \<open>
  What clients must respect beyond the rules of the host: a channel is given up only when no task and
  no callback under way refers to it, and it subscribes only once at a time.
\<close>

fun request_ok :: "request \<Rightarrow> addr \<Rightarrow> 'db server \<Rightarrow> bool" where
  "request_ok (CloseChannelRequest i j) this s \<longleftrightarrow> quiet this s"
| "request_ok (BasicConsumeRequest i j t q a) this s \<longleftrightarrow>
     (case deref_channel this s of Inl e \<Rightarrow> True | Inr ch \<Rightarrow> free_to_subscribe ch q s)"
| "request_ok r this s \<longleftrightarrow> True"

fun event_ok :: "'db libs \<Rightarrow> nat \<Rightarrow> nat \<Rightarrow> event \<Rightarrow> 'db broker \<Rightarrow> spec_host \<Rightarrow> bool" where
  "event_ok L M N (Request c u r) b H \<longleftrightarrow> host_ok L M N (event_cmds L (Request c u r) b) H \<and>
     (case channel_at c (rq_cid r) b of None \<Rightarrow> True | Some this \<Rightarrow> request_ok r this (br_server b))"
| "event_ok L M N (Disconnected c) b H \<longleftrightarrow>
     (case select_connection c (br_connections b) of
        None \<Rightarrow> True
      | Some k \<Rightarrow> list_all (\<lambda>a. quiet a (br_server b)) (map snd (cn_channels k)))"
| "event_ok L M N e b H \<longleftrightarrow> True"

text \<open>What is sent when a request arrives.\<close>

fun needs_channel :: "request \<Rightarrow> bool" where
  "needs_channel (OpenChannelRequest i j) = False"
| "needs_channel (CloseChannelRequest i j) = False"
| "needs_channel (OtherMessage n) = False"
| "needs_channel r = True"

fun known_type :: "request \<Rightarrow> bool" where
  "known_type (OtherMessage n) = False"
| "known_type r = True"

definition replies :: "'db broker \<Rightarrow> conn \<Rightarrow> request \<Rightarrow> outgoing list \<Rightarrow> bool" where
  "replies b c r outs \<longleftrightarrow>
     (if select_connection c (br_connections b) = None \<or> \<not> known_type r then outs = [Shutdown c]
      else if needs_channel r \<and> channel_at c (rq_cid r) b = None then outs = []
      else \<exists>resp. outs = [Send c resp] \<and> response_to r resp)"

definition event_follows ::
  "'db libs \<Rightarrow> ('db \<Rightarrow> tables) \<Rightarrow> nat \<Rightarrow> nat \<Rightarrow> string \<Rightarrow> event \<Rightarrow> 'db broker \<Rightarrow> spec_host \<Rightarrow> bool" where
  "event_follows L tabs M N basedir e b H \<longleftrightarrow>
     (\<exists>b'. broker_step L e b = Inr b' \<and> broker_rel L tabs M N basedir b' (host_after (event_cmds L e b) H) \<and>
        (\<forall>c u r. e = Request c u r \<longrightarrow>
           (\<exists>outs. sv_out (br_server b') = sv_out (br_server b) @ outs \<and> replies b c r outs)))"

lemma channels_ok_same:
  assumes "channels_ok b" and "same_channels (br_server b) s"
  shows "channels_ok (b\<lparr>br_server := s\<rparr>)"
  using assms by (simp add: channels_ok_def same_channels_def channel_at_def)

lemma channel_atD:
  assumes "channels_ok b" and "channel_at c cid b = Some a"
  shows "\<exists>ch. deref_channel a (br_server b) = Inr ch \<and> ch_cid ch = cid \<and> ch_conn ch = c"
proof -
  have "ident a (br_server b) = Some (c, cid)" using assms by (simp add: channels_ok_def)
  then show ?thesis by (auto simp: ident_Some)
qed

lemma broker_rel_shutdown:
  assumes "broker_rel L tabs M N basedir b H"
  shows "broker_rel L tabs M N basedir (close_unknown c b) H"
proof -
  have "same_channels (br_server b) (shutdown c (br_server b))"
    by (rule same_channels_objects) (simp add: shutdown_def)
  then show ?thesis
    using assms channels_ok_same [of b] by (simp add: broker_rel_def close_unknown_def) (simp add: shutdown_def server_rel_out)
qed

text \<open>A request for a channel, whatever its handler.\<close>

lemma on_channel_follows:
  assumes rel: "broker_rel L tabs M N basedir b H" and step: "onProtobufMessage L u c r b = on_channel c (rq_cid r) handler b"
    and r: "needs_channel r" and ok: "event_ok L M N (Request c u r) b H"
    and ans: "\<And>this ch. \<lbrakk>channel_at c (rq_cid r) b = Some this; deref_channel this (br_server b) = Inr ch;
      ch_cid ch = rq_cid r; ch_conn ch = c\<rbrakk> \<Longrightarrow>
      answered L tabs M N basedir u (br_server b) H ch r (handler this ch (br_server b))"
  shows "event_follows L tabs M N basedir (Request c u r) b H"
proof (cases "select_connection c (br_connections b)")
  case None
  then have "channel_at c (rq_cid r) b = None" by (simp add: channel_at_def)
  then show ?thesis
    using broker_rel_shutdown [OF rel, of c] None
    by (simp add: event_follows_def step on_channel_def host_after_def replies_def)
      (simp add: close_unknown_def shutdown_def)
next
  case (Some k)
  have known: "known_type r" using r by (cases r) simp_all
  show ?thesis
  proof (cases "cn_select_channel (rq_cid r) k")
    case None
    then show ?thesis
      using rel Some r known by (simp add: event_follows_def step on_channel_def channel_at_def host_after_def replies_def)
  next
    case chan: (Some a)
    have at: "channel_at c (rq_cid r) b = Some a" using Some chan by (simp add: channel_at_def)
    have chs: "channels_ok b" using rel by (simp add: broker_rel_def)
    obtain ch where ch: "deref_channel a (br_server b) = Inr ch" "ch_cid ch = rq_cid r" "ch_conn ch = c"
      using channel_atD [OF chs at] by blast
    have "host_ok L M N (request_cmds L u r (fst (sv_host (br_server b)))) H" using ok at by simp
    then obtain s' resp where s': "handler a ch (br_server b) = Inr s'"
      "server_rel L tabs M N basedir s' (host_after (request_cmds L u r (fst (sv_host (br_server b)))) H)"
      "same_channels (br_server b) s'" "sv_out s' = sv_out (br_server b) @ [Send c resp]" "response_to r resp"
      using ans [OF at ch] by (auto simp: answered_def handled_def Let_def ch(3))
    then show ?thesis
      using Some chan at ch known channels_ok_same [OF chs s'(3)]
      by (auto simp: event_follows_def step on_channel_def broker_rel_def replies_def)
  qed
qed

lemmas answered_simple = answered_declare_exchange answered_delete_exchange answered_declare_queue answered_delete_queue
  answered_bind answered_unbind answered_ack answered_cancel

lemma request_follows:
  assumes rel: "broker_rel L tabs M N basedir b H" and ok: "event_ok L M N (Request c u r) b H" and r: "needs_channel r"
  shows "event_follows L tabs M N basedir (Request c u r) b H"
proof -
  have srel: "server_rel L tabs M N basedir (br_server b) H" using rel by (simp add: broker_rel_def)
  note follow = on_channel_follows [OF rel _ r ok]
  show ?thesis
  proof (cases r)
    case (DeclareExchangeRequest i j n t d a args)
    then show ?thesis
      by (intro follow [where handler = "\<lambda>this ch. ch_declare_exchange L ch i j n t d a args"])
        (auto simp: on_declareExchange_def intro: answered_declare_exchange [OF srel])
  next
    case (DeleteExchangeRequest i j n)
    then show ?thesis
      by (intro follow [where handler = "\<lambda>this ch. ch_delete_exchange L ch i j n"])
        (auto simp: on_deleteExchange_def intro: answered_delete_exchange [OF srel])
  next
    case (DeclareQueueRequest i j n e d a args)
    then show ?thesis
      by (intro follow [where handler = "\<lambda>this ch. ch_declare_queue L ch i j n e d a args"])
        (auto simp: on_declareQueue_def intro: answered_declare_queue [OF srel])
  next
    case (DeleteQueueRequest i j n)
    then show ?thesis
      by (intro follow [where handler = "\<lambda>this ch. ch_delete_queue L ch i j n"])
        (auto simp: on_deleteQueue_def intro: answered_delete_queue [OF srel])
  next
    case (BindRequest i j e q k)
    then show ?thesis
      by (intro follow [where handler = "\<lambda>this ch. ch_bind L ch i j e q k"])
        (auto simp: on_bind_def intro: answered_bind [OF srel])
  next
    case (UnbindRequest i j e q)
    then show ?thesis
      by (intro follow [where handler = "\<lambda>this ch. ch_unbind L ch i j e q"])
        (auto simp: on_unbind_def intro: answered_unbind [OF srel])
  next
    case (BasicPublishRequest i j e body bp)
    then show ?thesis
      by (intro follow [where handler = "\<lambda>this ch. ch_basic_publish L u this ch i j e body bp"])
        (auto simp: on_basicPublish_def live_def intro: answered_publish [OF srel])
  next
    case (BasicAckRequest i j q m)
    then show ?thesis
      by (intro follow [where handler = "\<lambda>this ch. ch_basic_ack L ch i j q m"])
        (auto simp: on_basicAck_def intro: answered_ack [OF srel])
  next
    case (BasicConsumeRequest i j t q a)
    then show ?thesis
      using ok by (intro follow [where handler = "\<lambda>this ch. ch_basic_consume this ch i j t q a"])
        (auto simp: on_basicConsume_def intro: answered_consume [OF srel])
  next
    case (BasicCancelRequest i j t q)
    then show ?thesis
      by (intro follow [where handler = "\<lambda>this ch. ch_basic_cancel ch i j t q"])
        (auto simp: on_basicCancel_def intro: answered_cancel [OF srel])
  next
    case (BasicQueryRequest i j)
    then show ?thesis
      by (intro follow [where handler = "\<lambda>this ch. ch_basic_query ch i"])
        (auto simp: on_basicQuery_def intro: answered_query [OF srel])
  qed (use r in simp_all)
qed

section \<open>Channels and connections\<close>

lemma channel_at_find:
  "map_of (br_connections b) k = Some c \<Longrightarrow> channel_at k cid b = map_of (cn_channels c) cid"
  by (simp add: channel_at_def select_connection_def cn_select_channel_def cm_select_channel_def)

lemma channels_okD:
  assumes "channels_ok b"
  shows "map_of (br_connections b) k = Some c \<Longrightarrow> cn_conn c = k"
    and "map_of (br_connections b) k = Some c \<Longrightarrow> um_wf (cn_channels c)"
    and "channel_at k cid b = Some a \<longleftrightarrow> ident a (br_server b) = Some (k, cid)"
  using assms unfolding channels_ok_def by blast+

lemma channel_at_put:
  assumes "map_of (br_connections b) k = Some c"
  shows "channel_at j cid (b\<lparr>br_server := s, br_connections := um_put k (c\<lparr>cn_channels := chs\<rparr>) (br_connections b)\<rparr>) =
    (if j = k then map_of chs cid else channel_at j cid b)"
  by (simp add: channel_at_def select_connection_def cn_select_channel_def cm_select_channel_def um_find_put)

lemma channels_ok_put:
  assumes ok: "channels_ok b" and k: "map_of (br_connections b) k = Some c" and wf: "um_wf chs"
    and chans: "\<And>j cid a. (if j = k then map_of chs cid else channel_at j cid b) = Some a \<longleftrightarrow> ident a s = Some (j, cid)"
  shows "channels_ok (b\<lparr>br_server := s, br_connections := um_put k (c\<lparr>cn_channels := chs\<rparr>) (br_connections b)\<rparr>)"
  unfolding channels_ok_def channel_at_put [OF k]
  using ok wf chans channels_okD(1,2) [OF ok] k by (simp add: channels_ok_def um_wf_put um_find_put)

lemma ident_send [simp]: "ident a (send c r s) = ident a s"
  by (simp add: ident_def)

lemma open_follows:
  assumes rel: "broker_rel L tabs M N basedir b H"
  shows "event_follows L tabs M N basedir (Request c u (OpenChannelRequest i j)) b H"
proof (cases "map_of (br_connections b) c")
  case None
  then show ?thesis
    using broker_rel_shutdown [OF rel, of c]
    by (simp add: event_follows_def on_openChannel_def select_connection_def host_after_def replies_def)
      (simp add: close_unknown_def shutdown_def)
next
  case (Some k)
  have ok: "channels_ok b" and srel: "server_rel L tabs M N basedir (br_server b) H"
    using rel by (simp_all add: broker_rel_def)
  note k = channels_okD(1,2) [OF ok Some] and at = channels_okD(3) [OF ok] and find = channel_at_find [OF Some]
  show ?thesis
  proof (cases "map_of (cn_channels k) j")
    case old: (Some a)
    let ?s = "send c (BasicCommonResponse i j False) (br_server b)"
    have "channels_ok (b\<lparr>br_server := ?s, br_connections := um_put c (k\<lparr>cn_channels := cn_channels k\<rparr>) (br_connections b)\<rparr>)"
      by (rule channels_ok_put [OF ok Some k(2)]) (auto simp: find [symmetric] at)
    moreover have "server_rel L tabs M N basedir ?s H" using srel by (simp add: send_def server_rel_out)
    ultimately show ?thesis
      using Some old k(1)
      by (simp add: event_follows_def on_openChannel_def select_connection_def cn_open_channel_def cm_open_channel_def
          basic_response_def host_after_def replies_def broker_rel_def)
  next
    case None
    let ?o = "(br_server b)\<lparr>sv_objects := sv_objects (br_server b) @ [Some (channel_new j c)]\<rparr>"
    let ?s = "send c (BasicCommonResponse i j True) ?o"
    let ?chs = "um_insert j (length (sv_objects (br_server b))) (cn_channels k)"
    have ident: "ident a ?s = (if a = length (sv_objects (br_server b)) then Some (c, j) else ident a (br_server b))" for a
      unfolding ident_send by (simp add: ident_def deref_channel_def nth_append channel_new_def)
    have fresh: "ident (length (sv_objects (br_server b))) (br_server b) = None"
      by (simp add: ident_def deref_channel_def)
    have "channels_ok (b\<lparr>br_server := ?s, br_connections := um_put c (k\<lparr>cn_channels := ?chs\<rparr>) (br_connections b)\<rparr>)"
    proof (rule channels_ok_put [OF ok Some um_wf_insert [OF k(2)]])
      fix j' cid a
      have none: "ident a (br_server b) \<noteq> Some (c, j)" using at [of c j a] find [of j] None by simp
      show "(if j' = c then map_of ?chs cid else channel_at j' cid b) = Some a \<longleftrightarrow> ident a ?s = Some (j', cid)"
        using none fresh None by (auto simp only: ident um_find_insert find [symmetric] at split: if_splits option.splits)
    qed
    moreover have "server_rel L tabs M N basedir ?s H"
      using server_rel_open(1) [OF srel, of "channel_new j c"] by (simp add: send_def server_rel_out)
    ultimately show ?thesis
      using Some None k(1)
      by (simp add: event_follows_def on_openChannel_def select_connection_def cn_open_channel_def cm_open_channel_def
          basic_response_def host_after_def replies_def broker_rel_def Let_def)
  qed
qed

lemma ident_destroyed:
  assumes "\<forall>a. a \<noteq> this \<longrightarrow> deref_channel a s' = deref_channel a s" and "deref_channel this s' = Inl Undefined"
  shows "ident a s' = (if a = this then None else ident a s)"
  using assms by (simp add: ident_def)

lemma close_follows:
  assumes rel: "broker_rel L tabs M N basedir b H"
    and ok_event: "event_ok L M N (Request c u (CloseChannelRequest i j)) b H"
  shows "event_follows L tabs M N basedir (Request c u (CloseChannelRequest i j)) b H"
proof (cases "map_of (br_connections b) c")
  case None
  then show ?thesis
    using broker_rel_shutdown [OF rel, of c]
    by (simp add: event_follows_def on_closeChannel_def select_connection_def host_after_def replies_def)
      (simp add: close_unknown_def shutdown_def)
next
  case (Some k)
  have ok: "channels_ok b" and srel: "server_rel L tabs M N basedir (br_server b) H"
    using rel by (simp_all add: broker_rel_def)
  note k = channels_okD(1,2) [OF ok Some] and at = channels_okD(3) [OF ok] and find = channel_at_find [OF Some]
  show ?thesis
  proof (cases "map_of (cn_channels k) j")
    case None
    let ?s = "send c (BasicCommonResponse i j True) (br_server b)"
    have "channels_ok (b\<lparr>br_server := ?s, br_connections := um_put c (k\<lparr>cn_channels := cn_channels k\<rparr>) (br_connections b)\<rparr>)"
      by (rule channels_ok_put [OF ok Some k(2)]) (auto simp: find [symmetric] at)
    moreover have "server_rel L tabs M N basedir ?s H" using srel by (simp add: send_def server_rel_out)
    ultimately show ?thesis
      using Some None k(1) find
      by (simp add: event_follows_def on_closeChannel_def select_connection_def cn_close_channel_def cm_close_channel_def
          basic_response_def host_after_def replies_def broker_rel_def)
  next
    case own: (Some a)
    then have atj: "channel_at c j b = Some a" by (simp add: find)
    have uniq: "ident a' (br_server b) = Some (c, j) \<longleftrightarrow> a' = a" for a' using atj at [of c j a'] by auto
    then have own_id: "ident a (br_server b) = Some (c, j)" by simp
    obtain ch where ch: "deref_channel a (br_server b) = Inr ch" using channel_atD [OF ok atj] by blast
    have quiet: "quiet a (br_server b)" using ok_event atj by simp
    obtain s' where s': "destroy_channel a (br_server b) = Inr s'" "server_rel L tabs M N basedir s' H"
      "sv_out s' = sv_out (br_server b)" and others: "\<forall>a'. a' \<noteq> a \<longrightarrow> deref_channel a' s' = deref_channel a' (br_server b)"
      and gone: "deref_channel a s' = Inl Undefined"
      by (rule channel_destroyed_rel [OF srel ch quiet])
    let ?s = "send c (BasicCommonResponse i j True) s'"
    have "channels_ok (b\<lparr>br_server := ?s, br_connections := um_put c (k\<lparr>cn_channels := um_erase j (cn_channels k)\<rparr>) (br_connections b)\<rparr>)"
      by (intro channels_ok_put [OF ok Some] um_wf_erase k(2))
        (auto simp: own_id ident_destroyed [OF others gone] um_find_erase find [symmetric] at dest: uniq [THEN iffD1])
    moreover have "server_rel L tabs M N basedir ?s H" using s'(2) by (simp add: send_def server_rel_out)
    ultimately show ?thesis
      using Some own k(1) s'(1,3) atj
      by (simp add: event_follows_def on_closeChannel_def select_connection_def cn_close_channel_def cm_close_channel_def
          basic_response_def host_after_def replies_def broker_rel_def)
  qed
qed

lemma destroy_channels_rel:
  assumes "server_rel L tabs M N basedir s H" and "distinct as"
    and "\<And>a. a \<in> set as \<Longrightarrow> live a s \<and> quiet a s"
  shows "\<exists>s'. destroy_channels as s = Inr s' \<and> server_rel L tabs M N basedir s' H \<and>
    (\<forall>a. ident a s' = (if a \<in> set as then None else ident a s))"
  using assms
proof (induction as arbitrary: s)
  case (Cons a as)
  obtain ch where ch: "deref_channel a s = Inr ch" using Cons.prems(3) [of a] by (auto simp: live_def returns_iff)
  have q: "quiet a s" using Cons.prems(3) by simp
  obtain s1 where s1: "destroy_channel a s = Inr s1" "server_rel L tabs M N basedir s1 H"
    "sv_pool s1 = sv_pool s" "sv_job s1 = sv_job s" and others: "\<forall>a'. a' \<noteq> a \<longrightarrow> deref_channel a' s1 = deref_channel a' s"
    and gone: "deref_channel a s1 = Inl Undefined"
    by (rule channel_destroyed_rel [OF Cons.prems(1) ch q])
  have "live a' s1 \<and> quiet a' s1" if "a' \<in> set as" for a'
  proof -
    have "a' \<noteq> a" using Cons.prems(2) that by auto
    then show ?thesis using Cons.prems(3) [of a'] that s1(3,4) others by (simp add: live_def quiet_def)
  qed
  from Cons.IH [OF s1(2) _ this] Cons.prems(2) obtain s' where
    "destroy_channels as s1 = Inr s'" "server_rel L tabs M N basedir s' H"
    "\<forall>a'. ident a' s' = (if a' \<in> set as then None else ident a' s1)" by auto
  with s1(1) ident_destroyed [OF others gone] show ?case by auto
qed simp

lemma disconnect_follows:
  assumes rel: "broker_rel L tabs M N basedir b H" and ok_event: "event_ok L M N (Disconnected c) b H"
  shows "event_follows L tabs M N basedir (Disconnected c) b H"
proof (cases "map_of (br_connections b) c")
  case None
  then show ?thesis
    using rel by (simp add: event_follows_def onConnection_def delete_connection_def host_after_def)
next
  case (Some k)
  have ok: "channels_ok b" and srel: "server_rel L tabs M N basedir (br_server b) H"
    using rel by (simp_all add: broker_rel_def)
  note k = channels_okD(1,2) [OF ok Some] and at = channels_okD(3) [OF ok] and find = channel_at_find [OF Some]
  let ?as = "map snd (cn_channels k)"
  have own: "(cid, a) \<in> set (cn_channels k) \<longleftrightarrow> ident a (br_server b) = Some (c, cid)" for cid a
    using um_wf_find [OF k(2), of cid a] at [of c cid a] by (simp add: find)
  have mem: "a \<in> set ?as \<longleftrightarrow> (\<exists>cid. ident a (br_server b) = Some (c, cid))" for a
    using own by (force simp: image_iff)
  have "inj_on snd (set (cn_channels k))"
    using own by (intro inj_onI) (metis option.inject prod.collapse prod.inject)
  moreover have "distinct (cn_channels k)" using k(2) by (simp add: um_wf_def distinct_map)
  ultimately have "distinct ?as" by (simp add: distinct_map)
  moreover have "live a (br_server b) \<and> quiet a (br_server b)" if "a \<in> set ?as" for a
    using mem [of a] that ok_event Some by (auto simp: live_def select_connection_def list_all_iff ident_Some)
  ultimately obtain s' where s': "destroy_channels ?as (br_server b) = Inr s'" "server_rel L tabs M N basedir s' H"
    "\<forall>a. ident a s' = (if a \<in> set ?as then None else ident a (br_server b))"
    using destroy_channels_rel [OF srel] by blast
  let ?b = "b\<lparr>br_server := s', br_connections := um_erase c (br_connections b)\<rparr>"
  have "channel_at j cid ?b = (if j = c then None else channel_at j cid b)" for j cid
    by (simp add: channel_at_def select_connection_def um_find_erase)
  then have "channel_at j cid ?b = Some a \<longleftrightarrow> ident a s' = Some (j, cid)" for j cid a
    using s'(3) mem [of a] at [of j cid a] by auto
  then have "channels_ok ?b"
    using ok channels_okD(1,2) [OF ok] by (simp add: channels_ok_def um_wf_erase um_find_erase)
  then show ?thesis
    using s'(1,2) Some
    by (simp add: event_follows_def onConnection_def delete_connection_def host_after_def broker_rel_def)
qed

lemma connect_follows:
  assumes rel: "broker_rel L tabs M N basedir b H"
  shows "event_follows L tabs M N basedir (Connected c) b H"
proof -
  let ?b = "b\<lparr>br_connections := new_connection c (br_connections b)\<rparr>"
  have ok: "channels_ok b" using rel by (simp add: broker_rel_def)
  have "channel_at k cid ?b = channel_at k cid b" for k cid
    by (auto simp: channel_at_def select_connection_def cn_select_channel_def cm_select_channel_def new_connection_def
        connection_new_def um_find_insert split: option.split)
  then have "channels_ok ?b"
    using ok by (auto simp: channels_ok_def new_connection_def connection_new_def um_wf_insert um_find_insert
        split: option.split)
  then show ?thesis using rel by (simp add: event_follows_def onConnection_def host_after_def broker_rel_def)
qed

lemma worker_follows:
  assumes rel: "broker_rel L tabs M N basedir b H"
  shows "event_follows L tabs M N basedir Worker b H"
proof -
  have ok: "channels_ok b" and srel: "server_rel L tabs M N basedir (br_server b) H"
    using rel by (simp_all add: broker_rel_def)
  obtain s' where s': "worker_step L (br_server b) = Inr s'"
    "server_rel L tabs M N basedir s' (host_after (worker_cmds (br_server b)) H)" "sv_objects s' = sv_objects (br_server b)"
    using worker_step_rel [OF srel] by blast
  have "channels_ok (b\<lparr>br_server := s'\<rparr>)" using channels_ok_same [OF ok] same_channels_objects [OF s'(3)] by blast
  then show ?thesis using s'(1,2) by (simp add: event_follows_def broker_rel_def)
qed

lemma other_follows:
  assumes rel: "broker_rel L tabs M N basedir b H"
  shows "event_follows L tabs M N basedir (Request c u (OtherMessage n)) b H"
  using broker_rel_shutdown [OF rel, of c]
  by (simp add: event_follows_def onUnknownMessage_def host_after_def replies_def)
    (simp add: close_unknown_def shutdown_def)

lemma broker_follows:
  assumes rel: "broker_rel L tabs M N basedir b H" and ok: "event_ok L M N e b H"
  shows "event_follows L tabs M N basedir e b H"
proof (cases e)
  case (Request c u r)
  show ?thesis
  proof (cases "needs_channel r")
    case True
    then show ?thesis using request_follows [OF rel] ok by (simp add: Request)
  next
    case False
    then show ?thesis
      using open_follows [OF rel] close_follows [OF rel] other_follows [OF rel] ok unfolding Request
      by (cases r) simp_all
  qed
qed (use connect_follows [OF rel] disconnect_follows [OF rel] worker_follows [OF rel] ok in simp_all)

end
