(* ===== verification/Broker_Reach.thy ===== *)
theory Broker_Reach
  imports Broker_Run
begin

text \<open>
  The states the server reaches from its first start, over any interleaving of connections, requests,
  steps of the worker and restarts, and the properties that hold in all of them.
\<close>

section \<open>Starting\<close>

lemma fold_init:
  assumes "consumers_ok m"
  shows "consumers_ok (fold init_queue_consumer qs m) \<and>
    (\<forall>q. subscribers q (fold init_queue_consumer qs m) = subscribers q m) \<and>
    (\<forall>q. map_of (fold init_queue_consumer qs m) q = None \<longleftrightarrow> map_of m q = None \<and> q \<notin> set qs)"
  using assms
proof (induction qs arbitrary: m)
  case (Cons q qs)
  have "consumers_ok (init_queue_consumer q m)" using Cons.prems by (rule consumers_ok_ops(1))
  from Cons.IH [OF this] show ?case by (auto simp: known_queues)
qed simp

lemma broker_start:
  assumes new: "virtual_host_new L HOST_NAME basedir (basedir @ DBFILE_PATH) s db = Inr x"
    and rel: "host_rel L tabs M N basedir (basedir @ DBFILE_PATH) x H"
  shows "\<exists>b. BrokerServer L basedir s db = Inr b \<and> broker_rel L tabs M N basedir b H \<and>
    br_connections b = [] \<and> sv_host (br_server b) = x \<and> sv_pool (br_server b) = thread_pool_new 1 \<and>
    sv_job (br_server b) = Fresh \<and> sv_out (br_server b) = []"
proof -
  let ?m = "init_consumers (map fst (vh_all_queues (fst x)))"
  define s0 :: "'a server" where "s0 = \<lparr>sv_host = x, sv_consumers = ?m, sv_pool = thread_pool_new 1,
    sv_job = Fresh, sv_objects = [], sv_out = []\<rparr>"
  have init: "consumers_ok ?m" "subscribers q ?m = []" "map_of ?m q = None \<longleftrightarrow> q \<notin> set (map fst (vh_all_queues (fst x)))" for q
    using fold_init [of "[]" "map fst (vh_all_queues (fst x))"]
    by (auto simp: init_consumers_def consumers_ok_def subscribers_def)
  obtain v f d where x: "x = (v, f, d)" by (cases x)
  have "map_of (vh_queues v) q = map_option (current (mq_reloaded (lb_split L))) (sh_queues H q)" for q
    by (rule mq_inv_find [OF tables_relD(2) [of L tabs v d H]]) (use rel in \<open>simp add: host_rel_def x\<close>)
  then have "map_of ?m q = None \<longleftrightarrow> sh_queues H q = None" for q
    using init(3) [of q] by (simp add: x vh_all_queues_def all_queues_def map_of_eq_None_iff [symmetric])
  then have "registry_ok s0 H" by (simp add: registry_ok_def s0_def)
  moreover have "subs_ok s0" using init by (simp add: subs_ok_def s0_def)
  moreover have "work (thread_pool_new 1) = ([] :: task list)"
    by (simp add: work_def in_threads_def thread_pool_new_def)
  then have "tasks_ok s0"
    using pool_inv_new [where n = 1]
    by (simp add: tasks_ok_def s0_def job_live_def) (simp add: thread_pool_new_def)
  ultimately have "server_rel L tabs M N basedir s0 H" using rel by (simp add: server_rel_def s0_def)
  moreover have "channels_ok \<lparr>br_server = s0, br_connections = []\<rparr>"
    by (simp add: channels_ok_def channel_at_def select_connection_def ident_def deref_channel_def s0_def)
  ultimately have "broker_rel L tabs M N basedir \<lparr>br_server = s0, br_connections = []\<rparr> H"
    by (simp add: broker_rel_def)
  moreover have "BrokerServer L basedir s db = Inr \<lparr>br_server = s0, br_connections = []\<rparr>"
    by (simp add: BrokerServer_def new s0_def)
  ultimately show ?thesis by (auto simp: s0_def)
qed

lemma broker_restart:
  assumes rel: "broker_rel L tabs M N basedir b H" and disk: "sv_host (br_server b) = (v, s, db)"
  shows "\<exists>b'. BrokerServer L basedir s db = Inr b' \<and> broker_rel L tabs M N basedir b' (host_after [HRestart] H) \<and>
    br_connections b' = [] \<and> sv_pool (br_server b') = thread_pool_new 1 \<and> sv_job (br_server b') = Fresh \<and>
    sv_out (br_server b') = []"
proof -
  have srel: "server_rel L tabs M N basedir (br_server b) H" using rel by (simp add: broker_rel_def)
  obtain x' where "virtual_host_new L HOST_NAME basedir (basedir @ DBFILE_PATH) s db = Inr x'"
    "host_rel L tabs M N basedir (basedir @ DBFILE_PATH) x' (host_after [HRestart] H)"
    using host_call [OF srel, of HRestart] by (auto simp: host_ok_def disk rbind_Inr_conv)
  from broker_start [OF this] show ?thesis by blast
qed

section \<open>Reachable states\<close>

text \<open>
  \<open>server_runs\<close> holds of the servers reached from the first start on \<open>s0\<close> and \<open>db0\<close>, with the state of
  the host's specification and the host commands that led there.  A restart ends the process between
  two events and starts a new one on the files it left.
\<close>

inductive server_runs ::
  "'db libs \<Rightarrow> nat \<Rightarrow> nat \<Rightarrow> string \<Rightarrow> fs \<Rightarrow> 'db \<Rightarrow> 'db broker \<Rightarrow> host_cmd list \<Rightarrow> spec_host \<Rightarrow> bool"
  for L M N basedir s0 db0 where
  start: "BrokerServer L basedir s0 db0 = Inr b \<Longrightarrow> server_runs L M N basedir s0 db0 b [] spec_host_empty"
| event: "\<lbrakk>server_runs L M N basedir s0 db0 b cmds H; event_ok L M N e b H; broker_step L e b = Inr b'\<rbrakk> \<Longrightarrow>
    server_runs L M N basedir s0 db0 b' (cmds @ event_cmds L e b) (host_after (event_cmds L e b) H)"
| restart: "\<lbrakk>server_runs L M N basedir s0 db0 b cmds H; sv_host (br_server b) = (v, s, db);
      BrokerServer L basedir s db = Inr b'\<rbrakk> \<Longrightarrow>
    server_runs L M N basedir s0 db0 b' (cmds @ [HRestart]) (host_after [HRestart] H)"

text \<open>The first start is on a database without the server's tables and an empty data directory.\<close>

definition first_start :: "'db libs \<Rightarrow> ('db \<Rightarrow> tables) \<Rightarrow> nat \<Rightarrow> nat \<Rightarrow> string \<Rightarrow> fs \<Rightarrow> 'db \<Rightarrow> bool" where
  "first_start L tabs M N basedir s0 db0 \<longleftrightarrow> sqlite_ok (lb_sqlite L) tabs \<and> fresh_tables tabs db0 \<and>
     empty_data_dir basedir s0 \<and> settled (basedir @ DBFILE_PATH) s0 \<and> (2000 + 2 * N) * M < 2 ^ 32"

lemma first_broker:
  assumes "first_start L tabs M N basedir s0 db0"
  shows "\<exists>b. BrokerServer L basedir s0 db0 = Inr b \<and> broker_rel L tabs M N basedir b spec_host_empty \<and>
    br_connections b = [] \<and> sv_pool (br_server b) = thread_pool_new 1 \<and> sv_job (br_server b) = Fresh \<and> sv_out (br_server b) = []"
proof -
  obtain x where "virtual_host_new L HOST_NAME basedir (basedir @ DBFILE_PATH) s0 db0 = Inr x"
    "host_rel L tabs M N basedir (basedir @ DBFILE_PATH) x spec_host_empty"
    using host_start [of L tabs db0 basedir s0 "basedir @ DBFILE_PATH" N M HOST_NAME] assms
    unfolding first_start_def by blast
  from broker_start [OF this] show ?thesis by blast
qed

lemma server_runs_rel:
  assumes "server_runs L M N basedir s0 db0 b cmds H" and start: "first_start L tabs M N basedir s0 db0"
  shows "broker_rel L tabs M N basedir b H \<and> host_ok L M N cmds spec_host_empty \<and> H = host_after cmds spec_host_empty"
  using assms(1)
proof (induction rule: server_runs.induct)
  case (start b)
  then show ?case using first_broker [OF assms(2)] by (auto simp: host_ok_def host_after_def)
next
  case (event b cmds H e b')
  have rel: "broker_rel L tabs M N basedir b H" and old: "host_ok L M N cmds spec_host_empty"
    and H: "H = host_after cmds spec_host_empty" using event.IH by blast+
  have "event_follows L tabs M N basedir e b H" by (rule broker_follows [OF rel event.hyps(2)])
  then have "broker_rel L tabs M N basedir b' (host_after (event_cmds L e b) H)"
    using event.hyps(3) by (auto simp: event_follows_def)
  moreover have "host_ok L M N (event_cmds L e b) H"
  proof (cases e)
    case Worker
    then show ?thesis
      by (auto simp: worker_cmds_def host_ok_def split: thread.split list.split task.split job.split)
  qed (use event.hyps(2) in \<open>simp_all add: host_ok_def\<close>)
  ultimately show ?case
    using old by (simp add: H host_ok_def host_after_def run_ok_append run_spec_append)
next
  case (restart b cmds H v s db b')
  then have "broker_rel L tabs M N basedir b' (host_after [HRestart] H)"
    using broker_restart [of L tabs M N basedir b H v s db] by auto
  then show ?case
    using restart.IH by (simp add: host_ok_def host_after_def run_ok_append run_spec_append)
qed

lemma declared_queues:
  assumes "server_rel L tabs M N basedir s H"
  shows "vh_exists_queue q (fst (sv_host s)) \<longleftrightarrow> sh_queues H q \<noteq> None"
proof -
  obtain v f d where x: "sv_host s = (v, f, d)" by (cases "sv_host s")
  have "map_of (vh_queues v) q = map_option (current (mq_reloaded (lb_split L))) (sh_queues H q)"
    by (rule mq_inv_find [OF tables_relD(2) [of L tabs v d H]]) (use server_relD(1) [OF assms] in \<open>simp add: host_rel_def x\<close>)
  then show ?thesis by (auto simp: x vh_exists_queue_def queue_exists_def split: option.split)
qed

lemma subscriber_channel:
  assumes "broker_rel L tabs M N basedir b H" and "c \<in> set (subscribers q (sv_consumers (br_server b)))"
  shows "cs_qname c = q \<and> (\<exists>ch. deref_channel (cs_callback c) (br_server b) = Inr ch \<and> ch_consumer ch = Some c \<and>
    channel_at (ch_conn ch) (ch_cid ch) b = Some (cs_callback c))"
proof -
  have srel: "server_rel L tabs M N basedir (br_server b) H" and chs: "channels_ok b"
    using assms(1) by (simp_all add: broker_rel_def)
  obtain ch where ch: "deref_channel (cs_callback c) (br_server b) = Inr ch" "ch_consumer ch = Some c"
    using subs_okD [OF server_relD(2) [OF srel] assms(2)] by blast
  then have "ident (cs_callback c) (br_server b) = Some (ch_conn ch, ch_cid ch)" by (simp add: ident_def)
  then have "channel_at (ch_conn ch) (ch_cid ch) b = Some (cs_callback c)" using channels_okD(3) [OF chs] by blast
  with ch subscriber_names [OF server_relD(4) [OF srel] assms(2)] show ?thesis by blast
qed

section \<open>Publishing\<close>

lemma host_after_publish:
  assumes "distinct qs"
  shows "host_after (publish_cmds u bp body qs) H = H\<lparr>sh_messages := (\<lambda>q. if q \<in> set qs
    then map_option (spec_put (put_payload (u q) bp body (declared_flag mq_durable (sh_queues H q)))) (sh_messages H q)
    else sh_messages H q)\<rparr>"
  using assms
proof (induction qs arbitrary: H)
  case Nil
  then show ?case by (simp add: publish_cmds_def host_after_def)
next
  case (Cons q qs)
  let ?put = "\<lambda>q. map_option (spec_put (put_payload (u q) bp body (declared_flag mq_durable (sh_queues H q)))) (sh_messages H q)"
  let ?H = "H\<lparr>sh_messages := (sh_messages H)(q := ?put q)\<rparr>"
  have step: "snd (host_spec (HPublish q (u q) bp body) H) = ?H"
    by (cases "sh_messages H q") (simp_all add: fun_upd_idem)
  have "host_after (publish_cmds u bp body (q # qs)) H = host_after (publish_cmds u bp body qs) ?H"
    by (simp only: publish_cmds_def list.map host_after_Cons step)
  also have "\<dots> = H\<lparr>sh_messages := (\<lambda>p. if p \<in> set (q # qs) then ?put p else sh_messages H p)\<rparr>"
    using Cons.prems by (subst Cons.IH) (auto simp: fun_eq_iff)
  finally show ?case .
qed

text \<open>In terms of the specification: the queues bound to an exchange under a key that the routing key matches.\<close>

definition spec_routed :: "splitter \<Rightarrow> spec_host \<Rightarrow> string \<Rightarrow> ExchangeType \<Rightarrow> string \<Rightarrow> string set" where
  "spec_routed bsplit H e t k = {q. \<exists>key d. sh_bindings H e q = Some (key, d) \<and> route bsplit t k key}"

lemma routed_spec:
  assumes rel: "server_rel L tabs M N basedir s H"
  shows "distinct (routed (lb_split L) t k (vh_exchange_bindings e (fst (sv_host s))))"
    and "set (routed (lb_split L) t k (vh_exchange_bindings e (fst (sv_host s)))) = spec_routed (lb_split L) H e t k"
    and "map_option ex_type (vh_select_exchange e (fst (sv_host s))) = map_option (ex_type \<circ> fst) (sh_exchanges H e)"
proof -
  obtain v f d where x: "sv_host s = (v, f, d)" by (cases "sv_host s")
  have tab: "tables_rel L tabs v d H" using server_relD(1) [OF rel] by (simp add: host_rel_def x)
  let ?es = "vh_exchange_bindings e v"
  have inv: "bd_map (vh_bindings v) (sh_bindings H)" using tables_relD(3) [OF tab] by (simp add: bd_inv_def)
  have wf: "um_wf ?es"
    using inv by (auto simp: bd_map_def vh_exchange_bindings_def get_exchange_bindings_def dest!: map_of_SomeD split: option.split)
  have "map_of ?es q = find_binding (vh_bindings v) e q" for q
    by (simp add: vh_exchange_bindings_def get_exchange_bindings_def find_binding_def split: option.split)
  then have find: "map_of ?es q = map_option (\<lambda>(k, d). mk_binding e q k) (sh_bindings H e q)" for q
    using inv by (simp add: bd_map_def)
  show "distinct (routed (lb_split L) t k (vh_exchange_bindings e (fst (sv_host s))))"
    using wf by (simp add: routed_def x um_wf_def distinct_map_filter)
  show "set (routed (lb_split L) t k (vh_exchange_bindings e (fst (sv_host s)))) = spec_routed (lb_split L) H e t k"
    using um_wf_find [OF wf] find
    by (auto simp: routed_def spec_routed_def x mk_binding_def image_iff split: prod.splits)
  have "map_of (vh_exchanges v) e = map_option (current (ex_reloaded (lb_split L))) (sh_exchanges H e)"
    by (rule ex_inv_find [OF tables_relD(1) [OF tab]])
  then show "map_option ex_type (vh_select_exchange e (fst (sv_host s))) = map_option (ex_type \<circ> fst) (sh_exchanges H e)"
    by (cases "sh_exchanges H e") (auto simp: vh_select_exchange_def select_exchange_def x current_def ex_reloaded_def)
qed

lemma publish_effect:
  assumes rel: "broker_rel L tabs M N basedir b H" and at: "channel_at c j b = Some this"
    and ok: "event_ok L M N (Request c u (BasicPublishRequest i j e body bp)) b H"
  shows "\<exists>b' H' qs. onProtobufMessage L u c (BasicPublishRequest i j e body bp) b = Inr b' \<and>
    broker_rel L tabs M N basedir b' H' \<and> distinct qs \<and>
    set qs = (case sh_exchanges H e of None \<Rightarrow> {} | Some (ep, fl) \<Rightarrow>
      spec_routed (lb_split L) H e (ex_type ep) (case bp of None \<Rightarrow> '''' | Some p \<Rightarrow> bp_routing_key p)) \<and>
    H' = H\<lparr>sh_messages := (\<lambda>q. if q \<in> set qs
      then map_option (spec_put (put_payload (u q) bp body (declared_flag mq_durable (sh_queues H q)))) (sh_messages H q)
      else sh_messages H q)\<rparr> \<and>
    work (sv_pool (br_server b')) = work (sv_pool (br_server b)) @ map (Consume this) qs \<and>
    sv_out (br_server b') = sv_out (br_server b) @ [Send c (BasicCommonResponse i j (sh_exchanges H e \<noteq> None))]"
proof -
  have srel: "server_rel L tabs M N basedir (br_server b) H" and chs: "channels_ok b"
    using rel by (simp_all add: broker_rel_def)
  let ?s = "br_server b" and ?k = "case bp of None \<Rightarrow> '''' | Some p \<Rightarrow> bp_routing_key p"
  let ?v = "fst (sv_host ?s)" and ?r = "BasicPublishRequest i j e body bp"
  obtain ch where ch: "deref_channel this ?s = Inr ch" "ch_conn ch = c" using channel_atD [OF chs at] by blast
  obtain k where k: "select_connection c (br_connections b) = Some k" "cn_select_channel j k = Some this"
    using at by (auto simp: channel_at_def split: option.splits)
  obtain b' where b': "onProtobufMessage L u c ?r b = Inr b'"
    "broker_rel L tabs M N basedir b' (host_after (event_cmds L (Request c u ?r) b) H)"
    using broker_follows [OF rel ok] by (auto simp: event_follows_def)
  have step: "b' = b\<lparr>br_server := s'\<rparr>" if "ch_basic_publish L u this ch i j e body bp ?s = Inr s'" for s'
    using b'(1) that by (simp add: on_basicPublish_def on_channel_def k ch)
  show ?thesis
  proof (cases "vh_select_exchange e ?v")
    case None
    then have "sh_exchanges H e = None" using routed_spec(3) [OF srel, of e] by simp
    moreover have "b' = b\<lparr>br_server := basic_response c False i j ?s\<rparr>"
      using None by (intro step) (simp add: ch_basic_publish_def ch(2))
    moreover have "event_cmds L (Request c u ?r) b = []" using None at by simp
    ultimately show ?thesis
      using b' by (intro exI [of _ b'] exI [of _ H] exI [of _ "[]"])
        (simp add: basic_response_def host_after_def, simp add: send_def)
  next
    case (Some ep)
    let ?qs = "routed (lb_split L) (ex_type ep) ?k (vh_exchange_bindings e ?v)"
    obtain ep' fl where ep': "sh_exchanges H e = Some (ep', fl)" "ex_type ep' = ex_type ep"
      using routed_spec(3) [OF srel, of e] Some by (cases "sh_exchanges H e") auto
    have cmds: "event_cmds L (Request c u ?r) b = publish_cmds u bp body ?qs"
      using at unfolding event_cmds.simps request_cmds_publish by (simp add: Some)
    have "host_ok L M N (publish_cmds u bp body ?qs) H" using ok unfolding event_ok.simps cmds by simp
    note loop = publish_loop_rel [OF srel _ this, of this]
    have "live this ?s" using ch by (simp add: live_def)
    note loop = loop [OF this]
    let ?s' = "publish_loop L u this (ex_type ep) ?k bp body (vh_exchange_bindings e ?v) ?s"
    have b'_eq: "b' = b\<lparr>br_server := basic_response c True i j ?s'\<rparr>"
      by (rule step) (simp add: ch_basic_publish_def ch(2) Some)
    have sent: "sv_pool (br_server b') = sv_pool ?s'" "sv_out (br_server b') = sv_out ?s @ [Send c (BasicCommonResponse i j True)]"
      by (simp_all add: b'_eq basic_response_def) (simp add: send_def)
    show ?thesis
    proof (intro exI conjI)
      show "onProtobufMessage L u c ?r b = Inr b'" by (rule b'(1))
      show "broker_rel L tabs M N basedir b' (host_after (publish_cmds u bp body ?qs) H)" using b'(2) unfolding cmds .
      show "distinct ?qs" by (rule routed_spec(1) [OF srel])
      show "set ?qs = (case sh_exchanges H e of None \<Rightarrow> {} | Some (ep, fl) \<Rightarrow> spec_routed (lb_split L) H e (ex_type ep) ?k)"
        using ep' routed_spec(2) [OF srel] by simp
      show "host_after (publish_cmds u bp body ?qs) H = H\<lparr>sh_messages := (\<lambda>q. if q \<in> set ?qs
          then map_option (spec_put (put_payload (u q) bp body (declared_flag mq_durable (sh_queues H q)))) (sh_messages H q)
          else sh_messages H q)\<rparr>"
        by (rule host_after_publish [OF routed_spec(1) [OF srel]])
      show "work (sv_pool (br_server b')) = work (sv_pool ?s) @ map (Consume this) ?qs" using loop sent(1) by simp
      show "sv_out (br_server b') = sv_out ?s @ [Send c (BasicCommonResponse i j (sh_exchanges H e \<noteq> None))]"
        using ep'(1) sent(2) by simp
    qed
  qed
qed

end
