(* ===== verification/Broker_Delivery.thy ===== *)
theory Broker_Delivery
  imports Broker_Reach
begin

text \<open>
  Pushing messages to subscribers: what the worker does with a task, that on a server that was never
  restarted no message waits without a task, that nothing but publishing makes tasks, and what happens
  when a channel is closed too early.
\<close>

section \<open>A task from start to end\<close>

fun worker_steps :: "'db libs \<Rightarrow> nat \<Rightarrow> 'db broker \<Rightarrow> 'db broker result" where
  "worker_steps L 0 b = Inr b"
| "worker_steps L (Suc n) b = rbind (broker_step L Worker b) (worker_steps L n)"

text \<open>What the host has become after these steps.\<close>

fun worker_host :: "'db libs \<Rightarrow> nat \<Rightarrow> 'db broker \<Rightarrow> spec_host \<Rightarrow> spec_host" where
  "worker_host L 0 b H = H"
| "worker_host L (Suc n) b H =
     (case broker_step L Worker b of
        Inl e \<Rightarrow> H
      | Inr b' \<Rightarrow> worker_host L n b' (host_after (worker_cmds (br_server b)) H))"

lemma worker_host_add:
  "worker_steps L m b = Inr b1 \<Longrightarrow> worker_host L (m + n) b H = worker_host L n b1 (worker_host L m b H)"
  by (induction m arbitrary: b H) (auto simp: rbind_Inr_conv)

lemma worker_steps_runs:
  "server_runs L M N basedir s0 db0 b cmds H \<Longrightarrow> worker_steps L n b = Inr b' \<Longrightarrow>
     \<exists>cs. server_runs L M N basedir s0 db0 b' (cmds @ cs) (worker_host L n b H)"
proof (induction n arbitrary: b cmds H)
  case (Suc n)
  obtain b1 where b1: "broker_step L Worker b = Inr b1" "worker_steps L n b1 = Inr b'"
    using Suc.prems(2) by (auto simp: rbind_Inr_conv)
  from server_runs.event [OF Suc.prems(1) _ b1(1)]
  have "server_runs L M N basedir s0 db0 b1 (cmds @ worker_cmds (br_server b)) (host_after (worker_cmds (br_server b)) H)" by simp
  from Suc.IH [OF this b1(2)] show ?case using b1(1) by (auto simp: rbind_Inr_conv)
qed (auto intro: exI [of _ "[]"])

lemma worker_rel:
  assumes "broker_rel L tabs M N basedir b H" and "worker_step L (br_server b) = Inr s'"
  shows "broker_rel L tabs M N basedir (b\<lparr>br_server := s'\<rparr>) (host_after (worker_cmds (br_server b)) H)"
  using worker_follows [OF assms(1)] assms(2) by (auto simp: event_follows_def)

lemma worker_consume:
  assumes "tp_threads (sv_pool s) = [Executing (Consume this q # ts)]" and "consume_step L this q s = Inr (fin, s')"
    and "sv_pool s' = sv_pool s"
  shows "worker_step L s = Inr (if fin
    then s'\<lparr>sv_pool := (sv_pool s)\<lparr>tp_threads := [Executing ts]\<rparr>, sv_job := Fresh\<rparr> else s')"
  using assms by (simp add: worker_step_def advance_pool_def thread_step_def set_thread_def)

lemma host_after_take:
  assumes "sh_messages H q = Some a"
  shows "host_after [HConsume q] H = H\<lparr>sh_messages := (sh_messages H)(q \<mapsto> snd (spec_take a))\<rparr>"
  using assms by (simp add: host_after_single)

text \<open>The worker has finished its task and turns to the other ones \<open>ts\<close> it holds.\<close>

definition turns_to :: "task list \<Rightarrow> 'db broker \<Rightarrow> 'db broker \<Rightarrow> bool" where
  "turns_to ts b b' \<longleftrightarrow> sv_pool (br_server b') = (sv_pool (br_server b))\<lparr>tp_threads := [Executing ts]\<rparr> \<and>
     sv_job (br_server b') = Fresh"

text \<open>The message a subscriber gets: properties without the fields the server does not know.\<close>

definition pushed :: "channel \<Rightarrow> addr consumer \<Rightarrow> payload \<Rightarrow> response" where
  "pushed ch c p = BasicConsumeResponse (ch_cid ch) (cs_tag c) (pl_body p)
     (Some (default_properties\<lparr>bp_id := pay_id p, bp_delivery_mode := bp_delivery_mode (properties p),
        bp_routing_key := bp_routing_key (properties p)\<rparr>))"

lemma deliver_oldest:
  assumes rel: "broker_rel L tabs M N basedir b H"
    and th: "tp_threads (sv_pool (br_server b)) = [Executing (Consume this q # ts)]" and job: "sv_job (br_server b) = Fresh"
    and msgs: "sh_messages H q = Some a" and ready: "sq_ready a = p # ps"
  shows "(subscribers q (sv_consumers (br_server b)) = [] \<longrightarrow>
      (\<exists>b'. worker_steps L 2 b = Inr b' \<and> sv_out (br_server b') = sv_out (br_server b) \<and>
        broker_rel L tabs M N basedir b' (H\<lparr>sh_messages := (sh_messages H)(q \<mapsto> snd (spec_take a))\<rparr>) \<and>
        turns_to ts b b' \<and> worker_host L 2 b H = H\<lparr>sh_messages := (sh_messages H)(q \<mapsto> snd (spec_take a))\<rparr>)) \<and>
    (subscribers q (sv_consumers (br_server b)) \<noteq> [] \<longrightarrow>
      (\<exists>b' c ch. worker_steps L 4 b = Inr b' \<and> c \<in> set (subscribers q (sv_consumers (br_server b))) \<and>
        deref_channel (cs_callback c) (br_server b) = Inr ch \<and>
        sv_out (br_server b') = sv_out (br_server b) @ [Send (ch_conn ch) (pushed ch c p)] \<and>
        broker_rel L tabs M N basedir b' (H\<lparr>sh_messages := (sh_messages H)(q \<mapsto>
          (if cs_auto_ack c then spec_ack (pay_id p) (snd (spec_take a)) else snd (spec_take a)))\<rparr>) \<and>
        turns_to ts b b' \<and> worker_host L 4 b H = H\<lparr>sh_messages := (sh_messages H)(q \<mapsto>
          (if cs_auto_ack c then spec_ack (pay_id p) (snd (spec_take a)) else snd (spec_take a)))\<rparr>))"
proof -
  let ?s = "br_server b" and ?H1 = "H\<lparr>sh_messages := (sh_messages H)(q \<mapsto> snd (spec_take a))\<rparr>"
  have srel: "server_rel L tabs M N basedir ?s H" using rel by (simp add: broker_rel_def)
  have "Consume this q \<in> set (work (sv_pool ?s))" by (simp add: work_def in_threads_def th)
  then obtain cht where cht: "deref_channel this ?s = Inr cht"
    using server_relD(3) [OF srel] by (auto simp: tasks_ok_def live_def returns_iff)
  obtain m x' where m: "vh_basic_consume q (sv_host ?s) = (Some m, x')" "msg_payload m = p"
    using host_call [OF srel, of "HConsume q"] msgs ready
    by (auto simp: host_ok_def spec_take_def split: prod.splits)
  let ?s1 = "?s\<lparr>sv_host := x', sv_job := Fetched m\<rparr>"
  have w1: "worker_step L ?s = Inr ?s1"
    using worker_consume [OF th, of L False ?s1] job cht m(1) by (simp add: consume_step_def consume_front_def)
  have r1: "broker_rel L tabs M N basedir (b\<lparr>br_server := ?s1\<rparr>) ?H1"
    using worker_rel [OF rel w1] by (simp add: worker_cmds_def th job host_after_take [OF msgs])
  have th1: "tp_threads (sv_pool ?s1) = [Executing (Consume this q # ts)]" by (simp add: th)
  have "length (subscribers q (sv_consumers ?s)) < 2 ^ 31" using server_relD(2) [OF srel] by (simp add: subs_ok_def)
  from choose_returns [OF this] obtain co n where co: "cm_choose q (sv_consumers ?s) = Inr (co, n)"
    "co = None \<longleftrightarrow> subscribers q (sv_consumers ?s) = []"
    "\<And>c. co = Some c \<Longrightarrow> c \<in> set (subscribers q (sv_consumers ?s))" by blast
  show ?thesis
  proof (cases co)
    case None
    let ?s2 = "?s1\<lparr>sv_consumers := n\<rparr>"
    let ?s3 = "?s2\<lparr>sv_pool := (sv_pool ?s)\<lparr>tp_threads := [Executing ts]\<rparr>, sv_job := Fresh\<rparr>"
    have w2: "worker_step L ?s1 = Inr ?s3"
      using worker_consume [OF th1, of L True ?s2] cht co(1) None
      by (simp add: consume_step_def consume_choose_def)
    have "broker_rel L tabs M N basedir (b\<lparr>br_server := ?s3\<rparr>) ?H1"
      using worker_rel [OF r1, of ?s3] w2 by (simp add: worker_cmds_def th host_after_def)
    moreover have "turns_to ts b (b\<lparr>br_server := ?s3\<rparr>)" by (simp add: turns_to_def)
    moreover have "worker_host L 2 b H = ?H1"
      using w1 w2 by (simp add: numeral_2_eq_2 worker_cmds_def th job host_after_take [OF msgs]) (simp add: host_after_def)
    ultimately show ?thesis using co(2) None w1 w2 by (simp add: numeral_2_eq_2)
  next
    case (Some c)
    obtain ch where ch: "deref_channel (cs_callback c) ?s = Inr ch"
      using subs_okD [OF server_relD(2) [OF srel] co(3) [OF Some]] by blast
    let ?s2 = "?s1\<lparr>sv_consumers := n, sv_job := Chosen m c\<rparr>"
    have w2: "worker_step L ?s1 = Inr ?s2"
      using worker_consume [OF th1, of L False ?s2] cht co(1) Some
      by (simp add: consume_step_def consume_choose_def)
    have r2: "broker_rel L tabs M N basedir (b\<lparr>br_server := ?s2\<rparr>) ?H1"
      using worker_rel [OF r1, of ?s2] w2 by (simp add: worker_cmds_def th host_after_def)
    let ?s3 = "?s2\<lparr>sv_out := sv_out ?s @ [Send (ch_conn ch) (pushed ch c p)], sv_job := Delivered m c\<rparr>"
    have w3: "worker_step L ?s2 = Inr ?s3"
      using worker_consume [of ?s2 this q ts L False ?s3] th ch m(2)
      by (simp add: consume_step_def consume_deliver_def consume_cb_def send_def pushed_def pay_id_def Let_def)
    have r3: "broker_rel L tabs M N basedir (b\<lparr>br_server := ?s3\<rparr>) ?H1"
      using worker_rel [OF r2, of ?s3] w3 by (simp add: worker_cmds_def th host_after_def)
    obtain s4 where w4: "worker_step L ?s3 = Inr s4" and out4: "sv_out s4 = sv_out ?s3"
      and r4: "broker_rel L tabs M N basedir (b\<lparr>br_server := s4\<rparr>) (H\<lparr>sh_messages := (sh_messages H)(q \<mapsto>
          (if cs_auto_ack c then spec_ack (pay_id p) (snd (spec_take a)) else snd (spec_take a)))\<rparr>)"
      and turn: "turns_to ts b (b\<lparr>br_server := s4\<rparr>)"
      and last: "host_after (worker_cmds ?s3) ?H1 = H\<lparr>sh_messages := (sh_messages H)(q \<mapsto>
          (if cs_auto_ack c then spec_ack (pay_id p) (snd (spec_take a)) else snd (spec_take a)))\<rparr>"
    proof -
      have srel3: "server_rel L tabs M N basedir ?s3 ?H1" using r3 by (simp add: broker_rel_def)
      have th3: "tp_threads (sv_pool ?s3) ! 0 = Executing (Consume this q # ts)" by (simp add: th)
      obtain fin t where t: "consume_step L this q ?s3 = Inr (fin, t)" "sv_pool t = sv_pool ?s3"
        using consume_step_rel [OF srel3 th3] by blast
      have fin: "fin" and tout: "sv_out t = sv_out ?s3"
        using t(1) by (auto simp: consume_step_def consume_ack_def rbind_Inr_conv split: if_splits)
      have w: "worker_step L ?s3 = Inr (t\<lparr>sv_pool := (sv_pool ?s3)\<lparr>tp_threads := [Executing ts]\<rparr>, sv_job := Fresh\<rparr>)"
        using worker_consume [of ?s3 this q ts L fin t] t fin th by simp
      let ?H4 = "H\<lparr>sh_messages := (sh_messages H)(q \<mapsto>
          (if cs_auto_ack c then spec_ack (pay_id p) (snd (spec_take a)) else snd (spec_take a)))\<rparr>"
      have H4: "host_after (worker_cmds ?s3) ?H1 = ?H4"
        by (cases "cs_auto_ack c") (simp_all add: worker_cmds_def th host_after_def m(2) pay_id_def)
      with w have "broker_rel L tabs M N basedir
          (b\<lparr>br_server := t\<lparr>sv_pool := (sv_pool ?s3)\<lparr>tp_threads := [Executing ts]\<rparr>, sv_job := Fresh\<rparr>\<rparr>) ?H4"
        using worker_rel [OF r3, of "t\<lparr>sv_pool := (sv_pool ?s3)\<lparr>tp_threads := [Executing ts]\<rparr>, sv_job := Fresh\<rparr>"] w
        by simp
      with tout H4 show ?thesis by (intro that [OF w]) (simp_all add: turns_to_def)
    qed
    have "worker_steps L 4 b = Inr (b\<lparr>br_server := s4\<rparr>)"
      using w1 w2 w3 w4 by (simp add: eval_nat_numeral)
    moreover have "c \<in> set (subscribers q (sv_consumers ?s))" by (rule co(3) [OF Some])
    moreover have "sv_out (br_server (b\<lparr>br_server := s4\<rparr>)) = sv_out ?s @ [Send (ch_conn ch) (pushed ch c p)]"
      using out4 by simp
    moreover have "subscribers q (sv_consumers ?s) \<noteq> []" using co(2) Some by simp
    moreover have "worker_host L 4 b H = H\<lparr>sh_messages := (sh_messages H)(q \<mapsto>
        (if cs_auto_ack c then spec_ack (pay_id p) (snd (spec_take a)) else snd (spec_take a)))\<rparr>"
    proof -
      have "host_after (worker_cmds ?s) H = ?H1" by (simp add: worker_cmds_def th job host_after_take [OF msgs])
      moreover have "host_after (worker_cmds ?s1) ?H1 = ?H1" "host_after (worker_cmds ?s2) ?H1 = ?H1"
        by (simp_all add: worker_cmds_def th host_after_def)
      ultimately show ?thesis using w1 w2 w3 w4 last by (simp add: eval_nat_numeral)
    qed
    ultimately show ?thesis using r4 ch turn by blast
  qed
qed

section \<open>What handlers leave alone\<close>

fun is_push :: "outgoing \<Rightarrow> bool" where
  "is_push (Send c (BasicConsumeResponse cid tag body bp)) = True"
| "is_push x = False"

text \<open>Neither tasks nor the worker nor pushed messages change.\<close>

definition undisturbed :: "'db server \<Rightarrow> 'db server \<Rightarrow> bool" where
  "undisturbed s s' \<longleftrightarrow> sv_pool s' = sv_pool s \<and> sv_job s' = sv_job s \<and>
     (\<exists>outs. sv_out s' = sv_out s @ outs \<and> list_all (\<lambda>x. \<not> is_push x) outs)"

lemma undisturbed_refl [intro]: "undisturbed s s"
  by (simp add: undisturbed_def)

lemma undisturbed_trans: "undisturbed s s1 \<Longrightarrow> undisturbed s1 s2 \<Longrightarrow> undisturbed s s2"
  by (auto simp: undisturbed_def)

lemma undisturbed_response:
  "sv_pool s1 = sv_pool s \<Longrightarrow> sv_job s1 = sv_job s \<Longrightarrow> sv_out s1 = sv_out s \<Longrightarrow>
     undisturbed s (basic_response c ok i j s1)"
  by (simp add: undisturbed_def basic_response_def send_def)

lemma undisturbed_shutdown: "undisturbed s (shutdown c s)"
  by (simp add: undisturbed_def shutdown_def)

lemma destroy_undisturbed: "destroy_channel a s = Inr s' \<Longrightarrow> undisturbed s s'"
  by (auto simp: destroy_channel_def rbind_Inr_conv Let_def undisturbed_def)

lemma destroy_channels_undisturbed: "destroy_channels as s = Inr s' \<Longrightarrow> undisturbed s s'"
proof (induction as arbitrary: s)
  case (Cons a as)
  then obtain s1 where "destroy_channel a s = Inr s1" "destroy_channels as s1 = Inr s'" by (auto simp: rbind_Inr_conv)
  then show ?case using Cons.IH undisturbed_trans destroy_undisturbed by blast
qed auto

lemma handlers_undisturbed:
  "ch_declare_exchange L ch i j n t d a args s = Inr s' \<Longrightarrow> undisturbed s s'"
  "ch_delete_exchange L ch i j n s = Inr s' \<Longrightarrow> undisturbed s s'"
  "ch_declare_queue L ch i j n x d a args s = Inr s' \<Longrightarrow> undisturbed s s'"
  "ch_delete_queue L ch i j n s = Inr s' \<Longrightarrow> undisturbed s s'"
  "ch_bind L ch i j e q k s = Inr s' \<Longrightarrow> undisturbed s s'"
  "ch_unbind L ch i j e q s = Inr s' \<Longrightarrow> undisturbed s s'"
  "ch_basic_ack L ch i j q m s = Inr s' \<Longrightarrow> undisturbed s s'"
  "ch_basic_consume this ch i j tg q ack s = Inr s' \<Longrightarrow> undisturbed s s'"
  "ch_basic_cancel ch i j tg q s = Inr s' \<Longrightarrow> undisturbed s s'"
  by (auto simp: ch_declare_exchange_def ch_delete_exchange_def ch_declare_queue_def ch_delete_queue_def ch_bind_def
      ch_unbind_def ch_basic_ack_def ch_basic_consume_def ch_basic_cancel_def rbind_Inr_conv Let_def
      intro!: undisturbed_response split: if_splits prod.splits)

lemma query_undisturbed: "ch_basic_query ch i s = Inr s' \<Longrightarrow> undisturbed s s'"
  by (auto simp: ch_basic_query_def rbind_Inr_conv undisturbed_def send_def)

lemma on_channel_undisturbed:
  assumes "on_channel c j handler b = Inr b'" and "\<And>this ch s s'. handler this ch s = Inr s' \<Longrightarrow> undisturbed s s'"
  shows "undisturbed (br_server b) (br_server b')"
  using assms(1)
  by (auto simp: on_channel_def close_unknown_def rbind_Inr_conv split: option.splits
      intro: assms(2) undisturbed_shutdown)

fun publishes :: "event \<Rightarrow> bool" where
  "publishes (Request c u (BasicPublishRequest i j e body bp)) = True"
| "publishes e = False"

lemma request_undisturbed:
  assumes "onProtobufMessage L u c r b = Inr b'" and "\<not> publishes (Request c u r)"
  shows "undisturbed (br_server b) (br_server b')"
proof (cases r)
  case (OpenChannelRequest i j)
  then show ?thesis
    using assms(1)
    by (auto simp: on_openChannel_def close_unknown_def cn_open_channel_def cm_open_channel_def Let_def
        split: option.splits intro!: undisturbed_shutdown undisturbed_response)
next
  case (CloseChannelRequest i j)
  have "undisturbed s (basic_response k True i j s1)" if "destroy_channel a s = Inr s1" for a k and s s1 :: "'a server"
    using undisturbed_trans [OF destroy_undisturbed [OF that] undisturbed_response [OF refl refl refl]] .
  then show ?thesis
    using assms(1)
    by (auto simp: CloseChannelRequest on_closeChannel_def close_unknown_def cn_close_channel_def cm_close_channel_def
        rbind_Inr_conv split: option.splits intro: undisturbed_shutdown undisturbed_response)
next
  case (OtherMessage n)
  then show ?thesis using assms(1) by (auto simp: onUnknownMessage_def close_unknown_def undisturbed_shutdown)
next
  case (BasicPublishRequest i j e body bp)
  then show ?thesis using assms(2) by simp
qed (use assms(1) in \<open>auto simp: on_declareExchange_def on_deleteExchange_def on_declareQueue_def on_deleteQueue_def
      on_bind_def on_unbind_def on_basicAck_def on_basicConsume_def on_basicCancel_def on_basicQuery_def
    elim!: on_channel_undisturbed intro: handlers_undisturbed query_undisturbed\<close>)

lemma connection_undisturbed:
  "onConnection c up b = Inr b' \<Longrightarrow> undisturbed (br_server b) (br_server b')"
  by (auto simp: onConnection_def delete_connection_def rbind_Inr_conv split: if_splits option.splits
      intro: destroy_channels_undisturbed)

lemma event_undisturbed:
  assumes "broker_step L e b = Inr b'" and "\<not> publishes e" and "e \<noteq> Worker"
  shows "undisturbed (br_server b) (br_server b')"
  using assms by (cases e) (auto intro: request_undisturbed connection_undisturbed)

section \<open>Only publishing pushes\<close>

fun broker_events :: "'db libs \<Rightarrow> event list \<Rightarrow> 'db broker \<Rightarrow> 'db broker result" where
  "broker_events L [] b = Inr b"
| "broker_events L (e # es) b = rbind (broker_step L e b) (broker_events L es)"

definition idle :: "'db server \<Rightarrow> bool" where
  "idle s \<longleftrightarrow> (\<exists>t. tp_threads (sv_pool s) = [t]) \<and> work (sv_pool s) = []"

lemma idle_worker:
  assumes "idle s" and "worker_step L s = Inr s'"
  shows "idle s' \<and> sv_out s' = sv_out s"
proof -
  obtain t where t: "tp_threads (sv_pool s) = [t]" and w: "work (sv_pool s) = []" using assms(1) by (auto simp: idle_def)
  have "t \<noteq> Executing (x # xs)" for x xs using w by (auto simp: work_def in_threads_def t)
  then have s': "s' = advance_pool s"
    using assms(2) by (auto simp: worker_step_def t split: thread.splits list.splits task.splits)
  show ?thesis
  proof (cases "thread_step 0 (sv_pool s)")
    case None
    then show ?thesis using assms(1) by (simp add: s' advance_pool_def)
  next
    case (Some dp)
    obtain did p where dp: "dp = (did, p)" by (cases dp)
    have "length (tp_threads p) = 1" using length_threads(4) [OF Some [unfolded dp]] t by simp
    moreover have "work p = []" using thread_step_fifo [OF t Some [unfolded dp]] w by simp
    ultimately show ?thesis using Some by (auto simp: s' advance_pool_def dp idle_def length_Suc_conv)
  qed
qed

lemma idle_events:
  assumes "idle (br_server b)" and "list_all (\<lambda>e. \<not> publishes e) es" and "broker_events L es b = Inr b'"
  shows "\<exists>outs. sv_out (br_server b') = sv_out (br_server b) @ outs \<and> list_all (\<lambda>x. \<not> is_push x) outs"
  using assms
proof (induction es arbitrary: b)
  case (Cons e es)
  obtain b1 where b1: "broker_step L e b = Inr b1" "broker_events L es b1 = Inr b'"
    using Cons.prems(3) by (auto simp: rbind_Inr_conv)
  have "idle (br_server b1) \<and> (\<exists>outs. sv_out (br_server b1) = sv_out (br_server b) @ outs \<and> list_all (\<lambda>x. \<not> is_push x) outs)"
  proof (cases "e = Worker")
    case True
    then obtain s' where "worker_step L (br_server b) = Inr s'" "b1 = b\<lparr>br_server := s'\<rparr>"
      using b1(1) by (auto simp: rbind_Inr_conv)
    with idle_worker [OF Cons.prems(1)] show ?thesis by simp
  next
    case False
    then have "undisturbed (br_server b) (br_server b1)" using event_undisturbed [OF b1(1)] Cons.prems(2) by simp
    then show ?thesis using Cons.prems(1) by (auto simp: undisturbed_def idle_def)
  qed
  with Cons.IH [of b1] Cons.prems(2) b1(2) show ?case by fastforce
qed simp

section \<open>No message waits without a task\<close>

definition fresh_tasks :: "'db server \<Rightarrow> task list" where
  "fresh_tasks s = (if sv_job s = Fresh then work (sv_pool s) else tl (work (sv_pool s)))"

fun task_for :: "string \<Rightarrow> task \<Rightarrow> bool" where
  "task_for q (Consume this q') = (q' = q)"

definition pending :: "string \<Rightarrow> 'db server \<Rightarrow> nat" where
  "pending q s = length (filter (task_for q) (fresh_tasks s))"

definition waiting_ok :: "'db server \<Rightarrow> spec_host \<Rightarrow> bool" where
  "waiting_ok s H \<longleftrightarrow> (\<forall>q a. sh_messages H q = Some a \<longrightarrow> length (sq_ready a) \<le> pending q s)"

lemma pending_undisturbed: "undisturbed s s' \<Longrightarrow> pending q s' = pending q s"
  by (simp add: undisturbed_def pending_def fresh_tasks_def)

text \<open>Commands that make no message.\<close>

lemma ready_after:
  assumes "\<forall>q u bp body. c \<noteq> HPublish q u bp body" and "c \<noteq> HRestart"
    and "sh_messages (snd (host_spec c H)) q = Some a" and "sq_ready a \<noteq> []"
  shows "\<exists>a'. sh_messages H q = Some a' \<and> length (sq_ready a) \<le> length (sq_ready a')"
proof (cases c)
  case (HConsume q')
  then show ?thesis
    using assms(3) by (auto simp: spec_take_def split: option.splits if_splits list.splits)
next
  case (HAck q' i)
  then show ?thesis using assms(3) by (auto simp: spec_ack_def split: option.splits if_splits)
next
  case (HDeclareQueue n d x a args)
  then show ?thesis using assms(3,4) by (auto simp: spec_init_def spec_empty_def split: option.splits if_splits)
next
  case (HBind e q k)
  then show ?thesis using assms(3) by (auto split: if_splits)
qed (use assms in \<open>auto split: if_splits\<close>)

lemma waiting_ok_quiet:
  assumes "waiting_ok s H" and "undisturbed s s'"
    and "cmds = [] \<or> (\<exists>c. cmds = [c] \<and> (\<forall>q u bp body. c \<noteq> HPublish q u bp body) \<and> c \<noteq> HRestart)"
  shows "waiting_ok s' (host_after cmds H)"
proof -
  have "length (sq_ready a) \<le> pending q s" if a: "sh_messages (host_after cmds H) q = Some a" for q a
  proof (cases "cmds = [] \<or> sq_ready a = []")
    case True
    then show ?thesis using assms(1) a by (auto simp: host_after_def waiting_ok_def)
  next
    case False
    then obtain c where c: "cmds = [c]" "\<forall>q u bp body. c \<noteq> HPublish q u bp body" "c \<noteq> HRestart" using assms(3) by auto
    then obtain a' where "sh_messages H q = Some a'" "length (sq_ready a) \<le> length (sq_ready a')"
      using ready_after [OF c(2,3), of H q a] a False by (auto simp: c(1) host_after_single)
    then show ?thesis using assms(1) unfolding waiting_ok_def by (meson le_trans)
  qed
  then show ?thesis using pending_undisturbed [OF assms(2)] by (simp add: waiting_ok_def)
qed

lemma request_cmds_quiet:
  assumes "\<not> publishes (Request c u r)"
  shows "request_cmds L u r v = [] \<or>
    (\<exists>c. request_cmds L u r v = [c] \<and> (\<forall>q u bp body. c \<noteq> HPublish q u bp body) \<and> c \<noteq> HRestart)"
  using assms by (cases r) auto

lemma consume_progress:
  "consume_step L this q s = Inr (fin, s') \<Longrightarrow>
    sv_pool s' = sv_pool s \<and> (\<not> fin \<longrightarrow> sv_job s' \<noteq> Fresh)"
  by (auto simp: consume_step_def consume_front_def consume_choose_def consume_deliver_def consume_cb_def
      consume_ack_def rbind_Inr_conv send_def Let_def split: job.splits prod.splits option.splits if_splits)

lemma worker_waiting:
  assumes rel: "server_rel L tabs M N basedir s H" and ok: "waiting_ok s H" and step: "worker_step L s = Inr s'"
  shows "waiting_ok s' (host_after (worker_cmds s) H)"
proof -
  obtain t where t: "tp_threads (sv_pool s) = [t]" using one_thread [OF server_relD(3) [OF rel]] by blast
  show ?thesis
  proof (cases "\<exists>this q ts. t = Executing (Consume this q # ts)")
    case True
    then obtain this q ts where th: "tp_threads (sv_pool s) = [Executing (Consume this q # ts)]" using t by auto
    let ?rest = "ts @ tp_task_queue (sv_pool s)"
    have work: "work (sv_pool s) = Consume this q # ?rest" by (simp add: work_def in_threads_def th)
    obtain fin s1 where s1: "consume_step L this q s = Inr (fin, s1)" "sv_pool s1 = sv_pool s"
      using consume_step_rel [OF rel, of this q ts] by (auto simp: th)
    have "s' = (if fin then s1\<lparr>sv_pool := (sv_pool s)\<lparr>tp_threads := [Executing ts]\<rparr>, sv_job := Fresh\<rparr> else s1)"
      using worker_consume [OF th s1] step by simp
    then have "fresh_tasks s' = ?rest"
      using consume_progress [OF s1(1)] by (auto simp: fresh_tasks_def work_def in_threads_def th)
    then have after: "pending p s' = length (filter (task_for p) ?rest)" for p by (simp add: pending_def)
    show ?thesis
    proof (cases "sv_job s = Fresh")
      case True
      then have pend: "pending p s = pending p s' + (if p = q then 1 else 0)" for p
        unfolding after by (simp add: pending_def fresh_tasks_def work)
      have "worker_cmds s = [HConsume q]" by (simp add: worker_cmds_def th True)
      moreover have "length (sq_ready a) \<le> pending p s'" if a: "sh_messages (host_after [HConsume q] H) p = Some a" for p a
      proof (cases "p = q")
        case True
        then obtain a0 where a0: "sh_messages H q = Some a0" "a = snd (spec_take a0)"
          using a by (auto simp: host_after_single split: option.splits)
        then have "length (sq_ready a) = length (sq_ready a0) - 1" by (simp add: spec_take_def split: list.split)
        moreover have "length (sq_ready a0) \<le> pending q s" using ok a0(1) by (simp add: waiting_ok_def)
        ultimately show ?thesis using pend [of q] True by simp
      next
        case False
        then have "sh_messages H p = Some a" using a by (auto simp: host_after_single split: option.splits)
        then have "length (sq_ready a) \<le> pending p s" using ok by (simp add: waiting_ok_def)
        then show ?thesis using pend [of p] False by simp
      qed
      ultimately show ?thesis by (simp add: waiting_ok_def)
    next
      case False
      then have same: "pending p s' = pending p s" for p unfolding after by (simp add: pending_def fresh_tasks_def work)
      have "worker_cmds s = [] \<or> (\<exists>i. worker_cmds s = [HAck q i])"
        using False by (auto simp: worker_cmds_def th split: job.splits)
      then show ?thesis
        using ok by (auto simp: waiting_ok_def host_after_single host_after_def [of "[]"] same spec_ack_def
            split: option.splits if_splits)
    qed
  next
    case False
    then have busy: "t \<noteq> Executing (x # xs)" for x xs by (cases x) auto
    then have "tasks_of t = []" by (cases "tasks_of t"; cases t; simp)
    then have "in_threads (sv_pool s) = []" by (simp add: in_threads_def t)
    then have job: "sv_job s = Fresh" using server_relD(3) [OF rel] by (simp add: tasks_ok_def)
    have s': "s' = advance_pool s" and cmds: "worker_cmds s = []"
      using step busy by (auto simp: worker_step_def worker_cmds_def t split: thread.splits list.splits task.splits)
    have "work (sv_pool s') = work (sv_pool s)" and "sv_job s' = Fresh"
      using thread_step_fifo [OF t] busy job
      by (auto simp: s' advance_pool_def thread_step_def t split: option.split prod.splits thread.splits list.splits if_splits)
    then have "pending p s' = pending p s" for p by (simp add: pending_def fresh_tasks_def job)
    then show ?thesis using ok by (simp add: cmds host_after_def waiting_ok_def)
  qed
qed

lemma count_tasks:
  "distinct qs \<Longrightarrow> length (filter (task_for q) (map (Consume this) qs)) = (if q \<in> set qs then 1 else 0)"
  by (induction qs) (auto simp: filter_map comp_def)

lemma publish_waiting:
  assumes rel: "broker_rel L tabs M N basedir b H" and at: "channel_at c j b = Some this"
    and ok: "event_ok L M N (Request c u (BasicPublishRequest i j e body bp)) b H"
    and wait: "waiting_ok (br_server b) H"
    and step: "onProtobufMessage L u c (BasicPublishRequest i j e body bp) b = Inr b'"
  shows "waiting_ok (br_server b') (host_after (event_cmds L (Request c u (BasicPublishRequest i j e body bp)) b) H)"
proof -
  let ?r = "BasicPublishRequest i j e body bp" and ?s = "br_server b"
  let ?k = "case bp of None \<Rightarrow> '''' | Some p \<Rightarrow> bp_routing_key p"
  have srel: "server_rel L tabs M N basedir ?s H" and chs: "channels_ok b" using rel by (simp_all add: broker_rel_def)
  obtain ch where ch: "deref_channel this ?s = Inr ch" "ch_conn ch = c" using channel_atD [OF chs at] by blast
  obtain k where k: "select_connection c (br_connections b) = Some k" "cn_select_channel j k = Some this"
    using at by (auto simp: channel_at_def split: option.splits)
  obtain s' where b': "b' = b\<lparr>br_server := s'\<rparr>" and s': "ch_basic_publish L u this ch i j e body bp ?s = Inr s'"
    using step by (auto simp: on_basicPublish_def on_channel_def k ch rbind_Inr_conv)
  show ?thesis
  proof (cases "vh_select_exchange e (fst (sv_host ?s))")
    case None
    then have "undisturbed ?s s'" using s' by (auto simp: ch_basic_publish_def intro!: undisturbed_response)
    moreover have "event_cmds L (Request c u ?r) b = []" using None at by simp
    ultimately show ?thesis
      using waiting_ok_quiet [OF wait, of s' "[]"] by (simp only: b') simp
  next
    case (Some ep)
    let ?qs = "routed (lb_split L) (ex_type ep) ?k (vh_exchange_bindings e (fst (sv_host ?s)))"
    have cmds: "event_cmds L (Request c u ?r) b = publish_cmds u bp body ?qs"
      using at unfolding event_cmds.simps request_cmds_publish by (simp add: Some)
    have hok: "host_ok L M N (publish_cmds u bp body ?qs) H" using ok unfolding event_ok.simps cmds by simp
    have live: "live this ?s" using ch by (simp add: live_def)
    note loop = publish_loop_rel [OF srel live hok]
    have dist: "distinct ?qs" by (rule routed_spec(1) [OF srel])
    have "work (sv_pool s') = work (sv_pool ?s) @ map (Consume this) ?qs" and job: "sv_job s' = sv_job ?s"
      using s' loop by (auto simp: ch_basic_publish_def Some basic_response_def send_def)
    moreover have "sv_job ?s \<noteq> Fresh \<Longrightarrow> work (sv_pool ?s) \<noteq> []"
      using server_relD(3) [OF srel] by (auto simp: tasks_ok_def work_def)
    ultimately have "fresh_tasks s' = fresh_tasks ?s @ map (Consume this) ?qs" by (simp add: fresh_tasks_def)
    moreover have "length (filter (task_for q) (map (Consume this) ?qs)) = (if q \<in> set ?qs then 1 else 0)" for q
      by (rule count_tasks [OF dist])
    ultimately have pend: "pending q s' = pending q ?s + (if q \<in> set ?qs then 1 else 0)" for q
      by (simp add: pending_def)
    show ?thesis
      unfolding cmds host_after_publish [OF dist] b'
      using wait pend by (fastforce simp: waiting_ok_def spec_put_def split: if_splits)
  qed
qed

lemma event_waiting:
  assumes rel: "broker_rel L tabs M N basedir b H" and ok: "event_ok L M N e b H"
    and wait: "waiting_ok (br_server b) H" and step: "broker_step L e b = Inr b'"
  shows "waiting_ok (br_server b') (host_after (event_cmds L e b) H)"
proof (cases "e = Worker")
  case True
  then obtain s' where "worker_step L (br_server b) = Inr s'" "b' = b\<lparr>br_server := s'\<rparr>"
    using step by (auto simp: rbind_Inr_conv)
  with worker_waiting [of L tabs M N basedir "br_server b" H s'] rel wait show ?thesis
    by (simp add: True broker_rel_def)
next
  case worker: False
  show ?thesis
  proof (cases "publishes e")
    case False
    have "event_cmds L e b = [] \<or> (\<exists>c. event_cmds L e b = [c] \<and> (\<forall>q u bp body. c \<noteq> HPublish q u bp body) \<and> c \<noteq> HRestart)"
    proof (cases e)
      case (Request c u r)
      then show ?thesis using request_cmds_quiet [of c u r L "fst (sv_host (br_server b))"] False by simp
    qed (use worker in simp_all)
    then show ?thesis by (rule waiting_ok_quiet [OF wait event_undisturbed [OF step False worker]])
  next
    case True
    then obtain c u i j x body bp where e: "e = Request c u (BasicPublishRequest i j x body bp)"
      by (cases e rule: publishes.cases) auto
    show ?thesis
    proof (cases "channel_at c j b")
      case None
      then have "undisturbed (br_server b) (br_server b')"
        using step by (auto simp: e on_basicPublish_def on_channel_def channel_at_def close_unknown_def rbind_Inr_conv
            split: option.splits intro: undisturbed_shutdown)
      moreover have "event_cmds L e b = []" using None by (simp add: e)
      ultimately show ?thesis using waiting_ok_quiet [OF wait, of "br_server b'" "[]"] by simp
    next
      case (Some this)
      then show ?thesis using publish_waiting [OF rel Some _ wait] ok step by (simp only: e broker_step.simps)
    qed
  qed
qed

lemma runs_waiting:
  assumes "server_runs L M N basedir s0 db0 b cmds H" and start: "first_start L tabs M N basedir s0 db0"
    and "HRestart \<notin> set cmds"
  shows "waiting_ok (br_server b) H"
  using assms(1,3)
proof (induction rule: server_runs.induct)
  case (start b)
  show ?case by (simp add: waiting_ok_def spec_host_empty_def)
next
  case (event b cmds H e b')
  have "broker_rel L tabs M N basedir b H" using server_runs_rel [OF event.hyps(1) assms(2)] by blast
  then show ?case using event_waiting event.hyps(2,3) event.IH event.prems by simp
qed simp

end
