(* ===== verification/Broker_Sample.thy ===== *)
theory Broker_Sample
  imports Broker_Delivery
begin

text \<open>
  A concrete history: a client connects to a fresh server, opens a channel, declares an exchange and a
  queue, binds them, subscribes and publishes, and the worker starts on the delivery.
\<close>

section \<open>Following events\<close>

lemma run_event:
  assumes "first_start L tabs M N basedir s0 db0" and "server_runs L M N basedir s0 db0 b cmds H"
    and ok: "event_ok L M N e b H"
  shows "\<exists>b'. broker_step L e b = Inr b' \<and>
    server_runs L M N basedir s0 db0 b' (cmds @ event_cmds L e b) (host_after (event_cmds L e b) H)"
proof -
  have "broker_rel L tabs M N basedir b H" using server_runs_rel [OF assms(2,1)] by blast
  from broker_follows [OF this ok] obtain b' where "broker_step L e b = Inr b'" by (auto simp: event_follows_def)
  then show ?thesis using server_runs.event [OF assms(2) ok] by blast
qed

lemma quiet_event:
  assumes "server_runs L M N basedir s0 db0 b cmds H" and "event_ok L M N e b H" and "broker_step L e b = Inr b'"
    and "event_cmds L e b = []"
  shows "server_runs L M N basedir s0 db0 b' cmds H"
  using server_runs.event [OF assms(1-3)] by (simp add: assms(4) host_after_def)

text \<open>A channel that has been opened and not yet used, on a server whose worker has not moved.\<close>

definition open_unused :: "'db broker \<Rightarrow> addr \<Rightarrow> bool" where
  "open_unused b this \<longleftrightarrow> channel_at 7 ''c'' b = Some this \<and>
     deref_channel this (br_server b) = Inr (channel_new ''c'' 7) \<and>
     (\<forall>q. subscribers q (sv_consumers (br_server b)) = []) \<and>
     sv_pool (br_server b) = thread_pool_new 1 \<and> sv_job (br_server b) = Fresh"

fun declares :: "request \<Rightarrow> bool" where
  "declares (DeclareExchangeRequest i j n t d a args) = True"
| "declares (DeclareQueueRequest i j n x d a args) = True"
| "declares (BindRequest i j e q k) = True"
| "declares r = False"

definition same_but_host :: "'db server \<Rightarrow> 'db server \<Rightarrow> bool" where
  "same_but_host s s' \<longleftrightarrow> sv_objects s' = sv_objects s \<and> sv_pool s' = sv_pool s \<and> sv_job s' = sv_job s \<and>
     (\<forall>q. subscribers q (sv_consumers s') = subscribers q (sv_consumers s))"

lemma declare_frame:
  "ch_declare_exchange L ch i j n t d a args s = Inr s' \<Longrightarrow> same_but_host s s'"
  "ch_declare_queue L ch i j n x d a args s = Inr s' \<Longrightarrow> same_but_host s s'"
  "ch_bind L ch i j e q k s = Inr s' \<Longrightarrow> same_but_host s s'"
  by (auto simp: same_but_host_def ch_declare_exchange_def ch_declare_queue_def ch_bind_def basic_response_def send_def
      rbind_Inr_conv Let_def split: if_splits)

lemma on_channel_frame:
  assumes "on_channel c j handler b = Inr b'" and "\<And>this ch s s'. handler this ch s = Inr s' \<Longrightarrow> same_but_host s s'"
  shows "same_but_host (br_server b) (br_server b') \<and> br_connections b' = br_connections b"
  using assms(1)
  by (auto simp: on_channel_def close_unknown_def shutdown_def rbind_Inr_conv split: option.splits intro: assms(2))
    (auto simp: same_but_host_def)

lemma request_frame:
  assumes "declares r" and "onProtobufMessage L u c r b = Inr b'"
  shows "same_but_host (br_server b) (br_server b') \<and> br_connections b' = br_connections b"
  using assms
  by (cases r) (auto simp: on_declareExchange_def on_declareQueue_def on_bind_def dest!: on_channel_frame intro: declare_frame)

lemma open_unused_declare:
  assumes "open_unused b this" and "declares r" and "onProtobufMessage L u c r b = Inr b'"
  shows "open_unused b' this"
  using request_frame [OF assms(2,3)] assms(1) deref_same [of "br_server b'" "br_server b" this]
  by (auto simp: open_unused_def same_but_host_def channel_at_def)

section \<open>Opening a channel\<close>

abbreviation sample_runs :: "tables broker \<Rightarrow> host_cmd list \<Rightarrow> spec_host \<Rightarrow> bool" where
  "sample_runs \<equiv> server_runs sample_libs 100 1 ''./data'' sample_disk (\<lambda>_. None)"

lemma sample_first: "first_start sample_libs (\<lambda>db. db) 100 1 ''./data'' sample_disk (\<lambda>_. None)"
  using mini_sqlite_ok sample_data_dir sample_settled
  by (simp add: first_start_def sample_libs_def fresh_tables_def sample_disk_def DBFILE_PATH_def)

lemma no_subscribers: "subscribers q (init_consumers qs) = []"
proof -
  have "consumers_ok []" by (simp add: consumers_ok_def)
  from fold_init [OF this, of qs] have "subscribers q (init_consumers qs) = subscribers q []"
    unfolding init_consumers_def by blast
  also have "\<dots> = []" by (simp add: subscribers_def)
  finally show ?thesis .
qed

lemma singleton_list: "distinct xs \<Longrightarrow> set xs = {a} \<Longrightarrow> xs = [a]"
  by (cases xs; cases "tl xs") auto

lemma sample_open: "\<exists>b this. sample_runs b [] spec_host_empty \<and> open_unused b this"
proof -
  obtain b0 where new: "BrokerServer sample_libs ''./data'' sample_disk (\<lambda>_. None) = Inr b0" and c0: "br_connections b0 = []"
    using first_broker [OF sample_first] by blast
  have s0: "sv_objects (br_server b0) = []" "sv_pool (br_server b0) = thread_pool_new 1" "sv_job (br_server b0) = Fresh"
    "\<forall>q. subscribers q (sv_consumers (br_server b0)) = []"
    using new by (auto simp: BrokerServer_def rbind_Inr_conv no_subscribers)
  have r0: "sample_runs b0 [] spec_host_empty" using server_runs.start [OF new] .
  let ?b1 = "b0\<lparr>br_connections := [(7, connection_new 7)]\<rparr>"
  have "broker_step sample_libs (Connected 7) b0 = Inr ?b1"
    by (simp add: onConnection_def c0 new_connection_def um_insert_def)
  then have r1: "sample_runs ?b1 [] spec_host_empty"
    using run_event [OF sample_first r0, of "Connected 7"] by (auto simp: host_after_def)
  obtain b2 where b2: "broker_step sample_libs (Request 7 u (OpenChannelRequest ''r'' ''c'')) ?b1 = Inr b2"
    and r2: "sample_runs b2 [] spec_host_empty" for u
    using run_event [OF sample_first r1, of "Request 7 (\<lambda>q. ''u'') (OpenChannelRequest ''r'' ''c'')"]
    by (auto simp: host_ok_def host_after_def channel_at_def select_connection_def connection_new_def
        cn_select_channel_def cm_select_channel_def)
  have "open_unused b2 0"
    using b2 s0
    by (auto simp: on_openChannel_def select_connection_def cn_open_channel_def cm_open_channel_def connection_new_def
        basic_response_def send_def Let_def open_unused_def channel_at_def cn_select_channel_def cm_select_channel_def
        um_find_put um_insert_def deref_channel_def)
  with r2 show ?thesis by blast
qed

section \<open>Declaring\<close>

definition sample_setup :: "host_cmd list" where
  "sample_setup = [HDeclareExchange ''e'' FANOUT True False [], HDeclareQueue ''q'' True False False [],
     HBind ''e'' ''q'' ''k'']"

definition sample_host :: spec_host where
  "sample_host = host_after sample_setup spec_host_empty"

lemma sample_setup_ok: "host_ok sample_libs 100 1 sample_setup spec_host_empty"
  by (simp add: host_ok_def sample_setup_def spec_host_empty_def spec_declare_def spec_init_def spec_bind_def short_def
      plain_def slash_free_def declared_flag_def ex_storable_def mq_storable_def ex_get_args_def
      mq_get_args_def format_args_def plain_args_def type_of_num_def ex_values_def mq_values_def quote_def flag_def
      show_int_def show_nat.simps)

lemma sample_host_facts:
  "sh_exchanges sample_host ''e'' = Some (\<lparr>ex_name = ''e'', ex_type = FANOUT, ex_durable = True, ex_auto_delete = False,
     ex_args = []\<rparr>, False)"
  "sh_bindings sample_host ''e'' q = (if q = ''q'' then Some (''k'', True) else None)"
  "sh_messages sample_host ''q'' = Some spec_empty" "sh_queues sample_host ''q'' \<noteq> None"
  "declared_flag mq_durable (sh_queues sample_host ''q'')"
  by (simp_all add: sample_host_def sample_setup_def host_after_def spec_host_empty_def spec_declare_def spec_init_def
      spec_bind_def declared_flag_def)

lemma sample_declare:
  assumes "sample_runs b cmds H" and "open_unused b this" and r: "declares r" "rq_cid r = ''c''"
    and c: "\<forall>v. request_cmds sample_libs (\<lambda>q. ''u'') r v = [c]" and ok: "host_ok sample_libs 100 1 [c] H"
  shows "\<exists>b'. sample_runs b' (cmds @ [c]) (host_after [c] H) \<and> open_unused b' this"
proof -
  let ?e = "Request 7 (\<lambda>q. ''u'') r"
  have at: "channel_at 7 ''c'' b = Some this" using assms(2) by (simp add: open_unused_def)
  have cmds: "event_cmds sample_libs ?e b = [c]" using c at r(2) by simp
  have "request_ok r this (br_server b)" using r(1) by (cases r) simp_all
  then have "event_ok sample_libs 100 1 ?e b H" using ok cmds at r(2) by simp
  from run_event [OF sample_first assms(1) this] obtain b' where
    "onProtobufMessage sample_libs (\<lambda>q. ''u'') 7 r b = Inr b'" "sample_runs b' (cmds @ [c]) (host_after [c] H)"
    unfolding cmds by auto
  then show ?thesis using open_unused_declare [OF assms(2) r(1)] by blast
qed

lemma sample_declared: "\<exists>b this. sample_runs b sample_setup sample_host \<and> open_unused b this"
proof -
  obtain b0 this where b0: "sample_runs b0 [] spec_host_empty" "open_unused b0 this" using sample_open by blast
  define c1 c2 c3 where c: "c1 = HDeclareExchange ''e'' FANOUT True False []"
    "c2 = HDeclareQueue ''q'' True False False []" "c3 = HBind ''e'' ''q'' ''k''"
  have cmds: "sample_setup = [c1, c2, c3]" by (simp add: sample_setup_def c)
  have ok: "host_ok sample_libs 100 1 [c1] spec_host_empty" "host_ok sample_libs 100 1 [c2] (host_after [c1] spec_host_empty)"
    "host_ok sample_libs 100 1 [c3] (host_after [c2] (host_after [c1] spec_host_empty))"
    using sample_setup_ok unfolding cmds host_ok_def host_after_def by (simp_all add: split_beta)
  have H: "host_after [c3] (host_after [c2] (host_after [c1] spec_host_empty)) = sample_host"
    by (simp add: sample_host_def cmds host_after_def split_beta)
  obtain b1 where b1: "sample_runs b1 ([] @ [c1]) (host_after [c1] spec_host_empty)" "open_unused b1 this"
    using sample_declare [OF b0, of "DeclareExchangeRequest ''r'' ''c'' ''e'' FANOUT True False []" c1] ok(1)
    by (auto simp: c ConvertProtoMapToStdMap_def convert_map_def)
  obtain b2 where b2: "sample_runs b2 (([] @ [c1]) @ [c2]) (host_after [c2] (host_after [c1] spec_host_empty))" "open_unused b2 this"
    using sample_declare [OF b1, of "DeclareQueueRequest ''r'' ''c'' ''q'' False True False []" c2] ok(2)
    by (auto simp: c ConvertProtoMapToStdMap_def convert_map_def)
  obtain b3 where "sample_runs b3 ((([] @ [c1]) @ [c2]) @ [c3]) sample_host" "open_unused b3 this"
    using sample_declare [OF b2, of "BindRequest ''r'' ''c'' ''e'' ''q'' ''k''" c3] ok(3)
    by (auto simp: c H [unfolded c])
  then show ?thesis unfolding cmds by auto
qed

section \<open>Subscribing and publishing\<close>

text \<open>The history up to a subscription: the channel stays, the queue has one subscriber.\<close>

definition subscribed_as :: "bool \<Rightarrow> 'db broker \<Rightarrow> addr \<Rightarrow> bool" where
  "subscribed_as a b this \<longleftrightarrow> channel_at 7 ''c'' b = Some this \<and> subscribers ''q'' (sv_consumers (br_server b)) =
     [\<lparr>cs_tag = ''t'', cs_qname = ''q'', cs_auto_ack = a, cs_callback = this\<rparr>] \<and>
     tp_threads (sv_pool (br_server b)) = [Looping] \<and> work (sv_pool (br_server b)) = [] \<and> sv_job (br_server b) = Fresh"

abbreviation subscribed :: "'db broker \<Rightarrow> addr \<Rightarrow> bool" where
  "subscribed \<equiv> subscribed_as True"

lemmas subscribed_def = subscribed_as_def

lemma sample_subscribed_as: "\<exists>b this. sample_runs b sample_setup sample_host \<and> subscribed_as a b this"
proof -
  obtain b this where b: "sample_runs b sample_setup sample_host" and un: "open_unused b this"
    using sample_declared by blast
  let ?r = "BasicConsumeRequest ''r'' ''c'' ''t'' ''q'' a" and ?u = "\<lambda>q :: string. ''u''" and ?s = "br_server b"
  have at: "channel_at 7 ''c'' b = Some this" and ch: "deref_channel this ?s = Inr (channel_new ''c'' 7)"
    and none: "subscribers q (sv_consumers ?s) = []" and pool: "sv_pool ?s = thread_pool_new 1" "sv_job ?s = Fresh" for q
    using un by (simp_all add: open_unused_def)
  have cmds: "event_cmds sample_libs (Request 7 ?u ?r) b = []" by simp
  have "event_ok sample_libs 100 1 (Request 7 ?u ?r) b sample_host"
    using at ch none by (simp add: host_ok_def free_to_subscribe_def channel_new_def)
  from run_event [OF sample_first b this] obtain b' where b': "onProtobufMessage sample_libs ?u 7 ?r b = Inr b'"
    "sample_runs b' sample_setup sample_host"
    unfolding cmds by (auto simp: host_after_def)
  have srel: "server_rel sample_libs (\<lambda>db. db) 100 1 ''./data'' ?s sample_host"
    using server_runs_rel [OF b sample_first] by (simp add: broker_rel_def)
  have exists: "vh_exists_queue ''q'' (fst (sv_host ?s))"
    using declared_queues [OF srel, of "''q''"] sample_host_facts(4) by simp
  have known: "map_of (sv_consumers ?s) ''q'' \<noteq> None"
    using server_relD(5) [OF srel, of "''q''"] sample_host_facts(4) by simp
  obtain k where k: "select_connection 7 (br_connections b) = Some k" "cn_select_channel ''c'' k = Some this"
    using at by (auto simp: channel_at_def split: option.splits)
  obtain c m where create: "cm_create ''t'' ''q'' a this (sv_consumers ?s) = (c, m)"
    by (cases "cm_create ''t'' ''q'' a this (sv_consumers ?s)")
  have c: "c = Some \<lparr>cs_tag = ''t'', cs_qname = ''q'', cs_auto_ack = a, cs_callback = this\<rparr>"
    using create known none [of "''q''"]
    by (auto simp: cm_create_def qc_create_def subscribers_def Let_def split: option.splits if_splits)
  have "subscribers ''q'' m = [\<lparr>cs_tag = ''t'', cs_qname = ''q'', cs_auto_ack = a, cs_callback = this\<rparr>]"
    using subscribers_create [of "''q''" "''t''" "''q''" a this "sv_consumers ?s"] none [of "''q''"] by (simp add: create c)
  then have "subscribed_as a b' this"
    using b'(1) at pool exists
    by (auto simp: on_basicConsume_def on_channel_def k ch ch_basic_consume_def create basic_response_def send_def
        subscribed_def channel_at_def thread_pool_new_def work_def in_threads_def)
  with b'(2) show ?thesis by blast
qed

lemma sample_subscribed: "\<exists>b this. sample_runs b sample_setup sample_host \<and> subscribed b this"
  by (rule sample_subscribed_as)

lemma publish_loop_threads:
  "tp_threads (sv_pool s) = [Looping] \<Longrightarrow>
    tp_threads (sv_pool (publish_loop L u this t k bp body es s)) = [Looping]"
  by (induction L u this t k bp body es s rule: publish_loop.induct)
    (auto simp: push_consume_def push_task_def settle_def split: prod.split)

lemma publish_loop_fields:
  "sv_job (publish_loop L u this t k bp body es s) = sv_job s \<and>
   sv_consumers (publish_loop L u this t k bp body es s) = sv_consumers s"
  by (induction L u this t k bp body es s rule: publish_loop.induct) (simp_all split: prod.split)

abbreviation sample_publish :: request where
  "sample_publish \<equiv> BasicPublishRequest ''r'' ''c'' ''e'' ''hi'' None"

lemma sample_publish_ok:
  assumes b: "sample_runs b sample_setup sample_host" and at: "channel_at 7 ''c'' b = Some this"
  shows "event_ok sample_libs 100 1 (Request 7 (\<lambda>q. ''u'') sample_publish) b sample_host"
    and "event_cmds sample_libs (Request 7 (\<lambda>q. ''u'') sample_publish) b = [HPublish ''q'' ''u'' None ''hi'']"
proof -
  have srel: "server_rel sample_libs (\<lambda>db. db) 100 1 ''./data'' (br_server b) sample_host"
    using server_runs_rel [OF b sample_first] by (simp add: broker_rel_def)
  let ?v = "fst (sv_host (br_server b))"
  obtain ep where ep: "vh_select_exchange ''e'' ?v = Some ep" "ex_type ep = FANOUT"
    using routed_spec(3) [OF srel, of "''e''"] by (cases "vh_select_exchange ''e'' ?v") (auto simp: sample_host_facts)
  let ?qs = "routed (lb_split sample_libs) FANOUT '''' (vh_exchange_bindings ''e'' ?v)"
  have "set ?qs = {''q''}"
    using routed_spec(2) [OF srel, of FANOUT "''''" "''e''"] by (auto simp: spec_routed_def sample_host_facts route_def)
  then have qs: "?qs = [''q'']" by (rule singleton_list [OF routed_spec(1) [OF srel]])
  show cmds: "event_cmds sample_libs (Request 7 (\<lambda>q. ''u'') sample_publish) b = [HPublish ''q'' ''u'' None ''hi'']"
    using at qs unfolding event_cmds.simps request_cmds_publish by (simp add: ep publish_cmds_def)
  have "host_cmd_ok (fits (lb_protobuf sample_libs) 100) 1 (HPublish ''q'' ''u'' None ''hi'') sample_host"
    using sample_put_fits sample_host_facts(3,5) by (simp add: sample_libs_def spec_empty_def spec_ids_def)
  then show "event_ok sample_libs 100 1 (Request 7 (\<lambda>q. ''u'') sample_publish) b sample_host"
    unfolding event_ok.simps cmds using at by (simp add: host_ok_def)
qed

text \<open>The history up to the delivery: the worker holds the one task.\<close>

lemma sample_delivering_as:
  "\<exists>b cmds H this a. sample_runs b cmds H \<and> HRestart \<notin> set cmds \<and> channel_at 7 ''c'' b = Some this \<and>
    tp_threads (sv_pool (br_server b)) = [Executing [Consume this ''q'']] \<and> sv_job (br_server b) = Fresh \<and>
    sh_messages H ''q'' = Some a \<and> sq_ready a = [put_payload ''u'' None ''hi'' True] \<and>
    subscribers ''q'' (sv_consumers (br_server b)) =
      [\<lparr>cs_tag = ''t'', cs_qname = ''q'', cs_auto_ack = auto, cs_callback = this\<rparr>]"
proof -
  obtain b this where b: "sample_runs b sample_setup sample_host" and sub: "subscribed_as auto b this"
    using sample_subscribed_as by blast
  let ?u = "\<lambda>q :: string. ''u''" and ?s = "br_server b"
  have at: "channel_at 7 ''c'' b = Some this" using sub by (simp add: subscribed_def)
  note ok = sample_publish_ok [OF b at]
  let ?H = "host_after [HPublish ''q'' ''u'' None ''hi''] sample_host"
  obtain b1 where b1: "onProtobufMessage sample_libs ?u 7 sample_publish b = Inr b1"
    "sample_runs b1 (sample_setup @ [HPublish ''q'' ''u'' None ''hi'']) ?H"
    using run_event [OF sample_first b ok(1)] unfolding ok(2) by auto
  have rel: "broker_rel sample_libs (\<lambda>db. db) 100 1 ''./data'' b sample_host"
    using server_runs_rel [OF b sample_first] by blast
  obtain qs where qs: "distinct qs" "work (sv_pool (br_server b1)) = work (sv_pool ?s) @ map (Consume this) qs"
    "set qs = spec_routed (lb_split sample_libs) sample_host ''e'' FANOUT ''''"
    using publish_effect [OF rel at ok(1)] b1(1) by (auto simp: sample_host_facts(1))
  then have "set qs = {''q''}" by (auto simp: spec_routed_def route_def sample_host_facts(2))
  then have "qs = [''q'']" by (rule singleton_list [OF qs(1)])
  then have work1: "work (sv_pool (br_server b1)) = [Consume this ''q'']" using qs(2) sub by (simp add: subscribed_def)
  obtain k ch where k: "select_connection 7 (br_connections b) = Some k" "cn_select_channel ''c'' k = Some this"
    "deref_channel this ?s = Inr ch"
    using at channel_atD [OF _ at] rel by (auto simp: channel_at_def broker_rel_def split: option.splits)
  obtain s1 where s1: "ch_basic_publish sample_libs ?u this ch ''r'' ''c'' ''e'' ''hi'' None ?s = Inr s1" "b1 = b\<lparr>br_server := s1\<rparr>"
    using b1(1) by (auto simp: on_basicPublish_def on_channel_def k rbind_Inr_conv)
  have threads1: "tp_threads (sv_pool s1) = [Looping]" and job1: "sv_job s1 = Fresh"
    and subs1: "subscribers ''q'' (sv_consumers s1) = subscribers ''q'' (sv_consumers ?s)"
    using s1(1) sub publish_loop_threads [of ?s]
    by (auto simp: ch_basic_publish_def basic_response_def send_def subscribed_def publish_loop_fields Let_def split: option.splits)
  have queue1: "tp_task_queue (sv_pool s1) = [Consume this ''q'']"
    using work1 threads1 by (simp add: s1(2) work_def in_threads_def)
  let ?s2 = "s1\<lparr>sv_pool := (sv_pool s1)\<lparr>tp_threads := [Entering]\<rparr>\<rparr>"
  let ?s3 = "s1\<lparr>sv_pool := (sv_pool s1)\<lparr>tp_threads := [Executing [Consume this ''q'']], tp_task_queue := []\<rparr>\<rparr>"
  have not_stopped: "\<not> tp_stop_signal (sv_pool s1)"
    using server_runs_rel [OF b1(2) sample_first] by (simp add: s1(2) broker_rel_def server_rel_def tasks_ok_def)
  have w1: "broker_step sample_libs Worker b1 = Inr (b1\<lparr>br_server := ?s2\<rparr>)"
    using threads1 not_stopped by (simp add: s1(2) worker_step_def advance_pool_def thread_step_def set_thread_def)
  have w2: "broker_step sample_libs Worker (b1\<lparr>br_server := ?s2\<rparr>) = Inr (b1\<lparr>br_server := ?s3\<rparr>)"
    using queue1 by (simp add: s1(2) worker_step_def advance_pool_def thread_step_def set_thread_def lock_free_def)
  have c1: "event_cmds sample_libs Worker b1 = []" using threads1 by (simp add: s1(2) worker_cmds_def)
  have r2: "sample_runs (b1\<lparr>br_server := ?s2\<rparr>) (sample_setup @ [HPublish ''q'' ''u'' None ''hi'']) ?H"
    by (rule quiet_event [OF b1(2) _ w1 c1]) simp
  have c2: "event_cmds sample_libs Worker (b1\<lparr>br_server := ?s2\<rparr>) = []" by (simp add: worker_cmds_def)
  have "sample_runs (b1\<lparr>br_server := ?s3\<rparr>) (sample_setup @ [HPublish ''q'' ''u'' None ''hi'']) ?H"
    by (rule quiet_event [OF r2 _ w2 c2]) simp
  moreover have "sh_messages ?H ''q'' = Some (spec_put (put_payload ''u'' None ''hi'' True) spec_empty)"
    using sample_host_facts(3,5) by (simp add: host_after_single)
  moreover have "sq_ready (spec_put (put_payload ''u'' None ''hi'' True) spec_empty) = [put_payload ''u'' None ''hi'' True]"
    by (simp add: spec_put_def spec_empty_def)
  moreover have "HRestart \<notin> set (sample_setup @ [HPublish ''q'' ''u'' None ''hi''])" by (simp add: sample_setup_def)
  moreover have "subscribers ''q'' (sv_consumers s1) =
      [\<lparr>cs_tag = ''t'', cs_qname = ''q'', cs_auto_ack = auto, cs_callback = this\<rparr>]" using sub subs1 by (simp add: subscribed_def)
  moreover have "channel_at 7 ''c'' (b1\<lparr>br_server := ?s3\<rparr>) = Some this" using at by (simp add: s1(2) channel_at_def)
  ultimately show ?thesis
    using job1 by (intro exI [of _ "b1\<lparr>br_server := ?s3\<rparr>"] exI [of _ "sample_setup @ [HPublish ''q'' ''u'' None ''hi'']"]
        exI [of _ ?H] exI [of _ this] exI [of _ "spec_put (put_payload ''u'' None ''hi'' True) spec_empty"]) simp
qed

lemma sample_delivering:
  "\<exists>b cmds H this a. sample_runs b cmds H \<and> HRestart \<notin> set cmds \<and> channel_at 7 ''c'' b = Some this \<and>
    tp_threads (sv_pool (br_server b)) = [Executing [Consume this ''q'']] \<and> sv_job (br_server b) = Fresh \<and>
    sh_messages H ''q'' = Some a \<and> sq_ready a = [put_payload ''u'' None ''hi'' True] \<and>
    subscribers ''q'' (sv_consumers (br_server b)) \<noteq> []"
  using sample_delivering_as [of True] by (elim exE conjE) (intro exI conjI, assumption+, simp only: list.distinct not_False_eq_True)

end
