(* ===== verification/Broker_Verdict.thy ===== *)
theory Broker_Verdict
  imports Broker_Reach
begin

text \<open>
  What a response says: the \<open>ok\<close> of each kind of request, in terms of the host's specification.
\<close>

fun verdict :: "conn \<Rightarrow> request \<Rightarrow> 'db broker \<Rightarrow> spec_host \<Rightarrow> bool" where
  "verdict c (OpenChannelRequest i j) b H \<longleftrightarrow> channel_at c j b = None"
| "verdict c (BindRequest i j e q k) b H \<longleftrightarrow> sh_exchanges H e \<noteq> None \<and> sh_queues H q \<noteq> None"
| "verdict c (BasicPublishRequest i j e body bp) b H \<longleftrightarrow> sh_exchanges H e \<noteq> None"
| "verdict c (BasicConsumeRequest i j t q a) b H \<longleftrightarrow> sh_queues H q \<noteq> None"
| "verdict c (BasicCancelRequest i j t q) b H \<longleftrightarrow> False"
| "verdict c r b H \<longleftrightarrow> True"

definition says :: "'db server \<Rightarrow> bool \<Rightarrow> 'db server \<Rightarrow> bool" where
  "says s ok s' \<longleftrightarrow> (\<exists>c i j. sv_out s' = sv_out s @ [Send c (BasicCommonResponse i j ok)])"

lemma says_response: "sv_out s1 = sv_out s \<Longrightarrow> says s ok (basic_response c ok i j s1)"
  by (auto simp: says_def basic_response_def)

lemma declare_exchange_verdict:
  assumes rel: "server_rel L tabs M N basedir s H" and ok: "host_ok L M N [HDeclareExchange n t d a (ConvertProtoMapToStdMap args)] H"
    and step: "ch_declare_exchange L ch i j n t d a args s = Inr s'"
  shows "says s True s'"
proof -
  obtain x' where "vh_declare_exchange L n t d a (ConvertProtoMapToStdMap args) (sv_host s) = Inr (True, x')"
    using host_call [OF rel ok] by (auto simp: rbind_Inr_conv)
  then show ?thesis using step by (auto simp: ch_declare_exchange_def intro: says_response)
qed

lemma declare_queue_verdict:
  assumes rel: "server_rel L tabs M N basedir s H" and ok: "host_ok L M N [HDeclareQueue n d x a (ConvertProtoMapToStdMap args)] H"
    and step: "ch_declare_queue L ch i j n x d a args s = Inr s'"
  shows "says s True s'"
proof -
  obtain x' where "vh_declare_queue L n d x a (ConvertProtoMapToStdMap args) (sv_host s) = Inr (True, x')"
    using host_call [OF rel ok] by (auto simp: rbind_Inr_conv)
  then show ?thesis using step by (auto simp: ch_declare_queue_def Let_def intro: says_response)
qed

lemma bind_verdict:
  assumes rel: "server_rel L tabs M N basedir s H" and ok: "host_ok L M N [HBind e q k] H"
    and step: "ch_bind L ch i j e q k s = Inr s'"
  shows "says s (sh_exchanges H e \<noteq> None \<and> sh_queues H q \<noteq> None) s'"
proof -
  obtain x' where "vh_bind L e q k (sv_host s) = Inr (sh_exchanges H e \<noteq> None \<and> sh_queues H q \<noteq> None, x')"
    using host_call [OF rel ok] by (cases "sh_exchanges H e = None \<or> sh_queues H q = None") (auto simp: rbind_Inr_conv)
  then show ?thesis using step by (auto simp: ch_bind_def simp del: not_None_eq intro: says_response)
qed

lemma other_verdicts:
  "ch_delete_exchange L ch i j n s = Inr s' \<Longrightarrow> says s True s'"
  "ch_delete_queue L ch i j n s = Inr s' \<Longrightarrow> says s True s'"
  "ch_unbind L ch i j e q s = Inr s' \<Longrightarrow> says s True s'"
  "ch_basic_ack L ch i j q m s = Inr s' \<Longrightarrow> says s True s'"
  "ch_basic_cancel ch i j t q s = Inr s' \<Longrightarrow> says s False s'"
  "ch_basic_consume this ch i j t q ack s = Inr s' \<Longrightarrow> says s (vh_exists_queue q (fst (sv_host s))) s'"
  "ch_basic_publish L u this ch i j e body bp s = Inr s' \<Longrightarrow> says s (vh_select_exchange e (fst (sv_host s)) \<noteq> None) s'"
  by (auto simp: ch_delete_exchange_def ch_delete_queue_def ch_unbind_def ch_basic_ack_def ch_basic_cancel_def
      ch_basic_consume_def ch_basic_publish_def rbind_Inr_conv Let_def intro!: says_response
      split: if_splits prod.splits option.splits)

lemma says_on_channel:
  assumes "on_channel c j handler b = Inr b'" and "channel_at c j b = Some this"
    and "\<And>ch s'. handler this ch (br_server b) = Inr s' \<Longrightarrow> says (br_server b) ok s'"
  shows "says (br_server b) ok (br_server b')"
  using assms by (auto simp: on_channel_def channel_at_def rbind_Inr_conv split: option.splits)

lemma request_verdict:
  assumes rel: "broker_rel L tabs M N basedir b H" and ok: "event_ok L M N (Request c u r) b H"
    and step: "onProtobufMessage L u c r b = Inr b'" and r: "needs_channel r" "\<not> is_query r"
    and at: "channel_at c (rq_cid r) b = Some this"
  shows "says (br_server b) (verdict c r b H) (br_server b')"
proof -
  have srel: "server_rel L tabs M N basedir (br_server b) H" using rel by (simp add: broker_rel_def)
  have hok: "host_ok L M N (request_cmds L u r (fst (sv_host (br_server b)))) H" using ok at by simp
  show ?thesis
  proof (cases r)
    case (DeclareExchangeRequest i j n t d a args)
    then show ?thesis using step at hok by (auto simp: on_declareExchange_def elim!: says_on_channel intro: declare_exchange_verdict [OF srel])
  next
    case (DeclareQueueRequest i j n x d a args)
    then show ?thesis using step at hok by (auto simp: on_declareQueue_def elim!: says_on_channel intro: declare_queue_verdict [OF srel])
  next
    case (BindRequest i j e q k)
    have "on_channel c j (\<lambda>this ch. ch_bind L ch i j e q k) b = Inr b'" using step by (simp add: BindRequest on_bind_def)
    then show ?thesis
      unfolding BindRequest verdict.simps using at hok BindRequest
      by (elim says_on_channel) (simp_all only: request.sel request_cmds.simps, rule bind_verdict [OF srel])
  next
    case (BasicPublishRequest i j e body bp)
    have exists: "(sh_exchanges H e \<noteq> None) = (vh_select_exchange e (fst (sv_host (br_server b))) \<noteq> None)"
      using routed_spec(3) [OF srel, of e] by (metis map_option_is_None)
    have "on_channel c j (\<lambda>this ch. ch_basic_publish L u this ch i j e body bp) b = Inr b'"
      using step by (simp add: BasicPublishRequest on_basicPublish_def)
    then show ?thesis
      unfolding BasicPublishRequest verdict.simps exists using at BasicPublishRequest
      by (elim says_on_channel) (simp_all only: request.sel, rule other_verdicts(7))
  next
    case (BasicConsumeRequest i j t q a)
    have "on_channel c j (\<lambda>this ch. ch_basic_consume this ch i j t q a) b = Inr b'"
      using step by (simp add: BasicConsumeRequest on_basicConsume_def)
    then show ?thesis
      unfolding BasicConsumeRequest verdict.simps declared_queues [OF srel, symmetric] using at BasicConsumeRequest
      by (elim says_on_channel) (simp_all only: request.sel, rule other_verdicts(6))
  qed (use step at r in \<open>auto simp: on_deleteExchange_def on_deleteQueue_def on_unbind_def on_basicAck_def on_basicCancel_def
      elim!: says_on_channel intro: other_verdicts\<close>)
qed

text \<open>All requests: a common response that is sent says the verdict.\<close>

lemma answer_verdict:
  assumes rel: "broker_rel L tabs M N basedir b H" and ok: "event_ok L M N (Request c u r) b H"
    and step: "onProtobufMessage L u c r b = Inr b'" and outs: "sv_out (br_server b') = sv_out (br_server b) @ outs"
    and mem: "Send k (BasicCommonResponse i j v) \<in> set outs"
  shows "v = verdict c r b H"
proof (cases "needs_channel r")
  case True
  have "replies b c r outs" using broker_follows [OF rel ok] step outs by (auto simp: event_follows_def)
  then have "channel_at c (rq_cid r) b \<noteq> None" and query: "\<not> is_query r"
    using mem True by (auto simp: replies_def split: if_splits)
  then obtain this where at: "channel_at c (rq_cid r) b = Some this" by blast
  from request_verdict [OF rel ok step True query at] show ?thesis using outs mem by (auto simp: says_def)
next
  case False
  then show ?thesis
    using step outs mem
    by (cases r) (auto simp: on_openChannel_def on_closeChannel_def onUnknownMessage_def close_unknown_def shutdown_def
        cn_open_channel_def cm_open_channel_def cn_close_channel_def channel_at_def cn_select_channel_def
        cm_select_channel_def basic_response_def rbind_Inr_conv Let_def dest!: close_channel_out split: option.splits if_splits)
qed

end
