(* ===== verification/Broker_Properties.thy ===== *)
theory Broker_Properties
  imports Broker_Sample Broker_Verdict
begin

text \<open>
  What holds of the running server, in every state it reaches over any interleaving of connections,
  requests, worker steps and restarts.
\<close>

section \<open>Properties\<close>

text \<open>
  C1: The server never crashes and keeps its state consistent.  In every state it reaches, over any
  interleaving of connections, requests, worker steps and restarts that clients may cause, the next
  such event is handled without abort, exception or undefined behaviour and a restart succeeds; the
  host is then in the state its specification reaches over the host commands of the history, in
  memory, tables and files.
\<close>

theorem server_refines_spec:
  assumes "first_start L tabs M N basedir s0 db0" and "server_runs L M N basedir s0 db0 b cmds H"
  shows "H = snd (run_spec host_spec cmds spec_host_empty) \<and>
    host_rel L tabs M N basedir (basedir @ DBFILE_PATH) (sv_host (br_server b)) H \<and>
    (event_ok L M N e b H \<longrightarrow> returns (broker_step L e b)) \<and>
    (sv_host (br_server b) = (v, s, db) \<longrightarrow> returns (BrokerServer L basedir s db))"
proof -
  have rel: "broker_rel L tabs M N basedir b H" and H: "H = host_after cmds spec_host_empty"
    using server_runs_rel [OF assms(2,1)] by blast+
  have "returns (broker_step L e b)" if "event_ok L M N e b H"
    using broker_follows [OF rel that] by (auto simp: event_follows_def)
  moreover have "returns (BrokerServer L basedir s db)" if "sv_host (br_server b) = (v, s, db)"
    using broker_restart [OF rel that] by auto
  moreover have "host_rel L tabs M N basedir (basedir @ DBFILE_PATH) (sv_host (br_server b)) H"
    using rel by (simp add: broker_rel_def server_rel_def)
  ultimately show ?thesis using H unfolding host_after_def by blast
qed

theorem server_refines_spec_witness:
  "\<exists>b H. H = snd (run_spec host_spec sample_setup spec_host_empty) \<and>
    host_rel sample_libs (\<lambda>db. db) 100 1 ''./data'' (''./data'' @ DBFILE_PATH) (sv_host (br_server b)) H \<and>
    returns (broker_step sample_libs Worker b)"
proof -
  obtain b this where b: "sample_runs b sample_setup sample_host" using sample_subscribed by blast
  show ?thesis using server_refines_spec [OF sample_first b, of Worker] by auto
qed

text \<open>
  C12: Exactly one answer.  A request on a known connection is answered with exactly one response,
  sent on that connection and carrying the request's own identifiers; a request for a channel that is
  not open gets none, and an unknown connection or message type is shut down.  The \<open>ok\<close> of the response
  is the \<open>verdict\<close>: it is false for an open channel opened again, for a binding of an exchange or queue
  that is not declared, for a publication to an exchange and a subscription to a queue that are not
  declared, and for every cancellation.
\<close>

theorem every_request_answered_once:
  assumes "first_start L tabs M N basedir s0 db0" and "server_runs L M N basedir s0 db0 b cmds H"
    and "event_ok L M N (Request c u r) b H"
  shows "\<exists>b' outs. onProtobufMessage L u c r b = Inr b' \<and>
    sv_out (br_server b') = sv_out (br_server b) @ outs \<and> replies b c r outs \<and>
    (\<forall>k i j ok. Send k (BasicCommonResponse i j ok) \<in> set outs \<longrightarrow> ok = verdict c r b H)"
proof -
  have rel: "broker_rel L tabs M N basedir b H" using server_runs_rel [OF assms(2,1)] by blast
  from broker_follows [OF rel assms(3)] obtain b' outs where "onProtobufMessage L u c r b = Inr b'"
    "sv_out (br_server b') = sv_out (br_server b) @ outs" "replies b c r outs" by (auto simp: event_follows_def)
  then show ?thesis using answer_verdict [OF rel assms(3)] by blast
qed

theorem every_request_answered_once_witness:
  "\<exists>b b' outs. onProtobufMessage sample_libs (\<lambda>q. ''u'') 7 sample_publish b = Inr b' \<and>
    sv_out (br_server b') = sv_out (br_server b) @ outs \<and> (\<exists>resp. outs = [Send 7 resp] \<and> response_to sample_publish resp)"
proof -
  obtain b this where b: "sample_runs b sample_setup sample_host" and at: "channel_at 7 ''c'' b = Some this"
    using sample_subscribed by (auto simp: subscribed_def)
  have known: "select_connection 7 (br_connections b) \<noteq> None" using at by (auto simp: channel_at_def split: option.splits)
  obtain b' outs where b': "onProtobufMessage sample_libs (\<lambda>q. ''u'') 7 sample_publish b = Inr b'"
    "sv_out (br_server b') = sv_out (br_server b) @ outs" and "replies b 7 sample_publish outs"
    using every_request_answered_once [OF sample_first b sample_publish_ok(1) [OF b at]] by blast
  then have "\<exists>resp. outs = [Send 7 resp] \<and> response_to sample_publish resp" using known at by (simp add: replies_def)
  with b' show ?thesis by blast
qed

text \<open>
  C9: Subscriptions never dangle.  Every subscription of a reachable server is that of a channel
  which is open on a connection that still exists and which remembers it, under the queue it is
  listed for, with a tag no other subscriber of the queue has; and exactly the declared queues can be
  subscribed to.
\<close>

theorem subscriptions_are_live:
  assumes "first_start L tabs M N basedir s0 db0" and "server_runs L M N basedir s0 db0 b cmds H"
  shows "(\<forall>q. \<forall>c \<in> set (subscribers q (sv_consumers (br_server b))).
      cs_qname c = q \<and> (\<exists>ch. deref_channel (cs_callback c) (br_server b) = Inr ch \<and> ch_consumer ch = Some c \<and>
        channel_at (ch_conn ch) (ch_cid ch) b = Some (cs_callback c))) \<and>
    (\<forall>q. distinct (map cs_tag (subscribers q (sv_consumers (br_server b))))) \<and>
    (\<forall>q. map_of (sv_consumers (br_server b)) q \<noteq> None \<longleftrightarrow> vh_exists_queue q (fst (sv_host (br_server b))))"
proof (intro conjI allI ballI)
  have rel: "broker_rel L tabs M N basedir b H" using server_runs_rel [OF assms(2,1)] by blast
  then have srel: "server_rel L tabs M N basedir (br_server b) H" and chs: "channels_ok b" by (simp_all add: broker_rel_def)
  note cons = server_relD(4) [OF srel]
  fix q
  show "distinct (map cs_tag (subscribers q (sv_consumers (br_server b))))"
    using consumers_find [OF cons, of q] by (auto simp: subscribers_def qc_ok_def split: option.split)
  have "vh_exists_queue q (fst (sv_host (br_server b))) \<longleftrightarrow> sh_queues H q \<noteq> None" by (rule declared_queues [OF srel])
  then show "map_of (sv_consumers (br_server b)) q \<noteq> None \<longleftrightarrow> vh_exists_queue q (fst (sv_host (br_server b)))"
    using server_relD(5) [OF srel, of q] by simp
  fix c assume c: "c \<in> set (subscribers q (sv_consumers (br_server b)))"
  from subscriber_channel [OF rel c] show "cs_qname c = q"
    "\<exists>ch. deref_channel (cs_callback c) (br_server b) = Inr ch \<and> ch_consumer ch = Some c \<and>
      channel_at (ch_conn ch) (ch_cid ch) b = Some (cs_callback c)" by blast+
qed

theorem subscriptions_are_live_witness:
  "\<exists>b c ch. subscribers ''q'' (sv_consumers (br_server b)) = [c] \<and>
    deref_channel (cs_callback c) (br_server (b :: tables broker)) = Inr ch \<and> ch_consumer ch = Some c"
proof -
  obtain b this where b: "sample_runs b sample_setup sample_host" and "subscribed b this" using sample_subscribed by blast
  then obtain c where c: "subscribers ''q'' (sv_consumers (br_server b)) = [c]" by (simp add: subscribed_def)
  then have "c \<in> set (subscribers ''q'' (sv_consumers (br_server b)))" by simp
  then show ?thesis using subscriptions_are_live [OF sample_first b] c by blast
qed

text \<open>
  C6: Publishing reaches exactly the matching queues.  A message published on an open channel to a
  declared exchange is appended to every queue bound under a key its routing key matches, and to no
  other; nothing else of the host changes; one delivery task per such queue is queued; and the answer
  is true.  If the exchange is not declared the answer is false and nothing changes.
\<close>

theorem publish_reaches_matching_queues:
  assumes "first_start L tabs M N basedir s0 db0" and "server_runs L M N basedir s0 db0 b cmds H"
    and "channel_at c j b = Some this" and "event_ok L M N (Request c u (BasicPublishRequest i j e body bp)) b H"
  shows "\<exists>b' H' qs. onProtobufMessage L u c (BasicPublishRequest i j e body bp) b = Inr b' \<and>
    broker_rel L tabs M N basedir b' H' \<and> distinct qs \<and>
    set qs = (case sh_exchanges H e of None \<Rightarrow> {} | Some (ep, fl) \<Rightarrow>
      spec_routed (lb_split L) H e (ex_type ep) (case bp of None \<Rightarrow> '''' | Some p \<Rightarrow> bp_routing_key p)) \<and>
    H' = H\<lparr>sh_messages := (\<lambda>q. if q \<in> set qs
      then map_option (spec_put (put_payload (u q) bp body (declared_flag mq_durable (sh_queues H q)))) (sh_messages H q)
      else sh_messages H q)\<rparr> \<and>
    work (sv_pool (br_server b')) = work (sv_pool (br_server b)) @ map (Consume this) qs \<and>
    sv_out (br_server b') = sv_out (br_server b) @ [Send c (BasicCommonResponse i j (sh_exchanges H e \<noteq> None))]"
  using server_runs_rel [OF assms(2,1)] by (intro publish_effect [OF _ assms(3,4)]) blast

theorem publish_reaches_matching_queues_witness:
  "\<exists>b this b' H' qs. onProtobufMessage sample_libs (\<lambda>q. ''u'') 7 sample_publish b = Inr b' \<and>
    broker_rel sample_libs (\<lambda>db. db) 100 1 ''./data'' b' H' \<and> set qs = {''q''} \<and>
    work (sv_pool (br_server b')) = work (sv_pool (br_server b)) @ map (Consume this) qs"
proof -
  obtain b this where b: "sample_runs b sample_setup sample_host" and at: "channel_at 7 ''c'' b = Some this"
    using sample_subscribed by (auto simp: subscribed_def)
  have "spec_routed (lb_split sample_libs) sample_host ''e'' FANOUT '''' = {''q''}"
    by (auto simp: spec_routed_def route_def sample_host_facts(2))
  then have reach: "(case sh_exchanges sample_host ''e'' of None \<Rightarrow> {} | Some (ep, fl) \<Rightarrow>
      spec_routed (lb_split sample_libs) sample_host ''e'' (ex_type ep) (case None of None \<Rightarrow> '''' | Some p \<Rightarrow> bp_routing_key p)) = {''q''}"
    by (simp add: sample_host_facts(1))
  obtain b' H' qs where "onProtobufMessage sample_libs (\<lambda>q. ''u'') 7 sample_publish b = Inr b'"
    "broker_rel sample_libs (\<lambda>db. db) 100 1 ''./data'' b' H'" "set qs = {''q''}"
    "work (sv_pool (br_server b')) = work (sv_pool (br_server b)) @ map (Consume this) qs"
    using publish_reaches_matching_queues [OF sample_first b at sample_publish_ok(1) [OF b at], unfolded reach]
    by (elim exE conjE) rule
  then show ?thesis by (intro exI conjI)
qed

text \<open>
  C8: A delivery.  When the worker starts on a task for a queue that holds messages, the oldest one
  leaves the queue.  If the queue has subscribers, one of them is sent exactly that message, once, on
  its own channel, and a subscriber that acknowledges automatically settles it; otherwise it waits to
  be acknowledged.  If nobody subscribes, the message is taken nevertheless and sent to nobody: it
  waits for an acknowledgement no client can know of.
\<close>

theorem task_delivers_oldest:
  assumes "first_start L tabs M N basedir s0 db0" and "server_runs L M N basedir s0 db0 b cmds H"
    and "tp_threads (sv_pool (br_server b)) = [Executing (Consume this q # ts)]" and "sv_job (br_server b) = Fresh"
    and "sh_messages H q = Some a" and "sq_ready a = p # ps"
  shows "(subscribers q (sv_consumers (br_server b)) = [] \<longrightarrow>
      (\<exists>b'. worker_steps L 2 b = Inr b' \<and> sv_out (br_server b') = sv_out (br_server b) \<and>
        broker_rel L tabs M N basedir b' (H\<lparr>sh_messages := (sh_messages H)(q \<mapsto> snd (spec_take a))\<rparr>))) \<and>
    (subscribers q (sv_consumers (br_server b)) \<noteq> [] \<longrightarrow>
      (\<exists>b' c ch. worker_steps L 4 b = Inr b' \<and> c \<in> set (subscribers q (sv_consumers (br_server b))) \<and>
        deref_channel (cs_callback c) (br_server b) = Inr ch \<and>
        sv_out (br_server b') = sv_out (br_server b) @ [Send (ch_conn ch) (pushed ch c p)] \<and>
        broker_rel L tabs M N basedir b' (H\<lparr>sh_messages := (sh_messages H)(q \<mapsto>
          (if cs_auto_ack c then spec_ack (pay_id p) (snd (spec_take a)) else snd (spec_take a)))\<rparr>)))"
proof -
  have "broker_rel L tabs M N basedir b H" using server_runs_rel [OF assms(2,1)] by blast
  from deliver_oldest [OF this assms(3-6)] show ?thesis by blast
qed

theorem task_delivers_oldest_witness:
  "\<exists>b b' c ch. worker_steps sample_libs 4 b = Inr b' \<and>
    sv_out (br_server b') = sv_out (br_server b) @ [Send (ch_conn ch) (pushed ch c (put_payload ''u'' None ''hi'' True))]"
proof -
  obtain b cmds H this a where b: "sample_runs b cmds H" and
    t: "tp_threads (sv_pool (br_server b)) = [Executing [Consume this ''q'']]" "sv_job (br_server b) = Fresh"
      "sh_messages H ''q'' = Some a" "sq_ready a = [put_payload ''u'' None ''hi'' True]"
    and s: "subscribers ''q'' (sv_consumers (br_server b)) \<noteq> []"
    using sample_delivering by blast
  from task_delivers_oldest [OF sample_first b t] s show ?thesis by blast
qed

text \<open>
  C24: Only publishing pushes.  Whatever a server finds in its files when it starts, and whatever
  clients then do but publish, declare, subscribe or acknowledge, no message is pushed to anybody: the
  durable messages a restart brings back are delivered only when later messages are published to
  their queue, one for one.
\<close>

theorem recovered_messages_wait_for_publish:
  assumes "BrokerServer L basedir s db = Inr b" and "list_all (\<lambda>e. \<not> publishes e) es"
    and "broker_events L es b = Inr b'"
  shows "list_all (\<lambda>x. \<not> is_push x) (sv_out (br_server b'))"
proof -
  have "sv_pool (br_server b) = thread_pool_new 1" and out: "sv_out (br_server b) = []"
    using assms(1) by (auto simp: BrokerServer_def rbind_Inr_conv)
  then have "idle (br_server b)" by (simp add: idle_def thread_pool_new_def work_def in_threads_def)
  from idle_events [OF this assms(2,3)] out show ?thesis by simp
qed

theorem recovered_messages_wait_for_publish_witness:
  "\<exists>b b'. BrokerServer sample_libs ''./data'' sample_disk (\<lambda>_. None) = Inr b \<and>
    broker_events sample_libs [Connected 7, Worker] b = Inr b' \<and> list_all (\<lambda>x. \<not> is_push x) (sv_out (br_server b'))"
proof -
  obtain b where b: "BrokerServer sample_libs ''./data'' sample_disk (\<lambda>_. None) = Inr b"
    and rel: "broker_rel sample_libs (\<lambda>db. db) 100 1 ''./data'' b spec_host_empty"
    using first_broker [OF sample_first] by blast
  obtain b1 where b1: "broker_step sample_libs (Connected 7) b = Inr b1"
    "broker_rel sample_libs (\<lambda>db. db) 100 1 ''./data'' b1 (host_after [] spec_host_empty)"
    using connect_follows [OF rel, of 7] by (auto simp: event_follows_def)
  obtain b2 where b2: "broker_step sample_libs Worker b1 = Inr b2"
    using worker_follows [OF b1(2)] by (auto simp: event_follows_def)
  have run: "broker_events sample_libs [Connected 7, Worker] b = Inr b2" using b1(1) b2 by simp
  from recovered_messages_wait_for_publish [OF b _ run] b run show ?thesis by auto
qed

section \<open>Channels closed too early\<close>

text \<open>What a channel's second subscription and its destructor leave of the first.\<close>

lemma first_subscription_stays:
  assumes "consumers_ok m0" and "cm_create t q' a cb m0 = (n, m)" and "cp \<in> set (subscribers q m0)"
  shows "cp \<in> set (subscribers q (case n of None \<Rightarrow> m | Some d \<Rightarrow> cm_remove (cs_tag d) (cs_qname d) m))"
proof (cases n)
  case None
  then show ?thesis using subscribers_create [of q t q' a cb m0] assms(2,3) by simp
next
  case (Some d)
  have d: "cs_tag d = t" "cs_qname d = q'" using create_consumer [of t q' a cb m0 d] assms(2) Some by simp_all
  have "consumers_ok m" using consumers_ok_ops(3) [of m0 t q' a cb] assms(1,2) by simp
  moreover have "cs_tag cp \<noteq> t" if "q = q'"
    using assms(2,3) that Some
    by (auto simp: cm_create_def qc_create_def subscribers_def Let_def has_tag_iff split: option.splits if_splits)
  ultimately show ?thesis
    using subscribers_create [of q t q' a cb m0] assms(2,3) by (auto simp: Some d subscribers_remove)
qed

text \<open>
  C22: Closing a channel with work under way is undefined.  The task a publication leaves for the
  worker holds the raw address of the channel: when the client closes the channel, which is answered
  as usual, before the worker gets to the task, the worker's next step is a use after free.
\<close>

theorem close_before_delivery_is_undefined:
  assumes "first_start L tabs M N basedir s0 db0" and "server_runs L M N basedir s0 db0 b cmds H"
    and at: "channel_at c j b = Some this"
    and th: "tp_threads (sv_pool (br_server b)) = [Executing (Consume this q # ts)]" and job: "sv_job (br_server b) = Fresh"
  shows "\<exists>b'. onProtobufMessage L u c (CloseChannelRequest i j) b = Inr b' \<and> broker_step L Worker b' = Inl Undefined"
proof -
  have "broker_rel L tabs M N basedir b H" using server_runs_rel [OF assms(2,1)] by blast
  then have "channels_ok b" by (simp add: broker_rel_def)
  then obtain ch where ch: "deref_channel this (br_server b) = Inr ch" using channel_atD [OF _ at] by blast
  obtain k where k: "select_connection c (br_connections b) = Some k" "map_of (cn_channels k) j = Some this"
    using at by (auto simp: channel_at_def cn_select_channel_def cm_select_channel_def split: option.splits)
  obtain s' where s': "destroy_channel this (br_server b) = Inr s'" by (simp add: destroy_channel_def ch)
  then have pool: "sv_pool s' = sv_pool (br_server b)" "sv_job s' = Fresh"
    using destroy_undisturbed [OF s'] job by (simp_all add: undisturbed_def)
  have gone: "deref_channel this s' = Inl Undefined"
    using s' ch deref_in_range [OF ch] by (auto simp: destroy_channel_def Let_def deref_channel_def)
  let ?s = "send (cn_conn k) (BasicCommonResponse i j True) s'"
  let ?b = "b\<lparr>br_server := ?s, br_connections := um_put c (k\<lparr>cn_channels := um_erase j (cn_channels k)\<rparr>) (br_connections b)\<rparr>"
  have "onProtobufMessage L u c (CloseChannelRequest i j) b = Inr ?b"
    by (simp add: on_closeChannel_def k cn_close_channel_def cm_close_channel_def s' basic_response_def)
  moreover have "worker_step L ?s = Inl Undefined"
    using th pool gone deref_same [of ?s s' this]
    by (simp add: worker_step_def consume_step_def consume_front_def send_def)
  ultimately show ?thesis by simp
qed

theorem close_before_delivery_is_undefined_witness:
  "\<exists>b b'. onProtobufMessage sample_libs (\<lambda>q. ''u'') 7 (CloseChannelRequest ''r'' ''c'') b = Inr b' \<and>
    broker_step sample_libs Worker b' = Inl Undefined"
proof -
  obtain b cmds H this where b: "sample_runs b cmds H" and at: "channel_at 7 ''c'' b = Some this" and
    t: "tp_threads (sv_pool (br_server b)) = [Executing [Consume this ''q'']]" "sv_job (br_server b) = Fresh"
    using sample_delivering by blast
  from close_before_delivery_is_undefined [OF sample_first b at t] show ?thesis by blast
qed

text \<open>
  C23: A second subscription dangles.  A channel remembers only its last subscription, and none when
  the request reuses a tag.  When a subscribed channel subscribes again, to any declared queue, and is
  then closed, which is answered as usual, its first subscription stays listed with the address of
  the destroyed channel, and delivering a message to it is a use after free.
\<close>

theorem second_subscription_dangles:
  assumes "first_start L tabs M N basedir s0 db0" and "server_runs L M N basedir s0 db0 b cmds H"
    and at: "channel_at c j b = Some this" and sub: "cp \<in> set (subscribers q (sv_consumers (br_server b)))"
    and own: "cs_callback cp = this" and q': "vh_exists_queue q' (fst (sv_host (br_server b)))"
  shows "\<exists>b1 b2. onProtobufMessage L u c (BasicConsumeRequest i j t q' a) b = Inr b1 \<and>
    onProtobufMessage L u c (CloseChannelRequest i j) b1 = Inr b2 \<and>
    cp \<in> set (subscribers q (sv_consumers (br_server b2))) \<and>
    (\<forall>m. consume_deliver m cp (br_server b2) = Inl Undefined)"
proof -
  let ?s = "br_server b"
  have "broker_rel L tabs M N basedir b H" using server_runs_rel [OF assms(2,1)] by blast
  then have rel: "channels_ok b" "subs_ok ?s" by (simp_all add: broker_rel_def server_rel_def)
  then have cons: "consumers_ok (sv_consumers ?s)" by (simp add: subs_ok_def)
  obtain ch where ch: "deref_channel this ?s = Inr ch" using channel_atD [OF rel(1) at] by blast
  obtain k where k: "select_connection c (br_connections b) = Some k" "map_of (cn_channels k) j = Some this"
    using at by (auto simp: channel_at_def cn_select_channel_def cm_select_channel_def split: option.splits)
  obtain n m where create: "cm_create t q' a this (sv_consumers ?s) = (n, m)"
    by (cases "cm_create t q' a this (sv_consumers ?s)")
  let ?s1 = "basic_response (ch_conn ch) True i j
    (?s\<lparr>sv_consumers := m, sv_objects := (sv_objects ?s)[this := Some (ch\<lparr>ch_consumer := n\<rparr>)]\<rparr>)"
  have b1: "onProtobufMessage L u c (BasicConsumeRequest i j t q' a) b = Inr (b\<lparr>br_server := ?s1\<rparr>)"
    by (simp add: on_basicConsume_def on_channel_def k cn_select_channel_def cm_select_channel_def ch
        ch_basic_consume_def q' create)
  have ch1: "deref_channel this ?s1 = Inr (ch\<lparr>ch_consumer := n\<rparr>)"
    using deref_set [of this "?s\<lparr>sv_consumers := m\<rparr>"] deref_in_range [OF ch] by (simp add: basic_response_def send_def deref_channel_def)
  let ?m2 = "case n of None \<Rightarrow> m | Some d \<Rightarrow> cm_remove (cs_tag d) (cs_qname d) m"
  have keep: "cp \<in> set (subscribers q ?m2)" by (rule first_subscription_stays [OF cons create sub])
  obtain s2 where s2: "destroy_channel this ?s1 = Inr s2" by (simp add: destroy_channel_def ch1)
  have m2: "sv_consumers s2 = ?m2" and gone: "deref_channel this s2 = Inl Undefined"
    using s2 ch1 deref_in_range [OF ch1]
    by (auto simp: destroy_channel_def Let_def deref_channel_def basic_response_def send_def split: option.splits)
  let ?b2 = "b\<lparr>br_server := send (cn_conn k) (BasicCommonResponse i j True) s2,
    br_connections := um_put c (k\<lparr>cn_channels := um_erase j (cn_channels k)\<rparr>) (br_connections b)\<rparr>"
  have "onProtobufMessage L u c (CloseChannelRequest i j) (b\<lparr>br_server := ?s1\<rparr>) = Inr ?b2"
    by (simp add: on_closeChannel_def k cn_close_channel_def cm_close_channel_def s2) (simp add: basic_response_def)
  moreover have "consume_deliver x cp (br_server ?b2) = Inl Undefined" for x
    using gone deref_same [of "br_server ?b2" s2 this] by (simp add: consume_deliver_def consume_cb_def own send_def)
  moreover have "cp \<in> set (subscribers q (sv_consumers (br_server ?b2)))" using keep m2 by (simp add: send_def)
  ultimately show ?thesis using b1 by blast
qed

theorem second_subscription_dangles_witness:
  "\<exists>b b1 b2 cp. onProtobufMessage sample_libs (\<lambda>q. ''u'') 7 (BasicConsumeRequest ''r'' ''c'' ''t2'' ''q'' True) b = Inr b1 \<and>
    onProtobufMessage sample_libs (\<lambda>q. ''u'') 7 (CloseChannelRequest ''r'' ''c'') b1 = Inr b2 \<and>
    cp \<in> set (subscribers ''q'' (sv_consumers (br_server b2))) \<and> consume_deliver sample_message cp (br_server b2) = Inl Undefined"
proof -
  obtain b this where b: "sample_runs b sample_setup sample_host" and "subscribed b this" using sample_subscribed by blast
  then obtain cp where at: "channel_at 7 ''c'' b = Some this" and cp: "cs_callback cp = this"
    "cp \<in> set (subscribers ''q'' (sv_consumers (br_server b)))" by (auto simp: subscribed_def)
  have "server_rel sample_libs (\<lambda>db. db) 100 1 ''./data'' (br_server b) sample_host"
    using server_runs_rel [OF b sample_first] by (simp add: broker_rel_def)
  from declared_queues [OF this, of "''q''"] have "vh_exists_queue ''q'' (fst (sv_host (br_server b)))"
    using sample_host_facts(4) by simp
  from second_subscription_dangles [OF sample_first b at cp(2,1) this] show ?thesis by blast
qed

end
