(* ===== verification/Logger.thy ===== *)
theory Logger
  imports Sql
begin

text \<open>
  \<open>HareMQ/mqcommon/logger.hpp\<close>: the colours of the levels, the tag in front of each message, and the
  stream that writes a message to the terminal and, with the colours removed, to the log file.
\<close>

section \<open>Colours\<close>

datatype STATUES = INFO | DEBUG | WARNING | ERROR | REQUEST | FATAL

fun status_num :: "STATUES \<Rightarrow> int" where
  "status_num INFO = 0"
| "status_num DEBUG = 1"
| "status_num WARNING = 2"
| "status_num ERROR = 3"
| "status_num REQUEST = 4"
| "status_num FATAL = 5"

definition RESET :: string where "RESET = CHR 0x1B # ''[0m''"
definition RED :: string where "RED = CHR 0x1B # ''[1;31m''"
definition GREEN :: string where "GREEN = CHR 0x1B # ''[1;32m''"
definition YELLOW :: string where "YELLOW = CHR 0x1B # ''[1;33m''"
definition BLUE :: string where "BLUE = CHR 0x1B # ''[1;34m''"
definition MAGENTA :: string where "MAGENTA = CHR 0x1B # ''[1;35m''"
definition CYAN :: string where "CYAN = CHR 0x1B # ''[1;36m''"

definition level_nums :: "(string \<times> int) list" where
  "level_nums = [(''INFO'', 0), (''DEBUG'', 1), (''WARNING'', 2), (''ERROR'', 3), (''FATAL'', 5), (''REQUEST'', 4)]"

text \<open>\<open>m[level]\<close> makes a missing entry 0.\<close>

definition GetColor :: "string \<Rightarrow> string" where
  "GetColor level =
     (let n = (case map_of level_nums level of None \<Rightarrow> 0 | Some k \<Rightarrow> k) in
      if n = status_num INFO then BLUE
      else if n = status_num DEBUG then GREEN
      else if n = status_num WARNING then YELLOW
      else if n = status_num ERROR then MAGENTA
      else if n = status_num FATAL then RED
      else if n = status_num REQUEST then CYAN
      else RESET)"

section \<open>The two streams\<close>

fun strip_loop :: "bool \<Rightarrow> string \<Rightarrow> string" where
  "strip_loop escapeSeq [] = []"
| "strip_loop escapeSeq (ch # input) =
     (if ch = CHR 0x1B then strip_loop True input
      else if escapeSeq then (if ch = CHR ''m'' then strip_loop False input else strip_loop True input)
      else ch # strip_loop False input)"

definition stripColorCodes :: "string \<Rightarrow> string" where
  "stripColorCodes input = strip_loop False input"

record dual_stream =
  ds_cout :: string
  ds_file :: string

definition write_msg :: "string \<Rightarrow> dual_stream \<Rightarrow> dual_stream" where
  "write_msg msg d = d\<lparr>ds_cout := ds_cout d @ msg, ds_file := ds_file d @ stripColorCodes msg\<rparr>"

text \<open>\<open>std::endl\<close> goes to both streams.\<close>

definition write_endl :: "dual_stream \<Rightarrow> dual_stream" where
  "write_endl d = d\<lparr>ds_cout := ds_cout d @ [CHR 0x0A], ds_file := ds_file d @ [CHR 0x0A]\<rparr>"

definition log_message :: "string \<Rightarrow> string \<Rightarrow> int \<Rightarrow> string" where
  "log_message level file_name line =
     GetColor level @ (''['' @ level @ '']'') @ RESET @ ''['' @ file_name @ '']'' @ ''['' @ show_int line @ '']''"

definition Log :: "string \<Rightarrow> string \<Rightarrow> int \<Rightarrow> dual_stream \<Rightarrow> dual_stream" where
  "Log level file_name line d = write_msg (log_message level file_name line @ '' '') d"

section \<open>Opening the log\<close>

definition LOG_DIR :: path where
  "LOG_DIR = ''./log/''"

text \<open>
  The test of \<open>info.st_mode\<close>.  \<open>stat\<close> fills \<open>info\<close> only when it finds the directory and its result is not
  looked at; otherwise the mode is \<open>leftover\<close>, what the uninitialised structure happens to hold.
\<close>

definition log_dir_seen :: "bool \<Rightarrow> fs \<Rightarrow> bool" where
  "log_dir_seen leftover s = (if file_exists s LOG_DIR then dir_exists s (strip_slashes LOG_DIR) else leftover)"

definition log_file_name :: "string \<Rightarrow> int \<Rightarrow> path" where
  "log_file_name now pid = LOG_DIR @ now @ ''_'' @ show_int pid @ ''.log''"

text \<open>\<open>now\<close> is the time of the start as \<open>put_time\<close> prints it; \<open>None\<close> when the program exits.\<close>

definition DualStream :: "shell \<Rightarrow> bool \<Rightarrow> string \<Rightarrow> int \<Rightarrow> fs \<Rightarrow> (dual_stream \<times> fs) option" where
  "DualStream system leftover now pid s =
     (let s1 = (if log_dir_seen leftover s then s else snd (system (''mkdir '' @ LOG_DIR) s)) in
      case file_create s1 (log_file_name now pid) of
        (True, s2) \<Rightarrow> Some (\<lparr>ds_cout = [], ds_file = []\<rparr>, s2)
      | (False, s2) \<Rightarrow> None)"

section \<open>What programs say when they start\<close>

datatype log_item = Text string | Endl

fun put_item :: "log_item \<Rightarrow> dual_stream \<Rightarrow> dual_stream" where
  "put_item (Text msg) d = write_msg msg d"
| "put_item Endl d = write_endl d"

text \<open>\<open>LOG(level) << item << item ...\<close>\<close>

definition log_items :: "string \<Rightarrow> string \<Rightarrow> int \<Rightarrow> log_item list \<Rightarrow> dual_stream \<Rightarrow> dual_stream" where
  "log_items level file_name line items d = fold put_item items (Log level file_name line d)"

text \<open>
  The time as \<open>ctime\<close> prints it, with its line end, the name in the password file, if there is one, and
  the number of the process come from the platform.
\<close>

definition user_name :: "string option \<Rightarrow> string" where
  "user_name pw = (case pw of None \<Rightarrow> ''Unknown User'' | Some n \<Rightarrow> n)"

definition printServerInfo :: "string \<Rightarrow> string \<Rightarrow> string option \<Rightarrow> int \<Rightarrow> log_item list" where
  "printServerInfo listenAddr startTime pw pid =
     [Endl, Text ''------------------- Server Start --------------------'', Endl,
      Text ''IP Address and Port: '', Text listenAddr, Endl,
      Text ''Start Time: '', Text startTime,
      Text ''User: '', Text (user_name pw), Endl,
      Text ''Process ID: '', Text (show_int pid), Endl,
      Text ''-------------------------------------------------------'', Endl]"

definition printConnectionInfo :: "string \<Rightarrow> string \<Rightarrow> string \<Rightarrow> log_item list" where
  "printConnectionInfo connName localIp peerIp =
     [Endl, Text ''New Connection: '', Endl,
      Text ''Connection Name: '', Text connName, Endl,
      Text ''Local IP: '', Text localIp, Endl,
      Text ''Peer IP: '', Text peerIp, Endl]"

definition printClientInfo :: "string \<Rightarrow> string option \<Rightarrow> int \<Rightarrow> log_item list" where
  "printClientInfo startTime pw pid =
     [Endl, Text ''------------------- Client Start --------------------'', Endl,
      Text ''Start Time: '', Text startTime,
      Text ''User: '', Text (user_name pw), Endl,
      Text ''Process ID: '', Text (show_int pid), Endl,
      Text ''-------------------------------------------------------'', Endl]"

section \<open>Lemmas\<close>

text \<open>With its directory the log opens; without it all depends on what the structure held.\<close>

lemma strip_log_dir: "strip_slashes LOG_DIR = ''./log''"
  by (simp add: LOG_DIR_def strip_slashes_def)

lemma dir_part_append: "CHR ''/'' \<notin> set name \<Longrightarrow> dir_part (d @ CHR ''/'' # name) = strip_slashes (d @ ''/'')"
proof -
  assume "CHR ''/'' \<notin> set name"
  then have "dropWhile (\<lambda>c. c \<noteq> CHR ''/'') (rev name) = []" by (auto simp: dropWhile_eq_Nil_conv)
  then show ?thesis by (simp add: dir_part_def dropWhile_append)
qed

lemma show_int_slash: "CHR ''/'' \<notin> set (show_int n)"
proof -
  have "CHR ''/'' \<notin> set (show_nat k)" for k using digits_show_nat [of k] by (auto simp: digit_def)
  then show ?thesis by (simp add: show_int_def)
qed

lemma log_dir_part:
  assumes "CHR ''/'' \<notin> set now"
  shows "dir_part (log_file_name now pid) = ''./log''"
proof -
  have "CHR ''/'' \<notin> set (now @ ''_'' @ show_int pid @ ''.log'')" using assms show_int_slash [of pid] by simp
  from dir_part_append [OF this, of "''./log''"] show ?thesis
    by (simp add: log_file_name_def LOG_DIR_def strip_slashes_def)
qed

lemma log_opens:
  assumes "CHR ''/'' \<notin> set now" and "dir_exists s ''./log''"
    and "\<not> dir_exists s (strip_slashes (log_file_name now pid))"
  shows "DualStream system leftover now pid s =
    Some (\<lparr>ds_cout = [], ds_file = []\<rparr>, put_file (log_file_name now pid) (Some []) s)"
  using assms log_dir_part [OF assms(1), of pid]
  by (simp add: DualStream_def log_dir_seen_def strip_log_dir file_exists_def file_create_def) (simp add: LOG_DIR_def)

lemma log_dir_missed:
  assumes "CHR ''/'' \<notin> set now" and "\<not> file_exists s LOG_DIR"
  shows "DualStream system True now pid s = None"
proof -
  have "\<not> dir_exists s ''./log''" using assms(2) by (simp add: file_exists_def strip_log_dir LOG_DIR_def strip_slashes_def)
  then show ?thesis
    using assms log_dir_part [OF assms(1), of pid]
    by (simp add: DualStream_def log_dir_seen_def file_create_def)
qed

lemma strip_plain: "CHR 0x1B \<notin> set s \<Longrightarrow> strip_loop False s = s"
  by (induction s) auto

lemma strip_plain_append: "CHR 0x1B \<notin> set s \<Longrightarrow> strip_loop False (s @ t) = s @ strip_loop False t"
  by (induction s) auto

text \<open>An escape sequence ends at the first \<open>m\<close>.\<close>

lemma strip_sequence:
  "CHR ''m'' \<notin> set s \<Longrightarrow> strip_loop True (s @ CHR ''m'' # t) = strip_loop False t"
  by (induction s) auto

lemma strip_no_escape: "CHR 0x1B \<notin> set (strip_loop e s)"
  by (induction e s rule: strip_loop.induct) auto

definition colours :: "string set" where
  "colours = {RESET, RED, GREEN, YELLOW, BLUE, MAGENTA, CYAN}"

lemma strip_colour: "c \<in> colours \<Longrightarrow> strip_loop False (c @ t) = strip_loop False t"
  by (auto simp: colours_def RESET_def RED_def GREEN_def YELLOW_def BLUE_def MAGENTA_def CYAN_def)

lemma GetColor_colours: "GetColor level \<in> colours"
  by (simp add: GetColor_def Let_def colours_def)

lemma reset_colours: "RESET \<in> colours"
  by (simp add: colours_def)

lemma show_int_plain: "CHR 0x1B \<notin> set (show_int n)"
proof -
  have "CHR 0x1B \<notin> set (show_nat k)" for k using digits_show_nat [of k] by (auto simp: digit_def)
  then show ?thesis by (simp add: show_int_def)
qed

text \<open>Escape-free texts reach the file as they are.\<close>

fun item_text :: "log_item \<Rightarrow> string" where
  "item_text (Text msg) = msg"
| "item_text Endl = [CHR 0x0A]"

lemma put_items_file:
  "\<forall>i \<in> set items. CHR 0x1B \<notin> set (item_text i) \<Longrightarrow>
     ds_file (fold put_item items d) = ds_file d @ concat (map item_text items)"
proof (induction items arbitrary: d)
  case (Cons i items)
  then have "ds_file (put_item i d) = ds_file d @ item_text i"
    by (cases i) (simp_all add: write_msg_def write_endl_def stripColorCodes_def strip_plain)
  with Cons show ?case by simp
qed simp

lemma server_info_logged:
  assumes "CHR 0x1B \<notin> set addr" and "CHR 0x1B \<notin> set time" and "CHR 0x1B \<notin> set (user_name pw)"
  shows "ds_file (log_items level file_name line (printServerInfo addr time pw pid) d) =
    ds_file (Log level file_name line d) @ concat (map item_text (printServerInfo addr time pw pid))"
  unfolding log_items_def using assms show_int_plain [of pid]
  by (intro put_items_file) (simp add: printServerInfo_def)

section \<open>Property\<close>

text \<open>
  The log file has the text without the colours.  A stretch of text free of escapes passes
  unchanged, the colour codes of the program disappear, nothing written to the file holds an escape
  character, stripping twice is stripping once, and the tag of a message is written to the file as
  the bare level, file name and line.
\<close>

theorem log_file_is_plain:
  assumes "CHR 0x1B \<notin> set level" and "CHR 0x1B \<notin> set file_name"
  shows "CHR 0x1B \<notin> set (stripColorCodes text) \<and>
    stripColorCodes (stripColorCodes text) = stripColorCodes text \<and>
    (c \<in> colours \<longrightarrow> stripColorCodes (level @ c @ text) = level @ stripColorCodes text) \<and>
    ds_file (Log level file_name line d) =
      ds_file d @ ''['' @ level @ '']['' @ file_name @ '']['' @ show_int line @ ''] ''"
proof (intro conjI impI)
  show 1: "CHR 0x1B \<notin> set (stripColorCodes text)" by (simp add: stripColorCodes_def strip_no_escape)
  then show "stripColorCodes (stripColorCodes text) = stripColorCodes text"
    by (simp add: stripColorCodes_def strip_plain)
  show "stripColorCodes (level @ c @ text) = level @ stripColorCodes text" if "c \<in> colours"
    using that assms by (simp add: stripColorCodes_def strip_plain_append strip_colour)
  show "ds_file (Log level file_name line d) =
      ds_file d @ ''['' @ level @ '']['' @ file_name @ '']['' @ show_int line @ ''] ''"
    using assms show_int_plain [of line]
    by (simp add: Log_def write_msg_def log_message_def stripColorCodes_def strip_colour [OF GetColor_colours]
        strip_plain_append strip_colour [OF reset_colours])
qed

theorem log_file_is_plain_witness:
  "ds_file (Log ''ERROR'' ''a.cc'' 7 \<lparr>ds_cout = [], ds_file = []\<rparr>) = ''[ERROR][a.cc][7] ''"
proof -
  have seven: "show_int 7 = ''7''" by code_simp
  show ?thesis
    using log_file_is_plain [of "''ERROR''" "''a.cc''" "''x''" RED 7 "\<lparr>ds_cout = [], ds_file = []\<rparr>"]
    by (simp add: seven)
qed

end
