(* ===== verification/Uuid.thy ===== *)
theory Uuid
  imports MQ_Prelude
begin

unbundle bit_operations_syntax

text \<open>
  \<open>uuid_helper\<close> of \<open>HareMQ/mqcommon/helper.hpp\<close>.  The random bytes are a parameter \<open>draws\<close>, the
  static counter is state.
\<close>

definition hex_digit :: "nat \<Rightarrow> char" where
  "hex_digit n = ''0123456789abcdef'' ! n"

definition hex2 :: "8 word \<Rightarrow> string" where
  "hex2 w = [hex_digit (unat w div 16), hex_digit (unat w mod 16)]"

text \<open>The inner loop writes all eight bytes of the counter, in every round of the outer one.\<close>

definition counter_text :: "64 word \<Rightarrow> string" where
  "counter_text num =
     concat (map (\<lambda>i. hex2 (ucast (drop_bit (i * 8) num AND 0xff)) @ (if i = 6 then ''-'' else '''')) [7, 6, 5, 4, 3, 2, 1, 0])"

definition uuid_round :: "nat \<Rightarrow> 8 word \<Rightarrow> 64 word \<Rightarrow> string" where
  "uuid_round i draw num =
     hex2 draw @ (if i = 3 \<or> i = 5 \<or> i = 7 then ''-'' else '''') @ counter_text num"

definition uuid :: "(nat \<Rightarrow> 8 word) \<Rightarrow> 64 word \<Rightarrow> string \<times> 64 word" where
  "uuid draws seq = (concat (map (\<lambda>i. uuid_round i (draws i) (seq + word_of_nat i)) [0..<8]), seq + 8)"

section \<open>Distinct identifiers\<close>

lemma length_hex2 [simp]: "length (hex2 w) = 2"
  by (simp add: hex2_def)

lemma hex_digit_inj: "a < 16 \<Longrightarrow> b < 16 \<Longrightarrow> hex_digit a = hex_digit b \<Longrightarrow> a = b"
proof -
  have "distinct ''0123456789abcdef''" by simp
  then show "a < 16 \<Longrightarrow> b < 16 \<Longrightarrow> hex_digit a = hex_digit b \<Longrightarrow> a = b"
    unfolding hex_digit_def by (subst (asm) nth_eq_iff_index_eq) simp_all
qed

lemma hex2_inj: "hex2 a = hex2 b \<Longrightarrow> a = b"
proof -
  assume "hex2 a = hex2 b"
  moreover have "unat w div 16 < 16 \<and> unat w mod 16 < 16" for w :: "8 word"
    using unsigned_less [of w, where 'a = nat] by auto
  ultimately have "unat a div 16 = unat b div 16" and "unat a mod 16 = unat b mod 16"
    by (auto simp: hex2_def intro: hex_digit_inj)
  then have "unat a = unat b" by (metis div_mult_mod_eq)
  then show "a = b" by (rule word_unat_eq_iff [THEN iffD2])
qed

lemma counter_text_unfold:
  "counter_text num = hex2 (ucast (drop_bit 56 num AND 0xff)) @ hex2 (ucast (drop_bit 48 num AND 0xff)) @ ''-'' @
     hex2 (ucast (drop_bit 40 num AND 0xff)) @ hex2 (ucast (drop_bit 32 num AND 0xff)) @
     hex2 (ucast (drop_bit 24 num AND 0xff)) @ hex2 (ucast (drop_bit 16 num AND 0xff)) @
     hex2 (ucast (drop_bit 8 num AND 0xff)) @ hex2 (ucast (num AND 0xff))"
  by (simp add: counter_text_def)

lemma length_counter_text [simp]: "length (counter_text num) = 17"
  by (simp add: counter_text_unfold)

lemma byte_of:
  "ucast (drop_bit k num AND 0xff :: 64 word) = (ucast (drop_bit k num) :: 8 word)"
proof -
  have mask: "(0xff :: 64 word) = mask 8" by (simp add: mask_eq_exp_minus_1)
  show ?thesis unfolding mask by (rule bit_word_eqI) (auto simp: bit_simps simp del: mask_numeral)
qed

lemma bytes_inj:
  fixes a b :: "64 word"
  assumes "\<And>i. i < 8 \<Longrightarrow> (ucast (drop_bit (i * 8) a) :: 8 word) = ucast (drop_bit (i * 8) b)"
  shows "a = b"
proof (rule bit_word_eqI)
  fix n assume n: "n < LENGTH(64)"
  have "bit (ucast (drop_bit (n div 8 * 8) x) :: 8 word) (n mod 8) = bit x n" for x :: "64 word"
    by (simp add: bit_simps)
  moreover have "n div 8 < 8" using n by simp
  ultimately show "bit a n \<longleftrightarrow> bit b n" using assms [of "n div 8"] by metis
qed

lemma counter_text_inj: "counter_text a = counter_text b \<Longrightarrow> a = b"
proof -
  assume eq: "counter_text a = counter_text b"
  have "(ucast (drop_bit (i * 8) a) :: 8 word) = ucast (drop_bit (i * 8) b)" if "i < 8" for i
  proof -
    have "i \<in> {0, 1, 2, 3, 4, 5, 6, 7}" using that by auto
    then show ?thesis using eq by (auto simp: counter_text_unfold byte_of [of 0, simplified] byte_of dest!: hex2_inj)
  qed
  then show ?thesis by (rule bytes_inj)
qed

lemma uuid_first_round:
  "\<exists>rest. fst (uuid draws seq) = hex2 (draws 0) @ counter_text seq @ rest"
  by (simp add: uuid_def uuid_round_def upt_conv_Cons)

text \<open>
  C34: Identifiers are unique.  The text of an identifier determines the value the counter had, so
  two calls of the generator give different identifiers whatever the random numbers are, until the
  64-bit counter, which each call moves by eight, wraps around.
\<close>

theorem uuids_are_unique:
  assumes "fst (uuid draws seq) = fst (uuid draws' seq')"
  shows "seq = seq' \<and> snd (uuid draws seq) = seq + 8"
proof -
  obtain r r' where "hex2 (draws 0) @ counter_text seq @ r = hex2 (draws' 0) @ counter_text seq' @ r'"
    using assms uuid_first_round by metis
  then have "counter_text seq = counter_text seq'" by simp
  then show ?thesis using counter_text_inj by (simp add: uuid_def)
qed

text \<open>An identifier has 155 characters.\<close>

lemma uuid_length: "length (fst (uuid draws seq)) = 155"
  by (simp add: uuid_def uuid_round_def upt_conv_Cons)

theorem uuids_are_unique_witness:
  "fst (uuid (\<lambda>i. 7) 1) \<noteq> fst (uuid (\<lambda>i. 7) (snd (uuid (\<lambda>i. 7) 1)))"
proof
  assume "fst (uuid (\<lambda>i. 7) 1) = fst (uuid (\<lambda>i. 7) (snd (uuid (\<lambda>i. 7) 1)))"
  from uuids_are_unique [OF this] show False by (simp add: uuid_def)
qed

end
