(* ===== verification/Client_Channel.thy ===== *)
theory Client_Channel
  imports Protocol Consumer
begin

text \<open>
  \<open>HareMQ/mqclient/channel.hpp\<close> and \<open>consumer.hpp\<close>: a channel as the client sees it.  Each method
  builds a request, sends it and waits until the response with the request's identifier is in the
  channel's map; a method is modelled up to the wait, with what it does afterwards as a continuation.
\<close>

section \<open>Channels\<close>

record 'cb client_channel =
  cc_cid :: string
  cc_conn :: "nat option" \<comment> \<open>a null pointer when \<open>None\<close>\<close>
  cc_consumer :: "'cb consumer option"
  cc_basic_resp :: "(string, response) umap"
  cc_basic_query_resp :: "(string, response) umap"

text \<open>What a method returns.\<close>

datatype ret = Void | Bool bool

datatype 'cb call =
  Returned ret
| Await request "bool \<Rightarrow> 'cb client_channel \<Rightarrow> ret \<times> 'cb client_channel"
    \<comment> \<open>\<open>send\<close>, then \<open>wait_response\<close>, then the rest, given the \<open>ok\<close> of the response\<close>
| AwaitQuery request \<comment> \<open>\<open>send\<close>, then \<open>wait_query_response\<close>\<close>

definition client_channel_new :: "nat option \<Rightarrow> string \<Rightarrow> 'cb client_channel" where
  "client_channel_new conn cid =
     \<lparr>cc_cid = cid, cc_conn = conn, cc_consumer = None, cc_basic_resp = [], cc_basic_query_resp = []\<rparr>"

definition client_consumer :: "string \<Rightarrow> string \<Rightarrow> bool \<Rightarrow> 'cb \<Rightarrow> 'cb consumer" where
  "client_consumer ctag queue_name ack_flag cb =
     \<lparr>cs_tag = ctag, cs_qname = queue_name, cs_auto_ack = ack_flag, cs_callback = cb\<rparr>"

section \<open>Methods\<close>

text \<open>\<open>rid\<close> is the identifier \<open>uuid_helper\<close> returns.\<close>

definition open_server_channel :: "string \<Rightarrow> 'cb client_channel \<Rightarrow> 'cb call" where
  "open_server_channel rid ch = Await (OpenChannelRequest rid (cc_cid ch)) (\<lambda>ok ch. (Bool ok, ch))"

definition close_server_channel :: "string \<Rightarrow> 'cb client_channel \<Rightarrow> 'cb call" where
  "close_server_channel rid ch = Await (CloseChannelRequest rid (cc_cid ch)) (\<lambda>ok ch. (Void, ch))"

definition cl_declare_exchange ::
  "string \<Rightarrow> ExchangeType \<Rightarrow> bool \<Rightarrow> bool \<Rightarrow> arg_map \<Rightarrow> string \<Rightarrow> 'cb client_channel \<Rightarrow> 'cb call" where
  "cl_declare_exchange name type durable auto_delete args rid ch =
     Await (DeclareExchangeRequest rid (cc_cid ch) name type durable auto_delete (ConvertStdMapToProtoMap args))
       (\<lambda>ok ch. (Bool ok, ch))"

definition cl_delete_exchange :: "string \<Rightarrow> string \<Rightarrow> 'cb client_channel \<Rightarrow> 'cb call" where
  "cl_delete_exchange name rid ch = Await (DeleteExchangeRequest rid (cc_cid ch) name) (\<lambda>ok ch. (Void, ch))"

definition cl_declare_queue ::
  "string \<Rightarrow> bool \<Rightarrow> bool \<Rightarrow> bool \<Rightarrow> arg_map \<Rightarrow> string \<Rightarrow> 'cb client_channel \<Rightarrow> 'cb call" where
  "cl_declare_queue qname qdurable qexclusive qauto_delete qargs rid ch =
     Await (DeclareQueueRequest rid (cc_cid ch) qname qexclusive qdurable qauto_delete (ConvertStdMapToProtoMap qargs))
       (\<lambda>ok ch. (Bool ok, ch))"

definition cl_delete_queue :: "string \<Rightarrow> string \<Rightarrow> 'cb client_channel \<Rightarrow> 'cb call" where
  "cl_delete_queue name rid ch = Await (DeleteQueueRequest rid (cc_cid ch) name) (\<lambda>ok ch. (Void, ch))"

definition cl_bind :: "string \<Rightarrow> string \<Rightarrow> string \<Rightarrow> string \<Rightarrow> 'cb client_channel \<Rightarrow> 'cb call" where
  "cl_bind ename qname key rid ch = Await (BindRequest rid (cc_cid ch) ename qname key) (\<lambda>ok ch. (Bool ok, ch))"

definition cl_unbind :: "string \<Rightarrow> string \<Rightarrow> string \<Rightarrow> 'cb client_channel \<Rightarrow> 'cb call" where
  "cl_unbind ename qname rid ch = Await (UnbindRequest rid (cc_cid ch) ename qname) (\<lambda>ok ch. (Void, ch))"

definition cl_basic_publish ::
  "string \<Rightarrow> BasicProperties option \<Rightarrow> string \<Rightarrow> string \<Rightarrow> 'cb client_channel \<Rightarrow> 'cb call" where
  "cl_basic_publish ename bp body rid ch =
     (let props = (case bp of
           None \<Rightarrow> None
         | Some p \<Rightarrow> Some (default_properties\<lparr>bp_id := bp_id p, bp_delivery_mode := bp_delivery_mode p,
             bp_routing_key := bp_routing_key p\<rparr>))
      in Await (BasicPublishRequest rid (cc_cid ch) ename body props) (\<lambda>ok ch. (Void, ch)))"

definition cl_basic_ack :: "string \<Rightarrow> string \<Rightarrow> 'cb client_channel \<Rightarrow> 'cb call" where
  "cl_basic_ack msgid rid ch =
     (case cc_consumer ch of
        None \<Rightarrow> Returned Void
      | Some c \<Rightarrow> Await (BasicAckRequest rid (cc_cid ch) (cs_qname c) msgid) (\<lambda>ok ch. (Void, ch)))"

definition cl_basic_consume :: "string \<Rightarrow> string \<Rightarrow> bool \<Rightarrow> 'cb \<Rightarrow> string \<Rightarrow> 'cb client_channel \<Rightarrow> 'cb call" where
  "cl_basic_consume consumer_tag queue_name auto_ack cb rid ch =
     (if cc_consumer ch \<noteq> None then Returned (Bool False)
      else Await (BasicConsumeRequest rid (cc_cid ch) consumer_tag queue_name auto_ack)
        (\<lambda>ok ch. if ok = False then (Bool False, ch)
           else (Bool True, ch\<lparr>cc_consumer := Some (client_consumer consumer_tag queue_name auto_ack cb)\<rparr>)))"

definition cl_basic_cancel :: "string \<Rightarrow> 'cb client_channel \<Rightarrow> 'cb call" where
  "cl_basic_cancel rid ch =
     (case cc_consumer ch of
        None \<Rightarrow> Returned Void
      | Some c \<Rightarrow> Await (BasicCancelRequest rid (cc_cid ch) (cs_tag c) (cs_qname c))
          (\<lambda>ok ch. (Void, ch\<lparr>cc_consumer := None\<rparr>)))"

definition cl_basic_query :: "string \<Rightarrow> 'cb client_channel \<Rightarrow> 'cb call" where
  "cl_basic_query rid ch = AwaitQuery (BasicQueryRequest rid (cc_cid ch))"

section \<open>Responses\<close>

definition push_basic_response :: "response \<Rightarrow> 'cb client_channel \<Rightarrow> 'cb client_channel" where
  "push_basic_response resp ch = ch\<lparr>cc_basic_resp := um_insert (rs_rid resp) resp (cc_basic_resp ch)\<rparr>"

definition push_query_response :: "response \<Rightarrow> 'cb client_channel \<Rightarrow> 'cb client_channel" where
  "push_query_response resp ch = ch\<lparr>cc_basic_query_resp := um_insert (rs_rid resp) resp (cc_basic_query_resp ch)\<rparr>"

text \<open>The waits; \<open>None\<close> while the response is not there.\<close>

definition wait_response :: "string \<Rightarrow> 'cb client_channel \<Rightarrow> (response \<times> 'cb client_channel) option" where
  "wait_response rid ch =
     (case map_of (cc_basic_resp ch) rid of
        None \<Rightarrow> None
      | Some bresp \<Rightarrow> Some (bresp, ch\<lparr>cc_basic_resp := um_erase rid (cc_basic_resp ch)\<rparr>))"

definition wait_query_response :: "string \<Rightarrow> 'cb client_channel \<Rightarrow> (response \<times> 'cb client_channel) option" where
  "wait_query_response rid ch =
     (case map_of (cc_basic_query_resp ch) rid of
        None \<Rightarrow> None
      | Some bresp \<Rightarrow> Some (bresp, ch\<lparr>cc_basic_query_resp := um_erase rid (cc_basic_query_resp ch)\<rparr>))"

text \<open>The rest of a method once its response is there.\<close>

fun resume :: "'cb call \<Rightarrow> 'cb client_channel \<Rightarrow> (ret \<times> 'cb client_channel) option" where
  "resume (Returned r) ch = Some (r, ch)"
| "resume (Await req k) ch =
     (case wait_response (rq_rid req) ch of None \<Rightarrow> None | Some (resp, ch') \<Rightarrow> Some (k (rs_ok resp) ch'))"
| "resume (AwaitQuery req) ch =
     (case wait_query_response (rq_rid req) ch of None \<Rightarrow> None | Some (resp, ch') \<Rightarrow> Some (Void, ch'))"

text \<open>
  A message pushed by the server: the callback to call with its arguments, if it is for the channel's
  subscription.  \<open>mutable_properties\<close> makes the default ones when there are none.
\<close>

definition cl_consume ::
  "response \<Rightarrow> 'cb client_channel \<Rightarrow> ('cb \<times> string \<times> BasicProperties \<times> string) option" where
  "cl_consume resp ch =
     (case cc_consumer ch of
        None \<Rightarrow> None
      | Some c \<Rightarrow>
          if cs_tag c \<noteq> rs_consumer_tag resp then None
          else Some (cs_callback c, rs_consumer_tag resp,
            (case rs_properties resp of None \<Rightarrow> default_properties | Some p \<Rightarrow> p), rs_body resp))"

section \<open>The manager of channels\<close>

definition cm_remove_channel :: "string \<Rightarrow> (string, nat) umap \<Rightarrow> (string, nat) umap" where
  "cm_remove_channel cid channels = um_erase cid channels"

definition cl_select_channel :: "string \<Rightarrow> (string, nat) umap \<Rightarrow> nat option" where
  "cl_select_channel cid channels = map_of channels cid"

section \<open>All methods\<close>

datatype 'cb api =
  OpOpen
| OpClose
| OpDeclareExchange string ExchangeType bool bool arg_map
| OpDeleteExchange string
| OpDeclareQueue string bool bool bool arg_map
| OpDeleteQueue string
| OpBind string string string
| OpUnbind string string
| OpPublish string "BasicProperties option" string
| OpAck string
| OpConsume string string bool 'cb
| OpCancel
| OpQuery

fun start_call :: "'cb api \<Rightarrow> string \<Rightarrow> 'cb client_channel \<Rightarrow> 'cb call" where
  "start_call OpOpen = open_server_channel"
| "start_call OpClose = close_server_channel"
| "start_call (OpDeclareExchange n t d a args) = cl_declare_exchange n t d a args"
| "start_call (OpDeleteExchange n) = cl_delete_exchange n"
| "start_call (OpDeclareQueue n d x a args) = cl_declare_queue n d x a args"
| "start_call (OpDeleteQueue n) = cl_delete_queue n"
| "start_call (OpBind e q k) = cl_bind e q k"
| "start_call (OpUnbind e q) = cl_unbind e q"
| "start_call (OpPublish e bp body) = cl_basic_publish e bp body"
| "start_call (OpAck i) = cl_basic_ack i"
| "start_call (OpConsume t q a cb) = cl_basic_consume t q a cb"
| "start_call OpCancel = cl_basic_cancel"
| "start_call OpQuery = cl_basic_query"

lemmas method_defs = open_server_channel_def close_server_channel_def cl_declare_exchange_def cl_delete_exchange_def
  cl_declare_queue_def cl_delete_queue_def cl_bind_def cl_unbind_def cl_basic_publish_def cl_basic_ack_def
  cl_basic_consume_def cl_basic_cancel_def cl_basic_query_def

end
