(* ===== verification/Client_Connection.thy ===== *)
theory Client_Connection
  imports Client_Channel Thread_Pool
begin

text \<open>
  \<open>HareMQ/mqclient/connection.hpp\<close> and \<open>async_worker.hpp\<close>: the client's connection, its loop thread
  that receives responses, the worker thread that runs callbacks, and any number of threads that
  call methods of channels.  Each step of one of these threads is an event.
\<close>

section \<open>State\<close>

text \<open>
  Channels are shared objects; a reference is an index into \<open>ct_objects\<close>.  The calls under way are kept
  by the identifier of their request.  The last three members are a log: what was sent, which calls
  returned what, which callbacks were called with what.
\<close>

record 'cb client =
  ct_latch :: int
  ct_conn :: "nat option"
  ct_connecting :: "nat option" \<comment> \<open>the loop thread is between the statements of \<open>onConnection\<close>\<close>
  ct_channels :: "(string, nat) umap"
  ct_objects :: "'cb client_channel list"
  ct_pool :: "(nat option \<times> response) thread_pool"
  ct_in_callback :: bool
  ct_shutdown :: bool
  ct_calls :: "(string, nat \<times> 'cb api \<times> 'cb call) umap"
  ct_sent :: "request list"
  ct_done :: "(string \<times> nat \<times> 'cb api \<times> ret) list"
  ct_handled :: "('cb \<times> string \<times> BasicProperties \<times> string) list"

text \<open>The constructor, up to its wait for the latch.\<close>

definition client_new :: "'cb client" where
  "client_new = \<lparr>ct_latch = 1, ct_conn = None, ct_connecting = None, ct_channels = [], ct_objects = [],
     ct_pool = thread_pool_new 1, ct_in_callback = False, ct_shutdown = False, ct_calls = [], ct_sent = [],
     ct_done = [], ct_handled = []\<rparr>"

section \<open>The loop thread\<close>

text \<open>The two statements of \<open>onConnection\<close> that change something.\<close>

definition onConnection_count :: "nat \<Rightarrow> 'cb client \<Rightarrow> 'cb client" where
  "onConnection_count conn c = c\<lparr>ct_latch := ct_latch c - 1, ct_connecting := Some conn\<rparr>"

definition onConnection_assign :: "'cb client \<Rightarrow> 'cb client" where
  "onConnection_assign c = c\<lparr>ct_conn := ct_connecting c, ct_connecting := None\<rparr>"

definition commonResponse :: "response \<Rightarrow> 'cb client \<Rightarrow> 'cb client" where
  "commonResponse message c =
     (case cl_select_channel (rs_cid message) (ct_channels c) of
        None \<Rightarrow> c
      | Some a \<Rightarrow> c\<lparr>ct_objects := (ct_objects c)[a := push_basic_response message (ct_objects c ! a)]\<rparr>)"

definition consumeResponse :: "response \<Rightarrow> 'cb client \<Rightarrow> 'cb client" where
  "consumeResponse message c =
     (let ch = cl_select_channel (rs_cid message) (ct_channels c)
      in c\<lparr>ct_pool := push_task 0 (ch, message) (settle (ct_pool c))\<rparr>)"

definition queryRespone :: "response \<Rightarrow> 'cb client \<Rightarrow> 'cb client" where
  "queryRespone message c =
     (case cl_select_channel (rs_cid message) (ct_channels c) of
        None \<Rightarrow> c
      | Some a \<Rightarrow> c\<lparr>ct_objects := (ct_objects c)[a := push_query_response message (ct_objects c ! a)]\<rparr>)"

definition client_onUnknownMessage :: "'cb client \<Rightarrow> 'cb client" where
  "client_onUnknownMessage c = c\<lparr>ct_shutdown := True\<rparr>"

text \<open>The callbacks the constructor registers.\<close>

fun client_dispatch :: "response \<Rightarrow> 'cb client \<Rightarrow> 'cb client" where
  "client_dispatch (BasicCommonResponse rid cid ok) c = commonResponse (BasicCommonResponse rid cid ok) c"
| "client_dispatch (BasicConsumeResponse cid tag body bp) c = consumeResponse (BasicConsumeResponse cid tag body bp) c"
| "client_dispatch (BasicQueryResponse rid cid body) c = queryRespone (BasicQueryResponse rid cid body) c"

section \<open>The worker thread\<close>

text \<open>
  The task \<open>consumeResponse\<close> makes; calling through a null pointer is undefined.  The thread is in the
  callback until it returns.
\<close>

definition run_consume :: "nat option \<times> response \<Rightarrow> 'cb client \<Rightarrow> 'cb client result" where
  "run_consume t c =
     (case fst t of
        None \<Rightarrow> Inl Undefined
      | Some a \<Rightarrow>
          case cl_consume (snd t) (ct_objects c ! a) of
            None \<Rightarrow> Inr c
          | Some h \<Rightarrow> Inr (c\<lparr>ct_handled := ct_handled c @ [h], ct_in_callback := True\<rparr>))"

definition client_worker :: "'cb client \<Rightarrow> 'cb client result" where
  "client_worker c =
     (case thread_step 0 (ct_pool c) of
        None \<Rightarrow> Inr c
      | Some (did, p) \<Rightarrow> (case did of [] \<Rightarrow> Inr (c\<lparr>ct_pool := p\<rparr>) | t # ts \<Rightarrow> run_consume t (c\<lparr>ct_pool := p\<rparr>)))"

section \<open>Calls\<close>

definition begin_call :: "nat \<Rightarrow> 'cb api \<Rightarrow> string \<Rightarrow> 'cb client \<Rightarrow> 'cb client result" where
  "begin_call a op rid c =
     (let ch = ct_objects c ! a; call = start_call op rid ch in
      case call of
        Returned r \<Rightarrow> Inr (c\<lparr>ct_done := ct_done c @ [(rid, a, op, r)]\<rparr>)
      | Await req k \<Rightarrow>
          if cc_conn ch = None then Inl Undefined
          else Inr (c\<lparr>ct_sent := ct_sent c @ [req], ct_calls := um_insert rid (a, op, call) (ct_calls c)\<rparr>)
      | AwaitQuery req \<Rightarrow>
          if cc_conn ch = None then Inl Undefined
          else Inr (c\<lparr>ct_sent := ct_sent c @ [req], ct_calls := um_insert rid (a, op, call) (ct_calls c)\<rparr>))"

text \<open>\<open>closeChannel\<close> removes the channel when its call has returned.\<close>

definition finish_call :: "string \<Rightarrow> 'cb client \<Rightarrow> 'cb client" where
  "finish_call rid c =
     (case map_of (ct_calls c) rid of
        None \<Rightarrow> c
      | Some (a, op, call) \<Rightarrow>
          case resume call (ct_objects c ! a) of
            None \<Rightarrow> c
          | Some (r, ch) \<Rightarrow>
              c\<lparr>ct_objects := (ct_objects c)[a := ch], ct_calls := um_erase rid (ct_calls c),
                ct_done := ct_done c @ [(rid, a, op, r)],
                ct_channels := (if op = OpClose then cm_remove_channel (cc_cid ch) (ct_channels c) else ct_channels c)\<rparr>)"

definition create_channel :: "string \<Rightarrow> 'cb client \<Rightarrow> nat \<times> 'cb client" where
  "create_channel cid c =
     (let a = length (ct_objects c)
      in (a, c\<lparr>ct_objects := ct_objects c @ [client_channel_new (ct_conn c) cid],
               ct_channels := um_insert cid a (ct_channels c)\<rparr>))"

definition openChannel :: "string \<Rightarrow> string \<Rightarrow> 'cb client \<Rightarrow> 'cb client result" where
  "openChannel cid rid c = (case create_channel cid c of (a, c1) \<Rightarrow> begin_call a OpOpen rid c1)"

section \<open>Events\<close>

datatype 'cb client_event =
  LoopCounts nat
| LoopAssigns
| Receive response
| ReceiveUnknown
| WorkerMoves
| CallbackReturns
| OpenChannel string string \<comment> \<open>the channel's identifier and the request's\<close>
| Begin nat "'cb api" string
| Finish string

definition fresh_id :: "string \<Rightarrow> 'cb client \<Rightarrow> bool" where
  "fresh_id rid c \<longleftrightarrow> rid \<notin> um_keys (ct_calls c) \<and> rid \<notin> fst ` set (ct_done c)"

text \<open>
  When a thread can make the step: the loop thread is not in a callback, the worker has returned from
  its callback, the constructor has returned, identifiers are new, the response has arrived.
\<close>

fun enabled :: "'cb client_event \<Rightarrow> 'cb client \<Rightarrow> bool" where
  "enabled (LoopCounts conn) c \<longleftrightarrow> ct_connecting c = None"
| "enabled LoopAssigns c \<longleftrightarrow> ct_connecting c \<noteq> None"
| "enabled (Receive resp) c \<longleftrightarrow> ct_connecting c = None"
| "enabled ReceiveUnknown c \<longleftrightarrow> ct_connecting c = None"
| "enabled WorkerMoves c \<longleftrightarrow> \<not> ct_in_callback c \<and> thread_step 0 (ct_pool c) \<noteq> None"
| "enabled CallbackReturns c \<longleftrightarrow> ct_in_callback c"
| "enabled (OpenChannel cid rid) c \<longleftrightarrow> ct_latch c \<le> 0 \<and> fresh_id rid c \<and>
     list_all (\<lambda>ch. cc_cid ch \<noteq> cid) (ct_objects c)"
| "enabled (Begin a op rid) c \<longleftrightarrow> a < length (ct_objects c) \<and> fresh_id rid c \<and> op \<noteq> OpOpen"
| "enabled (Finish rid) c \<longleftrightarrow>
     (case map_of (ct_calls c) rid of
        None \<Rightarrow> False
      | Some (a, op, call) \<Rightarrow> resume call (ct_objects c ! a) \<noteq> None)"

fun client_step :: "'cb client_event \<Rightarrow> 'cb client \<Rightarrow> 'cb client result" where
  "client_step (LoopCounts conn) c = Inr (onConnection_count conn c)"
| "client_step LoopAssigns c = Inr (onConnection_assign c)"
| "client_step (Receive resp) c = Inr (client_dispatch resp c)"
| "client_step ReceiveUnknown c = Inr (client_onUnknownMessage c)"
| "client_step WorkerMoves c = client_worker c"
| "client_step CallbackReturns c = Inr (c\<lparr>ct_in_callback := False\<rparr>)"
| "client_step (OpenChannel cid rid) c = openChannel cid rid c"
| "client_step (Begin a op rid) c = begin_call a op rid c"
| "client_step (Finish rid) c = Inr (finish_call rid c)"

fun received :: "'cb client_event \<Rightarrow> response list" where
  "received (Receive resp) = [resp]"
| "received e = []"

text \<open>The clients reached from a new one, with the responses received.\<close>

inductive client_runs :: "'cb client \<Rightarrow> response list \<Rightarrow> bool" where
  new: "client_runs client_new []"
| step: "\<lbrakk>client_runs c rs; enabled e c; client_step e c = Inr c'\<rbrakk> \<Longrightarrow> client_runs c' (rs @ received e)"

end
