(* ===== verification/Client_Runs.thy ===== *)
theory Client_Runs
  imports Client_Connection
begin

text \<open>
  The client over time: an invariant of the states it reaches over any interleaving of its threads and
  of arriving responses, what each call returns, and the ways the threads get in each other's way.
\<close>

section \<open>Calls\<close>

text \<open>What a method returns for the \<open>ok\<close> of its response, and what it returns without asking.\<close>

fun answer :: "'cb api \<Rightarrow> bool \<Rightarrow> ret" where
  "answer OpOpen ok = Bool ok"
| "answer (OpDeclareExchange n t d a args) ok = Bool ok"
| "answer (OpDeclareQueue n d x a args) ok = Bool ok"
| "answer (OpBind e q k) ok = Bool ok"
| "answer (OpConsume t q a cb) ok = Bool ok"
| "answer op ok = Void"

fun declined :: "'cb api \<Rightarrow> ret" where
  "declined (OpConsume t q a cb) = Bool False"
| "declined op = Void"

definition same_line :: "'cb client_channel \<Rightarrow> 'cb client_channel \<Rightarrow> bool" where
  "same_line ch ch' \<longleftrightarrow> cc_cid ch' = cc_cid ch \<and> cc_conn ch' = cc_conn ch \<and>
     cc_basic_resp ch' = cc_basic_resp ch \<and> cc_basic_query_resp ch' = cc_basic_query_resp ch"

lemma start_call_Returned: "start_call op rid ch = Returned r \<Longrightarrow> r = declined op"
  by (cases op) (auto simp: method_defs Let_def split: option.splits if_splits)

lemma start_call_Await:
  assumes "start_call op rid ch = Await req k"
  shows "rq_rid req = rid" and "rq_cid req = cc_cid ch" and "fst (k ok ch') = answer op ok"
    and "same_line ch' (snd (k ok ch'))"
  using assms by (cases op; auto simp: method_defs Let_def same_line_def split: option.splits if_splits)+

lemma start_call_AwaitQuery:
  "start_call op rid ch = AwaitQuery req \<Longrightarrow> op = OpQuery \<and> req = BasicQueryRequest rid (cc_cid ch)"
  by (cases op) (auto simp: method_defs Let_def split: option.splits if_splits)

lemma resume_line:
  assumes "resume call ch = Some (r, ch')" and "call = start_call op rid ch0"
  shows "cc_cid ch' = cc_cid ch \<and> cc_conn ch' = cc_conn ch \<and>
    (\<forall>i resp. map_of (cc_basic_resp ch') i = Some resp \<longrightarrow> map_of (cc_basic_resp ch) i = Some resp) \<and>
    (\<forall>i resp. map_of (cc_basic_query_resp ch') i = Some resp \<longrightarrow> map_of (cc_basic_query_resp ch) i = Some resp)"
proof (cases call)
  case (Await req k)
  then obtain resp where "map_of (cc_basic_resp ch) (rq_rid req) = Some resp"
    "k (rs_ok resp) (ch\<lparr>cc_basic_resp := um_erase (rq_rid req) (cc_basic_resp ch)\<rparr>) = (r, ch')"
    using assms(1) by (auto simp: wait_response_def split: option.splits)
  then show ?thesis
    using start_call_Await(4) [of op rid ch0 req k "ch\<lparr>cc_basic_resp := um_erase (rq_rid req) (cc_basic_resp ch)\<rparr>" "rs_ok resp"]
      assms(2) Await by (auto simp: same_line_def um_find_erase split: if_splits)
qed (use assms(1) in \<open>auto simp: wait_query_response_def um_find_erase split: option.splits if_splits\<close>)

section \<open>Invariant\<close>

text \<open>Each call was started on its channel and waits; nothing but responses received is in the maps.\<close>

definition calls_ok :: "'cb client \<Rightarrow> bool" where
  "calls_ok c \<longleftrightarrow> um_wf (ct_calls c) \<and>
     (\<forall>rid a op call. map_of (ct_calls c) rid = Some (a, op, call) \<longrightarrow> a < length (ct_objects c) \<and>
        (\<exists>ch0. cc_cid ch0 = cc_cid (ct_objects c ! a) \<and> call = start_call op rid ch0 \<and> (\<forall>r. call \<noteq> Returned r)))"

definition responses_ok :: "response list \<Rightarrow> 'cb client \<Rightarrow> bool" where
  "responses_ok rs c \<longleftrightarrow> (\<forall>ch \<in> set (ct_objects c).
     (\<forall>rid resp. map_of (cc_basic_resp ch) rid = Some resp \<longrightarrow>
        resp \<in> set rs \<and> (\<exists>ok. resp = BasicCommonResponse rid (cc_cid ch) ok)) \<and>
     (\<forall>rid resp. map_of (cc_basic_query_resp ch) rid = Some resp \<longrightarrow>
        resp \<in> set rs \<and> (\<exists>body. resp = BasicQueryResponse rid (cc_cid ch) body)))"

definition listed_ok :: "'cb client \<Rightarrow> bool" where
  "listed_ok c \<longleftrightarrow> (\<forall>cid a. map_of (ct_channels c) cid = Some a \<longrightarrow>
     a < length (ct_objects c) \<and> cc_cid (ct_objects c ! a) = cid)"

text \<open>A call returned what its own response says, or declined without asking.\<close>

definition earned :: "response list \<Rightarrow> request list \<Rightarrow> string \<Rightarrow> string \<Rightarrow> 'cb api \<Rightarrow> ret \<Rightarrow> bool" where
  "earned rs sent cid rid op r \<longleftrightarrow>
     r = declined op \<and> rid \<notin> rq_rid ` set sent \<or>
     (\<exists>ok. BasicCommonResponse rid cid ok \<in> set rs \<and> r = answer op ok) \<or>
     (\<exists>body. BasicQueryResponse rid cid body \<in> set rs \<and> op = OpQuery \<and> r = Void)"

definition done_ok :: "response list \<Rightarrow> 'cb client \<Rightarrow> bool" where
  "done_ok rs c \<longleftrightarrow> (\<forall>(rid, a, op, r) \<in> set (ct_done c). a < length (ct_objects c) \<and>
     earned rs (ct_sent c) (cc_cid (ct_objects c ! a)) rid op r)"

definition ids_ok :: "'cb client \<Rightarrow> bool" where
  "ids_ok c \<longleftrightarrow> distinct (map fst (ct_calls c) @ map fst (ct_done c)) \<and> distinct (map rq_rid (ct_sent c)) \<and>
     rq_rid ` set (ct_sent c) \<subseteq> um_keys (ct_calls c) \<union> fst ` set (ct_done c) \<and>
     um_keys (ct_calls c) \<subseteq> rq_rid ` set (ct_sent c)"

definition client_inv :: "response list \<Rightarrow> 'cb client \<Rightarrow> bool" where
  "client_inv rs c \<longleftrightarrow> calls_ok c \<and> responses_ok rs c \<and> listed_ok c \<and> done_ok rs c \<and> ids_ok c"

lemma calls_okD:
  assumes "client_inv rs c" and "map_of (ct_calls c) rid = Some (a, op, call)"
  shows "a < length (ct_objects c)"
    and "\<exists>ch0. cc_cid ch0 = cc_cid (ct_objects c ! a) \<and> call = start_call op rid ch0 \<and> (\<forall>r. call \<noteq> Returned r)"
  using assms by (simp_all add: client_inv_def calls_ok_def)

lemma client_inv_new: "client_inv [] client_new"
  by (simp add: client_inv_def calls_ok_def responses_ok_def listed_ok_def done_ok_def ids_ok_def client_new_def
      um_keys_def um_wf_def)

text \<open>Steps that change neither channels, calls nor the log.\<close>

definition same_calls :: "'cb client \<Rightarrow> 'cb client \<Rightarrow> bool" where
  "same_calls c c' \<longleftrightarrow> ct_calls c' = ct_calls c \<and> ct_objects c' = ct_objects c \<and> ct_channels c' = ct_channels c \<and>
     ct_sent c' = ct_sent c \<and> ct_done c' = ct_done c"

lemma parts_same:
  assumes "same_calls c c'"
  shows "calls_ok c' = calls_ok c" and "responses_ok rs c' = responses_ok rs c" and "listed_ok c' = listed_ok c"
    and "done_ok rs c' = done_ok rs c" and "ids_ok c' = ids_ok c"
  using assms by (simp_all add: calls_ok_def responses_ok_def listed_ok_def done_ok_def ids_ok_def same_calls_def)

lemma responses_more: "responses_ok rs c \<Longrightarrow> responses_ok (rs @ ts) c"
  unfolding responses_ok_def by (metis Un_iff set_append)

lemma done_more: "done_ok rs c \<Longrightarrow> done_ok (rs @ ts) c"
  by (auto simp: done_ok_def earned_def)

lemma client_inv_more: "client_inv rs c \<Longrightarrow> client_inv (rs @ ts) c"
  by (simp add: client_inv_def responses_more done_more)

lemma client_inv_same: "client_inv rs c \<Longrightarrow> same_calls c c' \<Longrightarrow> client_inv rs c'"
  by (simp add: client_inv_def parts_same)

lemma worker_same_calls: "client_worker c = Inr c' \<Longrightarrow> same_calls c c'"
  by (auto simp: client_worker_def run_consume_def same_calls_def split: option.splits prod.splits list.splits)

text \<open>A channel gets a response, or its state after a call.\<close>

lemma client_inv_object:
  assumes inv: "client_inv rs c" and a: "a < length (ct_objects c)"
    and cid: "cc_cid ch = cc_cid (ct_objects c ! a)"
    and common: "\<And>i resp. map_of (cc_basic_resp ch) i = Some resp \<Longrightarrow> map_of (cc_basic_resp (ct_objects c ! a)) i = Some resp \<or>
      resp \<in> set rs \<and> (\<exists>ok. resp = BasicCommonResponse i (cc_cid ch) ok)"
    and query: "\<And>i resp. map_of (cc_basic_query_resp ch) i = Some resp \<Longrightarrow>
      map_of (cc_basic_query_resp (ct_objects c ! a)) i = Some resp \<or>
      resp \<in> set rs \<and> (\<exists>body. resp = BasicQueryResponse i (cc_cid ch) body)"
  shows "client_inv rs (c\<lparr>ct_objects := (ct_objects c)[a := ch]\<rparr>)"
proof -
  let ?c = "c\<lparr>ct_objects := (ct_objects c)[a := ch]\<rparr>"
  have same: "cc_cid (ct_objects ?c ! b) = cc_cid (ct_objects c ! b)" for b
    using a cid by (cases "a = b") simp_all
  have "calls_ok ?c" using inv same by (simp add: client_inv_def calls_ok_def)
  moreover have "listed_ok ?c" using inv same by (simp add: client_inv_def listed_ok_def)
  moreover have "done_ok rs ?c" using inv same by (simp add: client_inv_def done_ok_def)
  moreover have "ids_ok ?c" using inv by (simp add: client_inv_def ids_ok_def)
  moreover have "responses_ok rs ?c"
  proof -
    have old: "responses_ok rs c" and "ct_objects c ! a \<in> set (ct_objects c)" using inv a by (simp_all add: client_inv_def)
    then have "(\<forall>i resp. map_of (cc_basic_resp ch) i = Some resp \<longrightarrow>
        resp \<in> set rs \<and> (\<exists>ok. resp = BasicCommonResponse i (cc_cid ch) ok)) \<and>
      (\<forall>i resp. map_of (cc_basic_query_resp ch) i = Some resp \<longrightarrow>
        resp \<in> set rs \<and> (\<exists>body. resp = BasicQueryResponse i (cc_cid ch) body))"
      using common query unfolding responses_ok_def cid by blast
    then show ?thesis using old set_update_subset_insert [of "ct_objects c" a ch] unfolding responses_ok_def by auto
  qed
  ultimately show ?thesis by (simp add: client_inv_def)
qed

lemma client_inv_dispatch:
  assumes inv: "client_inv rs c"
  shows "client_inv (rs @ [resp]) (client_dispatch resp c)"
proof -
  note more = client_inv_more [OF inv, of "[resp]"]
  have listed: "a < length (ct_objects c) \<and> cc_cid (ct_objects c ! a) = cid" if "cl_select_channel cid (ct_channels c) = Some a" for cid a
    using inv that by (auto simp: client_inv_def listed_ok_def cl_select_channel_def)
  show ?thesis
  proof (cases resp)
    case (BasicCommonResponse rid cid ok)
    show ?thesis
    proof (cases "cl_select_channel cid (ct_channels c)")
      case None
      then show ?thesis using more by (simp add: BasicCommonResponse commonResponse_def)
    next
      case (Some a)
      have "client_inv (rs @ [resp]) (c\<lparr>ct_objects := (ct_objects c)[a := push_basic_response resp (ct_objects c ! a)]\<rparr>)"
        using listed [OF Some]
        by (intro client_inv_object [OF more])
          (auto simp: push_basic_response_def um_find_insert BasicCommonResponse split: if_splits option.splits)
      then show ?thesis by (simp add: BasicCommonResponse commonResponse_def Some)
    qed
  next
    case (BasicQueryResponse rid cid body)
    show ?thesis
    proof (cases "cl_select_channel cid (ct_channels c)")
      case None
      then show ?thesis using more by (simp add: BasicQueryResponse queryRespone_def)
    next
      case (Some a)
      have "client_inv (rs @ [resp]) (c\<lparr>ct_objects := (ct_objects c)[a := push_query_response resp (ct_objects c ! a)]\<rparr>)"
        using listed [OF Some]
        by (intro client_inv_object [OF more])
          (auto simp: push_query_response_def um_find_insert BasicQueryResponse split: if_splits option.splits)
      then show ?thesis by (simp add: BasicQueryResponse queryRespone_def Some)
    qed
  next
    case (BasicConsumeResponse cid tag body bp)
    have "same_calls c (client_dispatch resp c)"
      by (simp add: BasicConsumeResponse consumeResponse_def same_calls_def Let_def)
    then show ?thesis by (rule client_inv_same [OF more])
  qed
qed

lemma client_inv_decline:
  assumes inv: "client_inv rs c" and a: "a < length (ct_objects c)" and fresh: "fresh_id rid c" and r: "r = declined op"
  shows "client_inv rs (c\<lparr>ct_done := ct_done c @ [(rid, a, op, r)]\<rparr>)"
proof -
  let ?c = "c\<lparr>ct_done := ct_done c @ [(rid, a, op, r)]\<rparr>"
  have new: "rid \<notin> rq_rid ` set (ct_sent c)" using inv fresh by (auto simp: client_inv_def ids_ok_def fresh_id_def)
  have "done_ok rs ?c" using inv a r new by (auto simp: client_inv_def done_ok_def earned_def)
  moreover have "ids_ok ?c" using inv fresh by (auto simp: client_inv_def ids_ok_def fresh_id_def um_keys_def)
  ultimately show ?thesis
    using inv by (simp add: client_inv_def calls_ok_def responses_ok_def listed_ok_def)
qed

lemma client_inv_ask:
  assumes inv: "client_inv rs c" and a: "a < length (ct_objects c)" and fresh: "fresh_id rid c"
    and call: "call = start_call op rid (ct_objects c ! a)" "\<forall>r. call \<noteq> Returned r" and req: "rq_rid req = rid"
  shows "client_inv rs (c\<lparr>ct_sent := ct_sent c @ [req], ct_calls := um_insert rid (a, op, call) (ct_calls c)\<rparr>)"
proof -
  let ?c = "c\<lparr>ct_sent := ct_sent c @ [req], ct_calls := um_insert rid (a, op, call) (ct_calls c)\<rparr>"
  have none: "map_of (ct_calls c) rid = None"
    using fresh by (cases "map_of (ct_calls c) rid") (auto simp: fresh_id_def um_keys_iff)
  then have ins: "um_insert rid (a, op, call) (ct_calls c) = (rid, a, op, call) # ct_calls c" by (simp add: um_insert_def)
  have new: "rid \<notin> rq_rid ` set (ct_sent c)" using inv fresh by (auto simp: client_inv_def ids_ok_def fresh_id_def)
  have "calls_ok ?c"
    using inv a call by (auto simp: client_inv_def calls_ok_def um_find_insert none um_wf_insert split: if_splits)
  moreover have "done_ok rs ?c"
  proof -
    have "i \<noteq> rid" if "(i, x) \<in> set (ct_done c)" for i x using fresh that by (force simp: fresh_id_def)
    then show ?thesis using inv req by (fastforce simp: client_inv_def done_ok_def earned_def)
  qed
  moreover have "ids_ok ?c"
    using inv fresh new req by (auto simp: client_inv_def ids_ok_def fresh_id_def ins um_keys_def)
  ultimately show ?thesis using inv by (simp add: client_inv_def responses_ok_def listed_ok_def)
qed

lemma client_inv_begin:
  assumes inv: "client_inv rs c" and a: "a < length (ct_objects c)" and fresh: "fresh_id rid c"
    and step: "begin_call a op rid c = Inr c'"
  shows "client_inv rs c'"
proof (cases "start_call op rid (ct_objects c ! a)")
  case (Returned r)
  then show ?thesis
    using step client_inv_decline [OF inv a fresh start_call_Returned [OF Returned]] by (simp add: begin_call_def)
next
  case (Await req k)
  then show ?thesis
    using step client_inv_ask [OF inv a fresh, where op = op and req = req] start_call_Await(1) [OF Await]
    by (simp add: begin_call_def Let_def split: if_splits)
next
  case (AwaitQuery req)
  then show ?thesis
    using step client_inv_ask [OF inv a fresh, where op = op and req = req] start_call_AwaitQuery [OF AwaitQuery]
    by (simp add: begin_call_def Let_def split: if_splits)
qed

lemma client_inv_create:
  assumes inv: "client_inv rs c" and fresh: "list_all (\<lambda>ch. cc_cid ch \<noteq> cid) (ct_objects c)"
  shows "client_inv rs (snd (create_channel cid c))"
proof -
  let ?c = "snd (create_channel cid c)"
  have c: "ct_objects ?c = ct_objects c @ [client_channel_new (ct_conn c) cid]" "ct_calls ?c = ct_calls c"
    "ct_done ?c = ct_done c" "ct_sent ?c = ct_sent c" "ct_channels ?c = um_insert cid (length (ct_objects c)) (ct_channels c)"
    by (simp_all add: create_channel_def Let_def)
  have "map_of (ct_channels c) cid = None"
    using inv fresh by (cases "map_of (ct_channels c) cid") (auto simp: client_inv_def listed_ok_def list_all_length)
  then have "listed_ok ?c"
    using inv by (auto simp: client_inv_def listed_ok_def c um_find_insert nth_append client_channel_new_def less_Suc_eq
        split: if_splits)
  moreover have old: "b < length (ct_objects ?c) \<and> ct_objects ?c ! b = ct_objects c ! b" if "b < length (ct_objects c)" for b
    using that by (simp add: c nth_append)
  then have "calls_ok ?c" using inv by (simp add: client_inv_def calls_ok_def c(2))
  moreover have "responses_ok rs ?c"
    using inv by (simp add: client_inv_def responses_ok_def c client_channel_new_def)
  moreover have "done_ok rs ?c"
    using inv old unfolding client_inv_def done_ok_def c(3,4) by fastforce
  moreover have "ids_ok ?c" using inv by (simp add: client_inv_def ids_ok_def c)
  ultimately show ?thesis by (simp add: client_inv_def)
qed

lemma client_finish_answer:
  assumes inv: "client_inv rs c" and a: "a < length (ct_objects c)"
    and call: "call = start_call op rid ch0" "\<forall>r. call \<noteq> Returned r" and res: "resume call (ct_objects c ! a) = Some (r, ch)"
  shows "earned rs sent (cc_cid (ct_objects c ! a)) rid op r"
proof -
  let ?ch = "ct_objects c ! a"
  have resp: "map_of (cc_basic_resp ?ch) i = Some x \<Longrightarrow> x \<in> set rs \<and> (\<exists>ok. x = BasicCommonResponse i (cc_cid ?ch) ok)"
    "map_of (cc_basic_query_resp ?ch) i = Some x \<Longrightarrow> x \<in> set rs \<and> (\<exists>body. x = BasicQueryResponse i (cc_cid ?ch) body)" for i x
    using inv nth_mem [OF a] unfolding client_inv_def responses_ok_def by blast+
  show ?thesis
  proof (cases call)
    case (Returned r)
    then show ?thesis using call(2) by simp
  next
    case (Await req k)
    note facts = start_call_Await [OF call(1) [symmetric, unfolded Await]]
    obtain x where "map_of (cc_basic_resp ?ch) rid = Some x" and "fst (k (rs_ok x) (?ch\<lparr>cc_basic_resp := um_erase rid (cc_basic_resp ?ch)\<rparr>)) = r"
      using res facts(1) by (auto simp: Await wait_response_def split: option.splits)
    then show ?thesis using resp(1) facts(3) unfolding earned_def by fastforce
  next
    case (AwaitQuery req)
    have "op = OpQuery" and "rq_rid req = rid" using start_call_AwaitQuery call(1) AwaitQuery by fastforce+
    then show ?thesis using res resp(2) by (auto simp: AwaitQuery earned_def wait_query_response_def split: option.splits)
  qed
qed

lemma client_inv_finish:
  assumes inv: "client_inv rs c" shows "client_inv rs (finish_call rid c)"
proof (cases "map_of (ct_calls c) rid")
  case None
  then show ?thesis using inv by (simp add: finish_call_def)
next
  case (Some x)
  obtain a op call where x: "x = (a, op, call)" by (cases x)
  have a: "a < length (ct_objects c)" and "\<exists>ch0. cc_cid ch0 = cc_cid (ct_objects c ! a) \<and> call = start_call op rid ch0 \<and> (\<forall>r. call \<noteq> Returned r)"
    using inv Some by (simp_all add: client_inv_def calls_ok_def x)
  then obtain ch0 where ch0: "cc_cid ch0 = cc_cid (ct_objects c ! a)" "call = start_call op rid ch0" "\<forall>r. call \<noteq> Returned r" by blast
  show ?thesis
  proof (cases "resume call (ct_objects c ! a)")
    case None
    then show ?thesis using inv Some by (simp add: finish_call_def x)
  next
    case res: (Some y)
    obtain r ch where y: "y = (r, ch)" by (cases y)
    note line = resume_line [OF res [unfolded y] ch0(2)]
    let ?c1 = "c\<lparr>ct_objects := (ct_objects c)[a := ch]\<rparr>"
    have inv1: "client_inv rs ?c1" using line by (intro client_inv_object [OF inv a]) auto
    let ?c2 = "?c1\<lparr>ct_calls := um_erase rid (ct_calls c), ct_done := ct_done c @ [(rid, a, op, r)],
      ct_channels := (if op = OpClose then cm_remove_channel (cc_cid ch) (ct_channels c) else ct_channels c)\<rparr>"
    have fin: "finish_call rid c = ?c2" by (simp add: finish_call_def Some x res y)
    have ret: "earned rs (ct_sent c) (cc_cid (ct_objects c ! a)) rid op r"
      by (rule client_finish_answer [OF inv a ch0(2,3) res [unfolded y]])
    have "calls_ok ?c2"
      using inv1 by (auto simp: client_inv_def calls_ok_def um_find_erase um_wf_erase split: if_splits)
    moreover have "responses_ok rs ?c2" using inv1 by (simp add: client_inv_def responses_ok_def)
    moreover have "listed_ok ?c2"
      using inv1 by (auto simp: client_inv_def listed_ok_def cm_remove_channel_def um_find_erase split: if_splits)
    moreover have "done_ok rs ?c2"
      using inv1 ret a line by (fastforce simp: client_inv_def done_ok_def)
    moreover have "ids_ok ?c2"
    proof -
      have ids: "ids_ok c" using inv by (simp add: client_inv_def)
      have keys: "um_keys (um_erase rid (ct_calls c)) = um_keys (ct_calls c) - {rid}" by (simp add: um_keys_erase)
      have "rid \<in> um_keys (ct_calls c)" using Some by (simp add: um_keys_iff)
      moreover have "distinct (map fst (um_erase rid (ct_calls c)))"
        using ids by (simp add: ids_ok_def um_erase_def distinct_map_filter)
      ultimately show ?thesis using ids keys by (auto simp: ids_ok_def um_keys_def)
    qed
    ultimately show ?thesis unfolding fin by (simp add: client_inv_def)
  qed
qed

lemma client_inv_step:
  assumes inv: "client_inv rs c" and en: "enabled e c" and step: "client_step e c = Inr c'"
  shows "client_inv (rs @ received e) c'"
proof (cases e)
  case (Receive resp)
  then show ?thesis using client_inv_dispatch [OF inv, of resp] step by simp
next
  case WorkerMoves
  then show ?thesis using client_inv_same [OF inv worker_same_calls] step by simp
next
  case (OpenChannel cid rid)
  have new: "list_all (\<lambda>ch. cc_cid ch \<noteq> cid) (ct_objects c)" and fresh: "fresh_id rid c" using en OpenChannel by simp_all
  obtain a c1 where c1: "create_channel cid c = (a, c1)" by (cases "create_channel cid c")
  have "client_inv rs c1" using client_inv_create [OF inv new] by (simp add: c1)
  moreover have "a < length (ct_objects c1)" and "fresh_id rid c1"
    using c1 fresh by (auto simp: create_channel_def Let_def fresh_id_def)
  ultimately show ?thesis using client_inv_begin step by (auto simp: OpenChannel openChannel_def c1)
next
  case (Begin a op rid)
  then show ?thesis using client_inv_begin [OF inv] en step by auto
next
  case (Finish rid)
  then show ?thesis using client_inv_finish [OF inv] step by auto
qed (use step client_inv_same [OF inv] in
  \<open>auto simp: same_calls_def onConnection_count_def onConnection_assign_def client_onUnknownMessage_def\<close>)

lemma client_runs_inv: "client_runs c rs \<Longrightarrow> client_inv rs c"
  by (induction rule: client_runs.induct) (auto intro: client_inv_new client_inv_step)

lemmas client_step_defs = onConnection_count_def onConnection_assign_def openChannel_def create_channel_def
  client_channel_new_def begin_call_def open_server_channel_def fresh_id_def um_keys_def um_insert_def
  um_erase_def commonResponse_def cl_select_channel_def push_basic_response_def wait_response_def finish_call_def Let_def

text \<open>Concrete runs.\<close>

fun run_client :: "'cb client_event list \<Rightarrow> 'cb client \<Rightarrow> 'cb client option" where
  "run_client [] c = Some c"
| "run_client (e # es) c =
     (if enabled e c then (case client_step e c of Inl x \<Rightarrow> None | Inr c' \<Rightarrow> run_client es c') else None)"

lemma run_client_reaches:
  "client_runs c rs \<Longrightarrow> run_client es c = Some c' \<Longrightarrow> client_runs c' (rs @ concat (map received es))"
proof (induction es arbitrary: c rs)
  case (Cons e es)
  then obtain c1 where "enabled e c" "client_step e c = Inr c1" "run_client es c1 = Some c'"
    by (auto split: if_splits sum.splits)
  then show ?case using Cons.IH [OF client_runs.step [OF Cons.prems(1)]] by simp
qed simp

section \<open>Properties\<close>

text \<open>
  C14: A call returns its own answer.  Whatever the threads of a client do and in whatever order
  responses arrive, each call returns at most once, and what the response to its own request on its
  own channel says, or, when the channel declines without asking, the method's fixed refusal; no two
  requests carry the same identifier.
\<close>

theorem calls_return_own_answer:
  assumes "client_runs c rs"
  shows "distinct (map fst (ct_done c)) \<and> distinct (map rq_rid (ct_sent c)) \<and>
    (\<forall>(rid, a, op, r) \<in> set (ct_done c). earned rs (ct_sent c) (cc_cid (ct_objects c ! a)) rid op r)"
  using client_runs_inv [OF assms] by (auto simp: client_inv_def ids_ok_def done_ok_def)

definition sample_opening :: "unit client_event list" where
  "sample_opening = [LoopCounts 7, LoopAssigns, OpenChannel ''c'' ''r1'', Receive (BasicCommonResponse ''r1'' ''c'' True),
     Finish ''r1'']"

definition sample_client :: "unit client" where
  "sample_client = client_new\<lparr>ct_latch := 0, ct_conn := Some 7, ct_channels := [(''c'', 0)],
     ct_objects := [client_channel_new (Some 7) ''c''], ct_sent := [OpenChannelRequest ''r1'' ''c''],
     ct_done := [(''r1'', 0, OpOpen, Bool True)]\<rparr>"

lemma sample_opened: "client_runs sample_client [BasicCommonResponse ''r1'' ''c'' True]"
proof -
  have "run_client sample_opening client_new = Some sample_client"
    by (simp add: sample_opening_def sample_client_def client_new_def client_step_defs)
  from run_client_reaches [OF client_runs.new this] show ?thesis by (simp add: sample_opening_def)
qed

theorem calls_return_own_answer_witness:
  "ct_done sample_client = [(''r1'', 0, OpOpen, Bool True)] \<and> earned [BasicCommonResponse ''r1'' ''c'' True]
    (ct_sent sample_client) (cc_cid (ct_objects sample_client ! 0)) ''r1'' (OpOpen :: unit api) (Bool True)"
  using calls_return_own_answer [OF sample_opened] by (simp add: sample_client_def)

text \<open>
  C37: An early message is lost.  The server pushes messages as soon as it has answered a
  subscription, but the client's channel knows its subscription only when the calling thread has woken
  up.  When the worker comes to a pushed message in between, it drops it: no callback is called, the
  task is gone, and the subscription then succeeds as if nothing had happened.
\<close>

theorem early_push_is_dropped:
  assumes "client_runs c rs" and call: "map_of (ct_calls c) rid = Some (a, OpConsume t q aa cb, call)"
    and arrived: "map_of (cc_basic_resp (ct_objects c ! a)) rid = Some (BasicCommonResponse rid cid True)"
    and none: "cc_consumer (ct_objects c ! a) = None"
    and push: "tp_threads (ct_pool c) = [Executing [(Some a, BasicConsumeResponse cid t body bp)]]"
      "tp_task_queue (ct_pool c) = []" "\<not> ct_in_callback c"
  shows "enabled WorkerMoves c \<and>
    (\<exists>c1 c2. client_step WorkerMoves c = Inr c1 \<and> work (ct_pool c1) = [] \<and> ct_handled c1 = ct_handled c \<and>
       enabled (Finish rid) c1 \<and> client_step (Finish rid) c1 = Inr c2 \<and> ct_handled c2 = ct_handled c \<and>
       ct_done c2 = ct_done c @ [(rid, a, OpConsume t q aa cb, Bool True)] \<and>
       cc_consumer (ct_objects c2 ! a) = Some (client_consumer t q aa cb))"
proof -
  have a: "a < length (ct_objects c)" and "\<exists>ch0. call = start_call (OpConsume t q aa cb) rid ch0 \<and> (\<forall>r. call \<noteq> Returned r)"
    using calls_okD [OF client_runs_inv [OF assms(1)] call] by auto
  then obtain ch0 where call': "call = Await (BasicConsumeRequest rid (cc_cid (ch0 :: 'a client_channel)) t q aa)
      (\<lambda>ok ch. if ok = False then (Bool False, ch) else (Bool True, ch\<lparr>cc_consumer := Some (client_consumer t q aa cb)\<rparr>))"
    by (auto simp: cl_basic_consume_def split: if_splits)
  let ?c1 = "c\<lparr>ct_pool := set_thread 0 (Executing []) (ct_pool c)\<rparr>"
  have step: "client_step WorkerMoves c = Inr ?c1" and en: "enabled WorkerMoves c"
    using push none by (simp_all add: client_worker_def thread_step_def run_consume_def cl_consume_def)
  have "work (ct_pool ?c1) = []" using push by (simp add: work_def in_threads_def set_thread_def)
  moreover have "enabled (Finish rid) ?c1"
    using call arrived by (simp add: call' wait_response_def)
  moreover have "ct_handled (finish_call rid ?c1) = ct_handled c \<and>
      ct_done (finish_call rid ?c1) = ct_done c @ [(rid, a, OpConsume t q aa cb, Bool True)] \<and>
      cc_consumer (ct_objects (finish_call rid ?c1) ! a) = Some (client_consumer t q aa cb)"
    using call arrived a by (simp add: finish_call_def call' wait_response_def)
  ultimately show ?thesis using step en by (intro conjI exI [of _ ?c1] exI [of _ "finish_call rid ?c1"]) simp_all
qed

text \<open>A client that subscribes, with the first message swapped out by the worker before the caller wakes up.\<close>

definition sample_subscribing :: "unit client" where
  "sample_subscribing = the (run_client [Begin 0 (OpConsume ''t'' ''q'' True ()) ''r2'',
     Receive (BasicCommonResponse ''r2'' ''c'' True), Receive (BasicConsumeResponse ''c'' ''t'' ''hi'' None),
     WorkerMoves, WorkerMoves] sample_client)"

lemma sample_subscribing_runs:
  shows "\<exists>rs. client_runs sample_subscribing rs" (is ?runs) and
  "\<exists>call. map_of (ct_calls sample_subscribing) ''r2'' = Some (0, OpConsume ''t'' ''q'' True (), call)" (is ?call) and
  "map_of (cc_basic_resp (ct_objects sample_subscribing ! 0)) ''r2'' = Some (BasicCommonResponse ''r2'' ''c'' True)"
    (is ?arrived) and
  "cc_consumer (ct_objects sample_subscribing ! 0) = None" (is ?none) and
  "tp_threads (ct_pool sample_subscribing) = [Executing [(Some 0, BasicConsumeResponse ''c'' ''t'' ''hi'' None)]]"
    (is ?threads) and
  "tp_task_queue (ct_pool sample_subscribing) = []" "\<not> ct_in_callback sample_subscribing" (is ?rest)
proof -
  let ?k = "\<lambda>ok ch. if ok = False then (Bool False, ch)
    else (Bool True, ch\<lparr>cc_consumer := Some (client_consumer ''t'' ''q'' True ())\<rparr>)"
  let ?c = "sample_client\<lparr>ct_objects := [push_basic_response (BasicCommonResponse ''r2'' ''c'' True) (client_channel_new (Some 7) ''c'')],
    ct_sent := [OpenChannelRequest ''r1'' ''c'', BasicConsumeRequest ''r2'' ''c'' ''t'' ''q'' True],
    ct_calls := [(''r2'', 0, OpConsume ''t'' ''q'' True (), Await (BasicConsumeRequest ''r2'' ''c'' ''t'' ''q'' True) ?k)],
    ct_pool := \<lparr>tp_stop_signal = False, tp_task_queue = [],
      tp_threads = [Executing [(Some 0, BasicConsumeResponse ''c'' ''t'' ''hi'' None)]]\<rparr>\<rparr>"
  let ?es = "[Begin 0 (OpConsume ''t'' ''q'' True ()) ''r2'', Receive (BasicCommonResponse ''r2'' ''c'' True),
    Receive (BasicConsumeResponse ''c'' ''t'' ''hi'' None), WorkerMoves, WorkerMoves]"
  have run: "run_client ?es sample_client = Some ?c"
    by (simp add: sample_client_def client_new_def client_step_defs cl_basic_consume_def consumeResponse_def push_task_def
        settle_def thread_pool_new_def client_worker_def thread_step_def set_thread_def lock_free_def)
  then have s: "sample_subscribing = ?c" by (simp add: sample_subscribing_def)
  show ?runs using run_client_reaches [OF sample_opened run] unfolding s by blast
  show ?call ?arrived ?none ?threads "tp_task_queue (ct_pool sample_subscribing) = []" ?rest
    unfolding s by (simp_all add: client_step_defs sample_client_def client_new_def)
qed

theorem early_push_is_dropped_witness:
  "\<exists>c1. client_step WorkerMoves sample_subscribing = Inr c1 \<and> work (ct_pool c1) = [] \<and>
    ct_handled c1 = ct_handled sample_subscribing \<and> enabled (Finish ''r2'') c1"
proof -
  obtain rs where runs: "client_runs sample_subscribing rs" using sample_subscribing_runs(1) by blast
  obtain call where call: "map_of (ct_calls sample_subscribing) ''r2'' = Some (0, OpConsume ''t'' ''q'' True (), call)"
    using sample_subscribing_runs(2) by blast
  show ?thesis using early_push_is_dropped [OF runs call sample_subscribing_runs(3-7)] by blast
qed

text \<open>
  C38: Connecting too fast is undefined.  The loop thread counts the latch down before it stores the
  connection, so the constructor can return, and the caller open a channel, while the pointer is still
  null: the first request is then sent through a null pointer.
\<close>

theorem connect_race_is_undefined:
  "\<exists>c :: 'cb client. client_runs c [] \<and> enabled (OpenChannel cid rid) c \<and> enabled LoopAssigns c \<and>
     client_step (OpenChannel cid rid) c = Inl Undefined"
proof -
  have "client_runs (onConnection_count 7 client_new :: 'cb client) []"
    using client_runs.step [OF client_runs.new, where e = "LoopCounts 7"] by (simp add: client_new_def)
  then show ?thesis
    by (intro exI [of _ "onConnection_count 7 client_new"]) (simp add: client_new_def client_step_defs)
qed

end
