(* ===== verification/Client_Delivery.thy ===== *)
theory Client_Delivery
  imports Client_Runs "HOL-Library.Sublist"
begin

text \<open>
  Pushed messages inside a client: from the loop thread through the queue of the worker to the
  callbacks.
\<close>

definition shown :: "response \<Rightarrow> string \<times> BasicProperties \<times> string" where
  "shown resp = (rs_consumer_tag resp,
     (case rs_properties resp of None \<Rightarrow> default_properties | Some p \<Rightarrow> p), rs_body resp)"

definition pushes :: "response list \<Rightarrow> response list" where
  "pushes rs = filter (\<lambda>resp. \<not> is_answer resp) rs"

lemma pushes_append [simp]: "pushes (rs @ ts) = pushes rs @ pushes ts"
  by (simp add: pushes_def)

text \<open>Every push has run, in the order of arrival, or waits; callbacks were called for some of those that ran.\<close>

definition delivery_ok :: "response list \<Rightarrow> 'cb client \<Rightarrow> bool" where
  "delivery_ok rs c \<longleftrightarrow> pool_inv 1 (ct_pool c) \<and> \<not> tp_stop_signal (ct_pool c) \<and>
     (\<exists>ran. pushes rs = ran @ map snd (work (ct_pool c)) \<and> subseq (map snd (ct_handled c)) (map shown ran))"

definition same_delivery :: "'cb client \<Rightarrow> 'cb client \<Rightarrow> bool" where
  "same_delivery c c' \<longleftrightarrow> ct_pool c' = ct_pool c \<and> ct_handled c' = ct_handled c"

lemma delivery_same: "delivery_ok rs c \<Longrightarrow> same_delivery c c' \<Longrightarrow> delivery_ok rs c'"
  by (simp add: delivery_ok_def same_delivery_def)

lemma begin_same_delivery: "begin_call a op rid c = Inr c' \<Longrightarrow> same_delivery c c'"
  by (auto simp: begin_call_def same_delivery_def Let_def split: call.splits if_splits)

lemma finish_same_delivery: "same_delivery c (finish_call rid c)"
  by (simp add: finish_call_def same_delivery_def split: option.split prod.split)

lemma worker_delivery:
  assumes ok: "delivery_ok rs c" and step: "client_worker c = Inr c'"
  shows "delivery_ok rs c'"
proof (cases "thread_step 0 (ct_pool c)")
  case None
  then show ?thesis using assms by (simp add: client_worker_def)
next
  case (Some dp)
  obtain did p where dp: "dp = (did, p)" by (cases dp)
  have inv: "pool_inv 1 (ct_pool c)" and run: "\<not> tp_stop_signal (ct_pool c)"
    using ok by (simp_all add: delivery_ok_def)
  obtain t where t: "tp_threads (ct_pool c) = [t]" using inv by (auto simp: pool_inv_def length_Suc_conv)
  obtain ran where ran: "pushes rs = ran @ map snd (work (ct_pool c))" "subseq (map snd (ct_handled c)) (map shown ran)"
    using ok by (auto simp: delivery_ok_def)
  have "pool_step (ct_pool c) (Thread 0) did p" using Some t by (simp add: pool_step_simps dp)
  then have p: "pool_inv 1 p" using pool_inv_step [OF inv] by blast
  have stop: "\<not> tp_stop_signal p"
    using Some run by (auto simp: dp thread_step_def set_thread_def split: thread.splits list.splits if_splits)
  have fifo: "work (ct_pool c) = did @ work p" using thread_step_fifo [OF t] Some by (simp add: dp)
  show ?thesis
  proof (cases did)
    case Nil
    then have "c' = c\<lparr>ct_pool := p\<rparr>" using step by (simp add: client_worker_def Some dp)
    then show ?thesis using ran p stop fifo Nil by (auto simp: delivery_ok_def)
  next
    case (Cons x xs)
    then have xs: "xs = []" using Some by (auto simp: dp thread_step_def split: thread.splits list.splits if_splits)
    have run_x: "run_consume x (c\<lparr>ct_pool := p\<rparr>) = Inr c'" using step by (simp add: client_worker_def Some dp Cons)
    then have pool: "ct_pool c' = p" by (auto simp: run_consume_def split: option.splits)
    have "ct_handled c' = ct_handled c \<or> (\<exists>cb. ct_handled c' = ct_handled c @ [(cb, shown (snd x))])"
      using run_x by (auto simp: run_consume_def cl_consume_def shown_def split: option.splits if_splits)
    then have "subseq (map snd (ct_handled c')) (map shown (ran @ [snd x]))"
      using ran(2) by (auto intro: list_emb_append_mono subseq_order.trans [OF ran(2)])
    moreover have "pushes rs = (ran @ [snd x]) @ map snd (work p)" using ran(1) fifo by (simp add: Cons xs)
    ultimately show ?thesis using p stop pool unfolding delivery_ok_def by metis
  qed
qed

lemma receive_delivery:
  assumes "delivery_ok rs c"
  shows "delivery_ok (rs @ [resp]) (client_dispatch resp c)"
proof (cases "is_answer resp")
  case True
  then have "same_delivery c (client_dispatch resp c)"
    by (cases resp) (simp_all add: commonResponse_def queryRespone_def same_delivery_def split: option.split)
  moreover have "delivery_ok (rs @ [resp]) c" using assms True by (simp add: delivery_ok_def) (simp add: pushes_def)
  ultimately show ?thesis using delivery_same by blast
next
  case False
  then obtain a where "client_dispatch resp c = c\<lparr>ct_pool := push_task 0 (a, resp) (settle (ct_pool c))\<rparr>"
    by (cases resp) (auto simp: consumeResponse_def Let_def)
  moreover have "pushes [resp] = [resp]" using False by (simp add: pushes_def)
  ultimately show ?thesis using assms pool_push [of "ct_pool c"] by (auto simp: delivery_ok_def)
qed

lemma step_delivery:
  assumes ok: "delivery_ok rs c" and step: "client_step e c = Inr c'"
  shows "delivery_ok (rs @ received e) c'"
proof (cases e)
  case (Receive resp)
  then show ?thesis using receive_delivery [OF ok] step by auto
next
  case WorkerMoves
  then show ?thesis using worker_delivery [OF ok] step by simp
next
  case (OpenChannel cid rid)
  let ?c = "snd (create_channel cid c)"
  have "same_delivery c ?c" by (simp add: create_channel_def same_delivery_def Let_def)
  moreover have "same_delivery ?c c'"
    using step by (auto simp: OpenChannel openChannel_def split: prod.splits intro: begin_same_delivery)
  ultimately have "delivery_ok rs c'" using delivery_same ok by blast
  then show ?thesis by (simp add: OpenChannel)
next
  case (Begin a op rid)
  then show ?thesis using delivery_same [OF ok] begin_same_delivery step by fastforce
next
  case (Finish rid)
  then show ?thesis using delivery_same [OF ok] finish_same_delivery step by fastforce
qed (use step delivery_same [OF ok] in
  \<open>auto simp: same_delivery_def onConnection_count_def onConnection_assign_def client_onUnknownMessage_def\<close>)

lemma client_runs_delivery: "client_runs c rs \<Longrightarrow> delivery_ok rs c"
proof (induction rule: client_runs.induct)
  case new
  show ?case
    using pool_inv_new [where n = 1]
    by (simp add: delivery_ok_def client_new_def pushes_def work_def in_threads_def) (simp add: thread_pool_new_def)
qed (rule step_delivery)

text \<open>
  C15: Callbacks see messages in order.  Whatever the threads of a client do, the callbacks have been
  called with messages the server pushed, each at most once and in the order of their arrival; every
  other push has been dropped after its turn or still waits for the worker.
\<close>

theorem callbacks_in_order:
  assumes "client_runs c rs"
  shows "\<exists>ran. pushes rs = ran @ map snd (work (ct_pool c)) \<and> subseq (map snd (ct_handled c)) (map shown ran)"
  using client_runs_delivery [OF assms] by (simp add: delivery_ok_def)


text \<open>A client with a subscription that gets two messages, the first of which has been handled.\<close>

definition sample_messages :: "response list" where
  "sample_messages = [BasicConsumeResponse ''c'' ''t'' ''hi'' None, BasicConsumeResponse ''c'' ''t'' ''ho'' None]"

definition sample_subscription :: "unit client_event list" where
  "sample_subscription = [Begin 0 (OpConsume ''t'' ''q'' True ()) ''r2'', Receive (BasicCommonResponse ''r2'' ''c'' True),
     Finish ''r2'']"

definition sample_consumer :: "unit client_channel" where
  "sample_consumer = (client_channel_new (Some 7) ''c'')\<lparr>cc_consumer := Some (client_consumer ''t'' ''q'' True ())\<rparr>"

lemma sample_subscription_runs:
  "run_client sample_subscription sample_client = Some (sample_client\<lparr>ct_objects := [sample_consumer],
     ct_sent := ct_sent sample_client @ [BasicConsumeRequest ''r2'' ''c'' ''t'' ''q'' True],
     ct_done := ct_done sample_client @ [(''r2'', 0, OpConsume ''t'' ''q'' True (), Bool True)]\<rparr>)"
  by (simp add: sample_subscription_def sample_consumer_def sample_client_def client_new_def client_step_defs cl_basic_consume_def)

lemma receives_run:
  assumes "ct_connecting c = None"
  shows "run_client [Receive r1, Receive r2, WorkerMoves, WorkerMoves, WorkerMoves] c =
    run_client [WorkerMoves, WorkerMoves, WorkerMoves] (client_dispatch r2 (client_dispatch r1 c))"
  using assms by (cases r1) (auto simp: commonResponse_def queryRespone_def consumeResponse_def Let_def split: option.split)

definition sample_handling :: "unit client_event list" where
  "sample_handling = map Receive sample_messages @ [WorkerMoves, WorkerMoves, WorkerMoves]"

lemma sample_handled:
  assumes "ct_pool c = thread_pool_new 1" and "ct_channels c = [(''c'', 0)]" and "ct_objects c = [sample_consumer]"
    and "ct_connecting c = None" and "\<not> ct_in_callback c" and "ct_handled c = []"
  shows "\<exists>c'. run_client sample_handling c = Some c' \<and> map snd (ct_handled c') = [(''t'', default_properties, ''hi'')]"
proof -
  let ?d = "client_dispatch (BasicConsumeResponse ''c'' ''t'' ''ho'' None)
    (client_dispatch (BasicConsumeResponse ''c'' ''t'' ''hi'' None) c)"
  have pool: "ct_pool ?d = \<lparr>tp_stop_signal = False,
      tp_task_queue = [(Some 0, BasicConsumeResponse ''c'' ''t'' ''hi'' None), (Some 0, BasicConsumeResponse ''c'' ''t'' ''ho'' None)],
      tp_threads = [Looping]\<rparr>"
    using assms by (simp add: consumeResponse_def cl_select_channel_def push_task_def settle_def thread_pool_new_def Let_def)
  have rest: "ct_objects ?d = [sample_consumer]" "\<not> ct_in_callback ?d" "ct_handled ?d = []"
    using assms by (simp_all add: consumeResponse_def Let_def)
  have "run_client sample_handling c = run_client [WorkerMoves, WorkerMoves, WorkerMoves] ?d"
    unfolding sample_handling_def sample_messages_def using receives_run [OF assms(4)] by simp
  then show ?thesis
    using pool rest
    by (simp add: client_worker_def thread_step_def set_thread_def lock_free_def run_consume_def cl_consume_def
        sample_consumer_def client_consumer_def)
qed

theorem callbacks_in_order_witness:
  "\<exists>(c :: unit client) rs ran. client_runs c rs \<and> map snd (ct_handled c) = [(''t'', default_properties, ''hi'')] \<and>
     pushes rs = sample_messages \<and> sample_messages = ran @ map snd (work (ct_pool c)) \<and>
     subseq (map snd (ct_handled c)) (map shown ran)"
proof -
  let ?s = "the (run_client sample_subscription sample_client)"
  have s: "run_client sample_subscription sample_client = Some ?s" by (simp add: sample_subscription_runs)
  have "\<exists>c. run_client sample_handling ?s = Some c \<and> map snd (ct_handled c) = [(''t'', default_properties, ''hi'')]"
    unfolding sample_subscription_runs by (rule sample_handled) (simp_all add: sample_client_def client_new_def)
  then obtain c where c: "run_client sample_handling ?s = Some c"
    "map snd (ct_handled c) = [(''t'', default_properties, ''hi'')]" by (elim exE conjE)
  have p: "pushes (([BasicCommonResponse ''r1'' ''c'' True] @ concat (map received sample_subscription)) @
      concat (map received sample_handling)) = sample_messages"
    by (simp add: sample_subscription_def sample_handling_def sample_messages_def pushes_def)
  note reached = run_client_reaches [OF run_client_reaches [OF sample_opened s] c(1)]
  obtain ran where r: "sample_messages = ran @ map snd (work (ct_pool c))" "subseq (map snd (ct_handled c)) (map shown ran)"
    using callbacks_in_order [OF reached] unfolding p by blast
  show ?thesis by (intro exI conjI) (rule reached c(2) p r)+
qed

end
