(* ===== verification/Broker_Link.thy ===== *)
theory Broker_Link
  imports Broker_Run Broker_Delivery
begin

text \<open>
  One connection as its client sees it: which events change its table of channels and how, and what is
  sent on it.
\<close>

section \<open>The table of a connection\<close>

definition known :: "conn \<Rightarrow> 'db broker \<Rightarrow> bool" where
  "known n b \<longleftrightarrow> select_connection n (br_connections b) \<noteq> None"

fun retables :: "conn \<Rightarrow> event \<Rightarrow> bool" where
  "retables n (Connected c) \<longleftrightarrow> c = n"
| "retables n (Disconnected c) \<longleftrightarrow> c = n"
| "retables n (Request c u r) \<longleftrightarrow> c = n \<and> \<not> needs_channel r"
| "retables n Worker \<longleftrightarrow> False"

lemma on_channel_connections: "on_channel c j handler b = Inr b' \<Longrightarrow> br_connections b' = br_connections b"
  by (auto simp: on_channel_def close_unknown_def rbind_Inr_conv split: option.splits)

lemma request_connections:
  "needs_channel r \<Longrightarrow> onProtobufMessage L u c r b = Inr b' \<Longrightarrow> br_connections b' = br_connections b"
  by (cases r) (auto simp: on_declareExchange_def on_deleteExchange_def on_declareQueue_def on_deleteQueue_def
      on_bind_def on_unbind_def on_basicPublish_def on_basicAck_def on_basicConsume_def on_basicCancel_def
      on_basicQuery_def dest: on_channel_connections)

lemma connections_kept:
  assumes "broker_step L e b = Inr b'" and "\<not> retables n e"
  shows "select_connection n (br_connections b') = select_connection n (br_connections b)"
proof (cases e)
  case (Connected c)
  then show ?thesis
    using assms by (auto simp: onConnection_def new_connection_def select_connection_def um_find_insert split: option.splits)
next
  case (Disconnected c)
  then show ?thesis
    using assms
    by (auto simp: onConnection_def delete_connection_def select_connection_def um_find_erase rbind_Inr_conv split: option.splits)
next
  case (Request c u r)
  show ?thesis
  proof (cases "needs_channel r")
    case True
    then show ?thesis using assms(1) by (simp add: Request request_connections)
  next
    case False
    then have "c \<noteq> n" using assms(2) Request by simp
    then show ?thesis
      using False assms(1) Request
      by (cases r) (auto simp: on_openChannel_def on_closeChannel_def onUnknownMessage_def close_unknown_def
          select_connection_def um_find_put rbind_Inr_conv split: option.splits prod.splits)
  qed
next
  case Worker
  then show ?thesis using assms by (auto simp: rbind_Inr_conv)
qed

lemma link_kept:
  assumes "broker_step L e b = Inr b'" and "\<not> retables n e"
  shows "known n b' = known n b" and "channel_at n cid b' = channel_at n cid b"
  using connections_kept [OF assms] by (simp_all add: known_def channel_at_def)

lemma link_opened:
  assumes "broker_step L (Request n u (OpenChannelRequest i j)) b = Inr b'" and "known n b"
  shows "known n b'" and "channel_at n cid b' \<noteq> None \<longleftrightarrow> cid = j \<or> channel_at n cid b \<noteq> None"
  using assms
  by (auto simp: known_def channel_at_def on_openChannel_def cn_open_channel_def cm_open_channel_def select_connection_def
      cn_select_channel_def cm_select_channel_def um_find_put um_find_insert Let_def split: option.splits if_splits)

lemma link_closed:
  assumes "broker_step L (Request n u (CloseChannelRequest i j)) b = Inr b'" and "known n b"
  shows "known n b'" and "channel_at n cid b' \<noteq> None \<longleftrightarrow> cid \<noteq> j \<and> channel_at n cid b \<noteq> None"
  using assms
  by (auto simp: known_def channel_at_def on_closeChannel_def cn_close_channel_def cm_close_channel_def select_connection_def
      cn_select_channel_def cm_select_channel_def um_find_put um_find_erase rbind_Inr_conv Let_def split: option.splits if_splits)

lemma link_connected:
  assumes "onConnection n True b = Inr b'" and "\<not> known n b"
  shows "known n b'" and "channel_at n cid b' = None"
  using assms
  by (auto simp: known_def channel_at_def onConnection_def new_connection_def connection_new_def select_connection_def
      cn_select_channel_def cm_select_channel_def um_find_insert split: option.splits)

section \<open>What is sent\<close>

text \<open>The responses sent on a connection, in order.\<close>

fun to_conn :: "conn \<Rightarrow> outgoing \<Rightarrow> response list" where
  "to_conn n (Send c r) = (if c = n then [r] else [])"
| "to_conn n (Shutdown c) = []"

definition sent_to :: "conn \<Rightarrow> 'db broker \<Rightarrow> response list" where
  "sent_to n b = concat (map (to_conn n) (sv_out (br_server b)))"

lemma sent_to_more:
  "sv_out (br_server b') = sv_out (br_server b) @ outs \<Longrightarrow> sent_to n b' = sent_to n b @ concat (map (to_conn n) outs)"
  by (simp add: sent_to_def)

lemma answer_is_answer: "response_to r resp \<Longrightarrow> is_answer resp"
  by (cases resp) simp_all

text \<open>What an event sends: answers to requests, pushes of the worker on open channels.\<close>

fun event_sends :: "'db broker \<Rightarrow> event \<Rightarrow> outgoing list \<Rightarrow> bool" where
  "event_sends b (Request c u r) outs \<longleftrightarrow> replies b c r outs"
| "event_sends b Worker outs \<longleftrightarrow>
     (\<forall>x \<in> set outs. \<exists>k resp. x = Send k resp \<and> \<not> is_answer resp \<and> channel_at k (rs_cid resp) b \<noteq> None)"
| "event_sends b e outs \<longleftrightarrow> outs = []"

lemma advance_out [simp]: "sv_out (advance_pool s) = sv_out s"
  by (simp add: advance_pool_def split: option.split prod.split)

lemma destroy_channels_out: "destroy_channels as s = Inr s' \<Longrightarrow> sv_out s' = sv_out s"
  by (induction as arbitrary: s) (auto simp: rbind_Inr_conv dest: destroy_channel_out)

lemma connection_sends: "onConnection c up b = Inr b' \<Longrightarrow> sv_out (br_server b') = sv_out (br_server b)"
  by (auto simp: onConnection_def delete_connection_def rbind_Inr_conv destroy_channels_out split: if_splits option.splits)

lemma consume_step_sends:
  assumes "consume_step L this q s = Inr (fin, s')" and "channels_ok b" and "s = br_server b"
  shows "\<exists>outs. sv_out s' = sv_out s @ outs \<and> event_sends b Worker outs"
proof (cases "sv_job s")
  case (Chosen m cp)
  obtain ch where ch: "deref_channel (cs_callback cp) s = Inr ch"
    using assms(1) by (cases "deref_channel (cs_callback cp) s") (auto simp: consume_step_def Chosen consume_deliver_def consume_cb_def)
  then have "ident (cs_callback cp) s = Some (ch_conn ch, ch_cid ch)" by (simp add: ident_def)
  then have "channel_at (ch_conn ch) (ch_cid ch) b \<noteq> None" using channels_okD(3) [OF assms(2)] assms(3) by auto
  then show ?thesis
    using assms(1) ch by (auto simp: consume_step_def Chosen consume_deliver_def consume_cb_def Let_def)
qed (use assms(1) in \<open>auto simp: consume_step_def consume_front_def consume_choose_def consume_ack_def rbind_Inr_conv
    split: option.splits prod.splits if_splits\<close>)

lemma worker_sends:
  assumes "worker_step L (br_server b) = Inr s'" and "channels_ok b"
  shows "\<exists>outs. sv_out s' = sv_out (br_server b) @ outs \<and> event_sends b Worker outs"
proof (cases "\<exists>this q ts. tp_threads (sv_pool (br_server b)) ! 0 = Executing (Consume this q # ts)")
  case True
  then obtain this q ts fin s1 where "tp_threads (sv_pool (br_server b)) ! 0 = Executing (Consume this q # ts)"
    and s1: "consume_step L this q (br_server b) = Inr (fin, s1)" and "sv_out s' = sv_out s1"
    using assms(1) by (auto simp: worker_step_def rbind_Inr_conv split: if_splits)
  then show ?thesis using consume_step_sends [OF s1 assms(2)] by simp
next
  case False
  then have "s' = advance_pool (br_server b)"
    using assms(1) by (auto simp: worker_step_def split: thread.splits list.splits task.splits)
  then show ?thesis by (intro exI [of _ "[]"]) simp
qed

lemma event_outputs:
  assumes rel: "broker_rel L tabs M N basedir b H" and ok: "event_ok L M N e b H" and step: "broker_step L e b = Inr b'"
  shows "\<exists>outs. sv_out (br_server b') = sv_out (br_server b) @ outs \<and> event_sends b e outs"
proof (cases e)
  case (Request c u r)
  then show ?thesis using broker_follows [OF rel ok] step by (auto simp: event_follows_def)
next
  case Worker
  then obtain s' where "worker_step L (br_server b) = Inr s'" "b' = b\<lparr>br_server := s'\<rparr>"
    using step by (auto simp: rbind_Inr_conv)
  then show ?thesis using worker_sends [of L b s'] rel by (simp add: Worker broker_rel_def)
qed (use step in \<open>auto dest: connection_sends\<close>)

end
