(* ===== verification/Client_Server.thy ===== *)
theory Client_Server
  imports Client_Delivery Broker_Link Broker_Sample
begin

text \<open>
  A client and the server at the two ends of a connection.  The connection carries requests one way
  and responses the other, in order and without loss; all other clients of the server are events of
  the server.
\<close>

section \<open>The connected pair\<close>

text \<open>
  What the client has sent and the server has put out are logs; \<open>wd_taken\<close> and \<open>wd_arrived\<close> count how
  much of each has reached the other end.
\<close>

record ('db, 'cb) world =
  wd_broker :: "'db broker"
  wd_client :: "'cb client"
  wd_taken :: nat
  wd_arrived :: nat

definition requests_under_way :: "('db, 'cb) world \<Rightarrow> request list" where
  "requests_under_way w = drop (wd_taken w) (ct_sent (wd_client w))"

definition responses_under_way :: "conn \<Rightarrow> ('db, 'cb) world \<Rightarrow> response list" where
  "responses_under_way n w = drop (wd_arrived w) (sent_to n (wd_broker w))"

datatype 'cb world_event =
  Takes "string \<Rightarrow> string" \<comment> \<open>the server handles the next request of the client\<close>
| Serves event \<comment> \<open>the server does something else\<close>
| Arrives \<comment> \<open>the client receives the next response\<close>
| Does "'cb client_event"

fun elsewhere :: "conn \<Rightarrow> event \<Rightarrow> bool" where
  "elsewhere n (Connected c) \<longleftrightarrow> c \<noteq> n"
| "elsewhere n (Disconnected c) \<longleftrightarrow> c \<noteq> n"
| "elsewhere n (Request c u r) \<longleftrightarrow> c \<noteq> n"
| "elsewhere n Worker \<longleftrightarrow> True"

fun opens :: "string \<Rightarrow> request \<Rightarrow> bool" where
  "opens cid (OpenChannelRequest i j) \<longleftrightarrow> j = cid"
| "opens cid r \<longleftrightarrow> False"

fun closes :: "string \<Rightarrow> request \<Rightarrow> bool" where
  "closes cid (CloseChannelRequest i j) \<longleftrightarrow> j = cid"
| "closes cid r \<longleftrightarrow> False"

definition opened :: "string \<Rightarrow> request list \<Rightarrow> bool" where
  "opened cid rs \<longleftrightarrow> (\<exists>r \<in> set rs. opens cid r)"

definition closed :: "string \<Rightarrow> request list \<Rightarrow> bool" where
  "closed cid rs \<longleftrightarrow> (\<exists>r \<in> set rs. closes cid r)"

text \<open>
  The client connects once, to this server, opens channels only when its connection is stored (that it
  may do so earlier is \<open>connect_race_is_undefined\<close>) and calls nothing on a channel it has closed.
\<close>

fun disciplined :: "conn \<Rightarrow> 'cb client_event \<Rightarrow> 'cb client \<Rightarrow> bool" where
  "disciplined n (LoopCounts k) c \<longleftrightarrow> k = n \<and> ct_conn c = None"
| "disciplined n (Receive resp) c \<longleftrightarrow> False"
| "disciplined n ReceiveUnknown c \<longleftrightarrow> False"
| "disciplined n (OpenChannel cid rid) c \<longleftrightarrow> ct_conn c \<noteq> None"
| "disciplined n (Begin a op rid) c \<longleftrightarrow> \<not> closed (cc_cid (ct_objects c ! a)) (ct_sent c)"
| "disciplined n e c \<longleftrightarrow> True"

fun world_enabled :: "conn \<Rightarrow> 'cb world_event \<Rightarrow> ('db, 'cb) world \<Rightarrow> bool" where
  "world_enabled n (Takes u) w \<longleftrightarrow> requests_under_way w \<noteq> []"
| "world_enabled n (Serves e) w \<longleftrightarrow> elsewhere n e"
| "world_enabled n Arrives w \<longleftrightarrow> responses_under_way n w \<noteq> [] \<and>
     enabled (Receive (hd (responses_under_way n w))) (wd_client w)"
| "world_enabled n (Does e) w \<longleftrightarrow> enabled e (wd_client w) \<and> disciplined n e (wd_client w)"

text \<open>The event of the server, if it is one.\<close>

fun server_event :: "conn \<Rightarrow> 'cb world_event \<Rightarrow> ('db, 'cb) world \<Rightarrow> event option" where
  "server_event n (Takes u) w = Some (Request n u (hd (requests_under_way w)))"
| "server_event n (Serves e) w = Some e"
| "server_event n x w = None"

fun world_step :: "'db libs \<Rightarrow> conn \<Rightarrow> 'cb world_event \<Rightarrow> ('db, 'cb) world \<Rightarrow> ('db, 'cb) world result" where
  "world_step L n (Takes u) w =
     rbind (broker_step L (Request n u (hd (requests_under_way w))) (wd_broker w)) (\<lambda>b.
       Inr (w\<lparr>wd_broker := b, wd_taken := Suc (wd_taken w)\<rparr>))"
| "world_step L n (Serves e) w = rbind (broker_step L e (wd_broker w)) (\<lambda>b. Inr (w\<lparr>wd_broker := b\<rparr>))"
| "world_step L n Arrives w =
     rbind (client_step (Receive (hd (responses_under_way n w))) (wd_client w)) (\<lambda>c.
       Inr (w\<lparr>wd_client := c, wd_arrived := Suc (wd_arrived w)\<rparr>))"
| "world_step L n (Does e) w = rbind (client_step e (wd_client w)) (\<lambda>c. Inr (w\<lparr>wd_client := c\<rparr>))"

text \<open>The rules clients keep towards the server, and the calls of the host an event makes.\<close>

definition world_ok :: "'db libs \<Rightarrow> nat \<Rightarrow> nat \<Rightarrow> conn \<Rightarrow> 'cb world_event \<Rightarrow> ('db, 'cb) world \<Rightarrow> spec_host \<Rightarrow> bool" where
  "world_ok L M N n x w H \<longleftrightarrow>
     (case server_event n x w of None \<Rightarrow> True | Some e \<Rightarrow> event_ok L M N e (wd_broker w) H)"

definition world_after :: "'db libs \<Rightarrow> conn \<Rightarrow> 'cb world_event \<Rightarrow> ('db, 'cb) world \<Rightarrow> spec_host \<Rightarrow> spec_host" where
  "world_after L n x w H =
     (case server_event n x w of None \<Rightarrow> H | Some e \<Rightarrow> host_after (event_cmds L e (wd_broker w)) H)"

fun target :: "outgoing \<Rightarrow> conn" where
  "target (Send c r) = c"
| "target (Shutdown c) = c"

text \<open>
  The connection is made to a server in any reachable state that does not know it yet; from then on the
  two sides and the server's other clients move in any order.
\<close>

inductive world_runs ::
  "'db libs \<Rightarrow> nat \<Rightarrow> nat \<Rightarrow> string \<Rightarrow> fs \<Rightarrow> 'db \<Rightarrow> conn \<Rightarrow> ('db, 'cb) world \<Rightarrow> spec_host \<Rightarrow> bool"
  for L M N basedir s0 db0 n where
  connect: "\<lbrakk>server_runs L M N basedir s0 db0 b cmds H; \<not> known n b; \<forall>x \<in> set (sv_out (br_server b)). target x \<noteq> n;
      broker_step L (Connected n) b = Inr b'\<rbrakk> \<Longrightarrow>
    world_runs L M N basedir s0 db0 n \<lparr>wd_broker = b', wd_client = client_new, wd_taken = 0, wd_arrived = 0\<rparr> H"
| step: "\<lbrakk>world_runs L M N basedir s0 db0 n w H; world_enabled n x w; world_ok L M N n x w H;
      world_step L n x w = Inr w'\<rbrakk> \<Longrightarrow>
    world_runs L M N basedir s0 db0 n w' (world_after L n x w H)"

section \<open>The server's end\<close>

lemma opened_snoc [simp]: "opened cid (rs @ [r]) \<longleftrightarrow> opened cid rs \<or> opens cid r"
  by (auto simp: opened_def)

lemma closed_snoc [simp]: "closed cid (rs @ [r]) \<longleftrightarrow> closed cid rs \<or> closes cid r"
  by (auto simp: closed_def)

lemma opened_Nil [simp]: "\<not> opened cid []" and closed_Nil [simp]: "\<not> closed cid []"
  by (simp_all add: opened_def closed_def)

text \<open>Which request may come next.\<close>

fun may_follow :: "request list \<Rightarrow> request \<Rightarrow> bool" where
  "may_follow rs (OpenChannelRequest i j) \<longleftrightarrow> \<not> opened j rs \<and> \<not> closed j rs"
| "may_follow rs (OtherMessage t) \<longleftrightarrow> False"
| "may_follow rs r \<longleftrightarrow> opened (rq_cid r) rs \<and> \<not> closed (rq_cid r) rs"

lemma may_follow_closed: "may_follow rs r \<Longrightarrow> \<not> closed (rq_cid r) rs"
  by (cases r) auto

lemma may_follow_known: "may_follow rs r \<Longrightarrow> known_type r"
  by (cases r) auto

definition orderly :: "request list \<Rightarrow> bool" where
  "orderly rs \<longleftrightarrow> (\<forall>p < length rs. may_follow (take p rs) (rs ! p))"

lemma orderly_snoc: "orderly (rs @ [r]) \<longleftrightarrow> orderly rs \<and> may_follow rs r"
  by (auto simp: orderly_def nth_append less_Suc_eq)

definition answered_before :: "response list \<Rightarrow> nat \<Rightarrow> nat" where
  "answered_before out j = length (filter is_answer (take j out))"

text \<open>Messages are pushed only on channels that the requests answered so far leave open.\<close>

definition pushes_ok :: "request list \<Rightarrow> response list \<Rightarrow> bool" where
  "pushes_ok ts out \<longleftrightarrow> (\<forall>j < length out. \<not> is_answer (out ! j) \<longrightarrow>
     opened (rs_cid (out ! j)) (take (answered_before out j) ts) \<and>
     \<not> closed (rs_cid (out ! j)) (take (answered_before out j) ts))"

text \<open>The server's end after it has handled the requests \<open>ts\<close>.\<close>

definition link_ok :: "conn \<Rightarrow> 'db broker \<Rightarrow> request list \<Rightarrow> bool" where
  "link_ok n b ts \<longleftrightarrow> known n b \<and>
     (\<forall>cid. channel_at n cid b \<noteq> None \<longleftrightarrow> opened cid ts \<and> \<not> closed cid ts) \<and>
     list_all2 response_to ts (filter is_answer (sent_to n b)) \<and> pushes_ok ts (sent_to n b) \<and>
     Shutdown n \<notin> set (sv_out (br_server b))"

lemma pushes_ok_push:
  assumes "pushes_ok ts out" and "length (filter is_answer out) = length ts"
    and "\<forall>x \<in> set ps. \<not> is_answer x \<and> opened (rs_cid x) ts \<and> \<not> closed (rs_cid x) ts"
  shows "pushes_ok ts (out @ ps)"
  unfolding pushes_ok_def
proof (intro allI impI)
  fix j assume j: "j < length (out @ ps)" and push: "\<not> is_answer ((out @ ps) ! j)"
  show "opened (rs_cid ((out @ ps) ! j)) (take (answered_before (out @ ps) j) ts) \<and>
    \<not> closed (rs_cid ((out @ ps) ! j)) (take (answered_before (out @ ps) j) ts)"
  proof (cases "j < length out")
    case True
    then show ?thesis using assms(1) push by (auto simp: pushes_ok_def nth_append answered_before_def)
  next
    case False
    then have "(out @ ps) ! j \<in> set ps" using j by (auto simp: nth_append)
    moreover have "length ts \<le> answered_before (out @ ps) j" using False assms(2) by (simp add: answered_before_def)
    ultimately show ?thesis using assms(3) by simp
  qed
qed

lemma pushes_ok_answer:
  assumes "pushes_ok ts out" and "length (filter is_answer out) = length ts" and "is_answer resp"
  shows "pushes_ok (ts @ [r]) (out @ [resp])"
  unfolding pushes_ok_def
proof (intro allI impI)
  fix j assume "j < length (out @ [resp])" and push: "\<not> is_answer ((out @ [resp]) ! j)"
  then have j: "j < length out" using assms(3) by (auto simp: nth_append split: if_splits)
  have "answered_before out j \<le> length (filter is_answer (take j out @ drop j out))"
    unfolding answered_before_def filter_append by simp
  then have "answered_before out j \<le> length ts" using assms(2) by simp
  then show "opened (rs_cid ((out @ [resp]) ! j)) (take (answered_before (out @ [resp]) j) (ts @ [r])) \<and>
    \<not> closed (rs_cid ((out @ [resp]) ! j)) (take (answered_before (out @ [resp]) j) (ts @ [r]))"
    using assms(1) push j by (simp add: pushes_ok_def nth_append answered_before_def)
qed

lemma link_answers: "link_ok n b ts \<Longrightarrow> length (filter is_answer (sent_to n b)) = length ts"
  by (auto simp: link_ok_def dest: list_all2_lengthD)


text \<open>What happens elsewhere sends nothing on the connection but messages for channels open on it.\<close>

lemma elsewhere_sends:
  assumes rel: "broker_rel L tabs M N basedir b H" and ok: "event_ok L M N e b H"
    and step: "broker_step L e b = Inr b'" and e: "elsewhere n e"
  shows "\<exists>outs. sv_out (br_server b') = sv_out (br_server b) @ outs \<and> Shutdown n \<notin> set outs \<and>
    (\<forall>x \<in> set (concat (map (to_conn n) outs)). \<not> is_answer x \<and> channel_at n (rs_cid x) b \<noteq> None)"
proof -
  obtain outs where outs: "sv_out (br_server b') = sv_out (br_server b) @ outs" "event_sends b e outs"
    using event_outputs [OF rel ok step] by blast
  have "(\<forall>x \<in> set (concat (map (to_conn n) outs)). \<not> is_answer x \<and> channel_at n (rs_cid x) b \<noteq> None) \<and> Shutdown n \<notin> set outs"
  proof (cases e)
    case (Request c u r)
    then have "c \<noteq> n" using e by simp
    then have "concat (map (to_conn n) outs) = []" and "Shutdown n \<notin> set outs"
      using outs(2) by (auto simp: Request replies_def split: if_splits)
    then show ?thesis by simp
  next
    case Worker
    then have worker: "\<exists>k resp. x = Send k resp \<and> \<not> is_answer resp \<and> channel_at k (rs_cid resp) b \<noteq> None" if "x \<in> set outs" for x
      using outs(2) that by auto
    have "\<not> is_answer y \<and> channel_at n (rs_cid y) b \<noteq> None" if "x \<in> set outs" "y \<in> set (to_conn n x)" for x y
      using worker [OF that(1)] that(2) by (auto split: if_splits)
    moreover have "Shutdown n \<notin> set outs" using worker by fastforce
    ultimately show ?thesis by auto
  qed (use outs(2) in simp_all)
  with outs(1) show ?thesis by blast
qed

lemma link_other:
  assumes link: "link_ok n b ts" and rel: "broker_rel L tabs M N basedir b H" and ok: "event_ok L M N e b H"
    and step: "broker_step L e b = Inr b'" and e: "elsewhere n e"
  shows "link_ok n b' ts"
proof -
  have "\<not> retables n e" using e by (cases e) auto
  note kept = link_kept [OF step this]
  obtain outs where outs: "sv_out (br_server b') = sv_out (br_server b) @ outs" and down: "Shutdown n \<notin> set outs"
    and sends: "\<forall>x \<in> set (concat (map (to_conn n) outs)). \<not> is_answer x \<and> channel_at n (rs_cid x) b \<noteq> None"
    using elsewhere_sends [OF rel ok step e] by blast
  let ?ps = "concat (map (to_conn n) outs)"
  have pushes: "\<forall>x \<in> set ?ps. \<not> is_answer x \<and> opened (rs_cid x) ts \<and> \<not> closed (rs_cid x) ts"
    using sends link unfolding link_ok_def by blast
  then have none: "filter is_answer ?ps = []" by (auto simp: filter_empty_conv)
  have "pushes_ok ts (sent_to n b @ ?ps)"
    using link pushes by (intro pushes_ok_push link_answers) (simp_all add: link_ok_def)
  then show ?thesis
    using link none down kept(1) kept(2) outs by (simp add: link_ok_def sent_to_more [OF outs])
qed

lemma link_taken:
  assumes link: "link_ok n b ts" and rel: "broker_rel L tabs M N basedir b H"
    and ok: "event_ok L M N (Request n u r) b H" and step: "broker_step L (Request n u r) b = Inr b'"
    and next_one: "may_follow ts r"
  shows "link_ok n b' (ts @ [r])"
proof -
  have known: "known n b" and at: "\<And>cid. channel_at n cid b \<noteq> None \<longleftrightarrow> opened cid ts \<and> \<not> closed cid ts"
    using link unfolding link_ok_def by blast+
  obtain outs where outs: "sv_out (br_server b') = sv_out (br_server b) @ outs" "replies b n r outs"
    using event_outputs [OF rel ok step] by auto
  have "\<not> (needs_channel r \<and> channel_at n (rq_cid r) b = None)"
    using next_one at [of "rq_cid r"] by (cases r) auto
  then obtain resp where resp: "outs = [Send n resp]" "response_to r resp"
    using outs(2) known may_follow_known [OF next_one] by (auto simp: replies_def known_def split: if_splits)
  have answer: "is_answer resp" by (rule answer_is_answer [OF resp(2)])
  have table: "known n b' \<and> (\<forall>cid. channel_at n cid b' \<noteq> None \<longleftrightarrow> opened cid (ts @ [r]) \<and> \<not> closed cid (ts @ [r]))"
  proof (cases "needs_channel r")
    case True
    then have "\<not> retables n (Request n u r)" and "\<And>cid. \<not> opens cid r \<and> \<not> closes cid r" by (simp, cases r, auto)
    then show ?thesis using link_kept [OF step] known at by auto
  next
    case False
    then show ?thesis
      using next_one at link_opened [of L n u _ _ b b'] link_closed [of L n u _ _ b b'] step known by (cases r) auto
  qed
  have "list_all2 response_to (ts @ [r]) (filter is_answer (sent_to n b @ [resp]))"
    using link resp(2) answer by (auto simp: link_ok_def intro: list_all2_appendI)
  moreover have "pushes_ok (ts @ [r]) (sent_to n b @ [resp])"
    using link answer by (intro pushes_ok_answer link_answers) (simp_all add: link_ok_def)
  ultimately show ?thesis
    using table link outs(1) by (simp add: link_ok_def sent_to_more [OF outs(1)] resp(1))
qed

lemma link_new:
  assumes "\<not> known n b" and quiet: "\<forall>x \<in> set (sv_out (br_server b)). target x \<noteq> n"
    and step: "broker_step L (Connected n) b = Inr b'"
  shows "link_ok n b' []" and "sent_to n b' = []"
proof -
  have table: "known n b'" "\<And>cid. channel_at n cid b' = None"
    using link_connected [of n b b'] assms by simp_all
  have out: "sv_out (br_server b') = sv_out (br_server b)" using step by (simp add: connection_sends)
  have "to_conn n x = []" if "x \<in> set (sv_out (br_server b))" for x
    using quiet that by (cases x) fastforce+
  then show none: "sent_to n b' = []" by (simp add: sent_to_def out)
  have "Shutdown n \<notin> set (sv_out (br_server b'))" using quiet out by fastforce
  then show "link_ok n b' []" using table by (simp add: link_ok_def none pushes_ok_def)
qed

end
