(* ===== verification/Client_End.thy ===== *)
theory Client_End
  imports Client_Server
begin

text \<open>
  The client's end of the connection: an invariant of a disciplined client about what it has sent, which
  channels it has listed and which responses its calls have got.
\<close>

section \<open>Requests of calls\<close>

fun awaits :: "'cb call \<Rightarrow> request \<Rightarrow> bool" where
  "awaits (Returned r) req \<longleftrightarrow> False"
| "awaits (Await req' k) req \<longleftrightarrow> req = req'"
| "awaits (AwaitQuery req') req \<longleftrightarrow> req = req'"

lemma awaits_start:
  assumes "awaits (start_call op rid ch) req"
  shows "rq_rid req = rid" and "rq_cid req = cc_cid ch" and "opens cid req \<longleftrightarrow> op = OpOpen \<and> cid = cc_cid ch"
    and "closes cid req \<longleftrightarrow> op = OpClose \<and> cid = cc_cid ch" and "is_query req \<longleftrightarrow> op = OpQuery"
    and "op \<noteq> OpOpen \<Longrightarrow> may_follow rs req \<longleftrightarrow> opened (cc_cid ch) rs \<and> \<not> closed (cc_cid ch) rs"
  using assms by (cases op; auto simp: method_defs Let_def split: option.splits if_splits)+

lemma awaits_close: "awaits (start_call OpClose rid ch) req \<Longrightarrow> req = CloseChannelRequest rid (cc_cid ch)"
  by (simp add: close_server_channel_def)

lemma resume_ready:
  assumes "awaits (start_call op rid ch0) req"
  shows "resume (start_call op rid ch0) ch \<noteq> None \<longleftrightarrow>
    (if is_query req then map_of (cc_basic_query_resp ch) rid \<noteq> None else map_of (cc_basic_resp ch) rid \<noteq> None)"
proof (cases "start_call op rid ch0")
  case (Await req' k)
  then have "op \<noteq> OpQuery" by (auto simp: cl_basic_query_def)
  then show ?thesis
    using Await assms awaits_start(1,5) [OF assms] by (auto simp: wait_response_def split: option.split)
next
  case (AwaitQuery req')
  then show ?thesis
    using assms start_call_AwaitQuery [OF AwaitQuery] by (auto simp: wait_query_response_def split: option.split)
qed (use assms in simp)

lemma begin_call_cases:
  assumes "begin_call a op rid c = Inr c'"
  obtains (declined) "\<And>req. \<not> awaits (start_call op rid (ct_objects c ! a)) req"
      "c' = c\<lparr>ct_done := ct_done c @ [(rid, a, op, declined op)]\<rparr>"
  | (sent) req where "awaits (start_call op rid (ct_objects c ! a)) req" "cc_conn (ct_objects c ! a) \<noteq> None"
      "c' = c\<lparr>ct_sent := ct_sent c @ [req],
         ct_calls := um_insert rid (a, op, start_call op rid (ct_objects c ! a)) (ct_calls c)\<rparr>"
  using assms
  by (cases "start_call op rid (ct_objects c ! a)") (auto simp: begin_call_def Let_def dest: start_call_Returned split: if_splits)

lemma done_okD:
  assumes "done_ok rs c" and "(rid, a, op, r) \<in> set (ct_done c)"
  shows "a < length (ct_objects c)" and "earned rs (ct_sent c) (cc_cid (ct_objects c ! a)) rid op r"
  using assms unfolding done_ok_def by (auto dest: bspec)

section \<open>The invariant\<close>

text \<open>The connection is the one, channels hold it, tasks hold channels.\<close>

definition lines_ok :: "conn \<Rightarrow> 'cb client \<Rightarrow> bool" where
  "lines_ok n c \<longleftrightarrow> ct_conn c \<in> {None, Some n} \<and> ct_connecting c \<in> {None, Some n} \<and>
     (\<forall>ch \<in> set (ct_objects c). cc_conn ch = Some n) \<and> distinct (map cc_cid (ct_objects c)) \<and>
     (\<forall>t \<in> set (work (ct_pool c)). fst t \<noteq> None)"

text \<open>Calls under way and closed channels have their requests in the log; only closed channels are not listed.\<close>

definition logged_ok :: "'cb client \<Rightarrow> bool" where
  "logged_ok c \<longleftrightarrow>
     (\<forall>rid a op call. map_of (ct_calls c) rid = Some (a, op, call) \<longrightarrow> (\<exists>req \<in> set (ct_sent c). awaits call req)) \<and>
     (\<forall>rid a r. (rid, a, OpClose, r) \<in> set (ct_done c) \<longrightarrow>
        CloseChannelRequest rid (cc_cid (ct_objects c ! a)) \<in> set (ct_sent c)) \<and>
     (\<forall>a < length (ct_objects c). map_of (ct_channels c) (cc_cid (ct_objects c ! a)) = None \<longrightarrow>
        (\<exists>rid r. (rid, a, OpClose, r) \<in> set (ct_done c)))"

lemma logged_okD:
  assumes "logged_ok c"
  shows "map_of (ct_calls c) rid = Some (a, op, call) \<Longrightarrow> \<exists>req \<in> set (ct_sent c). awaits call req"
    and "(rid, a, OpClose, r) \<in> set (ct_done c) \<Longrightarrow> CloseChannelRequest rid (cc_cid (ct_objects c ! a)) \<in> set (ct_sent c)"
    and "a < length (ct_objects c) \<Longrightarrow> map_of (ct_channels c) (cc_cid (ct_objects c ! a)) = None \<Longrightarrow>
      \<exists>rid r. (rid, a, OpClose, r) \<in> set (ct_done c)"
  using assms unfolding logged_ok_def by blast+

definition traffic_ok :: "'cb client \<Rightarrow> bool" where
  "traffic_ok c \<longleftrightarrow> orderly (ct_sent c) \<and> (\<forall>cid. opened cid (ct_sent c) \<longleftrightarrow> cid \<in> cc_cid ` set (ct_objects c))"

text \<open>A call whose response has been received can finish.\<close>

definition stored_ok :: "response list \<Rightarrow> 'cb client \<Rightarrow> bool" where
  "stored_ok rs c \<longleftrightarrow> (\<forall>rid a op call req resp. map_of (ct_calls c) rid = Some (a, op, call) \<longrightarrow> awaits call req \<longrightarrow>
     resp \<in> set rs \<longrightarrow> response_to req resp \<longrightarrow> resume call (ct_objects c ! a) \<noteq> None)"

definition end_ok :: "conn \<Rightarrow> response list \<Rightarrow> 'cb client \<Rightarrow> bool" where
  "end_ok n rs c \<longleftrightarrow> client_inv rs c \<and> lines_ok n c \<and> logged_ok c \<and> traffic_ok c \<and> stored_ok rs c"

lemma end_ok_new: "end_ok n [] client_new"
proof -
  have "work (thread_pool_new 1) = ([] :: (nat option \<times> response) list)"
    by (simp add: work_def in_threads_def thread_pool_new_def)
  then show ?thesis
    using client_inv_new
    by (simp add: end_ok_def lines_ok_def logged_ok_def traffic_ok_def stored_ok_def orderly_def) (simp add: client_new_def)
qed

lemma orderly_closed: "orderly rs \<Longrightarrow> closed cid rs \<Longrightarrow> opened cid rs"
proof (induction rs rule: rev_induct)
  case (snoc r rs)
  then show ?case by (cases r) (auto simp: orderly_snoc)
qed simp

lemma end_ok_same:
  assumes "end_ok n rs c" and "same_calls c c'" and "lines_ok n c'" and "client_inv rs c'"
  shows "end_ok n rs c'"
  using assms by (simp add: end_ok_def same_calls_def logged_ok_def traffic_ok_def stored_ok_def)

section \<open>Beginning calls\<close>

lemma begin_logged:
  assumes step: "begin_call a op rid c = Inr c'" and ok: "logged_ok c" and fresh: "fresh_id rid c"
  shows "logged_ok c'"
  using step
proof (cases rule: begin_call_cases)
  case declined
  have "op \<noteq> OpClose"
    using declined(1) [of "CloseChannelRequest rid (cc_cid (ct_objects c ! a))"] by (auto simp: close_server_channel_def)
  then show ?thesis using ok declined(2) by (auto simp: logged_ok_def)
next
  case (sent req)
  have "map_of (ct_calls c) rid = None" using fresh by (cases "map_of (ct_calls c) rid") (auto simp: fresh_id_def um_keys_iff)
  then show ?thesis using ok sent(1) unfolding sent(3) by (auto simp: logged_ok_def um_find_insert split: if_splits)
qed

text \<open>Identifiers of responses are those of requests sent.\<close>

definition answers_known :: "response list \<Rightarrow> 'cb client \<Rightarrow> bool" where
  "answers_known rs c \<longleftrightarrow> (\<forall>resp \<in> set rs. is_answer resp \<longrightarrow> rs_rid resp \<in> rq_rid ` set (ct_sent c))"

lemma response_rid: "response_to req resp \<Longrightarrow> is_answer resp \<and> rs_rid resp = rq_rid req \<and> rs_cid resp = rq_cid req"
  by (cases resp) auto

lemma fresh_not_sent: "client_inv rs c \<Longrightarrow> fresh_id rid c \<Longrightarrow> rid \<notin> rq_rid ` set (ct_sent c)"
  by (auto simp: client_inv_def ids_ok_def fresh_id_def)

lemma begin_stored:
  assumes step: "begin_call a op rid c = Inr c'" and ok: "stored_ok rs c"
    and unused: "\<forall>resp \<in> set rs. is_answer resp \<longrightarrow> rs_rid resp \<noteq> rid"
  shows "stored_ok rs c'"
  using step
proof (cases rule: begin_call_cases)
  case declined
  then show ?thesis using ok by (simp add: stored_ok_def)
next
  case (sent req)
  have "\<not> response_to req' resp" if "awaits (start_call op rid (ct_objects c ! a)) req'" "resp \<in> set rs" for req' resp
    using awaits_start(1) [OF that(1)] response_rid [of req' resp] unused that(2) by auto
  then show ?thesis using ok unfolding sent(3) stored_ok_def by (auto simp: um_find_insert split: if_splits option.splits)
qed

lemma begin_lines: "begin_call a op rid c = Inr c' \<Longrightarrow> lines_ok n c \<Longrightarrow> lines_ok n c'"
  by (auto simp: begin_call_def lines_ok_def Let_def split: call.splits if_splits)

lemma begin_end_ok:
  assumes ok: "end_ok n rs c" and step: "client_step (Begin a op rid) c = Inr c'" and en: "enabled (Begin a op rid) c"
    and inv: "client_inv rs c'" and known: "answers_known rs c" and still: "\<not> closed (cc_cid (ct_objects c ! a)) (ct_sent c)"
  shows "end_ok n rs c'"
proof -
  have begun: "begin_call a op rid c = Inr c'" and a: "a < length (ct_objects c)" and fresh: "fresh_id rid c" and op: "op \<noteq> OpOpen"
    using step en by simp_all
  have "traffic_ok c'"
    using begun
  proof (cases rule: begin_call_cases)
    case declined
    then show ?thesis using ok by (simp add: end_ok_def traffic_ok_def)
  next
    case (sent req)
    have "opened (cc_cid (ct_objects c ! a)) (ct_sent c)" using ok a by (simp add: end_ok_def traffic_ok_def)
    then have "may_follow (ct_sent c) req" and "\<And>cid. \<not> opens cid req"
      using awaits_start(3,6) [OF sent(1)] op still by simp_all
    then show ?thesis using ok sent(3) by (simp add: end_ok_def traffic_ok_def orderly_snoc)
  qed
  moreover have "\<forall>resp \<in> set rs. is_answer resp \<longrightarrow> rs_rid resp \<noteq> rid"
    using fresh_not_sent [OF _ fresh] ok known unfolding end_ok_def answers_known_def by fastforce
  ultimately show ?thesis
    using ok inv begin_logged [OF begun _ fresh] begin_stored [OF begun] begin_lines [OF begun] by (simp add: end_ok_def)
qed

section \<open>Opening channels\<close>

lemma open_end_ok:
  assumes ok: "end_ok n rs c" and step: "client_step (OpenChannel cid rid) c = Inr c'" and en: "enabled (OpenChannel cid rid) c"
    and inv: "client_inv rs c'" and known: "answers_known rs c" and conn: "ct_conn c \<noteq> None"
  shows "end_ok n rs c'"
proof -
  let ?ch = "client_channel_new (ct_conn c) cid"
  let ?c1 = "c\<lparr>ct_objects := ct_objects c @ [?ch], ct_channels := um_insert cid (length (ct_objects c)) (ct_channels c)\<rparr>"
  have begun: "begin_call (length (ct_objects c)) OpOpen rid ?c1 = Inr c'"
    using step by (simp add: openChannel_def create_channel_def Let_def)
  have fresh: "fresh_id rid c" and new: "cid \<notin> cc_cid ` set (ct_objects c)"
    using en by (auto simp: list_all_iff)
  have n: "ct_conn c = Some n" using ok conn by (auto simp: end_ok_def lines_ok_def)
  have cinv: "client_inv rs c" and old: "lines_ok n c" "logged_ok c" "traffic_ok c" "stored_ok rs c"
    using ok by (simp_all add: end_ok_def)
  have unlisted: "map_of (ct_channels c) cid = None"
  proof (cases "map_of (ct_channels c) cid")
    case (Some a)
    then have "a < length (ct_objects c) \<and> cc_cid (ct_objects c ! a) = cid" using cinv by (simp add: client_inv_def listed_ok_def)
    then show ?thesis using new nth_mem [of a "ct_objects c"] by blast
  qed simp
  have "lines_ok n ?c1" using old(1) new n by (auto simp: lines_ok_def client_channel_new_def)
  note lines = begin_lines [OF begun this]
  have ended: "a < length (ct_objects c)" if "(i, a, op, r) \<in> set (ct_done c)" for i a op r
    using cinv that by (auto simp: client_inv_def done_ok_def)
  have calls: "a < length (ct_objects c)" if "map_of (ct_calls c) i = Some (a, op, call)" for i a op call
    using calls_okD(1) [OF cinv that] .
  have "logged_ok ?c1"
    unfolding logged_ok_def
  proof (intro conjI allI impI)
    fix i a r assume "(i, a, OpClose, r) \<in> set (ct_done ?c1)"
    then show "CloseChannelRequest i (cc_cid (ct_objects ?c1 ! a)) \<in> set (ct_sent ?c1)"
      using logged_okD(2) [OF old(2)] ended by (simp add: nth_append)
  next
    fix a assume "a < length (ct_objects ?c1)" and none: "map_of (ct_channels ?c1) (cc_cid (ct_objects ?c1 ! a)) = None"
    then have "a < length (ct_objects c)" "map_of (ct_channels c) (cc_cid (ct_objects c ! a)) = None"
      using unlisted by (auto simp: nth_append um_find_insert client_channel_new_def less_Suc_eq split: if_splits option.splits)
    then show "\<exists>i r. (i, a, OpClose, r) \<in> set (ct_done ?c1)" using logged_okD(3) [OF old(2)] by simp
  qed (use old(2) in \<open>simp add: logged_ok_def\<close>)
  then have logged: "logged_ok c'" using begin_logged [OF begun] fresh by (simp add: fresh_id_def)
  have "stored_ok rs ?c1"
    using old(4) calls unfolding stored_ok_def by (simp add: nth_append)
  moreover have "\<forall>resp \<in> set rs. is_answer resp \<longrightarrow> rs_rid resp \<noteq> rid"
    using fresh_not_sent [OF cinv fresh] known unfolding answers_known_def by fastforce
  ultimately have stored: "stored_ok rs c'" using begin_stored [OF begun] by simp
  have c': "ct_sent c' = ct_sent c @ [OpenChannelRequest rid cid]" "ct_objects c' = ct_objects c @ [?ch]"
    using begun n by (auto simp: begin_call_def open_server_channel_def client_channel_new_def)
  have "\<not> opened cid (ct_sent c)" using old(3) new by (simp add: traffic_ok_def)
  moreover from this have "\<not> closed cid (ct_sent c)" using orderly_closed old(3) by (auto simp: traffic_ok_def)
  ultimately have "traffic_ok c'" using old(3) by (auto simp: traffic_ok_def c' orderly_snoc client_channel_new_def)
  then show ?thesis using inv lines logged stored by (simp add: end_ok_def)
qed


section \<open>Finishing calls\<close>

lemma map_update_same: "a < length xs \<Longrightarrow> f x = f (xs ! a) \<Longrightarrow> map f (xs[a := x]) = map f xs"
  by (simp add: map_update list_update_same_conv)

lemma resume_keeps:
  assumes "resume call ch = Some (r, ch')" and "call = start_call op rid ch0" and "i \<noteq> rid"
  shows "map_of (cc_basic_resp ch') i = map_of (cc_basic_resp ch) i"
    and "map_of (cc_basic_query_resp ch') i = map_of (cc_basic_query_resp ch) i"
proof -
  have "map_of (cc_basic_resp ch') i = map_of (cc_basic_resp ch) i \<and>
      map_of (cc_basic_query_resp ch') i = map_of (cc_basic_query_resp ch) i"
  proof (cases call)
    case (Await req k)
    then have rid: "rq_rid req = rid" using start_call_Await(1) [of op rid ch0] assms(2) by simp
    obtain resp where "k (rs_ok resp) (ch\<lparr>cc_basic_resp := um_erase rid (cc_basic_resp ch)\<rparr>) = (r, ch')"
      using assms(1) Await rid by (auto simp: wait_response_def split: option.splits)
    then show ?thesis
      using start_call_Await(4) [of op rid ch0 req k "ch\<lparr>cc_basic_resp := um_erase rid (cc_basic_resp ch)\<rparr>" "rs_ok resp"]
        assms(2,3) Await by (simp add: same_line_def um_find_erase)
  next
    case (AwaitQuery req)
    then have "rq_rid req = rid" using start_call_AwaitQuery [of op rid ch0 req] assms(2) by simp
    then show ?thesis
      using assms(1,3) AwaitQuery by (auto simp: wait_query_response_def um_find_erase split: option.splits)
  qed (use assms(1) in simp)
  then show "map_of (cc_basic_resp ch') i = map_of (cc_basic_resp ch) i"
    and "map_of (cc_basic_query_resp ch') i = map_of (cc_basic_query_resp ch) i" by simp_all
qed

text \<open>What keeps responses in the channels' maps keeps calls ready.\<close>

lemma stored_more:
  assumes inv: "client_inv rs c" and ok: "stored_ok rs c"
    and call: "map_of (ct_calls c) rid = Some (a, op, call)" "awaits call req" "resp \<in> set rs" "response_to req resp"
    and maps: "map_of (cc_basic_resp (ct_objects c ! a)) rid \<noteq> None \<Longrightarrow> map_of (cc_basic_resp ch) rid \<noteq> None"
      "map_of (cc_basic_query_resp (ct_objects c ! a)) rid \<noteq> None \<Longrightarrow> map_of (cc_basic_query_resp ch) rid \<noteq> None"
  shows "resume call ch \<noteq> None"
proof -
  obtain ch0 where ch0: "call = start_call op rid ch0" using calls_okD(2) [OF inv call(1)] by blast
  have req: "awaits (start_call op rid ch0) req" using call(2) ch0 by simp
  have "resume call (ct_objects c ! a) \<noteq> None" using ok call unfolding stored_ok_def by blast
  then show ?thesis using maps unfolding ch0 resume_ready [OF req] by (simp split: if_splits)
qed

lemma finish_end_ok:
  assumes ok: "end_ok n rs c" and step: "client_step (Finish rid) c = Inr c'" and inv: "client_inv rs c'"
  shows "end_ok n rs c'"
proof (cases "\<exists>a op call r ch. map_of (ct_calls c) rid = Some (a, op, call) \<and> resume call (ct_objects c ! a) = Some (r, ch)")
  case False
  then have "c' = c" using step by (auto simp: finish_call_def split: option.splits)
  then show ?thesis using ok by simp
next
  case True
  then obtain a op call r ch where call: "map_of (ct_calls c) rid = Some (a, op, call)"
    and ch: "resume call (ct_objects c ! a) = Some (r, ch)" by blast
  have cinv: "client_inv rs c" and old: "lines_ok n c" "logged_ok c" "traffic_ok c" "stored_ok rs c"
    using ok by (simp_all add: end_ok_def)
  obtain ch0 where ch0: "cc_cid ch0 = cc_cid (ct_objects c ! a)" "call = start_call op rid ch0"
    using calls_okD(2) [OF cinv call] by blast
  have a: "a < length (ct_objects c)" by (rule calls_okD(1) [OF cinv call])
  have line: "cc_cid ch = cc_cid (ct_objects c ! a)" "cc_conn ch = cc_conn (ct_objects c ! a)"
    using resume_line [OF ch ch0(2)] by simp_all
  let ?chans = "if op = OpClose then cm_remove_channel (cc_cid ch) (ct_channels c) else ct_channels c"
  have c': "c' = c\<lparr>ct_objects := (ct_objects c)[a := ch], ct_calls := um_erase rid (ct_calls c),
      ct_done := ct_done c @ [(rid, a, op, r)], ct_channels := ?chans\<rparr>"
    using step call ch by (simp add: finish_call_def)
  have cids: "map cc_cid (ct_objects c') = map cc_cid (ct_objects c)"
    using a line by (simp add: c' map_update_same)
  have cid: "cc_cid (ct_objects c' ! b) = cc_cid (ct_objects c ! b)" for b
    using line a by (cases "a = b") (simp_all add: c')
  have "cc_conn x = Some n" if "x \<in> set (ct_objects c')" for x
    using that set_update_subset_insert [of "ct_objects c" a ch] old(1) line a unfolding c' lines_ok_def by auto
  then have lines: "lines_ok n c'" using old(1) cids by (simp add: lines_ok_def) (simp add: c')
  have traffic: "traffic_ok c'"
    using old(3) arg_cong [OF cids, of set] by (simp add: traffic_ok_def) (simp add: c')
  have logged: "logged_ok c'"
    unfolding logged_ok_def
  proof (intro conjI allI impI)
    fix i b op' call' assume "map_of (ct_calls c') i = Some (b, op', call')"
    then show "\<exists>req \<in> set (ct_sent c'). awaits call' req"
      using logged_okD(1) [OF old(2)] by (auto simp: c' um_find_erase split: if_splits)
  next
    fix i b r' assume "(i, b, OpClose, r') \<in> set (ct_done c')"
    then consider "(i, b, OpClose, r') \<in> set (ct_done c)" | "i = rid" "b = a" "op = OpClose" by (auto simp: c')
    then have "CloseChannelRequest i (cc_cid (ct_objects c ! b)) \<in> set (ct_sent c)"
    proof cases
      case 2
      obtain req where "req \<in> set (ct_sent c)" "awaits call req" using logged_okD(1) [OF old(2) call] by blast
      then show ?thesis using awaits_close [of rid ch0 req] ch0 2 by simp
    qed (rule logged_okD(2) [OF old(2)])
    then show "CloseChannelRequest i (cc_cid (ct_objects c' ! b)) \<in> set (ct_sent c')" unfolding cid by (simp add: c')
  next
    fix b assume b: "b < length (ct_objects c')" and none: "map_of (ct_channels c') (cc_cid (ct_objects c' ! b)) = None"
    have len: "b < length (ct_objects c)" using b by (simp add: c')
    show "\<exists>i r'. (i, b, OpClose, r') \<in> set (ct_done c')"
    proof (cases "op = OpClose \<and> b = a")
      case True
      then show ?thesis by (auto simp: c')
    next
      case False
      have "cc_cid (ct_objects c ! b) \<noteq> cc_cid (ct_objects c ! a)" if "b \<noteq> a"
        using old(1) that len a by (simp add: lines_ok_def distinct_conv_nth)
      then have "map_of (ct_channels c) (cc_cid (ct_objects c ! b)) = None"
        using none False unfolding cid
        by (auto simp: c' cm_remove_channel_def um_find_erase line split: if_splits)
      then show ?thesis using logged_okD(3) [OF old(2) len] by (auto simp: c')
    qed
  qed
  have "stored_ok rs c'"
    unfolding stored_ok_def
  proof (intro allI impI)
    fix i b op' call' req resp assume "map_of (ct_calls c') i = Some (b, op', call')"
    then have i: "i \<noteq> rid" and call': "map_of (ct_calls c) i = Some (b, op', call')"
      by (auto simp: c' um_find_erase split: if_splits)
    assume "awaits call' req" "resp \<in> set rs" "response_to req resp"
    then show "resume call' (ct_objects c' ! b) \<noteq> None"
      using resume_keeps [OF ch ch0(2) i] a by (intro stored_more [OF cinv old(4) call']) (cases "b = a"; simp add: c')+
  qed
  then show ?thesis using inv lines traffic logged by (simp add: end_ok_def)
qed

section \<open>Arriving responses\<close>

lemma arrive_end_ok:
  assumes ok: "end_ok n rs c" and step: "client_step (Receive resp) c = Inr c'" and inv: "client_inv (rs @ [resp]) c'"
    and pool: "pool_inv 1 (ct_pool c)" "\<not> tp_stop_signal (ct_pool c)"
    and listed: "map_of (ct_channels c) (rs_cid resp) = Some a"
  shows "end_ok n (rs @ [resp]) c'"
proof -
  have cinv: "client_inv rs c" and old: "lines_ok n c" "logged_ok c" "traffic_ok c" "stored_ok rs c"
    using ok by (simp_all add: end_ok_def)
  have a: "a < length (ct_objects c)" "cc_cid (ct_objects c ! a) = rs_cid resp"
    using cinv listed by (simp_all add: client_inv_def listed_ok_def)
  show ?thesis
  proof (cases "is_answer resp")
    case False
    then have c': "c' = c\<lparr>ct_pool := push_task 0 (Some a, resp) (settle (ct_pool c))\<rparr>"
      using step listed by (cases resp) (auto simp: consumeResponse_def cl_select_channel_def)
    have "lines_ok n c'" using old(1) pool_push(3) [OF pool] by (auto simp: c' lines_ok_def)
    moreover have "\<not> response_to req resp" for req using False response_rid by blast
    ultimately show ?thesis using inv old by (auto simp: end_ok_def c' logged_ok_def traffic_ok_def stored_ok_def)
  next
    case True
    define ch where "ch = (case resp of BasicQueryResponse i j body \<Rightarrow> push_query_response resp (ct_objects c ! a)
      | _ \<Rightarrow> push_basic_response resp (ct_objects c ! a))"
    have c': "c' = c\<lparr>ct_objects := (ct_objects c)[a := ch]\<rparr>"
      using step listed True
      by (cases resp) (auto simp: commonResponse_def queryRespone_def cl_select_channel_def ch_def)
    have ch: "cc_cid ch = cc_cid (ct_objects c ! a)" "cc_conn ch = cc_conn (ct_objects c ! a)"
      by (cases resp; simp add: ch_def push_basic_response_def push_query_response_def)+
    have keeps: "map_of (cc_basic_resp (ct_objects c ! a)) i \<noteq> None \<Longrightarrow> map_of (cc_basic_resp ch) i \<noteq> None"
      "map_of (cc_basic_query_resp (ct_objects c ! a)) i \<noteq> None \<Longrightarrow> map_of (cc_basic_query_resp ch) i \<noteq> None" for i
      by (cases resp; simp add: ch_def push_basic_response_def push_query_response_def um_find_insert split: option.split)+
    have cids: "map cc_cid (ct_objects c') = map cc_cid (ct_objects c)"
      using a ch by (simp add: c' map_update_same)
    have cid: "cc_cid (ct_objects c' ! b) = cc_cid (ct_objects c ! b)" for b
      using ch a by (cases "a = b") (simp_all add: c')
    have "cc_conn x = Some n" if "x \<in> set (ct_objects c')" for x
      using that set_update_subset_insert [of "ct_objects c" a ch] old(1) ch a unfolding c' lines_ok_def by auto
    then have lines: "lines_ok n c'" using old(1) cids by (simp add: lines_ok_def) (simp add: c')
    have traffic: "traffic_ok c'"
      using old(3) arg_cong [OF cids, of set] by (simp add: traffic_ok_def) (simp add: c')
    have logged: "logged_ok c'" using old(2) cid by (simp add: logged_ok_def) (simp add: c')
    have "stored_ok (rs @ [resp]) c'"
      unfolding stored_ok_def
    proof (intro allI impI)
      fix i b op call req resp'
      assume "map_of (ct_calls c') i = Some (b, op, call)" and req: "awaits call req"
        and mem: "resp' \<in> set (rs @ [resp])" and to: "response_to req resp'"
      then have call: "map_of (ct_calls c) i = Some (b, op, call)" by (simp add: c')
      show "resume call (ct_objects c' ! b) \<noteq> None"
      proof (cases "resp' \<in> set rs")
        case True
        then show ?thesis
          using keeps a by (intro stored_more [OF cinv old(4) call req _ to]) (cases "b = a"; simp add: c')+
      next
        case False
        then have resp: "resp' = resp" using mem by simp
        obtain ch0 where ch0: "cc_cid ch0 = cc_cid (ct_objects c ! b)" "call = start_call op i ch0"
          using calls_okD(2) [OF cinv call] by blast
        have req': "awaits (start_call op i ch0) req" using req ch0 by simp
        have "cc_cid (ct_objects c ! b) = cc_cid (ct_objects c ! a)"
          using response_rid [OF to] awaits_start(2) [OF req'] ch0 a(2) resp by simp
        then have b: "b = a"
          using old(1) calls_okD(1) [OF cinv call] a(1) by (auto simp: lines_ok_def distinct_conv_nth)
        have "rs_rid resp = i" using response_rid [OF to] awaits_start(1) [OF req'] resp by simp
        then show ?thesis
          using to resp a(1) unfolding ch0(2) resume_ready [OF req'] b
          by (cases resp) (auto simp: c' ch_def push_basic_response_def push_query_response_def um_find_insert split: option.split)
      qed
    qed
    then show ?thesis using inv lines traffic logged by (simp add: end_ok_def)
  qed
qed

section \<open>Steps\<close>

lemma step_end_ok:
  assumes ok: "end_ok n rs c" and step: "client_step e c = Inr c'" and en: "enabled e c" and disc: "disciplined n e c"
    and known: "answers_known rs c" and del: "delivery_ok rs c"
  shows "end_ok n rs c'"
proof -
  have cinv: "client_inv rs c" and lines: "lines_ok n c" using ok by (simp_all add: end_ok_def)
  have inv: "client_inv rs c'" using client_inv_step [OF cinv en step] disc by (cases e) simp_all
  show ?thesis
  proof (cases e)
    case WorkerMoves
    have worker: "client_worker c = Inr c'" using step WorkerMoves by simp
    have same: "same_calls c c'" by (rule worker_same_calls [OF worker])
    have conns: "ct_conn c' = ct_conn c" "ct_connecting c' = ct_connecting c"
      using worker by (auto simp: client_worker_def run_consume_def split: option.splits prod.splits list.splits)
    obtain t where t: "tp_threads (ct_pool c) = [t]" using del by (auto simp: delivery_ok_def pool_inv_def length_Suc_conv)
    have "set (work (ct_pool c')) \<subseteq> set (work (ct_pool c))"
      using worker by (auto simp: client_worker_def run_consume_def dest!: thread_step_fifo [OF t]
          split: option.splits prod.splits list.splits)
    then have "lines_ok n c'" using lines same conns by (auto simp: lines_ok_def same_calls_def)
    then show ?thesis using end_ok_same [OF ok same _ inv] by simp
  next
    case (OpenChannel cid rid)
    then show ?thesis using open_end_ok [OF ok _ _ inv known] step en disc by simp
  next
    case (Begin a op rid)
    then show ?thesis using begin_end_ok [OF ok _ _ inv known] step en disc by simp
  next
    case (Finish rid)
    then show ?thesis using finish_end_ok [OF ok _ inv] step by simp
  qed (use step disc lines end_ok_same [OF ok _ _ inv] in
    \<open>auto simp: same_calls_def lines_ok_def onConnection_count_def onConnection_assign_def\<close>)
qed

text \<open>No step of a disciplined client is undefined.\<close>

lemma step_defined:
  assumes ok: "end_ok n rs c" and en: "enabled e c" and disc: "disciplined n e c"
    and del: "delivery_ok rs c"
  shows "\<exists>c'. client_step e c = Inr c'"
proof -
  have lines: "lines_ok n c" using ok by (simp add: end_ok_def)
  show ?thesis
  proof (cases e)
    case WorkerMoves
    obtain t where t: "tp_threads (ct_pool c) = [t]" using del by (auto simp: delivery_ok_def pool_inv_def length_Suc_conv)
    have "fst x \<noteq> None" if "thread_step 0 (ct_pool c) = Some (x # xs, p)" for x xs p
      using lines thread_step_fifo [OF t that] by (simp add: lines_ok_def)
    then show ?thesis
      by (auto simp: WorkerMoves client_worker_def run_consume_def split: option.splits prod.splits list.splits)
  next
    case (OpenChannel cid rid)
    then show ?thesis
      using disc by (auto simp: openChannel_def create_channel_def begin_call_def open_server_channel_def
          client_channel_new_def Let_def)
  next
    case (Begin a op rid)
    have "cc_conn (ct_objects c ! a) \<noteq> None" using lines en Begin by (simp add: lines_ok_def)
    then show ?thesis by (auto simp: Begin begin_call_def Let_def split: call.split)
  qed simp_all
qed

end
