(* ===== verification/World_Properties.thy ===== *)
theory World_Properties
  imports Client_End
begin

text \<open>
  The two ends together: the invariant of a connected client and server, and what follows for the calls
  of the client and for the safety of both programs.
\<close>

section \<open>Invariant\<close>

definition world_inv ::
  "'db libs \<Rightarrow> ('db \<Rightarrow> tables) \<Rightarrow> nat \<Rightarrow> nat \<Rightarrow> string \<Rightarrow> conn \<Rightarrow> ('db, 'cb) world \<Rightarrow> spec_host \<Rightarrow> bool" where
  "world_inv L tabs M N basedir n w H \<longleftrightarrow> broker_rel L tabs M N basedir (wd_broker w) H \<and>
     link_ok n (wd_broker w) (take (wd_taken w) (ct_sent (wd_client w))) \<and>
     end_ok n (take (wd_arrived w) (sent_to n (wd_broker w))) (wd_client w) \<and>
     client_runs (wd_client w) (take (wd_arrived w) (sent_to n (wd_broker w))) \<and>
     wd_taken w \<le> length (ct_sent (wd_client w)) \<and> wd_arrived w \<le> length (sent_to n (wd_broker w))"

lemma world_invD:
  assumes "world_inv L tabs M N basedir n w H"
  shows "broker_rel L tabs M N basedir (wd_broker w) H"
    and "link_ok n (wd_broker w) (take (wd_taken w) (ct_sent (wd_client w)))"
    and "end_ok n (take (wd_arrived w) (sent_to n (wd_broker w))) (wd_client w)"
    and "client_runs (wd_client w) (take (wd_arrived w) (sent_to n (wd_broker w)))"
    and "wd_taken w \<le> length (ct_sent (wd_client w))" and "wd_arrived w \<le> length (sent_to n (wd_broker w))"
  using assms unfolding world_inv_def by blast+

text \<open>Each answer is that of the request with the same number.\<close>

lemma answers_in_order:
  assumes "list_all2 response_to ts (filter is_answer out)" and "j < length out" and "is_answer (out ! j)"
  shows "answered_before out j < length ts" and "response_to (ts ! answered_before out j) (out ! j)"
proof -
  have split: "filter is_answer out = filter is_answer (take j out) @ out ! j # filter is_answer (drop (Suc j) out)"
    using assms(2,3) by (subst id_take_nth_drop [OF assms(2)]) simp
  then show "answered_before out j < length ts"
    using list_all2_lengthD [OF assms(1)] by (simp add: answered_before_def)
  then have "response_to (ts ! answered_before out j) (filter is_answer out ! answered_before out j)"
    by (rule list_all2_nthD [OF assms(1)])
  also have "filter is_answer out ! answered_before out j = out ! j" by (simp add: split answered_before_def)
  finally show "response_to (ts ! answered_before out j) (out ! j)" .
qed

lemma received_answer:
  assumes "list_all2 response_to ts (filter is_answer out)" and "resp \<in> set (take k out)" and "is_answer resp" and "k \<le> length out"
  shows "\<exists>p < answered_before out k. p < length ts \<and> response_to (ts ! p) resp"
proof -
  obtain j where j: "j < k" "resp = out ! j" using assms(2,4) by (auto simp: in_set_conv_nth)
  have len: "j < length out" using j(1) assms(4) by simp
  have "take k out = take j out @ out ! j # take (k - Suc j) (drop (Suc j) out)"
    using id_take_nth_drop [of j "take k out"] j len by (simp add: min_def drop_take)
  then have "answered_before out j < answered_before out k"
    using j(2) assms(3) by (simp add: answered_before_def)
  then show ?thesis using answers_in_order [OF assms(1) len] assms(3) j(2) by auto
qed

lemma world_answers_known:
  assumes "world_inv L tabs M N basedir n w H"
  shows "answers_known (take (wd_arrived w) (sent_to n (wd_broker w))) (wd_client w)"
  unfolding answers_known_def
proof (intro ballI impI)
  note inv = world_invD [OF assms]
  let ?ts = "take (wd_taken w) (ct_sent (wd_client w))"
  fix resp assume resp: "resp \<in> set (take (wd_arrived w) (sent_to n (wd_broker w)))" "is_answer resp"
  have "list_all2 response_to ?ts (filter is_answer (sent_to n (wd_broker w)))" using inv(2) by (simp add: link_ok_def)
  from received_answer [OF this resp inv(6)] obtain p where p: "p < length ?ts" "response_to (?ts ! p) resp" by blast
  have "?ts ! p \<in> set (ct_sent (wd_client w))" using nth_mem [OF p(1)] by (rule in_set_takeD)
  then show "rs_rid resp \<in> rq_rid ` set (ct_sent (wd_client w))" using response_rid [OF p(2)] by auto
qed

text \<open>A response that arrives finds its channel listed.\<close>

lemma arriving_listed:
  assumes inv: "world_inv L tabs M N basedir n w H" and more: "wd_arrived w < length (sent_to n (wd_broker w))"
  shows "map_of (ct_channels (wd_client w)) (rs_cid (sent_to n (wd_broker w) ! wd_arrived w)) \<noteq> None"
proof
  let ?c = "wd_client w" and ?out = "sent_to n (wd_broker w)" and ?k = "wd_arrived w"
  let ?ts = "take (wd_taken w) (ct_sent ?c)" and ?resp = "?out ! ?k" and ?q = "answered_before ?out ?k"
  note parts = world_invD [OF inv]
  have answers: "list_all2 response_to ?ts (filter is_answer ?out)" and pushes: "pushes_ok ?ts ?out"
    using parts(2) by (simp_all add: link_ok_def)
  have cinv: "client_inv (take ?k ?out) ?c" and logged: "logged_ok ?c" and traffic: "traffic_ok ?c"
    using parts(3) by (simp_all add: end_ok_def)
  have opened_more: "opened cid (ct_sent ?c)" if "opened cid (take i ?ts)" for cid i
    using that by (auto simp: opened_def dest!: in_set_takeD)
  have "opened (rs_cid ?resp) (ct_sent ?c) \<and> \<not> closed (rs_cid ?resp) (take ?q ?ts)"
  proof (cases "is_answer ?resp")
    case True
    note p = answers_in_order [OF answers more True]
    have "may_follow (take ?q ?ts) (?ts ! ?q)" using traffic p(1) by (simp add: traffic_ok_def orderly_def)
    moreover have "rq_cid (?ts ! ?q) = rs_cid ?resp" using response_rid [OF p(2)] by simp
    moreover have "opened (rq_cid (?ts ! ?q)) (take (Suc ?q) ?ts)" if "may_follow (take ?q ?ts) (?ts ! ?q)"
      using that p(1) by (cases "?ts ! ?q") (auto simp: take_Suc_conv_app_nth)
    ultimately show ?thesis using opened_more may_follow_closed by metis
  next
    case False
    then have "opened (rs_cid ?resp) (take ?q ?ts) \<and> \<not> closed (rs_cid ?resp) (take ?q ?ts)"
      using pushes more unfolding pushes_ok_def by blast
    then show ?thesis using opened_more by blast
  qed
  then have opened: "opened (rs_cid ?resp) (ct_sent ?c)" and still: "\<not> closed (rs_cid ?resp) (take ?q ?ts)" by blast+
  assume none: "map_of (ct_channels ?c) (rs_cid ?resp) = None"
  obtain a where a: "a < length (ct_objects ?c)" "cc_cid (ct_objects ?c ! a) = rs_cid ?resp"
    using opened traffic by (auto simp: traffic_ok_def in_set_conv_nth)
  then obtain rid r where ended: "(rid, a, OpClose, r) \<in> set (ct_done ?c)" using logged_okD(3) [OF logged a(1)] none by auto
  have close: "CloseChannelRequest rid (rs_cid ?resp) \<in> set (ct_sent ?c)" using logged_okD(2) [OF logged ended] a(2) by simp
  have "done_ok (take ?k ?out) ?c" using cinv by (simp add: client_inv_def)
  note done_okD(2) [OF this ended]
  then obtain ok where ok: "BasicCommonResponse rid (rs_cid ?resp) ok \<in> set (take ?k ?out)"
    using close a(2) by (auto simp: earned_def image_iff)
  obtain p where p: "p < ?q" "p < length ?ts" "response_to (?ts ! p) (BasicCommonResponse rid (rs_cid ?resp) ok)"
    using received_answer [OF answers ok _ parts(6)] by auto
  have "rq_rid (?ts ! p) = rid" and mem: "?ts ! p \<in> set (ct_sent ?c)"
    using response_rid [OF p(3)] in_set_takeD [OF nth_mem [OF p(2)]] by simp_all
  moreover have "inj_on rq_rid (set (ct_sent ?c))" using cinv by (simp add: client_inv_def ids_ok_def distinct_map)
  ultimately have "?ts ! p = CloseChannelRequest rid (rs_cid ?resp)"
    using close by (auto simp: inj_on_def)
  moreover have "?ts ! p \<in> set (take ?q ?ts)" using p(1,2) by (auto simp: in_set_conv_nth intro!: exI [of _ p])
  ultimately show False using still by (force simp: closed_def)
qed

lemma client_step_sent: "client_step e c = Inr c' \<Longrightarrow> \<exists>more. ct_sent c' = ct_sent c @ more"
proof (cases e)
  case (Receive resp)
  then show "client_step e c = Inr c' \<Longrightarrow> ?thesis"
    by (cases resp) (auto simp: commonResponse_def queryRespone_def consumeResponse_def Let_def split: option.splits)
qed (auto simp: onConnection_count_def onConnection_assign_def client_onUnknownMessage_def openChannel_def
    create_channel_def begin_call_def finish_call_def Let_def same_calls_def dest!: worker_same_calls
    split: option.splits prod.splits call.splits if_splits)

lemma world_inv_server:
  assumes inv: "world_inv L tabs M N basedir n w H" and ok: "event_ok L M N e (wd_broker w) H"
    and step: "broker_step L e (wd_broker w) = Inr b"
  shows "broker_rel L tabs M N basedir b (host_after (event_cmds L e (wd_broker w)) H)"
    and "\<exists>more. sent_to n b = sent_to n (wd_broker w) @ more"
proof -
  note rel = world_invD(1) [OF inv]
  show "broker_rel L tabs M N basedir b (host_after (event_cmds L e (wd_broker w)) H)"
    using broker_follows [OF rel ok] step by (auto simp: event_follows_def)
  show "\<exists>more. sent_to n b = sent_to n (wd_broker w) @ more"
    using event_outputs [OF rel ok step] sent_to_more by blast
qed

lemma world_inv_step:
  assumes inv: "world_inv L tabs M N basedir n w H" and en: "world_enabled n x w" and ok: "world_ok L M N n x w H"
    and step: "world_step L n x w = Inr w'"
  shows "world_inv L tabs M N basedir n w' (world_after L n x w H)"
proof -
  note parts = world_invD [OF inv]
  let ?b = "wd_broker w" and ?c = "wd_client w" and ?k = "wd_arrived w" and ?m = "wd_taken w"
  have del: "delivery_ok (take ?k (sent_to n ?b)) ?c" by (rule client_runs_delivery [OF parts(4)])
  show ?thesis
  proof (cases x)
    case (Takes u)
    let ?r = "ct_sent ?c ! ?m"
    have m: "?m < length (ct_sent ?c)" and r: "hd (requests_under_way w) = ?r"
      using en Takes by (auto simp: requests_under_way_def hd_drop_conv_nth)
    obtain b where b: "broker_step L (Request n u ?r) ?b = Inr b" "w' = w\<lparr>wd_broker := b, wd_taken := Suc ?m\<rparr>"
      using step unfolding Takes world_step.simps r by (auto simp: rbind_Inr_conv)
    have ok': "event_ok L M N (Request n u ?r) ?b H" using ok by (simp add: Takes world_ok_def r)
    have "may_follow (take ?m (ct_sent ?c)) ?r" using parts(3) m by (simp add: end_ok_def traffic_ok_def orderly_def)
    from link_taken [OF parts(2,1) ok' b(1) this] have "link_ok n b (take (Suc ?m) (ct_sent ?c))"
      using m by (simp add: take_Suc_conv_app_nth)
    then show ?thesis
      using world_inv_server [OF inv ok' b(1)] parts m by (auto simp: world_inv_def b(2) Takes world_after_def r)
  next
    case (Serves e)
    obtain b where b: "broker_step L e ?b = Inr b" "w' = w\<lparr>wd_broker := b\<rparr>"
      using step by (auto simp: Serves rbind_Inr_conv)
    have ok': "event_ok L M N e ?b H" using ok by (simp add: Serves world_ok_def)
    show ?thesis
      using world_inv_server [OF inv ok' b(1)] parts link_other [OF parts(2,1) ok' b(1)] en
      by (auto simp: world_inv_def b(2) Serves world_after_def)
  next
    case Arrives
    let ?resp = "sent_to n ?b ! ?k"
    have k: "?k < length (sent_to n ?b)" and r: "hd (responses_under_way n w) = ?resp"
      using en Arrives by (auto simp: responses_under_way_def hd_drop_conv_nth)
    obtain c where c: "client_step (Receive ?resp) ?c = Inr c" "w' = w\<lparr>wd_client := c, wd_arrived := Suc ?k\<rparr>"
      using step unfolding Arrives world_step.simps r by (auto simp: rbind_Inr_conv)
    have en': "enabled (Receive ?resp) ?c" using en by (simp add: Arrives r)
    obtain a where a: "map_of (ct_channels ?c) (rs_cid ?resp) = Some a" using arriving_listed [OF inv k] by blast
    have more: "take (Suc ?k) (sent_to n ?b) = take ?k (sent_to n ?b) @ [?resp]" using k by (rule take_Suc_conv_app_nth)
    have runs: "client_runs c (take ?k (sent_to n ?b) @ [?resp])" using client_runs.step [OF parts(4) en' c(1)] by simp
    have "end_ok n (take ?k (sent_to n ?b) @ [?resp]) c"
      using arrive_end_ok [OF parts(3) c(1) client_runs_inv [OF runs] _ _ a] del by (simp add: delivery_ok_def)
    moreover have "ct_sent c = ct_sent ?c"
      using c(1) by (cases ?resp) (auto simp: commonResponse_def queryRespone_def consumeResponse_def Let_def split: option.splits)
    ultimately show ?thesis
      using parts runs k by (simp add: world_inv_def c(2) Arrives world_after_def more)
  next
    case (Does e)
    obtain c where c: "client_step e ?c = Inr c" "w' = w\<lparr>wd_client := c\<rparr>"
      using step by (auto simp: Does rbind_Inr_conv)
    have en': "enabled e ?c" and disc: "disciplined n e ?c" using en Does by simp_all
    have "received e = []" using disc by (cases e) simp_all
    then have "client_runs c (take ?k (sent_to n ?b))" using client_runs.step [OF parts(4) en' c(1)] by simp
    moreover have "end_ok n (take ?k (sent_to n ?b)) c"
      by (rule step_end_ok [OF parts(3) c(1) en' disc world_answers_known [OF inv] del])
    moreover obtain more where "ct_sent c = ct_sent ?c @ more" using client_step_sent [OF c(1)] by blast
    ultimately show ?thesis using parts by (simp add: world_inv_def c(2) Does world_after_def)
  qed
qed

lemma world_runs_inv:
  assumes "world_runs L M N basedir s0 db0 n w H" and start: "first_start L tabs M N basedir s0 db0"
  shows "world_inv L tabs M N basedir n w H"
  using assms(1)
proof (induction rule: world_runs.induct)
  case (connect b cmds H b')
  have rel: "broker_rel L tabs M N basedir b H" using server_runs_rel [OF connect.hyps(1) start] by blast
  have "event_ok L M N (Connected n) b H" by simp
  from broker_follows [OF rel this] have "broker_rel L tabs M N basedir b' H"
    using connect.hyps(4) by (auto simp: event_follows_def host_after_def)
  then show ?case
    using link_new [OF connect.hyps(2-4)] by (simp add: world_inv_def end_ok_new client_runs.new)
next
  case (step w H x w')
  then show ?case using world_inv_step by blast
qed

section \<open>A sample pair\<close>

abbreviation sample_world :: "(tables, unit) world \<Rightarrow> spec_host \<Rightarrow> bool" where
  "sample_world \<equiv> world_runs sample_libs 100 1 ''./data'' sample_disk (\<lambda>_. None) 7"

lemma does_step:
  assumes "world_runs L M N basedir s0 db0 n w H" and "enabled e (wd_client w)" and "disciplined n e (wd_client w)"
    and "client_step e (wd_client w) = Inr c"
  shows "world_runs L M N basedir s0 db0 n (w\<lparr>wd_client := c\<rparr>) H"
  using world_runs.step [OF assms(1), of "Does e"] assms(2-4) by (simp add: world_ok_def world_after_def)

text \<open>A client that has asked for a channel, before and after the server has handled the request.\<close>

definition sample_asking :: "unit client" where
  "sample_asking = client_new\<lparr>ct_latch := 0, ct_conn := Some 7, ct_channels := [(''c'', 0)],
     ct_objects := [client_channel_new (Some 7) ''c''], ct_sent := [OpenChannelRequest ''r1'' ''c''],
     ct_calls := [(''r1'', 0, OpOpen, Await (OpenChannelRequest ''r1'' ''c'') (\<lambda>ok ch. (Bool ok, ch)))]\<rparr>"

lemma sample_asked:
  "\<exists>b. sample_world \<lparr>wd_broker = b, wd_client = sample_asking, wd_taken = 0, wd_arrived = 0\<rparr> spec_host_empty"
proof -
  obtain b0 where new: "BrokerServer sample_libs ''./data'' sample_disk (\<lambda>_. None) = Inr b0"
    and start: "br_connections b0 = []" "sv_out (br_server b0) = []"
    using first_broker [OF sample_first] by blast
  obtain b where b: "broker_step sample_libs (Connected 7) b0 = Inr b" by (simp add: onConnection_def)
  have w0: "sample_world \<lparr>wd_broker = b, wd_client = client_new, wd_taken = 0, wd_arrived = 0\<rparr> spec_host_empty"
    using server_runs.start [OF new] b start
    by (intro world_runs.connect) (simp_all add: known_def select_connection_def)
  let ?c1 = "client_new\<lparr>ct_latch := 0, ct_connecting := Some 7\<rparr> :: unit client"
  let ?c2 = "client_new\<lparr>ct_latch := 0, ct_conn := Some 7\<rparr> :: unit client"
  have w1: "sample_world \<lparr>wd_broker = b, wd_client = ?c1, wd_taken = 0, wd_arrived = 0\<rparr> spec_host_empty"
    using does_step [OF w0, of "LoopCounts 7" ?c1] by (simp add: client_new_def onConnection_count_def)
  have w2: "sample_world \<lparr>wd_broker = b, wd_client = ?c2, wd_taken = 0, wd_arrived = 0\<rparr> spec_host_empty"
    using does_step [OF w1, of LoopAssigns ?c2] by (simp add: client_new_def onConnection_assign_def)
  show ?thesis
    using does_step [OF w2, of "OpenChannel ''c'' ''r1''" sample_asking]
    by (auto simp: client_new_def client_step_defs sample_asking_def)
qed

lemma sample_request_ok:
  assumes "wd_client w = sample_asking" and "wd_taken w = 0"
  shows "world_enabled n (Takes u) w" and "requests_under_way w = [OpenChannelRequest ''r1'' ''c'']"
    and "world_ok L M N n (Takes u) w H"
proof -
  show req: "requests_under_way w = [OpenChannelRequest ''r1'' ''c'']"
    using assms by (simp add: requests_under_way_def sample_asking_def)
  then show "world_enabled n (Takes u) w" by simp
  show "world_ok L M N n (Takes u) w H" by (simp add: world_ok_def req host_ok_def split: option.split)
qed

lemma sample_answered:
  "\<exists>w. sample_world w spec_host_empty \<and> wd_client w = sample_asking \<and> requests_under_way w = []"
proof -
  obtain b where w: "sample_world \<lparr>wd_broker = b, wd_client = sample_asking, wd_taken = 0, wd_arrived = 0\<rparr> spec_host_empty"
    (is "sample_world ?w _") using sample_asked by blast
  note ok = sample_request_ok [of ?w, simplified]
  have rel: "broker_rel sample_libs (\<lambda>db. db) 100 1 ''./data'' b spec_host_empty"
    using world_invD(1) [OF world_runs_inv [OF w sample_first]] by simp
  have "event_ok sample_libs 100 1 (Request 7 (\<lambda>q. ''u'') (OpenChannelRequest ''r1'' ''c'')) b spec_host_empty"
    using ok(3) [of sample_libs 100 1 7 "\<lambda>q. ''u''" spec_host_empty] by (simp add: world_ok_def ok(2))
  from broker_follows [OF rel this] obtain b' where
    "broker_step sample_libs (Request 7 (\<lambda>q. ''u'') (OpenChannelRequest ''r1'' ''c'')) b = Inr b'" by (auto simp: event_follows_def)
  then have "sample_world (?w\<lparr>wd_broker := b', wd_taken := Suc 0\<rparr>) (world_after sample_libs 7 (Takes (\<lambda>q. ''u'')) ?w spec_host_empty)"
    using ok by (intro world_runs.step [OF w]) simp_all
  moreover have "world_after sample_libs 7 (Takes (\<lambda>q. ''u'')) ?w spec_host_empty = spec_host_empty"
    using ok(2) by (simp add: world_after_def host_after_def split: option.split)
  ultimately show ?thesis
    by (intro exI [of _ "?w\<lparr>wd_broker := b', wd_taken := Suc 0\<rparr>"]) (simp add: requests_under_way_def sample_asking_def)
qed

section \<open>Properties\<close>

text \<open>
  C3: No call is forgotten.  Whatever a client, the server and the server's other clients do, as long
  as the rules are kept: the requests the server has handled are answered one by one in the order they
  were sent, the connection is never shut down, and for each call that has not returned either its
  request is on the way to the server, or its answer is on the way to the client, or the call can
  return now.
\<close>

theorem no_call_is_forgotten:
  assumes "first_start L tabs M N basedir s0 db0" and "world_runs L M N basedir s0 db0 n w H"
  shows "list_all2 response_to (take (wd_taken w) (ct_sent (wd_client w))) (filter is_answer (sent_to n (wd_broker w))) \<and>
    Shutdown n \<notin> set (sv_out (br_server (wd_broker w))) \<and>
    (\<forall>rid a op call. map_of (ct_calls (wd_client w)) rid = Some (a, op, call) \<longrightarrow>
      (\<exists>req. awaits call req \<and> (req \<in> set (requests_under_way w) \<or>
        (\<exists>resp \<in> set (responses_under_way n w). response_to req resp) \<or> enabled (Finish rid) (wd_client w))))"
proof -
  let ?c = "wd_client w" and ?out = "sent_to n (wd_broker w)" and ?k = "wd_arrived w" and ?m = "wd_taken w"
  note inv = world_invD [OF world_runs_inv [OF assms(2,1)]]
  have answers: "list_all2 response_to (take ?m (ct_sent ?c)) (filter is_answer ?out)"
    and up: "Shutdown n \<notin> set (sv_out (br_server (wd_broker w)))"
    using inv(2) by (simp_all add: link_ok_def)
  have logged: "logged_ok ?c" and stored: "stored_ok (take ?k ?out) ?c" using inv(3) by (simp_all add: end_ok_def)
  have reach: "req \<in> set (requests_under_way w) \<or> (\<exists>resp \<in> set (responses_under_way n w). response_to req resp) \<or>
      enabled (Finish rid) ?c"
    if call: "map_of (ct_calls ?c) rid = Some (a, op, call)" and req: "awaits call req" "req \<in> set (ct_sent ?c)"
    for rid a op call req
  proof (cases "req \<in> set (requests_under_way w)")
    case False
    then have "req \<in> set (take ?m (ct_sent ?c))"
      using req(2) set_append [of "take ?m (ct_sent ?c)" "drop ?m (ct_sent ?c)"] by (simp add: requests_under_way_def)
    then obtain p where p: "p < length (take ?m (ct_sent ?c))" "take ?m (ct_sent ?c) ! p = req" by (auto simp: in_set_conv_nth)
    let ?resp = "filter is_answer ?out ! p"
    have to: "response_to req ?resp" using list_all2_nthD [OF answers p(1)] p(2) by simp
    have "?resp \<in> set ?out"
      using nth_mem [of p "filter is_answer ?out"] p(1) list_all2_lengthD [OF answers] by simp
    then have "?resp \<in> set (take ?k ?out) \<or> ?resp \<in> set (responses_under_way n w)"
      using set_append [of "take ?k ?out" "drop ?k ?out"] by (simp add: responses_under_way_def)
    moreover have "enabled (Finish rid) ?c" if "?resp \<in> set (take ?k ?out)"
      using stored call req(1) that to unfolding stored_ok_def by simp
    ultimately show ?thesis using to by blast
  qed simp
  show ?thesis
  proof (intro conjI allI impI)
    fix rid a op call assume call: "map_of (ct_calls ?c) rid = Some (a, op, call)"
    obtain req where "req \<in> set (ct_sent ?c)" "awaits call req" using logged_okD(1) [OF logged call] by blast
    with reach [OF call] show "\<exists>req. awaits call req \<and> (req \<in> set (requests_under_way w) \<or>
        (\<exists>resp \<in> set (responses_under_way n w). response_to req resp) \<or> enabled (Finish rid) ?c)" by blast
  qed (rule answers up)+
qed

theorem no_call_is_forgotten_witness:
  "\<exists>w. sample_world w spec_host_empty \<and> wd_client w = sample_asking \<and> requests_under_way w = [] \<and>
     ((\<exists>resp \<in> set (responses_under_way 7 w). response_to (OpenChannelRequest ''r1'' ''c'') resp) \<or>
      enabled (Finish ''r1'') (wd_client w))"
proof -
  obtain w where w: "sample_world w spec_host_empty" "wd_client w = sample_asking" "requests_under_way w = []"
    using sample_answered by blast
  let ?call = "Await (OpenChannelRequest ''r1'' ''c'') (\<lambda>ok ch. (Bool ok, ch)) :: unit call"
  have "map_of (ct_calls (wd_client w)) ''r1'' = Some (0, OpOpen, ?call)" by (simp add: w(2) sample_asking_def)
  then have "\<exists>req. awaits ?call req \<and> (req \<in> set (requests_under_way w) \<or>
      (\<exists>resp \<in> set (responses_under_way 7 w). response_to req resp) \<or> enabled (Finish ''r1'') (wd_client w))"
    using no_call_is_forgotten [OF sample_first w(1)] by blast
  then show ?thesis using w by (intro exI [of _ w]) (simp del: enabled.simps)
qed

text \<open>
  C2: Neither program crashes.  In every state a disciplined client and the server reach together,
  whatever the client, the server or another client may do next is defined: no step aborts, throws,
  uses a destroyed channel or calls through a null pointer.
\<close>

theorem no_side_crashes:
  assumes "first_start L tabs M N basedir s0 db0" and "world_runs L M N basedir s0 db0 n w H"
    and "world_enabled n x w" and "world_ok L M N n x w H"
  shows "\<exists>w'. world_step L n x w = Inr w' \<and> world_runs L M N basedir s0 db0 n w' (world_after L n x w H)"
proof -
  note inv = world_invD [OF world_runs_inv [OF assms(2,1)]]
  have "\<exists>w'. world_step L n x w = Inr w'"
  proof (cases "server_event n x w")
    case (Some e)
    then have "event_ok L M N e (wd_broker w) H" using assms(4) by (simp add: world_ok_def)
    from broker_follows [OF inv(1) this] have "\<exists>b. broker_step L e (wd_broker w) = Inr b" by (auto simp: event_follows_def)
    then show ?thesis using Some by (cases x) auto
  next
    case None
    show ?thesis
    proof (cases x)
      case (Does e)
      then show ?thesis
        using step_defined [OF inv(3) _ _ client_runs_delivery [OF inv(4)], of e] assms(3) by auto
    qed (use None in simp_all)
  qed
  then show ?thesis using world_runs.step [OF assms(2-4)] by blast
qed

theorem no_side_crashes_witness:
  "\<exists>w w'. sample_world w spec_host_empty \<and> requests_under_way w = [OpenChannelRequest ''r1'' ''c''] \<and>
     world_step sample_libs 7 (Takes (\<lambda>q. ''u'')) w = Inr w'"
proof -
  obtain b where w: "sample_world \<lparr>wd_broker = b, wd_client = sample_asking, wd_taken = 0, wd_arrived = 0\<rparr> spec_host_empty"
    (is "sample_world ?w _") using sample_asked by blast
  note ok = sample_request_ok [of ?w, unfolded world.simps, OF refl refl]
  show ?thesis
    using no_side_crashes [OF sample_first w ok(1,3), of "\<lambda>q. ''u''"] w ok(2) by blast
qed

end
