(* ===== verification/Client_Console.thy ===== *)
theory Client_Console
  imports Client_Channel Text_Helper
begin

text \<open>
  \<open>HareMQ/mqclient/client.cc\<close>: the console program, which reads commands from its input or from a
  file and turns them into calls of its channel.  The calls are a parameter: \<open>call op s\<close> is what the
  channel's method \<open>op\<close> returns in the state \<open>s\<close> of everything else and the state after it, or \<open>None\<close>
  if it does not return; what the method or a callback prints itself, such as the answer to a query, is
  part of \<open>s\<close>.  Log lines are left out.
\<close>

section \<open>Input and output\<close>

record console =
  io_in :: "string list" \<comment> \<open>the lines not yet read\<close>
  io_out :: string
  io_err :: string

type_synonym ('cb, 's) calls = "'cb api \<Rightarrow> 's \<Rightarrow> (ret \<times> 's) option"

type_synonym 's outcome = "(bool \<times> console \<times> 's) result option"
  \<comment> \<open>\<open>None\<close> when the program does not come back\<close>

text \<open>At the end of the input \<open>getline\<close> fails and leaves the string empty.\<close>

definition getline :: "console \<Rightarrow> string \<times> console" where
  "getline io = (case io_in io of [] \<Rightarrow> ('''', io) | l # ls \<Rightarrow> (l, io\<lparr>io_in := ls\<rparr>))"

definition put_out :: "string \<Rightarrow> console \<Rightarrow> console" where
  "put_out s io = io\<lparr>io_out := io_out io @ s\<rparr>"

definition put_err :: "string \<Rightarrow> console \<Rightarrow> console" where
  "put_err s io = io\<lparr>io_err := io_err io @ s\<rparr>"

definition endl :: string where "endl = [CHR 0x0A]"
definition red_bold :: string where "red_bold = CHR 0x1B # ''[1;31m''"
definition yellow :: string where "yellow = CHR 0x1B # ''[1;33m''"
definition plain_again :: string where "plain_again = CHR 0x1B # ''[0m''"

definition valid_cmds :: "(string \<times> string) list" where
  "valid_cmds = [
     (''subscribe'', ''Subcribe a queue and continuous consuming messages from a queue (print to stdout)''),
     (''publish'', ''Push a message to the specified exchange''),
     (''publish_mode'', ''Continuous push message to specified exchange''),
     (''svrstat'', ''View the exchange information, queue information and binding information of the current server, note: This is a blocking interface''),
     (''declare_exchange'', ''Declare an exchange on the server''),
     (''declare_queue'', ''Declare a message queue on the server''),
     (''delete_exchange'', ''Delete an exchange on the server''),
     (''delete_queue'', ''Delete and queue on the server''),
     (''bind'', ''Bind an exchange and a queue''),
     (''unbind'', ''Unbind a binding between an exchagne and a queue''),
     (''cid'', ''Show current client'' @ [CHR 0x27] @ ''s channel id''),
     (''cmds'', ''Show all commands''),
     (''exit'', ''Quit the client''),
     (''clear'', ''Clean the terminal''),
     (''logo'', ''Print the project logo'')]"

definition logo :: "string list" where
  "logo = [
     ''+--------------------------------------------+'',
     ''|       _______________________________      |'',
     ''|      |                               |     |'',
     ''|      | HareMQ                        |     |'',
     ''|      | developed by ffengc           |     |'',
     ''|      |_______________________________|     |'',
     ''|          o                                 |'',
     ''|           o                                |'',
     ''|               .--.                         |'',
     ''|              |o_o |                        |'',
     ''|              |:_/ |                        |'',
     ''|             //   '' @ [CHR 0x5C] @ '' '' @ [CHR 0x5C] @ ''                       |'',
     ''|            (|     | )                      |'',
     ''|           /'' @ [CHR 0x27, CHR 0x5C] @ ''_   _/'' @ [CHR 0x60, CHR 0x5C] @ ''                      |'',
     ''|           '' @ [CHR 0x5C] @ ''___)=(___/                      |'',
     ''+--------------------------------------------+'']"

definition print_logo :: "console \<Rightarrow> console" where
  "print_logo io = put_out (concat (map (\<lambda>e. e @ endl) logo)) io"

definition print_cmds :: "console \<Rightarrow> console" where
  "print_cmds io = put_out (concat (map (\<lambda>(k, v). ''    '' @ k @ '': '' @ v @ endl) valid_cmds)) io"

text \<open>The lines after \<open>usage:\<close>.\<close>

definition usage_lines :: "string \<Rightarrow> string" where
  "usage_lines cmd =
     (if cmd = ''bind'' then ''    bind exchange_name queue_name binding_key''
      else if cmd = ''unbind'' then ''    unbind exchange_name queue_name''
      else if cmd = ''declare_exchange'' then
        ''    declare_exchange exchange_name ExchangeType durable auto_delete other_args'' @ endl @
        ''    ExchangeType: TOPIC/FANOUT/DIRECT'' @ endl @
        ''    durable, auto_delete: true/false'' @ endl @
        ''    other_args format: k1=v1&k2=v2&k3=v3...''
      else if cmd = ''delete_exchange'' then ''delete_exchange exchange_name''
      else if cmd = ''declare_queue'' then
        ''    declare_queue queue_name durable exclusive auto_delete other_args'' @ endl @
        ''    durable, exclusive, auto_delete: true/false'' @ endl @
        ''    other_args format: k1=v1&k2=v2&k3=v3...''
      else if cmd = ''delete_queue'' then ''delete_queue queue_name''
      else if cmd = ''publish'' then
        ''    publish exchange_name DURABLE binding_key'' @ endl @
        ''    DURABLE: hare_mq::DeliveryMode::DURABLE/UNDURABLE''
      else if cmd = ''publish_mode'' then
        ''    publish_mode exchange_name DURABLE binding_key'' @ endl @
        ''    DURABLE: hare_mq::DeliveryMode::DURABLE/UNDURABLE''
      else if cmd = ''subscribe'' then ''    subscribe consumer_tag queue_name auto_ack''
      else '''')"

definition usage :: "string \<Rightarrow> console \<Rightarrow> console result" where
  "usage cmd io =
     (case map_of valid_cmds cmd of
        None \<Rightarrow> Inl Aborts
      | Some help \<Rightarrow> Inr (put_err (yellow @ cmd @ '': '' @ plain_again @ help @ endl @
          ''usage: '' @ endl @ usage_lines cmd @ endl) io))"

section \<open>Commands\<close>

text \<open>\<open>usage\<close> and \<open>false\<close>.\<close>

definition refuse :: "string \<Rightarrow> console \<Rightarrow> 's \<Rightarrow> 's outcome" where
  "refuse cmd io s = Some (rbind (usage cmd io) (\<lambda>io. Inr (False, io, s)))"

text \<open>A call whose result is reported when it is \<open>false\<close>, and one whose result is not looked at.\<close>

definition checked_call ::
  "('cb, 's) calls \<Rightarrow> 'cb api \<Rightarrow> string \<Rightarrow> console \<Rightarrow> 's \<Rightarrow> 's outcome" where
  "checked_call call op msg io s =
     (case call op s of
        None \<Rightarrow> None
      | Some (r, s') \<Rightarrow>
          if r \<noteq> Bool True
          then Some (Inr (False, put_err (red_bold @ msg @ plain_again @ '', please check the server stats'' @ endl) io, s'))
          else Some (Inr (True, io, s')))"

definition plain_call :: "('cb, 's) calls \<Rightarrow> 'cb api \<Rightarrow> console \<Rightarrow> 's \<Rightarrow> 's outcome" where
  "plain_call call op io s = (case call op s of None \<Rightarrow> None | Some (r, s') \<Rightarrow> Some (Inr (True, io, s')))"

definition is_flag :: "string \<Rightarrow> bool" where
  "is_flag w \<longleftrightarrow> w = ''true'' \<or> w = ''false''"

definition exchange_type_of :: "string \<Rightarrow> ExchangeType" where
  "exchange_type_of w =
     (if w = ''FANOUT'' then FANOUT else if w = ''DIRECT'' then DIRECT else if w = ''TOPIC'' then TOPIC
      else UNKNOWTYPE)"

text \<open>The loop over the arguments; \<open>None\<close> when a piece has no \<open>=\<close>.\<close>

fun read_args :: "string list \<Rightarrow> arg_map \<Rightarrow> arg_map option" where
  "read_args [] m = Some m"
| "read_args (e # es) m =
     (case str_find (CHR ''='') e 0 of
        None \<Rightarrow> None
      | Some pos \<Rightarrow> read_args es (um_insert (take pos e) (drop (Suc pos) e) m))"

definition cmd_args :: "splitter \<Rightarrow> string list \<Rightarrow> arg_map option" where
  "cmd_args bsplit w =
     (if length w = 6 \<and> w ! 5 \<noteq> '''' then read_args (split bsplit (w ! 5) ''&'' True) [] else Some [])"

definition cmd_declare_exchange :: "splitter \<Rightarrow> ('cb, 's) calls \<Rightarrow> string list \<Rightarrow> console \<Rightarrow> 's \<Rightarrow> 's outcome" where
  "cmd_declare_exchange bsplit call w io s =
     (if length w \<noteq> 6 \<and> length w \<noteq> 5 then refuse ''declare_exchange'' io s
      else let type = exchange_type_of (w ! 2) in
        if type = UNKNOWTYPE then refuse ''declare_exchange'' io s
        else if \<not> is_flag (w ! 3) \<or> \<not> is_flag (w ! 4) then refuse ''declare_exchange'' io s
        else case cmd_args bsplit w of
            None \<Rightarrow> refuse ''declare_exchange'' io s
          | Some m \<Rightarrow> checked_call call
              (OpDeclareExchange (w ! 1) type (w ! 3 = ''true'') (w ! 4 = ''true'') m) ''declare_exchange failed'' io s)"

definition cmd_declare_queue :: "splitter \<Rightarrow> ('cb, 's) calls \<Rightarrow> string list \<Rightarrow> console \<Rightarrow> 's \<Rightarrow> 's outcome" where
  "cmd_declare_queue bsplit call w io s =
     (if length w \<noteq> 6 \<and> length w \<noteq> 5 then refuse ''declare_queue'' io s
      else if \<not> is_flag (w ! 2) \<or> \<not> is_flag (w ! 3) \<or> \<not> is_flag (w ! 4) then refuse ''declare_queue'' io s
      else case cmd_args bsplit w of
          None \<Rightarrow> refuse ''declare_queue'' io s
        | Some m \<Rightarrow> checked_call call
            (OpDeclareQueue (w ! 1) (w ! 2 = ''true'') (w ! 3 = ''true'') (w ! 4 = ''true'') m) ''declare_queue failed'' io s)"

definition delivery_mode_of :: "string \<Rightarrow> DeliveryMode" where
  "delivery_mode_of w = (if w = ''DURABLE'' then DURABLE else if w = ''DIRECT'' then UNDURABLE else UNKNOWMODE)"

text \<open>
  The properties of a message: \<open>uid\<close> is what \<open>uuid_helper\<close> returns.  The routing key of the command is
  read into a variable and never put in.
\<close>

definition publish_properties :: "string \<Rightarrow> string list \<Rightarrow> BasicProperties" where
  "publish_properties uid w = default_properties\<lparr>bp_id := uid, bp_delivery_mode := delivery_mode_of (w ! 2)\<rparr>"

text \<open>The loop of \<open>publish\<close> and \<open>publish_mode\<close>; it may read empty lines for ever at the end of the input.\<close>

partial_function (option) publish_mesgs ::
  "('cb, 's) calls \<Rightarrow> bool \<Rightarrow> string \<Rightarrow> BasicProperties \<Rightarrow> console \<Rightarrow> 's \<Rightarrow> (console \<times> 's) option" where
  "publish_mesgs call again exchange_name bp io s =
     (case getline (put_out ''[please input your message]# '' io) of (mesg, io1) \<Rightarrow>
        if mesg = ''quit'' then Some (io1, s)
        else (case call (OpPublish exchange_name (Some bp) mesg) s of
            None \<Rightarrow> None
          | Some (r, s1) \<Rightarrow> if again then publish_mesgs call again exchange_name bp io1 s1 else Some (io1, s1)))"

definition cmd_publish :: "('cb, 's) calls \<Rightarrow> string \<Rightarrow> string list \<Rightarrow> console \<Rightarrow> 's \<Rightarrow> 's outcome" where
  "cmd_publish call uid w io s =
     (if length w \<noteq> 4 then refuse ''publish'' io s
      else case publish_mesgs call (w ! 0 = ''publish_mode'') (w ! 1) (publish_properties uid w) io s of
          None \<Rightarrow> None
        | Some (io', s') \<Rightarrow> Some (Inr (True, io', s')))"

text \<open>\<open>check_quit_while_consuming\<close>: the lines left after \<open>quit\<close>; at the end of the input it reads for ever.\<close>

fun check_quit_while_consuming :: "string list \<Rightarrow> string list option" where
  "check_quit_while_consuming [] = None"
| "check_quit_while_consuming (l # ls) = (if l = ''quit'' then Some ls else check_quit_while_consuming ls)"

text \<open>A subscription that fails is reported and then waited for all the same.\<close>

definition cmd_subscribe :: "('cb, 's) calls \<Rightarrow> 'cb \<Rightarrow> string list \<Rightarrow> console \<Rightarrow> 's \<Rightarrow> 's outcome" where
  "cmd_subscribe call fn w io s =
     (if length w \<noteq> 4 then refuse ''subscribe'' io s
      else if \<not> is_flag (w ! 3) then refuse ''subscribe'' io s
      else case call (OpConsume (w ! 1) (w ! 2) (w ! 3 = ''true'') fn) s of
          None \<Rightarrow> None
        | Some (r, s1) \<Rightarrow>
            let io1 = (if r \<noteq> Bool True
              then put_err (red_bold @ ''subscribe a queue failed'' @ plain_again @ '', please check the server stats'' @ endl) io
              else io)
            in case check_quit_while_consuming (io_in io1) of
                None \<Rightarrow> None
              | Some ls \<Rightarrow> (case call OpCancel s1 of
                    None \<Rightarrow> None
                  | Some (r2, s2) \<Rightarrow> Some (Inr (True, io1\<lparr>io_in := ls\<rparr>, s2))))"

text \<open>\<open>cb\<close>, what the client does with a message: the text it prints and the message it acknowledges.\<close>

definition client_cb :: "string \<Rightarrow> BasicProperties \<Rightarrow> string \<Rightarrow> string \<times> 'cb api" where
  "client_cb tag bp body = (tag @ '' recv a mesg# '' @ body @ endl, OpAck (bp_id bp))"

definition run_cmd ::
  "splitter \<Rightarrow> ('cb, 's) calls \<Rightarrow> 'cb \<Rightarrow> string \<Rightarrow> string \<Rightarrow> string list \<Rightarrow> console \<Rightarrow> 's \<Rightarrow> 's outcome" where
  "run_cmd bsplit call fn cid uid w io s =
     (let cmd = w ! 0 in
      if cmd = ''cmds'' then Some (Inr (True, print_cmds io, s))
      else if cmd = ''cid'' then Some (Inr (True, put_out (''current channel id: '' @ cid @ endl) io, s))
      else if cmd = ''bind'' then
        if length w \<noteq> 4 then refuse ''bind'' io s
        else checked_call call (OpBind (w ! 1) (w ! 2) (w ! 3)) ''bind failed'' io s
      else if cmd = ''unbind'' then
        if length w \<noteq> 3 then refuse ''unbind'' io s else plain_call call (OpUnbind (w ! 1) (w ! 2)) io s
      else if cmd = ''declare_exchange'' then cmd_declare_exchange bsplit call w io s
      else if cmd = ''delete_exchange'' then
        if length w \<noteq> 2 then refuse ''delete_exchange'' io s else plain_call call (OpDeleteExchange (w ! 1)) io s
      else if cmd = ''declare_queue'' then cmd_declare_queue bsplit call w io s
      else if cmd = ''delete_queue'' then
        if length w \<noteq> 2 then refuse ''delete_queue'' io s else plain_call call (OpDeleteQueue (w ! 1)) io s
      else if cmd = ''svrstat'' then plain_call call OpQuery io s
      else if cmd = ''publish'' \<or> cmd = ''publish_mode'' then cmd_publish call uid w io s
      else if cmd = ''subscribe'' then cmd_subscribe call fn w io s
      else if cmd = ''clear'' then Some (Inr (True, io, s))
      else if cmd = ''logo'' then Some (Inr (True, print_logo io, s))
      else Some (Inl Aborts))"

section \<open>Running\<close>

definition not_found :: "string \<Rightarrow> console \<Rightarrow> console" where
  "not_found cmd io = put_err (red_bold @ cmd @ '': '' @ plain_again @
     ''command not found, use '' @ [CHR 0x27] @ ''cmds'' @ [CHR 0x27] @ '' to show all valid commands'' @ endl) io"

text \<open>
  The loop of \<open>run\<close>.  \<open>ids\<close> are the identifiers \<open>uuid_helper\<close> returns, one for each command.  \<open>exit\<close>
  leaves the function, so the code after the loop, which closes the channel, is never reached.
\<close>

partial_function (option) run_loop ::
  "splitter \<Rightarrow> ('cb, 's) calls \<Rightarrow> 'cb \<Rightarrow> string \<Rightarrow> (nat \<Rightarrow> string) \<Rightarrow> nat \<Rightarrow> console \<Rightarrow> 's \<Rightarrow>
     (console \<times> 's) result option" where
  "run_loop bsplit call fn cid ids n io s =
     (case getline (put_out ''> '' io) of (full_cmd, io1) \<Rightarrow>
        let w = split bsplit full_cmd '' '' True in
        if length w = 0 then run_loop bsplit call fn cid ids n io1 s
        else if map_of valid_cmds (w ! 0) = None then run_loop bsplit call fn cid ids n (not_found (w ! 0) io1) s
        else if w ! 0 = ''exit'' then Some (Inr (io1, s))
        else case run_cmd bsplit call fn cid (ids n) w io1 s of
            None \<Rightarrow> None
          | Some (Inl e) \<Rightarrow> Some (Inl e)
          | Some (Inr (ok, io2, s2)) \<Rightarrow> run_loop bsplit call fn cid ids (Suc n) io2 s2)"

text \<open>\<open>run_config\<close> over the lines of the file, \<open>None\<close> when it cannot be opened; the numbers count from 1.\<close>

fun config_lines ::
  "splitter \<Rightarrow> ('cb, 's) calls \<Rightarrow> 'cb \<Rightarrow> string \<Rightarrow> (nat \<Rightarrow> string) \<Rightarrow> nat \<Rightarrow> string list \<Rightarrow> console \<Rightarrow> 's \<Rightarrow> 's outcome" where
  "config_lines bsplit call fn cid ids num [] io s = Some (Inr (True, io, s))"
| "config_lines bsplit call fn cid ids num (line # lines) io s =
     (let w = split bsplit line '' '' True in
      if length w = 0 then config_lines bsplit call fn cid ids (Suc num) lines io s
      else if map_of valid_cmds (w ! 0) = None then Some (Inr (False, not_found (w ! 0) io, s))
      else case run_cmd bsplit call fn cid (ids num) w io s of
          None \<Rightarrow> None
        | Some (Inl e) \<Rightarrow> Some (Inl e)
        | Some (Inr (res, io1, s1)) \<Rightarrow>
            if res then config_lines bsplit call fn cid ids (Suc num) lines
              (put_out (''['' @ show_nat num @ ''] run '' @ line @ '' success'' @ endl) io1) s1
            else Some (Inr (False, put_out (''['' @ show_nat num @ ''] run '' @ line @ '' failed'' @ endl) io1, s1)))"

definition run_config ::
  "splitter \<Rightarrow> ('cb, 's) calls \<Rightarrow> 'cb \<Rightarrow> string \<Rightarrow> (nat \<Rightarrow> string) \<Rightarrow> string list option \<Rightarrow> console \<Rightarrow> 's \<Rightarrow> 's outcome" where
  "run_config bsplit call fn cid ids file io s =
     (case file of
        None \<Rightarrow> Some (Inr (False, io, s))
      | Some lines \<Rightarrow> config_lines bsplit call fn cid ids 1 lines io s)"

text \<open>\<open>run\<close>; \<open>config\<close> is \<open>None\<close> when no file is given.\<close>

definition run_client_program ::
  "splitter \<Rightarrow> ('cb, 's) calls \<Rightarrow> 'cb \<Rightarrow> string \<Rightarrow> (nat \<Rightarrow> string) \<Rightarrow> string list option option \<Rightarrow> console \<Rightarrow> 's \<Rightarrow>
     (console \<times> 's) result option" where
  "run_client_program bsplit call fn cid ids config io s =
     (let io1 = print_logo io in
      case config of
        None \<Rightarrow> run_loop bsplit call fn cid ids 0 io1 s
      | Some file \<Rightarrow>
          (case run_config bsplit call fn cid ids file io1 s of
             None \<Rightarrow> None
           | Some (Inl e) \<Rightarrow> Some (Inl e)
           | Some (Inr (ok, io2, s2)) \<Rightarrow>
               if \<not> ok then Some (Inr (io2, s2))
               else run_loop bsplit call fn cid ids (case file of None \<Rightarrow> 0 | Some ls \<Rightarrow> Suc (length ls)) io2 s2))"

text \<open>
  \<open>main\<close> and the default of \<open>run\<close>: which file to run first, if any; \<open>open_file\<close> gives the lines of a file
  that can be opened.  A file of the name \<open>None\<close> cannot be run.
\<close>

definition config_of_args :: "(string \<Rightarrow> string list option) \<Rightarrow> string list \<Rightarrow> string list option option" where
  "config_of_args open_file argv =
     (let config = (if length argv = 1 then ''None'' else argv ! 1) in
      if config \<noteq> ''None'' then Some (open_file config) else None)"

end
