(* ===== verification/Console_Properties.thy ===== *)
theory Console_Properties
  imports Client_Console
begin

text \<open>
  What the console program does with its input: command lines are obeyed, the routing key of a
  publication is lost, and the program ends only at \<open>exit\<close>.
\<close>

section \<open>Command lines\<close>

definition word :: "string \<Rightarrow> bool" where
  "word w \<longleftrightarrow> w \<noteq> [] \<and> CHR '' '' \<notin> set w"

fun unwords :: "string list \<Rightarrow> string" where
  "unwords [] = []"
| "unwords [w] = w"
| "unwords (w # ws) = w @ '' '' @ unwords ws"

lemma unwords_hd: "ws \<noteq> [] \<Longrightarrow> list_all word ws \<Longrightarrow> unwords ws \<noteq> [] \<and> hd (unwords ws) \<noteq> CHR '' ''"
proof (induction ws rule: unwords.induct)
  case (2 w)
  then show ?case by (cases w) (auto simp: word_def)
next
  case (3 w v ws)
  then show ?case by (cases w) (auto simp: word_def)
qed simp

lemma split_unwords:
  assumes "boost_split_ok bsplit" and "ws \<noteq> []" and "list_all word ws"
  shows "split bsplit (unwords ws) '' '' True = ws"
proof -
  let ?P = "\<lambda>c. c \<in> set '' ''"
  have "tokens ?P (compress ?P (unwords ws)) = ws"
    using assms(2,3)
  proof (induction ws rule: unwords.induct)
    case (2 w)
    then have plain: "\<forall>c \<in> set w. \<not> ?P c" by (auto simp: word_def)
    have "compress ?P w = w" using compress_append_plain [OF plain, of "[]"] by simp
    then show ?case using tokens_plain [OF plain] by simp
  next
    case (3 w v ws)
    then have plain: "\<forall>c \<in> set w. \<not> ?P c" by (auto simp: word_def)
    have "unwords (v # ws) \<noteq> [] \<and> hd (unwords (v # ws)) \<noteq> CHR '' ''"
      using unwords_hd [of "v # ws"] 3 by simp
    then have "compress ?P ('' '' @ unwords (v # ws)) = CHR '' '' # compress ?P (unwords (v # ws))"
      by (cases "unwords (v # ws)") auto
    then show ?case
      using 3 compress_append_plain [OF plain, of "'' '' @ unwords (v # ws)"] tokens_append [OF plain, of "CHR '' ''"]
      by simp
  qed simp
  then show ?thesis using assms(1) by (simp add: split_def boost_split_ok_def)
qed

text \<open>The text of key-value arguments on the command line.\<close>

fun args_word :: "arg_map \<Rightarrow> string" where
  "args_word [] = []"
| "args_word [(k, v)] = k @ ''='' @ v"
| "args_word ((k, v) # m) = k @ ''='' @ v @ ''&'' @ args_word m"

definition args_plain :: "arg_map \<Rightarrow> bool" where
  "args_plain m \<longleftrightarrow> um_wf m \<and> (\<forall>(k, v) \<in> set m. k \<noteq> [] \<and> CHR ''='' \<notin> set k \<and>
     CHR '' '' \<notin> set (k @ v) \<and> CHR ''&'' \<notin> set (k @ v))"

lemma args_plain_Cons:
  "args_plain ((k, v) # m) \<longleftrightarrow> args_plain m \<and> k \<notin> fst ` set m \<and> k \<noteq> [] \<and> CHR ''='' \<notin> set k \<and>
     CHR '' '' \<notin> set (k @ v) \<and> CHR ''&'' \<notin> set (k @ v)"
  by (auto simp: args_plain_def um_wf_def)

lemma split_args_word:
  assumes "boost_split_ok bsplit" and "m \<noteq> []" and "args_plain m"
  shows "split bsplit (args_word m) ''&'' True = map (\<lambda>(k, v). k @ ''='' @ v) m"
proof -
  let ?P = "\<lambda>c. c \<in> set ''&''"
  have hd: "args_word m \<noteq> [] \<and> hd (args_word m) \<noteq> CHR ''&''" if "m \<noteq> []" "args_plain m" for m
    using that by (cases m rule: args_word.cases) (auto simp: args_plain_Cons neq_Nil_conv)
  have "tokens ?P (compress ?P (args_word m)) = map (\<lambda>(k, v). k @ ''='' @ v) m"
    using assms(2,3)
  proof (induction m rule: args_word.induct)
    case (2 k v)
    then have plain: "\<forall>c \<in> set (k @ ''='' @ v). \<not> ?P c" by (auto simp: args_plain_Cons)
    have "compress ?P (k @ ''='' @ v) = k @ ''='' @ v" using compress_append_plain [OF plain, of "[]"] by simp
    then show ?case using tokens_plain [OF plain] by simp
  next
    case (3 k v e m)
    then have plain: "\<forall>c \<in> set (k @ ''='' @ v). \<not> ?P c" and rest: "args_plain (e # m)" by (auto simp: args_plain_Cons)
    have "compress ?P (''&'' @ args_word (e # m)) = CHR ''&'' # compress ?P (args_word (e # m))"
      using hd [OF _ rest] by (cases "args_word (e # m)") auto
    then show ?case
      using 3 rest compress_append_plain [OF plain, of "''&'' @ args_word (e # m)"]
        tokens_append [OF plain, of "CHR ''&''"]
      by simp
  qed simp
  then show ?thesis using assms(1) by (simp add: split_def boost_split_ok_def)
qed

lemma read_args_words:
  assumes "args_plain m" and "um_keys m \<inter> um_keys out = {}"
  shows "read_args (map (\<lambda>(k, v). k @ ''='' @ v) m) out = Some (rev m @ out)"
  using assms
proof (induction m arbitrary: out)
  case (Cons e m)
  obtain k v where e: "e = (k, v)" by (cases e)
  have k: "CHR ''='' \<notin> set k" and m: "args_plain m" "k \<notin> fst ` set m" using Cons.prems(1) by (auto simp: e args_plain_Cons)
  have "map_of out k = None" using Cons.prems(2) by (auto simp: e um_keys_def map_of_eq_None_iff)
  then have "um_insert k v out = (k, v) # out" by (simp add: um_insert_def)
  moreover have "um_keys m \<inter> um_keys ((k, v) # out) = {}" using Cons.prems(2) m(2) by (auto simp: e um_keys_def)
  ultimately show ?case
    using Cons.IH [OF m(1)] find_from_append [OF k, of v 0] by (simp add: e str_find_def)
qed simp

section \<open>Lines for calls\<close>

fun type_word :: "ExchangeType \<Rightarrow> string" where
  "type_word FANOUT = ''FANOUT''"
| "type_word DIRECT = ''DIRECT''"
| "type_word TOPIC = ''TOPIC''"
| "type_word t = ''''"

definition flag_word :: "bool \<Rightarrow> string" where
  "flag_word b = (if b then ''true'' else ''false'')"

definition args_words :: "arg_map \<Rightarrow> string list" where
  "args_words m = (if m = [] then [] else [args_word m])"

text \<open>The words of the command for a call, the calls that have one, and how the call is reported.\<close>

fun command_words :: "'cb api \<Rightarrow> string list" where
  "command_words (OpDeclareExchange n t d a m) = [''declare_exchange'', n, type_word t, flag_word d, flag_word a] @ args_words m"
| "command_words (OpDeleteExchange n) = [''delete_exchange'', n]"
| "command_words (OpDeclareQueue n d x a m) = [''declare_queue'', n, flag_word d, flag_word x, flag_word a] @ args_words m"
| "command_words (OpDeleteQueue n) = [''delete_queue'', n]"
| "command_words (OpBind e q k) = [''bind'', e, q, k]"
| "command_words (OpUnbind e q) = [''unbind'', e, q]"
| "command_words OpQuery = [''svrstat'']"
| "command_words op = []"

fun has_line :: "'cb api \<Rightarrow> bool" where
  "has_line (OpDeclareExchange n t d a m) \<longleftrightarrow> word n \<and> t \<in> {FANOUT, DIRECT, TOPIC} \<and> args_plain m"
| "has_line (OpDeleteExchange n) \<longleftrightarrow> word n"
| "has_line (OpDeclareQueue n d x a m) \<longleftrightarrow> word n \<and> args_plain m"
| "has_line (OpDeleteQueue n) \<longleftrightarrow> word n"
| "has_line (OpBind e q k) \<longleftrightarrow> word e \<and> word q \<and> word k"
| "has_line (OpUnbind e q) \<longleftrightarrow> word e \<and> word q"
| "has_line OpQuery \<longleftrightarrow> True"
| "has_line op \<longleftrightarrow> False"

text \<open>The entries of the map come in the order of insertion, latest first; the order of the map is unspecified anyway.\<close>

fun as_read :: "'cb api \<Rightarrow> 'cb api" where
  "as_read (OpDeclareExchange n t d a m) = OpDeclareExchange n t d a (rev m)"
| "as_read (OpDeclareQueue n d x a m) = OpDeclareQueue n d x a (rev m)"
| "as_read op = op"

fun reported :: "'cb api \<Rightarrow> ret \<Rightarrow> bool" where
  "reported (OpDeclareExchange n t d a m) r = (r = Bool True)"
| "reported (OpDeclareQueue n d x a m) r = (r = Bool True)"
| "reported (OpBind e q k) r = (r = Bool True)"
| "reported op r = True"

lemma is_flag_word [simp]: "is_flag (flag_word b)" and flag_word_true [simp]: "flag_word b = ''true'' \<longleftrightarrow> b"
  by (auto simp: is_flag_def flag_word_def)

lemma word_flag [simp]: "word (flag_word b)"
  by (simp add: word_def flag_word_def)

lemma type_word_facts:
  assumes "t \<in> {FANOUT, DIRECT, TOPIC}"
  shows "exchange_type_of (type_word t) = t" and "word (type_word t)" and "t \<noteq> UNKNOWTYPE"
  using assms by (auto simp: exchange_type_of_def word_def)

lemma word_args: "args_plain m \<Longrightarrow> m \<noteq> [] \<Longrightarrow> word (args_word m)"
  by (induction m rule: args_word.induct) (auto simp: args_plain_Cons word_def)

lemma has_line_words: "has_line op \<Longrightarrow> command_words op \<noteq> [] \<and> list_all word (command_words op)"
  by (cases op) (auto simp: args_words_def word_args type_word_facts(2), auto simp: word_def)

lemma cmd_args_words:
  assumes "boost_split_ok bsplit" and "args_plain m"
  shows "cmd_args bsplit ([c, x1, x2, x3, x4] @ args_words m) = Some (rev m)"
  using assms word_args [OF assms(2)] split_args_word [OF assms(1)] read_args_words [of m "[]"]
  by (auto simp: cmd_args_def args_words_def word_def um_keys_def)

fun failure_text :: "'cb api \<Rightarrow> string" where
  "failure_text (OpDeclareExchange n t d a m) = ''declare_exchange failed''"
| "failure_text (OpDeclareQueue n d x a m) = ''declare_queue failed''"
| "failure_text (OpBind e q k) = ''bind failed''"
| "failure_text op = ''''"

definition report :: "'cb api \<Rightarrow> ret \<Rightarrow> console \<Rightarrow> console" where
  "report op r io = (if reported op r then io
     else put_err (red_bold @ failure_text op @ plain_again @ '', please check the server stats'' @ endl) io)"

lemma command_words_run:
  assumes "boost_split_ok bsplit" and "has_line op"
  shows "run_cmd bsplit call fn cid uid (command_words op) io s =
    (case call (as_read op) s of None \<Rightarrow> None | Some (r, s') \<Rightarrow> Some (Inr (reported op r, report op r io, s')))"
proof (cases op)
  case (OpDeclareExchange n t d a m)
  then show ?thesis
    using assms(2) type_word_facts [of t] cmd_args_words [OF assms(1), of m "''declare_exchange''" n "type_word t" "flag_word d" "flag_word a"]
    by (auto simp: run_cmd_def cmd_declare_exchange_def checked_call_def report_def args_words_def split: option.split)
next
  case (OpDeclareQueue n d x a m)
  then show ?thesis
    using assms(2) cmd_args_words [OF assms(1), of m "''declare_queue''" n "flag_word d" "flag_word x" "flag_word a"]
    by (auto simp: run_cmd_def cmd_declare_queue_def checked_call_def report_def args_words_def split: option.split)
qed (use assms(2) in \<open>auto simp: run_cmd_def checked_call_def plain_call_def report_def split: option.split\<close>)

text \<open>
  C35: The console obeys.  A command line for a declaration, deletion, binding, unbinding or query,
  made of words without spaces, leads to exactly that call, with the arguments given as \<open>k=v&k=v\<close>
  read back entry by entry; the command succeeds when the call does, and a refusal is reported.
\<close>

theorem command_line_is_obeyed:
  assumes "boost_split_ok bsplit" and "has_line op"
  shows "run_cmd bsplit call fn cid uid (split bsplit (unwords (command_words op)) '' '' True) io s =
    (case call (as_read op) s of None \<Rightarrow> None | Some (r, s') \<Rightarrow> Some (Inr (reported op r, report op r io, s')))"
  using split_unwords [OF assms(1)] has_line_words [OF assms(2)] command_words_run [OF assms] by simp

theorem command_line_is_obeyed_witness:
  "run_cmd ref_split (\<lambda>op s. Some (Bool True, s @ [op])) () ''c'' ''u''
     (split ref_split ''declare_queue q true false false k=v&l=w'' '' '' True) \<lparr>io_in = [], io_out = '''', io_err = ''''\<rparr> [] =
   Some (Inr (True, \<lparr>io_in = [], io_out = '''', io_err = ''''\<rparr>, [OpDeclareQueue ''q'' True False False [(''l'', ''w''), (''k'', ''v'')]]))"
  using command_line_is_obeyed [OF ref_split_ok, of "OpDeclareQueue ''q'' True False False [(''k'', ''v''), (''l'', ''w'')]"
      "\<lambda>op s. Some (Bool True, s @ [op])" "()" "''c''" "''u''" "\<lparr>io_in = [], io_out = '''', io_err = ''''\<rparr>" "[]"]
  by (simp add: word_def args_plain_def um_wf_def flag_word_def args_words_def report_def)

section \<open>Publishing\<close>

text \<open>The calls that carry no routing key, and parameters that differ in the other calls only.\<close>

fun keyless :: "'cb api \<Rightarrow> bool" where
  "keyless (OpPublish e (Some bp) body) \<longleftrightarrow> bp_routing_key bp = ''''"
| "keyless op \<longleftrightarrow> True"

definition same_keyless :: "('cb, 's) calls \<Rightarrow> ('cb, 's) calls \<Rightarrow> bool" where
  "same_keyless call call' \<longleftrightarrow> (\<forall>op s. keyless op \<longrightarrow> call op s = call' op s)"

lemma same_keylessD: "same_keyless call call' \<Longrightarrow> keyless op \<Longrightarrow> call op s = call' op s"
  by (simp add: same_keyless_def)

lemma same_keyless_sym: "same_keyless call call' \<Longrightarrow> same_keyless call' call"
  by (simp add: same_keyless_def)

lemma same_outcomeI:
  assumes "\<And>y. x = Some y \<Longrightarrow> z = Some y" and "\<And>y. z = Some y \<Longrightarrow> x = Some y"
  shows "x = z"
  using assms by (cases x; cases z) auto

lemma publish_mesgs_follows:
  fixes call call' :: "('cb, 's) calls"
  assumes "publish_mesgs call again e bp io s = Some y" and "bp_routing_key bp = ''''" and "same_keyless call call'"
  shows "publish_mesgs call' again e bp io s = Some y"
proof -
  have "bp_routing_key bp = '''' \<longrightarrow> same_keyless call call' \<longrightarrow> publish_mesgs call' again e bp io s = Some y"
  proof (rule publish_mesgs.raw_induct
      [where P = "\<lambda>call again e bp io s y. bp_routing_key bp = '''' \<longrightarrow> same_keyless call call' \<longrightarrow>
        publish_mesgs call' again e bp io s = Some y", OF _ assms(1)], intro impI)
    fix pm :: "('cb, 's) calls \<Rightarrow> bool \<Rightarrow> string \<Rightarrow> BasicProperties \<Rightarrow> console \<Rightarrow> 's \<Rightarrow> (console \<times> 's) option"
      and call :: "('cb, 's) calls" and again e bp io s y
    assume IH: "\<And>call again e bp io s y. pm call again e bp io s = Some y \<Longrightarrow> bp_routing_key bp = '''' \<longrightarrow>
        same_keyless call call' \<longrightarrow> publish_mesgs call' again e bp io s = Some y"
      and body: "(case getline (put_out ''[please input your message]# '' io) of (mesg, io1) \<Rightarrow>
        if mesg = ''quit'' then Some (io1, s)
        else case call (OpPublish e (Some bp) mesg) s of None \<Rightarrow> None
          | Some (r, s1) \<Rightarrow> if again then pm call again e bp io1 s1 else Some (io1, s1)) = Some y"
      and key: "bp_routing_key bp = ''''" and same: "same_keyless call call'"
    have "call (OpPublish e (Some bp) mesg) s = call' (OpPublish e (Some bp) mesg) s" for mesg
      using same key by (intro same_keylessD) simp_all
    then show "publish_mesgs call' again e bp io s = Some y"
      using body IH key same
      by (subst publish_mesgs.simps) (auto split: prod.splits if_splits option.splits)
  qed
  then show ?thesis using assms(2,3) by simp
qed

lemma publish_mesgs_same:
  assumes "same_keyless call call'" and "bp_routing_key bp = ''''"
  shows "publish_mesgs call again e bp io s = publish_mesgs call' again e bp io s"
  by (rule same_outcomeI) (erule publish_mesgs_follows, rule assms(2), rule assms(1) same_keyless_sym [OF assms(1)])+

lemma publish_properties_key: "bp_routing_key (publish_properties uid w) = ''''"
  by (simp add: publish_properties_def default_properties_def)

lemma run_cmd_same:
  assumes "same_keyless call call'"
  shows "run_cmd bsplit call fn cid uid w io s = run_cmd bsplit call' fn cid uid w io s"
proof -
  note same = same_keylessD [OF assms]
  have calls: "checked_call call op msg io s = checked_call call' op msg io s"
    "plain_call call op io s = plain_call call' op io s" if "keyless op" for op msg
    using same [OF that] by (simp_all add: checked_call_def plain_call_def)
  have "cmd_declare_exchange bsplit call w io s = cmd_declare_exchange bsplit call' w io s"
    "cmd_declare_queue bsplit call w io s = cmd_declare_queue bsplit call' w io s"
    by (simp_all add: cmd_declare_exchange_def cmd_declare_queue_def calls Let_def cong: if_cong option.case_cong)
  moreover have "cmd_publish call uid w io s = cmd_publish call' uid w io s"
    by (simp add: cmd_publish_def publish_mesgs_same [OF assms publish_properties_key])
  moreover have "cmd_subscribe call fn w io s = cmd_subscribe call' fn w io s"
    by (simp add: cmd_subscribe_def same cong: if_cong option.case_cong)
  ultimately show ?thesis by (simp add: run_cmd_def calls Let_def cong: if_cong)
qed

lemma run_loop_follows:
  fixes call call' :: "('cb, 's) calls"
  assumes "run_loop bsplit call fn cid ids n io s = Some y" and "same_keyless call call'"
  shows "run_loop bsplit call' fn cid ids n io s = Some y"
proof -
  have "same_keyless call call' \<longrightarrow> run_loop bsplit call' fn cid ids n io s = Some y"
  proof (rule run_loop.raw_induct [where P = "\<lambda>bsplit call fn cid ids n io s y. same_keyless call call' \<longrightarrow>
      run_loop bsplit call' fn cid ids n io s = Some y", OF _ assms(1)], intro impI)
    fix rl :: "splitter \<Rightarrow> ('cb, 's) calls \<Rightarrow> 'cb \<Rightarrow> string \<Rightarrow> (nat \<Rightarrow> string) \<Rightarrow> nat \<Rightarrow> console \<Rightarrow> 's \<Rightarrow> (console \<times> 's) result option"
      and bsplit and call :: "('cb, 's) calls" and fn cid ids n io s y
    assume IH: "\<And>bsplit call fn cid ids n io s y. rl bsplit call fn cid ids n io s = Some y \<Longrightarrow>
        same_keyless call call' \<longrightarrow> run_loop bsplit call' fn cid ids n io s = Some y"
      and body: "(case getline (put_out ''> '' io) of (full_cmd, io1) \<Rightarrow>
        let w = split bsplit full_cmd '' '' True in
        if length w = 0 then rl bsplit call fn cid ids n io1 s
        else if map_of valid_cmds (w ! 0) = None then rl bsplit call fn cid ids n (not_found (w ! 0) io1) s
        else if w ! 0 = ''exit'' then Some (Inr (io1, s))
        else case run_cmd bsplit call fn cid (ids n) w io1 s of None \<Rightarrow> None
          | Some (Inl e) \<Rightarrow> Some (Inl e)
          | Some (Inr (ok, io2, s2)) \<Rightarrow> rl bsplit call fn cid ids (Suc n) io2 s2) = Some y"
      and same: "same_keyless call call'"
    obtain l io1 where g: "getline (put_out ''> '' io) = (l, io1)" by (cases "getline (put_out ''> '' io)")
    let ?w = "split bsplit l '' '' True"
    have again: "rl bsplit call fn cid ids k io2 s2 = Some y \<Longrightarrow> run_loop bsplit call' fn cid ids k io2 s2 = Some y" for k io2 s2
      using IH same by blast
    consider (empty) "length ?w = 0" | (unknown) "length ?w \<noteq> 0" "map_of valid_cmds (?w ! 0) = None"
      | (exit) "length ?w \<noteq> 0" "map_of valid_cmds (?w ! 0) \<noteq> None" "?w ! 0 = ''exit''"
      | (command) "length ?w \<noteq> 0" "map_of valid_cmds (?w ! 0) \<noteq> None" "?w ! 0 \<noteq> ''exit''" by blast
    then show "run_loop bsplit call' fn cid ids n io s = Some y"
    proof cases
      case command
      then obtain r where r: "run_cmd bsplit call' fn cid (ids n) ?w io1 s = Some r"
        and rest: "(case r of Inl e \<Rightarrow> Some (Inl e) | Inr (ok, io2, s2) \<Rightarrow> rl bsplit call fn cid ids (Suc n) io2 s2) = Some y"
        using body unfolding run_cmd_same [OF same] by (auto simp: g Let_def split: option.splits)
      show ?thesis
      proof (cases r)
        case (Inl e)
        then show ?thesis using command r rest by (subst run_loop.simps) (auto simp: g Let_def)
      next
        case (Inr x)
        then show ?thesis using command r rest again by (cases x, subst run_loop.simps) (auto simp: g Let_def)
      qed
    qed (use body again in \<open>(subst run_loop.simps, auto simp: g Let_def)+\<close>)
  qed
  then show ?thesis using assms(2) by simp
qed

lemma config_lines_same:
  assumes "same_keyless call call'"
  shows "config_lines bsplit call fn cid ids num ls io s = config_lines bsplit call' fn cid ids num ls io s"
  by (induction ls arbitrary: num io s)
    (simp_all add: Let_def run_cmd_same [OF assms] split: option.split sum.split)

lemma client_program_same:
  assumes "same_keyless call call'"
  shows "run_client_program bsplit call fn cid ids config io s = run_client_program bsplit call' fn cid ids config io s"
proof -
  have loop: "run_loop bsplit call fn cid ids n io s = run_loop bsplit call' fn cid ids n io s" for n io s
    by (rule same_outcomeI) (erule run_loop_follows, rule assms same_keyless_sym [OF assms])+
  then show ?thesis
    by (simp add: run_client_program_def run_config_def config_lines_same [OF assms] loop Let_def cong: if_cong option.case_cong sum.case_cong)
qed

text \<open>
  C39: The console loses routing keys.  Whatever commands it is given, from its input or from a file,
  it publishes with empty routing keys only: exchanging what the calls do for all publications that
  have a key changes nothing, neither what it prints nor what becomes of its surroundings.  The key on
  a \<open>publish\<close> or \<open>publish_mode\<close> line has no influence, and \<open>publish\<close> with a message line other than
  \<open>quit\<close> makes exactly the one call that publishes this line on the exchange of the command, with
  the fresh identifier, no key and the delivery mode of the command, where the mode the help text calls
  \<open>UNDURABLE\<close> is not known but \<open>DIRECT\<close> is.
\<close>

theorem publish_ignores_routing_key:
  assumes "same_keyless call call'" and "io_in io' = line # rest" and "line \<noteq> ''quit''"
  shows "run_client_program bsplit call fn cid ids config io s = run_client_program bsplit call' fn cid ids config io s \<and>
    run_cmd bsplit call fn cid uid [''publish_mode'', e, m, k] io s = run_cmd bsplit call fn cid uid [''publish_mode'', e, m, k'] io s \<and>
    run_cmd bsplit call fn cid uid [''publish'', e, m, k] io' s =
      (case call (OpPublish e (Some \<lparr>bp_id = uid, bp_delivery_mode = (if m = ''DURABLE'' then DURABLE else
          if m = ''DIRECT'' then UNDURABLE else UNKNOWMODE), bp_routing_key = '''', bp_unknown = []\<rparr>) line) s of
         None \<Rightarrow> None
       | Some (r, s') \<Rightarrow> Some (Inr (True, put_out ''[please input your message]# '' io'\<lparr>io_in := rest\<rparr>, s')))"
  (is "?same \<and> ?mode \<and> ?publish")
proof (intro conjI)
  show ?same by (rule client_program_same [OF assms(1)])
  show ?mode by (simp add: run_cmd_def cmd_publish_def publish_properties_def)
  have "run_cmd bsplit call fn cid uid [''publish'', e, m, k] io' s = cmd_publish call uid [''publish'', e, m, k] io' s"
    by (simp add: run_cmd_def)
  then show ?publish
    using assms(2,3) by (simp add: cmd_publish_def publish_mesgs.simps getline_def put_out_def publish_properties_def
        delivery_mode_of_def default_properties_def split: option.split)
qed

theorem publish_ignores_routing_key_witness:
  "run_client_program ref_split (\<lambda>op s. Some (Bool True, s @ [op])) () ''c'' (\<lambda>n. ''u'') None
      \<lparr>io_in = [''publish e DIRECT k'', ''hello''], io_out = '''', io_err = ''''\<rparr> [] =
    run_client_program ref_split (\<lambda>op s. if keyless op then Some (Bool True, s @ [op]) else None) () ''c'' (\<lambda>n. ''u'') None
      \<lparr>io_in = [''publish e DIRECT k'', ''hello''], io_out = '''', io_err = ''''\<rparr> [] \<and>
   run_cmd ref_split (\<lambda>op s. Some (Bool True, s @ [op])) () ''c'' ''u'' [''publish'', ''e'', ''DIRECT'', ''k'']
      \<lparr>io_in = [''hello''], io_out = '''', io_err = ''''\<rparr> [] =
    Some (Inr (True, \<lparr>io_in = [], io_out = ''[please input your message]# '', io_err = ''''\<rparr>,
      [OpPublish ''e'' (Some \<lparr>bp_id = ''u'', bp_delivery_mode = UNDURABLE, bp_routing_key = '''', bp_unknown = []\<rparr>) ''hello'']))"
proof -
  let ?call = "\<lambda>op s. Some (Bool True, s @ [op])"
  have same: "same_keyless ?call (\<lambda>op s. if keyless op then Some (Bool True, s @ [op]) else None)"
    by (simp add: same_keyless_def)
  show ?thesis
    using publish_ignores_routing_key [OF same, of "\<lparr>io_in = [''hello''], io_out = '''', io_err = ''''\<rparr>" "''hello''" "[]"
        ref_split "()" "''c''" "\<lambda>n. ''u''" None "\<lparr>io_in = [''publish e DIRECT k'', ''hello''], io_out = '''', io_err = ''''\<rparr>" "[]"
        "''u''" "''e''" "''DIRECT''" "''k''" "''k''"]
    by (simp add: put_out_def)
qed

section \<open>Leaving\<close>

lemma getline_lines: "getline io = (l, io') \<Longrightarrow> set (io_in io') \<subseteq> set (io_in io)"
  by (auto simp: getline_def split: list.splits)

lemma put_lines [simp]: "io_in (put_out t io) = io_in io" "io_in (put_err t io) = io_in io"
  by (simp_all add: put_out_def put_err_def)

lemma publish_lines:
  fixes call :: "('cb, 's) calls"
  assumes "publish_mesgs call again e bp io s = Some y"
  shows "set (io_in (fst y)) \<subseteq> set (io_in io)"
proof (rule publish_mesgs.raw_induct
    [where P = "\<lambda>call again e bp io s y. set (io_in (fst y)) \<subseteq> set (io_in io)", OF _ assms])
  fix pm :: "('cb, 's) calls \<Rightarrow> bool \<Rightarrow> string \<Rightarrow> BasicProperties \<Rightarrow> console \<Rightarrow> 's \<Rightarrow> (console \<times> 's) option"
    and call again e bp io s y
  assume IH: "\<And>call again e bp io s y. pm call again e bp io s = Some y \<Longrightarrow> set (io_in (fst y)) \<subseteq> set (io_in io)"
    and body: "(case getline (put_out ''[please input your message]# '' io) of (mesg, io1) \<Rightarrow>
      if mesg = ''quit'' then Some (io1, s)
      else case call (OpPublish e (Some bp) mesg) s of None \<Rightarrow> None
        | Some (r, s1) \<Rightarrow> if again then pm call again e bp io1 s1 else Some (io1, s1)) = Some y"
  obtain mesg io1 where g: "getline (put_out ''[please input your message]# '' io) = (mesg, io1)"
    by (cases "getline (put_out ''[please input your message]# '' io)")
  have sub: "set (io_in io1) \<subseteq> set (io_in io)" using getline_lines [OF g] by simp
  have "fst y = io1 \<or> (\<exists>s1. pm call again e bp io1 s1 = Some y)"
    using body by (auto simp: g split: if_splits option.splits)
  then have "set (io_in (fst y)) \<subseteq> set (io_in io1)" using IH by blast
  then show "set (io_in (fst y)) \<subseteq> set (io_in io)" using sub by simp
qed

lemma publish_needs_quit:
  fixes call :: "('cb, 's) calls"
  assumes "publish_mesgs call again e bp io s = Some y"
  shows "again \<longrightarrow> ''quit'' \<in> set (io_in io)"
proof (rule publish_mesgs.raw_induct
    [where P = "\<lambda>call again e bp io s y. again \<longrightarrow> ''quit'' \<in> set (io_in io)", OF _ assms])
  fix pm :: "('cb, 's) calls \<Rightarrow> bool \<Rightarrow> string \<Rightarrow> BasicProperties \<Rightarrow> console \<Rightarrow> 's \<Rightarrow> (console \<times> 's) option"
    and call again e bp io s y
  assume IH: "\<And>call again e bp io s y. pm call again e bp io s = Some y \<Longrightarrow> again \<longrightarrow> ''quit'' \<in> set (io_in io)"
    and body: "(case getline (put_out ''[please input your message]# '' io) of (mesg, io1) \<Rightarrow>
      if mesg = ''quit'' then Some (io1, s)
      else case call (OpPublish e (Some bp) mesg) s of None \<Rightarrow> None
        | Some (r, s1) \<Rightarrow> if again then pm call again e bp io1 s1 else Some (io1, s1)) = Some y"
  obtain mesg io1 where g: "getline (put_out ''[please input your message]# '' io) = (mesg, io1)"
    by (cases "getline (put_out ''[please input your message]# '' io)")
  have "mesg = ''quit'' \<or> (\<exists>s1. pm call True e bp io1 s1 = Some y)" if again
    using body that by (auto simp: g split: if_splits option.splits)
  then have "mesg = ''quit'' \<or> ''quit'' \<in> set (io_in io1)" if again using IH that by blast
  then show "again \<longrightarrow> ''quit'' \<in> set (io_in io)"
    using g getline_lines [OF g] by (auto simp: getline_def split: list.splits)
qed

lemma quit_lines: "check_quit_while_consuming ls = Some rest \<Longrightarrow> set rest \<subseteq> set ls"
  by (induction ls) (auto split: if_splits)

lemma refuse_valid: "map_of valid_cmds cmd \<noteq> None \<Longrightarrow> \<exists>io'. refuse cmd io s = Some (Inr (False, io', s)) \<and> io_in io' = io_in io"
  by (auto simp: refuse_def usage_def)

text \<open>A command that is listed neither aborts nor puts lines back.\<close>

definition orderly :: "console \<Rightarrow> 's outcome \<Rightarrow> bool" where
  "orderly io x \<longleftrightarrow> (\<forall>y. x = Some y \<longrightarrow> (\<exists>ok io' s'. y = Inr (ok, io', s') \<and> set (io_in io') \<subseteq> set (io_in io)))"

lemma orderly_refuse: "map_of valid_cmds cmd \<noteq> None \<Longrightarrow> orderly io (refuse cmd io s)"
  using refuse_valid [of cmd io s] by (auto simp: orderly_def)

lemma orderly_calls: "orderly io (checked_call call op msg io s)" "orderly io (plain_call call op io s)"
  by (auto simp: orderly_def checked_call_def plain_call_def split: option.splits if_splits)

lemma orderly_publish: "orderly io (cmd_publish call uid w io s)"
  using publish_lines
  by (auto simp: cmd_publish_def valid_cmds_def intro!: orderly_refuse) (fastforce simp: orderly_def split: option.splits)

lemma orderly_subscribe: "orderly io (cmd_subscribe call fn w io s)"
  by (auto simp: cmd_subscribe_def valid_cmds_def intro!: orderly_refuse)
    (auto simp: orderly_def Let_def dest: quit_lines split: option.splits if_splits)

lemma orderly_declare:
  "orderly io (cmd_declare_exchange bsplit call w io s)" "orderly io (cmd_declare_queue bsplit call w io s)"
  by (auto simp: cmd_declare_exchange_def cmd_declare_queue_def valid_cmds_def Let_def
      intro!: orderly_refuse orderly_calls split: option.split)

lemma orderly_run_cmd:
  assumes "map_of valid_cmds (w ! 0) \<noteq> None" and "w ! 0 \<noteq> ''exit''"
  shows "orderly io (run_cmd bsplit call fn cid uid w io s)"
proof -
  have refused: "orderly io (refuse cmd io s)" if "cmd \<in> {''bind'', ''unbind'', ''delete_exchange'', ''delete_queue''}" for cmd
    by (rule orderly_refuse) (use that in \<open>auto simp: valid_cmds_def\<close>)
  show ?thesis
    using assms
    by (auto simp: run_cmd_def Let_def intro!: refused orderly_calls orderly_publish orderly_subscribe orderly_declare)
      (auto simp: orderly_def print_cmds_def print_logo_def valid_cmds_def split: if_splits)
qed

definition leaving_line :: "splitter \<Rightarrow> string \<Rightarrow> bool" where
  "leaving_line bsplit l \<longleftrightarrow> split bsplit l '' '' True ! 0 = ''exit''"

lemma run_loop_leaves:
  fixes call :: "('cb, 's) calls"
  assumes "run_loop bsplit call fn cid ids n io s = Some y" and "boost_split_ok bsplit"
  shows "returns y \<and> (\<exists>l \<in> set (io_in io). leaving_line bsplit l)"
proof -
  have "boost_split_ok bsplit \<longrightarrow> returns y \<and> (\<exists>l \<in> set (io_in io). leaving_line bsplit l)"
  proof (rule run_loop.raw_induct [where P = "\<lambda>bsplit call fn cid ids n io s y. boost_split_ok bsplit \<longrightarrow>
      returns y \<and> (\<exists>l \<in> set (io_in io). leaving_line bsplit l)", OF _ assms(1)], intro impI)
    fix rl :: "splitter \<Rightarrow> ('cb, 's) calls \<Rightarrow> 'cb \<Rightarrow> string \<Rightarrow> (nat \<Rightarrow> string) \<Rightarrow> nat \<Rightarrow> console \<Rightarrow> 's \<Rightarrow> (console \<times> 's) result option"
      and bsplit call fn cid ids n io s y
    assume IH: "\<And>bsplit call fn cid ids n io s y. rl bsplit call fn cid ids n io s = Some y \<Longrightarrow>
        boost_split_ok bsplit \<longrightarrow> returns y \<and> (\<exists>l \<in> set (io_in io). leaving_line bsplit l)"
      and body: "(case getline (put_out ''> '' io) of (full_cmd, io1) \<Rightarrow>
        let w = split bsplit full_cmd '' '' True in
        if length w = 0 then rl bsplit call fn cid ids n io1 s
        else if map_of valid_cmds (w ! 0) = None then rl bsplit call fn cid ids n (not_found (w ! 0) io1) s
        else if w ! 0 = ''exit'' then Some (Inr (io1, s))
        else case run_cmd bsplit call fn cid (ids n) w io1 s of None \<Rightarrow> None
          | Some (Inl e) \<Rightarrow> Some (Inl e)
          | Some (Inr (ok, io2, s2)) \<Rightarrow> rl bsplit call fn cid ids (Suc n) io2 s2) = Some y"
      and bs: "boost_split_ok bsplit"
    obtain l io1 where g: "getline (put_out ''> '' io) = (l, io1)" by (cases "getline (put_out ''> '' io)")
    have sub: "set (io_in io1) \<subseteq> set (io_in io)" using getline_lines [OF g] by simp
    let ?w = "split bsplit l '' '' True"
    have again: "returns y \<and> (\<exists>l \<in> set (io_in io). leaving_line bsplit l)"
      if "rl bsplit call fn cid ids k io2 s2 = Some y" "set (io_in io2) \<subseteq> set (io_in io)" for k io2 s2
      using IH [OF that(1)] bs that(2) by blast
    consider (unknown) "length ?w = 0 \<or> map_of valid_cmds (?w ! 0) = None" | (exit) "length ?w \<noteq> 0" "?w ! 0 = ''exit''"
      | (command) "length ?w \<noteq> 0" "map_of valid_cmds (?w ! 0) \<noteq> None" "?w ! 0 \<noteq> ''exit''" by blast
    then show "returns y \<and> (\<exists>l \<in> set (io_in io). leaving_line bsplit l)"
    proof cases
      case unknown
      have same: "io_in (not_found (?w ! 0) io1) = io_in io1" by (simp add: not_found_def)
      have "rl bsplit call fn cid ids n io1 s = Some y \<or> rl bsplit call fn cid ids n (not_found (?w ! 0) io1) s = Some y"
        using body unknown by (simp add: g Let_def split: if_splits)
      then show ?thesis using again sub same by metis
    next
      case exit
      have "split bsplit '''' '' '' True = ['''']" using bs by (simp add: split_def boost_split_ok_def)
      then have "l \<noteq> ''''" using exit(2) by auto
      then have "l \<in> set (io_in io)" using g by (auto simp: getline_def split: list.splits)
      moreover have "returns y" using body exit by (auto simp: g Let_def valid_cmds_def)
      ultimately show ?thesis using exit(2) by (auto simp: leaving_line_def)
    next
      case command
      have "orderly io1 (run_cmd bsplit call fn cid (ids n) ?w io1 s)" by (rule orderly_run_cmd [OF command(2,3)])
      then obtain ok io2 s2 where "run_cmd bsplit call fn cid (ids n) ?w io1 s = Some (Inr (ok, io2, s2))"
        "set (io_in io2) \<subseteq> set (io_in io1)" "rl bsplit call fn cid ids (Suc n) io2 s2 = Some y"
        using body command by (auto simp: g Let_def orderly_def split: option.splits sum.splits)
      then show ?thesis using again sub by blast
    qed
  qed
  then show ?thesis using assms(2) by simp
qed

text \<open>
  C40: The console leaves only at \<open>exit\<close>.  Its loop returns, never by an abort, only if a line of the
  input is an \<open>exit\<close> command: at the end of its input it runs on for ever, reading empty commands.  So
  does \<open>publish_mode\<close>, which publishes empty messages, and \<open>subscribe\<close>, which waits for \<open>quit\<close>.
\<close>

theorem console_leaves_only_at_exit:
  assumes "boost_split_ok bsplit"
  shows "(\<forall>y. run_loop bsplit call fn cid ids n io s = Some y \<longrightarrow>
      returns y \<and> (\<exists>l \<in> set (io_in io). leaving_line bsplit l)) \<and>
    (io_in io = [] \<longrightarrow> run_loop bsplit call fn cid ids n io s = None \<and>
      publish_mesgs call True e bp io s = None \<and> cmd_subscribe call fn [''subscribe'', t, q, ''true''] io s = None)"
proof (intro conjI impI allI)
  show "returns y" and "\<exists>l \<in> set (io_in io). leaving_line bsplit l" if "run_loop bsplit call fn cid ids n io s = Some y" for y
    using run_loop_leaves [OF that assms] by simp_all
  assume empty: "io_in io = []"
  then show "run_loop bsplit call fn cid ids n io s = None"
    using run_loop_leaves [OF _ assms] by (cases "run_loop bsplit call fn cid ids n io s") fastforce+
  show "publish_mesgs call True e bp io s = None"
    using publish_needs_quit [of call True e bp io s] empty by (cases "publish_mesgs call True e bp io s") fastforce+
  show "cmd_subscribe call fn [''subscribe'', t, q, ''true''] io s = None"
    using empty by (auto simp: cmd_subscribe_def is_flag_def put_err_def Let_def split: option.split)
qed

theorem console_leaves_only_at_exit_witness:
  "run_loop ref_split (\<lambda>op s. Some (Bool True, s)) () ''c'' (\<lambda>n. ''u'') 0 \<lparr>io_in = [], io_out = '''', io_err = ''''\<rparr> () = None"
  using console_leaves_only_at_exit [OF ref_split_ok, of "\<lambda>op s. Some (Bool True, s)" "()" "''c''" "\<lambda>n. ''u''" 0
      "\<lparr>io_in = [], io_out = '''', io_err = ''''\<rparr>" "()"] by simp

end
