(* ===== verification/Broker_Provenance.thy ===== *)
theory Broker_Provenance
  imports Broker_Sample
begin

text \<open>
  Where pushed messages come from: whatever the server pushes has been published, and is pushed as it
  was published, over restarts too.
\<close>

section \<open>Payloads published and held\<close>









section \<open>The server\<close>













end
