(* ===== verification/Broker_Drain.thy ===== *)
theory Broker_Drain
  imports Broker_Sample
begin

text \<open>
  The worker left alone: after finitely many steps it has worked off every task, and each task has
  delivered one waiting message to one subscriber.
\<close>

section \<open>Deliveries\<close>

text \<open>A delivery: the queue, the subscriber chosen for it, its channel and the message.\<close>

type_synonym delivery = "string \<times> addr consumer \<times> channel \<times> payload"

definition delivered_to :: "string \<Rightarrow> delivery list \<Rightarrow> payload list" where
  "delivered_to q ds = map (\<lambda>(q, c, ch, p). p) (filter (\<lambda>d. fst d = q) ds)"

definition waiting :: "spec_host \<Rightarrow> string \<Rightarrow> payload list" where
  "waiting H q = (case sh_messages H q of None \<Rightarrow> [] | Some a \<Rightarrow> sq_ready a)"

definition push_sent :: "delivery \<Rightarrow> outgoing" where
  "push_sent d = (case d of (q, c, ch, p) \<Rightarrow> Send (ch_conn ch) (pushed ch c p))"

definition delivery_ok :: "'db server \<Rightarrow> delivery \<Rightarrow> bool" where
  "delivery_ok s d = (case d of (q, c, ch, p) \<Rightarrow>
     c \<in> set (subscribers q (sv_consumers s)) \<and> deref_channel (cs_callback c) s = Inr ch)"

definition same_subscribers :: "'db server \<Rightarrow> 'db server \<Rightarrow> bool" where
  "same_subscribers s s' \<longleftrightarrow> sv_objects s' = sv_objects s \<and>
     (\<forall>q. subscribers q (sv_consumers s') = subscribers q (sv_consumers s))"

text \<open>
  The messages with the identifiers \<open>R\<close> have been taken from a queue, and perhaps acknowledged: each of
  them either waits for its acknowledgement or is not stored any more.
\<close>

definition handed :: "string set \<Rightarrow> spec_queue \<Rightarrow> spec_queue \<Rightarrow> bool" where
  "handed R a a' \<longleftrightarrow>
     filter (\<lambda>e. fst e \<notin> R) (sq_unacked a') = filter (\<lambda>e. fst e \<notin> R) (sq_unacked a) \<and>
     filter (\<lambda>p. pay_id p \<notin> R) (sq_stored a') = filter (\<lambda>p. pay_id p \<notin> R) (sq_stored a) \<and>
     (\<forall>i \<in> R. map_of (sq_unacked a') i = None \<longrightarrow> i \<notin> pay_id ` set (sq_stored a'))"

lemma handed_refl: "handed {} a a"
  by (simp add: handed_def)

lemma filter_outside: "filter (\<lambda>x. f x \<notin> R \<union> S) xs = filter (\<lambda>x. f x \<notin> S) (filter (\<lambda>x. f x \<notin> R) xs)"
  by (simp add: conj_commute)

lemma filter_outside_trans:
  assumes "filter (\<lambda>x. f x \<notin> R) ys = filter (\<lambda>x. f x \<notin> R) xs" and "filter (\<lambda>x. f x \<notin> S) zs = filter (\<lambda>x. f x \<notin> S) ys"
  shows "filter (\<lambda>x. f x \<notin> R \<union> S) zs = filter (\<lambda>x. f x \<notin> R \<union> S) xs"
proof -
  have "filter (\<lambda>x. f x \<notin> R \<union> S) zs = filter (\<lambda>x. f x \<notin> R) (filter (\<lambda>x. f x \<notin> S) ys)"
    using filter_outside [of f S R zs] by (simp only: Un_commute assms(2))
  also have "\<dots> = filter (\<lambda>x. f x \<notin> S) (filter (\<lambda>x. f x \<notin> R) xs)"
    using filter_outside [of f S R ys] filter_outside [of f R S ys] by (simp only: Un_commute assms(1))
  finally show ?thesis by (simp only: filter_outside)
qed

lemma map_of_outside: "i \<notin> R \<Longrightarrow> map_of (filter (\<lambda>e. fst e \<notin> R) m) i = map_of m i"
  by (induction m) auto

lemma image_outside: "i \<notin> R \<Longrightarrow> i \<in> f ` set (filter (\<lambda>x. f x \<notin> R) xs) \<longleftrightarrow> i \<in> f ` set xs"
  by auto

lemma handed_trans:
  assumes "handed R a a1" and "handed S a1 a2"
  shows "handed (R \<union> S) a a2"
proof -
  have "i \<notin> pay_id ` set (sq_stored a2)" if i: "i \<in> R" "i \<notin> S" "map_of (sq_unacked a2) i = None" for i
  proof -
    have "map_of (sq_unacked a1) i = None"
      using i assms(2) map_of_outside [of i S "sq_unacked a1"] map_of_outside [of i S "sq_unacked a2"] by (simp add: handed_def)
    then have "i \<notin> pay_id ` set (sq_stored a1)" using assms(1) i(1) by (simp add: handed_def)
    then show ?thesis
      using i(2) assms(2) image_outside [of i S pay_id "sq_stored a1"] image_outside [of i S pay_id "sq_stored a2"]
      by (simp add: handed_def)
  qed
  then have "\<forall>i \<in> R \<union> S. map_of (sq_unacked a2) i = None \<longrightarrow> i \<notin> pay_id ` set (sq_stored a2)"
    using assms(2) unfolding handed_def by blast
  moreover have "filter (\<lambda>e. fst e \<notin> R \<union> S) (sq_unacked a2) = filter (\<lambda>e. fst e \<notin> R \<union> S) (sq_unacked a)"
    using assms unfolding handed_def by (intro filter_outside_trans) auto
  moreover have "filter (\<lambda>p. pay_id p \<notin> R \<union> S) (sq_stored a2) = filter (\<lambda>p. pay_id p \<notin> R \<union> S) (sq_stored a)"
    using assms unfolding handed_def by (intro filter_outside_trans) auto
  ultimately show ?thesis unfolding handed_def by (intro conjI)
qed

lemma handed_take:
  assumes "sq_ready a = p # ps"
  shows "handed {pay_id p} a (snd (spec_take a))"
    and "handed {pay_id p} a (spec_ack (pay_id p) (snd (spec_take a)))"
  using assms by (auto simp: handed_def spec_take_def spec_ack_def um_erase_def)

text \<open>
  From \<open>b\<close> to \<open>b'\<close> the deliveries \<open>ds\<close> are sent and nothing else; the first \<open>taken q\<close> messages that waited in
  the queue \<open>q\<close> are gone from it, and are those delivered from it if it has subscribers.
\<close>

definition delivers :: "'db broker \<Rightarrow> spec_host \<Rightarrow> (string \<Rightarrow> nat) \<Rightarrow> delivery list \<Rightarrow> 'db broker \<Rightarrow> spec_host \<Rightarrow> bool" where
  "delivers b H taken ds b' H' \<longleftrightarrow>
     same_subscribers (br_server b) (br_server b') \<and>
     sv_out (br_server b') = sv_out (br_server b) @ map push_sent ds \<and>
     (\<forall>d \<in> set ds. delivery_ok (br_server b) d) \<and>
     (\<forall>q. waiting H' q = drop (taken q) (waiting H q)) \<and>
     (\<forall>q. rel_option (handed (pay_id ` set (take (taken q) (waiting H q)))) (sh_messages H q) (sh_messages H' q)) \<and>
     (\<forall>q. delivered_to q ds = (if subscribers q (sv_consumers (br_server b)) = [] then [] else take (taken q) (waiting H q)))"

lemma same_subscribers_trans: "same_subscribers s s1 \<Longrightarrow> same_subscribers s1 s2 \<Longrightarrow> same_subscribers s s2"
  by (simp add: same_subscribers_def)

lemma delivery_ok_same: "same_subscribers s s' \<Longrightarrow> delivery_ok s' d = delivery_ok s d"
  using deref_same [of s' s] by (auto simp: same_subscribers_def delivery_ok_def)

lemma delivers_none: "same_subscribers (br_server b) (br_server b') \<Longrightarrow> sv_out (br_server b') = sv_out (br_server b) \<Longrightarrow>
    delivers b H (\<lambda>q. 0) [] b' H"
  using handed_refl by (auto simp: delivers_def delivered_to_def intro: option.rel_refl)

lemma delivers_trans:
  assumes "delivers b H t ds b1 H1" and "delivers b1 H1 u es b' H'"
  shows "delivers b H (\<lambda>q. t q + u q) (ds @ es) b' H'"
proof -
  have same: "same_subscribers (br_server b) (br_server b1)" using assms(1) by (simp add: delivers_def)
  have rest: "waiting H1 q = drop (t q) (waiting H q)" for q using assms(1) unfolding delivers_def by blast
  have "rel_option (handed (pay_id ` set (take (t q + u q) (waiting H q)))) (sh_messages H q) (sh_messages H' q)" for q
  proof -
    have "rel_option (handed (pay_id ` set (take (t q) (waiting H q)))) (sh_messages H q) (sh_messages H1 q)"
      "rel_option (handed (pay_id ` set (take (u q) (drop (t q) (waiting H q))))) (sh_messages H1 q) (sh_messages H' q)"
      using assms rest unfolding delivers_def by simp_all
    then show ?thesis
      using handed_trans by (auto simp: take_add image_Un option_rel_Some1 elim!: option.rel_cases)
  qed
  then show ?thesis
    using assms delivery_ok_same [OF same] unfolding delivers_def
    by (auto simp: delivered_to_def same_subscribers_def take_add add.commute)
qed

section \<open>A task\<close>

lemma worker_same_subscribers:
  assumes "worker_step L s = Inr s'"
  shows "same_subscribers s s'"
proof -
  have step: "same_subscribers s s1" if "consume_step L this q s = Inr (fin, s1)" for this q fin s1
    using that
    by (auto simp: same_subscribers_def consume_step_def consume_front_def consume_choose_def consume_deliver_def
        consume_cb_def consume_ack_def rbind_Inr_conv send_def Let_def
        split: job.splits prod.splits option.splits if_splits) (erule subscribers_choose)+
  have adv: "same_subscribers s1 (advance_pool s1)" for s1 :: "'a server"
    by (simp add: same_subscribers_def advance_pool_def split: option.split prod.split)
  show ?thesis
    using assms adv [of s]
    by (auto simp: worker_step_def rbind_Inr_conv split: thread.splits list.splits task.splits if_splits dest!: step)
      (auto simp: same_subscribers_def advance_pool_def split: option.splits prod.splits)
qed

lemma workers_same_subscribers:
  "worker_steps L n b = Inr b' \<Longrightarrow> same_subscribers (br_server b) (br_server b')"
proof (induction n arbitrary: b)
  case (Suc n)
  obtain s where s: "worker_step L (br_server b) = Inr s" "worker_steps L n (b\<lparr>br_server := s\<rparr>) = Inr b'"
    using Suc.prems by (auto simp: rbind_Inr_conv)
  show ?case using same_subscribers_trans [OF worker_same_subscribers [OF s(1)]] Suc.IH [OF s(2)] by simp
qed (simp add: same_subscribers_def)

lemma worker_steps_add:
  "worker_steps L m b = Inr b1 \<Longrightarrow> worker_steps L n b1 = Inr b' \<Longrightarrow> worker_steps L (m + n) b = Inr b'"
  by (induction m arbitrary: b) (auto simp: rbind_Inr_conv)

text \<open>A task for a queue where nothing waits ends at once.\<close>

lemma task_finds_nothing:
  assumes rel: "broker_rel L tabs M N basedir b H"
    and th: "tp_threads (sv_pool (br_server b)) = [Executing (Consume this q # ts)]" and job: "sv_job (br_server b) = Fresh"
    and none: "waiting H q = []"
  shows "\<exists>b'. worker_steps L 1 b = Inr b' \<and> broker_rel L tabs M N basedir b' H \<and> turns_to ts b b' \<and>
    sv_out (br_server b') = sv_out (br_server b) \<and> worker_host L 1 b H = H"
proof -
  let ?s = "br_server b"
  have srel: "server_rel L tabs M N basedir ?s H" using rel by (simp add: broker_rel_def)
  have "Consume this q \<in> set (work (sv_pool ?s))" by (simp add: work_def in_threads_def th)
  then obtain cht where cht: "deref_channel this ?s = Inr cht"
    using server_relD(3) [OF srel] by (auto simp: tasks_ok_def live_def returns_iff)
  have H: "host_after [HConsume q] H = H"
    using none by (cases "sh_messages H q") (auto simp: host_after_single waiting_def spec_take_def map_upd_triv split: option.splits)
  obtain x' where m: "vh_basic_consume q (sv_host ?s) = (None, x')"
    using host_call [OF srel, of "HConsume q"] none
    by (auto simp: host_ok_def waiting_def spec_take_def split: prod.splits option.splits)
  let ?s1 = "?s\<lparr>sv_host := x'\<rparr>"
  let ?s2 = "?s1\<lparr>sv_pool := (sv_pool ?s)\<lparr>tp_threads := [Executing ts]\<rparr>, sv_job := Fresh\<rparr>"
  have w: "worker_step L ?s = Inr ?s2"
    using worker_consume [OF th, of L True ?s1] job cht m by (simp add: consume_step_def consume_front_def)
  have "broker_rel L tabs M N basedir (b\<lparr>br_server := ?s2\<rparr>) H"
    using worker_rel [OF rel w] H by (simp add: worker_cmds_def th job)
  moreover have "worker_host L 1 b H = H" using w H by (simp add: worker_cmds_def th job)
  ultimately show ?thesis using w by (simp add: turns_to_def)
qed

lemma task_delivers:
  assumes rel: "broker_rel L tabs M N basedir b H"
    and th: "tp_threads (sv_pool (br_server b)) = [Executing (Consume this q # ts)]" and job: "sv_job (br_server b) = Fresh"
  shows "\<exists>n b' ds. worker_steps L n b = Inr b' \<and> broker_rel L tabs M N basedir b' (worker_host L n b H) \<and>
    turns_to ts b b' \<and> delivers b H (\<lambda>q'. if q' = q then 1 else 0) ds b' (worker_host L n b H)"
proof (cases "waiting H q")
  case Nil
  obtain b' where b': "worker_steps L 1 b = Inr b'" "broker_rel L tabs M N basedir b' H" "turns_to ts b b'"
    "sv_out (br_server b') = sv_out (br_server b)" "worker_host L 1 b H = H"
    using task_finds_nothing [OF rel th job Nil] by blast
  have "delivers b H (\<lambda>q'. if q' = q then 1 else 0) [] b' H"
    using b'(4) workers_same_subscribers [OF b'(1)] Nil handed_refl by (auto simp: delivers_def delivered_to_def intro: option.rel_refl)
  with b' show ?thesis by metis
next
  case (Cons p ps)
  then obtain a where a: "sh_messages H q = Some a" "sq_ready a = p # ps" by (auto simp: waiting_def split: option.splits)
  let ?subs = "subscribers q (sv_consumers (br_server b))"
  have taken: "sq_ready (snd (spec_take a)) = ps" "sq_ready (spec_ack i (snd (spec_take a))) = ps" for i
    by (simp_all add: spec_take_def a(2) spec_ack_def)
  have left: "waiting (H\<lparr>sh_messages := (sh_messages H)(q \<mapsto> a')\<rparr>) q' = drop (if q' = q then 1 else 0) (waiting H q')"
    if "sq_ready a' = ps" for a' q'
    using that Cons by (simp add: waiting_def)
  have hand: "rel_option (handed (pay_id ` set (take (if q' = q then 1 else 0) (waiting H q')))) (sh_messages H q')
      (sh_messages (H\<lparr>sh_messages := (sh_messages H)(q \<mapsto> a')\<rparr>) q')"
    if "handed {pay_id p} a a'" for a' q'
    using that Cons a(1) handed_refl by (auto intro: option.rel_refl)
  note step = deliver_oldest [OF rel th job a]
  show ?thesis
  proof (cases "?subs = []")
    case True
    let ?H = "H\<lparr>sh_messages := (sh_messages H)(q \<mapsto> snd (spec_take a))\<rparr>"
    obtain b' where b': "worker_steps L 2 b = Inr b'" "sv_out (br_server b') = sv_out (br_server b)"
      "broker_rel L tabs M N basedir b' ?H" "turns_to ts b b'" "worker_host L 2 b H = ?H"
      using step True by blast
    have "delivers b H (\<lambda>q'. if q' = q then 1 else 0) [] b' ?H"
      using b'(2) workers_same_subscribers [OF b'(1)] left [OF taken(1)] hand [OF handed_take(1) [OF a(2)]] True
      unfolding delivers_def delivered_to_def by (simp del: fun_upd_apply)
    with b' show ?thesis by metis
  next
    case False
    then obtain b' c ch where b': "worker_steps L 4 b = Inr b'" "c \<in> set ?subs"
      "deref_channel (cs_callback c) (br_server b) = Inr ch"
      "sv_out (br_server b') = sv_out (br_server b) @ [Send (ch_conn ch) (pushed ch c p)]"
      "broker_rel L tabs M N basedir b' (H\<lparr>sh_messages := (sh_messages H)(q \<mapsto>
          (if cs_auto_ack c then spec_ack (pay_id p) (snd (spec_take a)) else snd (spec_take a)))\<rparr>)" "turns_to ts b b'"
      "worker_host L 4 b H = H\<lparr>sh_messages := (sh_messages H)(q \<mapsto>
          (if cs_auto_ack c then spec_ack (pay_id p) (snd (spec_take a)) else snd (spec_take a)))\<rparr>"
      using step by blast
    let ?H = "H\<lparr>sh_messages := (sh_messages H)(q \<mapsto>
        (if cs_auto_ack c then spec_ack (pay_id p) (snd (spec_take a)) else snd (spec_take a)))\<rparr>"
    have "waiting ?H q' = drop (if q' = q then 1 else 0) (waiting H q')" for q'
      using taken by (intro left) simp
    moreover have "rel_option (handed (pay_id ` set (take (if q' = q then 1 else 0) (waiting H q')))) (sh_messages H q')
        (sh_messages ?H q')" for q'
      using handed_take [OF a(2)] by (intro hand) simp
    ultimately have "delivers b H (\<lambda>q'. if q' = q then 1 else 0) [(q, c, ch, p)] b' ?H"
      using b'(2-4) workers_same_subscribers [OF b'(1)] Cons
      by (auto simp: delivers_def delivered_to_def push_sent_def delivery_ok_def simp del: fun_upd_apply)
    with b'(1,5-7) show ?thesis by metis
  qed
qed

section \<open>All tasks\<close>

definition tasks_for :: "string \<Rightarrow> 'db server \<Rightarrow> nat" where
  "tasks_for q s = length (filter (task_for q) (work (sv_pool s)))"

text \<open>A step of the loop around the tasks.\<close>

lemma loop_step:
  assumes rel: "broker_rel L tabs M N basedir b H" and t: "tp_threads (sv_pool (br_server b)) = [t]"
    and loop: "tasks_of t = []" "t \<noteq> Blocked"
  shows "\<exists>s'. worker_step L (br_server b) = Inr s' \<and> broker_rel L tabs M N basedir (b\<lparr>br_server := s'\<rparr>) H \<and>
    host_after (worker_cmds (br_server b)) H = H \<and> sv_job s' = Fresh \<and> sv_out s' = sv_out (br_server b) \<and> work (sv_pool s') = work (sv_pool (br_server b)) \<and>
    pool_weight (sv_pool s') < pool_weight (sv_pool (br_server b))"
proof -
  let ?s = "br_server b"
  have srel: "server_rel L tabs M N basedir ?s H" using rel by (simp add: broker_rel_def)
  have tasks: "tasks_ok ?s" using server_relD(3) [OF srel] .
  have job: "sv_job ?s = Fresh" using tasks loop(1) by (auto simp: tasks_ok_def in_threads_def t)
  have "t \<noteq> Exited" using tasks by (auto simp: tasks_ok_def pool_inv_def t)
  then obtain did p where step: "thread_step 0 (sv_pool ?s) = Some (did, p)"
    using loop by (cases t; cases "tasks_of t"; fastforce simp: thread_step_def t lock_free_def)
  have w: "worker_step L ?s = Inr (?s\<lparr>sv_pool := p\<rparr>)" and cmds: "worker_cmds ?s = []"
    using loop(1) by (auto simp: worker_step_def worker_cmds_def advance_pool_def step t
        split: thread.split list.split task.split)
  have "did = []" using step loop(1) by (auto simp: thread_step_def t split: thread.splits list.splits if_splits)
  then have "work p = work (sv_pool ?s)" using thread_step_fifo [OF t step] by simp
  moreover have "pool_weight p < pool_weight (sv_pool ?s)" by (rule thread_step_weight [OF _ step]) (simp add: t)
  moreover have "broker_rel L tabs M N basedir (b\<lparr>br_server := ?s\<lparr>sv_pool := p\<rparr>\<rparr>) H"
    using worker_rel [OF rel w] by (simp add: cmds host_after_def)
  ultimately show ?thesis using w job cmds by (auto simp: host_after_def)
qed

lemma worker_drains:
  assumes "broker_rel L tabs M N basedir b H" and "sv_job (br_server b) = Fresh"
  shows "\<exists>n b' ds. worker_steps L n b = Inr b' \<and> broker_rel L tabs M N basedir b' (worker_host L n b H) \<and>
    tp_threads (sv_pool (br_server b')) = [Blocked] \<and> work (sv_pool (br_server b')) = [] \<and>
    delivers b H (\<lambda>q. tasks_for q (br_server b)) ds b' (worker_host L n b H)"
  using assms
proof (induction "pool_weight (sv_pool (br_server b))" arbitrary: b H rule: less_induct)
  case less
  let ?s = "br_server b"
  have "server_rel L tabs M N basedir ?s H" using less.prems(1) by (simp add: broker_rel_def)
  then have tasks: "tasks_ok ?s" using server_relD(3) by blast
  obtain t where t: "tp_threads (sv_pool ?s) = [t]" using one_thread [OF tasks] by blast
  consider "t = Blocked" | "t \<noteq> Blocked" "tasks_of t = []" | this q ts where "t = Executing (Consume this q # ts)"
    by (cases t rule: tasks_of.cases) (metis neq_Nil_conv task.exhaust tasks_of.simps(1), auto)
  then show ?case
  proof cases
    case 1
    then have "tp_task_queue (sv_pool ?s) = []" using tasks t by (auto simp: tasks_ok_def pool_inv_def)
    then have w: "work (sv_pool ?s) = []" by (simp add: work_def in_threads_def t 1)
    have "delivers b H (\<lambda>q. tasks_for q ?s) [] b H"
      using delivers_none [of b b H] by (simp add: same_subscribers_def tasks_for_def w)
    then show ?thesis using less.prems(1) t 1 w by (intro exI [of _ 0] exI [of _ b] exI [of _ "[]"]) simp
  next
    case 2
    obtain s' where s': "worker_step L ?s = Inr s'" "broker_rel L tabs M N basedir (b\<lparr>br_server := s'\<rparr>) H" "sv_job s' = Fresh"
      "host_after (worker_cmds ?s) H = H"
      "sv_out s' = sv_out ?s" "work (sv_pool s') = work (sv_pool ?s)" "pool_weight (sv_pool s') < pool_weight (sv_pool ?s)"
      using loop_step [OF less.prems(1) t 2(2,1)] by blast
    let ?b = "b\<lparr>br_server := s'\<rparr>"
    obtain n b' ds where rest: "worker_steps L n ?b = Inr b'" "broker_rel L tabs M N basedir b' (worker_host L n ?b H)"
      "tp_threads (sv_pool (br_server b')) = [Blocked]" "work (sv_pool (br_server b')) = []"
      "delivers ?b H (\<lambda>q. tasks_for q s') ds b' (worker_host L n ?b H)"
      using less.hyps [of ?b H] s' by auto
    have "delivers b H (\<lambda>q. 0) [] ?b H"
      using delivers_none [of b ?b H] worker_same_subscribers [OF s'(1)] s'(5) by simp
    from delivers_trans [OF this rest(5)] have "delivers b H (\<lambda>q. tasks_for q ?s) ds b' (worker_host L n ?b H)"
      by (simp add: tasks_for_def s'(6))
    moreover have "worker_host L (Suc n) b H = worker_host L n ?b H" using s'(1,4) by simp
    moreover have "worker_steps L (Suc n) b = Inr b'" using s'(1) rest(1) by simp
    ultimately show ?thesis using rest(2-4) by metis
  next
    case (3 this q ts)
    obtain m b1 ds where b1: "worker_steps L m b = Inr b1" "broker_rel L tabs M N basedir b1 (worker_host L m b H)"
      "turns_to ts b b1" "delivers b H (\<lambda>q'. if q' = q then 1 else 0) ds b1 (worker_host L m b H)"
      using task_delivers [OF less.prems(1) _ less.prems(2)] t 3 by blast
    let ?H1 = "worker_host L m b H"
    have pool: "sv_pool (br_server b1) = set_thread 0 (Executing ts) (sv_pool ?s)" and job: "sv_job (br_server b1) = Fresh"
      using b1(3) t by (simp_all add: turns_to_def set_thread_def)
    have step: "thread_step 0 (sv_pool ?s) = Some ([Consume this q], sv_pool (br_server b1))"
      using t 3 pool by (simp add: thread_step_def)
    have "pool_weight (sv_pool (br_server b1)) < pool_weight (sv_pool ?s)"
      by (rule thread_step_weight [OF _ step]) (simp add: t)
    from less.hyps [OF this b1(2) job] obtain n b' es where rest: "worker_steps L n b1 = Inr b'"
      "broker_rel L tabs M N basedir b' (worker_host L n b1 ?H1)" "tp_threads (sv_pool (br_server b')) = [Blocked]"
      "work (sv_pool (br_server b')) = []" "delivers b1 ?H1 (\<lambda>q. tasks_for q (br_server b1)) es b' (worker_host L n b1 ?H1)" by blast
    have "work (sv_pool ?s) = Consume this q # work (sv_pool (br_server b1))" using thread_step_fifo [OF t step] by simp
    then have "(\<lambda>q'. (if q' = q then 1 else 0) + tasks_for q' (br_server b1)) = (\<lambda>q. tasks_for q ?s)"
      by (auto simp: tasks_for_def)
    then have "delivers b H (\<lambda>q. tasks_for q ?s) (ds @ es) b' (worker_host L n b1 ?H1)"
      using delivers_trans [OF b1(4) rest(5)] by simp
    then show ?thesis
      using worker_steps_add [OF b1(1) rest(1)] worker_host_add [OF b1(1), of n H] rest(2-4) by metis
  qed
qed

lemma drained_runs:
  assumes "first_start L tabs M N basedir s0 db0" and "server_runs L M N basedir s0 db0 b cmds H"
    and "sv_job (br_server b) = Fresh"
  shows "\<exists>n b' cs H' ds. worker_steps L n b = Inr b' \<and> server_runs L M N basedir s0 db0 b' (cmds @ cs) H' \<and>
    tp_threads (sv_pool (br_server b')) = [Blocked] \<and> delivers b H (\<lambda>q. tasks_for q (br_server b)) ds b' H'"
proof -
  have rel: "broker_rel L tabs M N basedir b H" using server_runs_rel [OF assms(2,1)] by blast
  obtain n b' ds where b': "worker_steps L n b = Inr b'" "tp_threads (sv_pool (br_server b')) = [Blocked]"
    "delivers b H (\<lambda>q. tasks_for q (br_server b)) ds b' (worker_host L n b H)"
    using worker_drains [OF rel assms(3)] by blast
  then show ?thesis using worker_steps_runs [OF assms(2) b'(1)] by blast
qed

text \<open>Each waiting message has a task, unless a restart brought it back.\<close>

lemma runs_enough:
  assumes "first_start L tabs M N basedir s0 db0" and "server_runs L M N basedir s0 db0 b cmds H"
    and "sv_job (br_server b) = Fresh" and "HRestart \<notin> set cmds"
  shows "length (waiting H q) \<le> tasks_for q (br_server b)"
  using runs_waiting [OF assms(2,1,4)] assms(3)
  by (auto simp: waiting_ok_def waiting_def pending_def fresh_tasks_def tasks_for_def split: option.split)

section \<open>Every message is delivered\<close>

text \<open>
  C10: Every message is delivered.  Whatever has happened so far, a worker between two tasks that is
  left alone blocks after finitely many steps.  From each queue with subscribers it takes as many of
  the waiting messages as there are tasks for the queue, the oldest first, and sends each exactly once,
  in order, to one of the subscribers on its channel; nothing else is sent.  If the server was not
  restarted, these are all the messages, and no queue has one waiting afterwards.
\<close>

theorem every_message_is_delivered:
  assumes "first_start L tabs M N basedir s0 db0" and "server_runs L M N basedir s0 db0 b cmds H"
    and "sv_job (br_server b) = Fresh"
  shows "\<exists>n b' cs H' ds. worker_steps L n b = Inr b' \<and> server_runs L M N basedir s0 db0 b' (cmds @ cs) H' \<and>
    tp_threads (sv_pool (br_server b')) = [Blocked] \<and>
    sv_out (br_server b') = sv_out (br_server b) @ map push_sent ds \<and> (\<forall>d \<in> set ds. delivery_ok (br_server b) d) \<and>
    (\<forall>q. waiting H' q = drop (tasks_for q (br_server b)) (waiting H q) \<and>
      delivered_to q ds = (if subscribers q (sv_consumers (br_server b)) = [] then []
        else take (tasks_for q (br_server b)) (waiting H q))) \<and>
    (HRestart \<notin> set cmds \<longrightarrow> (\<forall>q. length (waiting H q) \<le> tasks_for q (br_server b) \<and> waiting H' q = []))"
proof -
  obtain n b' cs H' ds where b': "worker_steps L n b = Inr b'" "server_runs L M N basedir s0 db0 b' (cmds @ cs) H'"
    "tp_threads (sv_pool (br_server b')) = [Blocked]" "delivers b H (\<lambda>q. tasks_for q (br_server b)) ds b' H'"
    using drained_runs [OF assms] by blast
  note enough = runs_enough [OF assms]
  have left: "waiting H' q = drop (tasks_for q (br_server b)) (waiting H q)" for q
    using b'(4) unfolding delivers_def by blast
  then have "waiting H' q = []" if "HRestart \<notin> set cmds" for q using enough [OF that] by simp
  then show ?thesis using enough b' unfolding delivers_def by blast
qed

theorem every_message_is_delivered_witness:
  "\<exists>n b b' c ch. worker_steps sample_libs n b = Inr b' \<and> c \<in> set (subscribers ''q'' (sv_consumers (br_server b))) \<and>
    Send (ch_conn ch) (pushed ch c (put_payload ''u'' None ''hi'' True)) \<in> set (sv_out (br_server b'))"
proof -
  obtain b cmds H this a where b: "sample_runs b cmds H" and r: "HRestart \<notin> set cmds" and job: "sv_job (br_server b) = Fresh" and
    a: "sh_messages H ''q'' = Some a" "sq_ready a = [put_payload ''u'' None ''hi'' True]" and
    subs: "subscribers ''q'' (sv_consumers (br_server b)) \<noteq> []"
    using sample_delivering by blast
  obtain n b' H' ds where b': "worker_steps sample_libs n b = Inr b'"
    "sv_out (br_server b') = sv_out (br_server b) @ map push_sent ds" "\<forall>d \<in> set ds. delivery_ok (br_server b) d"
    "delivered_to ''q'' ds = take (tasks_for ''q'' (br_server b)) (waiting H ''q'')"
    "length (waiting H ''q'') \<le> tasks_for ''q'' (br_server b)"
    using every_message_is_delivered [OF sample_first b job] r subs by auto
  have "put_payload ''u'' None ''hi'' True \<in> set (delivered_to ''q'' ds)" using b'(4,5) a by (simp add: waiting_def)
  then obtain c ch where d: "(''q'', c, ch, put_payload ''u'' None ''hi'' True) \<in> set ds"
    by (auto simp: delivered_to_def)
  then have "push_sent (''q'', c, ch, put_payload ''u'' None ''hi'' True) \<in> set (sv_out (br_server b'))" using b'(2) by simp
  moreover have "c \<in> set (subscribers ''q'' (sv_consumers (br_server b)))"
    using b'(3) d by (auto simp: delivery_ok_def)
  ultimately show ?thesis using b'(1) unfolding push_sent_def prod.case by blast
qed

end
