(* ===== verification/Client_Calls.thy ===== *)
theory Client_Calls
  imports Client_End Broker_Verdict
begin

text \<open>
  Calls of a channel one after the other, on a server that does nothing else until a call returns.
\<close>

section \<open>One call after the other\<close>

text \<open>
  A call on a channel whose server does nothing else until it returns: the request is handled and what
  was sent on the connection is put into the channel's maps.  \<open>None\<close> when the call then still waits.
\<close>

fun request_of :: "'cb call \<Rightarrow> request option" where
  "request_of (Returned r) = None"
| "request_of (Await req k) = Some req"
| "request_of (AwaitQuery req) = Some req"

fun store_response :: "response \<Rightarrow> 'cb client_channel \<Rightarrow> 'cb client_channel" where
  "store_response (BasicCommonResponse i j ok) ch = push_basic_response (BasicCommonResponse i j ok) ch"
| "store_response (BasicQueryResponse i j body) ch = push_query_response (BasicQueryResponse i j body) ch"
| "store_response (BasicConsumeResponse j t body bp) ch = ch"

definition sync_call ::
  "'db libs \<Rightarrow> (string \<Rightarrow> string) \<Rightarrow> conn \<Rightarrow> 'cb api \<Rightarrow> string \<Rightarrow> 'cb client_channel \<Rightarrow> 'db broker \<Rightarrow>
     (ret \<times> 'cb client_channel \<times> 'db broker) option result" where
  "sync_call L u n op rid ch b =
     (let call = start_call op rid ch in
      case request_of call of
        None \<Rightarrow> Inr (map_option (\<lambda>(r, ch'). (r, ch', b)) (resume call ch))
      | Some req \<Rightarrow> rbind (onProtobufMessage L u n req b) (\<lambda>b'.
          let new = concat (map (to_conn n) (drop (length (sv_out (br_server b))) (sv_out (br_server b'))))
          in Inr (map_option (\<lambda>(r, ch'). (r, ch', b')) (resume call (fold store_response new ch)))))"

lemma erase_inserted: "map_of m k = None \<Longrightarrow> um_erase k (um_insert k v m) = m"
  by (simp add: um_insert_def um_erase_def filter_id_conv) (force simp: map_of_eq_None_iff)

text \<open>The state of a server while the script runs on a channel of the connection \<open>n\<close>.\<close>

definition serving ::
  "'db libs \<Rightarrow> nat \<Rightarrow> nat \<Rightarrow> string \<Rightarrow> fs \<Rightarrow> 'db \<Rightarrow> conn \<Rightarrow> 'db broker \<Rightarrow> spec_host \<Rightarrow> bool" where
  "serving L M N basedir s0 db0 n b H \<longleftrightarrow> known n b \<and> (\<exists>cmds. server_runs L M N basedir s0 db0 b cmds H)"

lemma sync_call_answered:
  assumes start: "first_start L tabs M N basedir s0 db0" and serv: "serving L M N basedir s0 db0 n b H"
    and call: "start_call op rid ch = Await req k" and chan: "needs_channel req \<Longrightarrow> channel_at n (rq_cid req) b \<noteq> None"
    and ok: "event_ok L M N (Request n u req) b H" and empty: "map_of (cc_basic_resp ch) rid = None"
  shows "\<exists>b'. onProtobufMessage L u n req b = Inr b' \<and>
    sync_call L u n op rid ch b = Inr (Some (fst (k (verdict n req b H) ch), snd (k (verdict n req b H) ch), b')) \<and>
    (known n b' \<longrightarrow> serving L M N basedir s0 db0 n b' (host_after (event_cmds L (Request n u req) b) H))"
proof -
  obtain cmds where runs: "server_runs L M N basedir s0 db0 b cmds H" and known: "known n b"
    using serv by (auto simp: serving_def)
  have rel: "broker_rel L tabs M N basedir b H" using server_runs_rel [OF runs start] by blast
  obtain b' outs where b': "onProtobufMessage L u n req b = Inr b'" "sv_out (br_server b') = sv_out (br_server b) @ outs"
    "replies b n req outs"
    using broker_follows [OF rel ok] by (auto simp: event_follows_def)
  have req: "awaits (start_call op rid ch) req" by (simp add: call)
  have "op \<noteq> OpQuery" using call by (auto simp: cl_basic_query_def)
  then have kind: "\<not> is_query req" using awaits_start(5) [OF req] by simp
  have "known_type req" using call by (cases op) (auto simp: method_defs Let_def split: option.splits if_splits)
  then obtain resp where resp: "outs = [Send n resp]" "response_to req resp"
    using b'(3) known chan by (auto simp: replies_def known_def split: if_splits)
  obtain v where v: "resp = BasicCommonResponse rid (rq_cid req) v"
    using resp(2) kind awaits_start(1) [OF req] by (cases resp) auto
  have "v = verdict n req b H" using answer_verdict [OF rel ok b'(1,2)] resp(1) v by auto
  then have "sync_call L u n op rid ch b = Inr (Some (fst (k (verdict n req b H) ch), snd (k (verdict n req b H) ch), b'))"
    using b'(1,2) empty start_call_Await(1) [OF call]
    by (simp add: sync_call_def call resp(1) v push_basic_response_def wait_response_def um_find_insert erase_inserted split_beta Let_def)
  moreover have "server_runs L M N basedir s0 db0 b' (cmds @ event_cmds L (Request n u req) b)
      (host_after (event_cmds L (Request n u req) b) H)"
    using server_runs.event [OF runs ok] b'(1) by simp
  ultimately show ?thesis using b'(1) unfolding serving_def by blast
qed

text \<open>Calls that leave the channel as it is.\<close>

lemma sync_call_work:
  assumes start: "first_start L tabs M N basedir s0 db0" and serv: "serving L M N basedir s0 db0 n b H"
    and at: "channel_at n (cc_cid ch) b \<noteq> None" and call: "start_call op rid ch = Await req (\<lambda>ok ch. (answer op ok, ch))"
    and req: "needs_channel req" "\<And>this. request_ok req this (br_server b)"
    and ok: "host_ok L M N (event_cmds L (Request n u req) b) H" and empty: "map_of (cc_basic_resp ch) rid = None"
  shows "\<exists>b'. sync_call L u n op rid ch b = Inr (Some (answer op (verdict n req b H), ch, b')) \<and>
    serving L M N basedir s0 db0 n b' (host_after (event_cmds L (Request n u req) b) H) \<and> channel_at n (cc_cid ch) b' \<noteq> None"
proof -
  have cid: "rq_cid req = cc_cid ch" using start_call_Await(2) [OF call] .
  have "event_ok L M N (Request n u req) b H" using ok req(2) by (simp split: option.split)
  from sync_call_answered [OF start serv call _ this empty] at obtain b' where
    b': "onProtobufMessage L u n req b = Inr b'"
    "sync_call L u n op rid ch b = Inr (Some (answer op (verdict n req b H), ch, b'))"
    "known n b' \<longrightarrow> serving L M N basedir s0 db0 n b' (host_after (event_cmds L (Request n u req) b) H)"
    by (auto simp: cid)
  have "\<not> retables n (Request n u req)" using req(1) by simp
  then have "known n b' = known n b" "channel_at n (cc_cid ch) b' = channel_at n (cc_cid ch) b"
    using link_kept [of L "Request n u req" b b' n] b'(1) by simp_all
  then show ?thesis using b' serv at by (auto simp: serving_def)
qed

lemma sync_call_single:
  assumes start: "first_start L tabs M N basedir s0 db0" and serv: "serving L M N basedir s0 db0 n b H"
    and at: "channel_at n (cc_cid ch) b \<noteq> None" and call: "start_call op rid ch = Await req (\<lambda>ok ch. (answer op ok, ch))"
    and req: "needs_channel req" "\<And>this. request_ok req this (br_server b)" "\<And>v. request_cmds L u req v = [c]"
    and ok: "host_ok L M N [c] H" and empty: "map_of (cc_basic_resp ch) rid = None"
  shows "\<exists>b'. sync_call L u n op rid ch b = Inr (Some (answer op (verdict n req b H), ch, b')) \<and>
    serving L M N basedir s0 db0 n b' (snd (host_spec c H)) \<and> channel_at n (cc_cid ch) b' \<noteq> None"
proof -
  have "rq_cid req = cc_cid ch" using start_call_Await(2) [OF call] .
  then have "event_cmds L (Request n u req) b = [c]" using at req(3) by simp
  then show ?thesis
    using sync_call_work [OF start serv at call req(1,2) _ empty, of u] ok by (simp add: host_after_single)
qed

end
