(* ===== verification/Example_Clients.thy ===== *)
theory Example_Clients
  imports Client_Calls Broker_Sample
begin

text \<open>
  \<open>HareMQ/mqclient/publish_client.cc\<close> and \<open>consume_client.cc\<close> as scripts of calls of their channel, and
  how such a script runs on a server that does nothing else.
\<close>

section \<open>The scripts\<close>

text \<open>Opening the channel is the first call, closing it the last.\<close>

definition publish_client_setup :: "'cb api list" where
  "publish_client_setup =
     [OpOpen,
      OpDeclareExchange ''exchange1'' FANOUT True False [],
      OpDeclareQueue ''queue1'' True False False [],
      OpDeclareQueue ''queue2'' True False False [],
      OpBind ''exchange1'' ''queue1'' ''queue1'',
      OpBind ''exchange1'' ''queue2'' ''news.music.#'']"

definition publish_client_bp :: "string \<Rightarrow> BasicProperties" where
  "publish_client_bp uid = default_properties\<lparr>bp_id := uid, bp_delivery_mode := DURABLE, bp_routing_key := ''news.music.pop''\<rparr>"

definition publish_client_body :: "nat \<Rightarrow> string" where
  "publish_client_body i = ''Hello world-'' @ show_nat i"

text \<open>The second the loop sleeps after each message is left to the run of the script.\<close>

definition publish_client_messages :: "(nat \<Rightarrow> string) \<Rightarrow> 'cb api list" where
  "publish_client_messages ids =
     map (\<lambda>i. OpPublish ''exchange1'' (Some (publish_client_bp (ids i))) (publish_client_body i)) [0..<3]"

definition publish_client :: "(nat \<Rightarrow> string) \<Rightarrow> 'cb api list" where
  "publish_client ids = publish_client_setup @ publish_client_messages ids @ [OpClose]"

text \<open>The consuming client then sleeps for ever; its callback acknowledges each message.\<close>

definition consume_client :: "string \<Rightarrow> 'cb \<Rightarrow> 'cb api list" where
  "consume_client qname fn = [OpOpen, OpConsume ''consumer1'' qname False fn]"

definition consume_client_cb :: "string \<Rightarrow> BasicProperties \<Rightarrow> string \<Rightarrow> 'cb api" where
  "consume_client_cb tag bp body = OpAck (bp_id bp)"

section \<open>Running a script\<close>

fun run_script ::
  "'db libs \<Rightarrow> (string \<Rightarrow> string) \<Rightarrow> conn \<Rightarrow> ('cb api \<times> string) list \<Rightarrow> 'cb client_channel \<Rightarrow> 'db broker \<Rightarrow>
     (ret list \<times> 'cb client_channel \<times> 'db broker) option result" where
  "run_script L u n [] ch b = Inr (Some ([], ch, b))"
| "run_script L u n ((op, rid) # ops) ch b =
     rbind (sync_call L u n op rid ch b) (\<lambda>x.
       case x of
         None \<Rightarrow> Inr None
       | Some (r, ch', b') \<Rightarrow>
           rbind (run_script L u n ops ch' b') (\<lambda>y. Inr (map_option (\<lambda>(rs, z). (r # rs, z)) y)))"

fun numbered :: "nat \<Rightarrow> (nat \<Rightarrow> string) \<Rightarrow> 'cb api list \<Rightarrow> ('cb api \<times> string) list" where
  "numbered i rids [] = []"
| "numbered i rids (op # ops) = (op, rids i) # numbered (Suc i) rids ops"

end
