(* ===== verification/Client_Publication.thy ===== *)
theory Client_Publication
  imports Example_Clients Broker_Drain
begin

text \<open>
  The publishing client at work: \<open>publish_client\<close> calls its channel while the server's worker runs as
  it likes, as it does during the second the script sleeps after each message.
\<close>

section \<open>A queue nobody subscribes to\<close>

text \<open>The worker has chosen a subscriber for a message of the queue and has not yet returned from the task.\<close>

definition handing_over :: "string \<Rightarrow> 'db server \<Rightarrow> bool" where
  "handing_over q s \<longleftrightarrow> (\<exists>this ts. tp_threads (sv_pool s) ! 0 = Executing (Consume this q # ts)) \<and>
     (\<exists>m c. sv_job s = Chosen m c \<or> sv_job s = Delivered m c)"

text \<open>
  A durable queue without subscribers after the messages \<open>ps\<close> were published to it and nothing was
  acknowledged: all are stored, and the first \<open>k\<close> were taken by the worker, at most one in each of its
  \<open>w\<close> steps.
\<close>

definition supplied :: "nat \<Rightarrow> payload list \<Rightarrow> string \<Rightarrow> 'db server \<Rightarrow> spec_host \<Rightarrow> bool" where
  "supplied w ps q s H \<longleftrightarrow> subscribers q (sv_consumers s) = [] \<and> declared_flag mq_durable (sh_queues H q) \<and>
     (\<exists>k. k \<le> w \<and> k \<le> length ps \<and> (handing_over q s \<longrightarrow> k = 0) \<and>
        sh_messages H q = Some \<lparr>sq_ready = drop k ps, sq_unacked = rev (map (\<lambda>p. (pay_id p, p)) (take k ps)), sq_stored = ps\<rparr>)"

lemma choose_nobody: "subscribers q m = [] \<Longrightarrow> cm_choose q m = Inr (co, m') \<Longrightarrow> co = None"
  by (auto simp: cm_choose_def rr_choose_def subscribers_def rbind_Inr_conv split: option.splits if_splits)

lemma worker_handing:
  assumes "worker_step L s = Inr s'" and "tasks_ok s" and "subscribers q (sv_consumers s) = []" and "handing_over q s'"
  shows "handing_over q s"
proof (cases "\<exists>this q' ts. tp_threads (sv_pool s) ! 0 = Executing (Consume this q' # ts)")
  case True
  then obtain this q' ts fin s1 where th: "tp_threads (sv_pool s) ! 0 = Executing (Consume this q' # ts)"
    and step: "consume_step L this q' s = Inr (fin, s1)" and s': "s' = (if fin then (advance_pool s1)\<lparr>sv_job := Fresh\<rparr> else s1)"
    using assms(1) by (auto simp: worker_step_def rbind_Inr_conv)
  have "\<not> fin" using assms(4) s' by (auto simp: handing_over_def)
  then have s': "s' = s1" "sv_pool s1 = sv_pool s" using s' consume_progress [OF step] by simp_all
  then have q: "q' = q" using assms(4) th by (simp add: handing_over_def)
  have "cm_choose q (sv_consumers s) \<noteq> Inr (Some c, m)" for c m using choose_nobody [OF assms(3)] by blast
  then have "\<exists>m c. sv_job s = Chosen m c \<or> sv_job s = Delivered m c"
    using assms(4) step q \<open>\<not> fin\<close>
    by (auto simp: s'(1) handing_over_def consume_step_def consume_choose_def rbind_Inr_conv
        split: job.splits option.splits prod.splits)
  then show ?thesis using th by (simp add: handing_over_def q)
next
  case False
  then have "s' = advance_pool s" using assms(1) by (auto simp: worker_step_def split: thread.splits list.splits task.splits)
  moreover obtain t where t: "tp_threads (sv_pool s) = [t]" using one_thread [OF assms(2)] by blast
  moreover have "tasks_of t = []" using False by (cases t rule: tasks_of.cases) (auto simp: t neq_Nil_conv, metis task.exhaust neq_Nil_conv)
  then have "sv_job s = Fresh" using assms(2) by (auto simp: tasks_ok_def in_threads_def t)
  ultimately show ?thesis
    using assms(4) by (auto simp: handing_over_def advance_pool_def split: option.splits prod.splits)
qed

lemma worker_cmds_cases:
  obtains (nothing) "worker_cmds s = []"
  | (take) q where "worker_cmds s = [HConsume q]" "sv_job s = Fresh"
  | (ack) q i where "worker_cmds s = [HAck q i]" "handing_over q s"
proof (cases "\<exists>this q ts. tp_threads (sv_pool s) ! 0 = Executing (Consume this q # ts)")
  case True
  then obtain this q ts where "tp_threads (sv_pool s) ! 0 = Executing (Consume this q # ts)" by blast
  then show thesis
    using that(1) that(2) [of q] that(3) [of q]
    by (cases "sv_job s"; cases "worker_cmds s = []") (auto simp: worker_cmds_def handing_over_def split: if_splits)
next
  case False
  then show thesis using that(1) by (auto simp: worker_cmds_def split: thread.split list.split task.split)
qed

lemma worker_tables:
  "sh_queues (host_after (worker_cmds s) H) = sh_queues H" "sh_exchanges (host_after (worker_cmds s) H) = sh_exchanges H"
  "sh_bindings (host_after (worker_cmds s) H) = sh_bindings H"
  by (cases s rule: worker_cmds_cases; simp add: host_after_def split: option.split)+

lemma spec_take_supplied:
  assumes "k \<le> length ps"
  shows "\<exists>k' \<le> length ps. k' \<le> Suc k \<and>
    snd (spec_take \<lparr>sq_ready = drop k ps, sq_unacked = rev (map (\<lambda>p. (pay_id p, p)) (take k ps)), sq_stored = ps\<rparr>) =
    \<lparr>sq_ready = drop k' ps, sq_unacked = rev (map (\<lambda>p. (pay_id p, p)) (take k' ps)), sq_stored = ps\<rparr>"
proof (cases "k = length ps")
  case False
  then have k: "k < length ps" using assms by simp
  then have "drop k ps = ps ! k # drop (Suc k) ps" "take (Suc k) ps = take k ps @ [ps ! k]"
    by (simp_all add: Cons_nth_drop_Suc take_Suc_conv_app_nth)
  then show ?thesis using k by (intro exI [of _ "Suc k"]) (simp add: spec_take_def)
qed (auto simp: spec_take_def)

lemma worker_supplied:
  assumes "worker_step L s = Inr s'" and "tasks_ok s" and fill: "supplied w ps q s H"
  shows "supplied (Suc w) ps q s' (host_after (worker_cmds s) H)"
proof -
  obtain k where k: "k \<le> w" "k \<le> length ps" "handing_over q s \<longrightarrow> k = 0"
    and msgs: "sh_messages H q = Some \<lparr>sq_ready = drop k ps, sq_unacked = rev (map (\<lambda>p. (pay_id p, p)) (take k ps)), sq_stored = ps\<rparr>"
    and subs: "subscribers q (sv_consumers s) = []" and dur: "declared_flag mq_durable (sh_queues H q)"
    using fill by (auto simp: supplied_def)
  have keep: "handing_over q s' \<Longrightarrow> handing_over q s" using worker_handing [OF assms(1,2) subs] .
  have subs': "subscribers q (sv_consumers s') = []"
    using worker_same_subscribers [OF assms(1)] subs by (simp add: same_subscribers_def)
  have same: ?thesis if "sh_messages (host_after (worker_cmds s) H) q = sh_messages H q"
    unfolding supplied_def worker_tables that msgs using k keep subs' dur by (intro conjI exI [of _ k]) auto
  show ?thesis
  proof (cases s rule: worker_cmds_cases)
    case nothing
    then show ?thesis using same by (simp add: host_after_def)
  next
    case (take q')
    show ?thesis
    proof (cases "q' = q")
      case True
      have "\<not> handing_over q s" using take(2) by (simp add: handing_over_def)
      moreover obtain k' where "k' \<le> length ps" "k' \<le> Suc k"
        "sh_messages (host_after (worker_cmds s) H) q =
          Some \<lparr>sq_ready = drop k' ps, sq_unacked = rev (map (\<lambda>p. (pay_id p, p)) (take k' ps)), sq_stored = ps\<rparr>"
        using spec_take_supplied [OF k(2)] msgs True by (auto simp: take(1) host_after_single)
      ultimately show ?thesis
        unfolding supplied_def worker_tables using k(1) keep subs' dur by (intro conjI exI [of _ k']) auto
    next
      case False
      then show ?thesis by (intro same) (simp add: take(1) host_after_single split: option.split)
    qed
  next
    case (ack q' i)
    then have "q' = q \<Longrightarrow> k = 0" using k(3) by simp
    then show ?thesis using msgs by (intro same) (auto simp: ack(1) host_after_single spec_ack_def split: option.split)
  qed
qed

text \<open>Requests that leave the subscribers and the task under way alone.\<close>

definition unhindered :: "'db server \<Rightarrow> 'db server \<Rightarrow> bool" where
  "unhindered s s' \<longleftrightarrow> (\<forall>q. subscribers q (sv_consumers s') = subscribers q (sv_consumers s)) \<and>
     (\<forall>q. handing_over q s' \<longrightarrow> handing_over q s)"

fun script_request :: "request \<Rightarrow> bool" where
  "script_request (OpenChannelRequest i j) = True"
| "script_request (DeclareExchangeRequest i j e t d a args) = True"
| "script_request (DeclareQueueRequest i j q x d a args) = True"
| "script_request (BindRequest i j e q k) = True"
| "script_request (BasicPublishRequest i j e body bp) = True"
| "script_request r = False"

lemma push_handing:
  assumes "tp_threads (sv_pool s) = [t]"
  shows "\<exists>t'. tp_threads (sv_pool (push_consume this q' s)) = [t'] \<and>
    (\<forall>q. handing_over q (push_consume this q' s) \<longrightarrow> handing_over q s)"
  using assms by (cases t) (auto simp: push_consume_def push_task_def settle_def handing_over_def)

lemma publish_loop_handing:
  assumes "tp_threads (sv_pool s) = [t]"
  shows "handing_over q (publish_loop L u this ty k bp body es s) \<Longrightarrow> handing_over q s"
  using assms
proof (induction L u this ty k bp body es s arbitrary: t rule: publish_loop.induct)
  case (2 L u this ty k bp body q' e es s)
  have host: "handing_over q (s\<lparr>sv_host := h\<rparr>) \<longleftrightarrow> handing_over q s" for h by (simp add: handing_over_def)
  obtain ok h where put: "vh_basic_publish L (u q') q' bp body (sv_host s) = (ok, h)"
    by (cases "vh_basic_publish L (u q') q' bp body (sv_host s)")
  show ?case
  proof (cases "route (lb_split L) ty k (bd_binding_key e)")
    case True
    obtain t' where "tp_threads (sv_pool (push_consume this q' (s\<lparr>sv_host := h\<rparr>))) = [t']"
      "handing_over q (push_consume this q' (s\<lparr>sv_host := h\<rparr>)) \<longrightarrow> handing_over q (s\<lparr>sv_host := h\<rparr>)"
      using push_handing [of "s\<lparr>sv_host := h\<rparr>" t this q'] 2(4) by auto
    then show ?thesis using 2(1,3) True put host by auto
  next
    case False
    then show ?thesis using 2(2-4) by simp
  qed
qed simp

lemma request_unhindered:
  assumes "onProtobufMessage L u n r b = Inr b'" and "script_request r" and "tasks_ok (br_server b)"
  shows "unhindered (br_server b) (br_server b')"
proof -
  have subs: "subscribers q (sv_consumers (br_server b')) = subscribers q (sv_consumers (br_server b))" for q
    using assms(1,2)
    by (cases r) (auto simp: on_openChannel_def on_declareExchange_def on_declareQueue_def on_bind_def on_basicPublish_def
        on_channel_def close_unknown_def shutdown_def cn_open_channel_def cm_open_channel_def ch_declare_exchange_def
        ch_declare_queue_def ch_bind_def ch_basic_publish_def basic_response_def send_def rbind_Inr_conv publish_loop_fields Let_def
        split: option.splits if_splits prod.splits)
  have "handing_over q (br_server b)" if q: "handing_over q (br_server b')" for q
  proof (cases "publishes (Request n u r)")
    case False
    then show ?thesis
      using request_undisturbed [OF assms(1) False] q by (auto simp: undisturbed_def handing_over_def)
  next
    case True
    then obtain i j e body bp where r: "r = BasicPublishRequest i j e body bp" by (cases r) auto
    obtain t where t: "tp_threads (sv_pool (br_server b)) = [t]" using one_thread [OF assms(3)] by blast
    have sent: "handing_over q (s\<lparr>sv_out := out\<rparr>) \<longleftrightarrow> handing_over q s" for s :: "'a server" and out
      by (simp add: handing_over_def)
    show ?thesis
      using assms(1) q publish_loop_handing [OF t, of q]
      by (auto simp: r on_basicPublish_def on_channel_def close_unknown_def shutdown_def ch_basic_publish_def
          basic_response_def send_def rbind_Inr_conv sent Let_def split: option.splits)
  qed
  then show ?thesis using subs by (simp add: unhindered_def)
qed

lemma supplied_same:
  assumes "supplied w ps q s H" and "unhindered s s'" and "sh_messages H' q = sh_messages H q"
    and "declared_flag mq_durable (sh_queues H' q) = declared_flag mq_durable (sh_queues H q)"
  shows "supplied w ps q s' H'"
proof -
  have "subscribers q (sv_consumers s') = []" and keep: "handing_over q s' \<longrightarrow> handing_over q s"
    using assms(1,2) by (simp_all add: supplied_def unhindered_def)
  then show ?thesis using assms(1) keep unfolding supplied_def assms(3,4) by blast
qed

lemma supplied_put:
  assumes "supplied w ps q s H" and "unhindered s s'" and "sh_messages H' q = map_option (spec_put p) (sh_messages H q)"
    and "sh_queues H' q = sh_queues H q" and "pay_durable p"
  shows "supplied w (ps @ [p]) q s' H'"
proof -
  obtain k where k: "k \<le> w" "k \<le> length ps" "handing_over q s \<longrightarrow> k = 0"
    "sh_messages H q = Some \<lparr>sq_ready = drop k ps, sq_unacked = rev (map (\<lambda>p. (pay_id p, p)) (take k ps)), sq_stored = ps\<rparr>"
    using assms(1) by (auto simp: supplied_def)
  then have "sh_messages H' q = Some \<lparr>sq_ready = drop k (ps @ [p]),
      sq_unacked = rev (map (\<lambda>p. (pay_id p, p)) (take k (ps @ [p]))), sq_stored = ps @ [p]\<rparr>"
    using assms(3,5) by (simp add: spec_put_def)
  moreover have "subscribers q (sv_consumers s') = []" "declared_flag mq_durable (sh_queues H' q)" "handing_over q s' \<longrightarrow> k = 0"
    using assms(1,2,4) k(3) by (simp_all add: supplied_def unhindered_def)
  ultimately show ?thesis unfolding supplied_def using k(1,2) by (intro conjI exI [of _ k]) simp_all
qed

lemma supplied_ids:
  assumes "supplied w ps q s H"
  shows "\<exists>a. sh_messages H q = Some a \<and> set (spec_ids a) = pay_id ` set ps \<and> sq_stored a = ps"
proof -
  obtain k where "sh_messages H q = Some \<lparr>sq_ready = drop k ps, sq_unacked = rev (map (\<lambda>p. (pay_id p, p)) (take k ps)), sq_stored = ps\<rparr>"
    using assms by (auto simp: supplied_def)
  moreover have "pay_id ` set (drop k ps) \<union> pay_id ` set (take k ps) = pay_id ` set ps"
    by (metis append_take_drop_id image_Un set_append sup_commute)
  ultimately show ?thesis by (simp add: spec_ids_def image_image)
qed

section \<open>Calls beside a working server\<close>

text \<open>Before each of the calls the server's worker makes the given number of steps.\<close>

fun run_beside ::
  "'db libs \<Rightarrow> (string \<Rightarrow> string) \<Rightarrow> conn \<Rightarrow> ('cb api \<times> string \<times> nat) list \<Rightarrow> 'cb client_channel \<Rightarrow> 'db broker \<Rightarrow>
     (ret list \<times> 'cb client_channel \<times> 'db broker) option result" where
  "run_beside L u n [] ch b = Inr (Some ([], ch, b))"
| "run_beside L u n ((op, rid, w) # ops) ch b =
     rbind (worker_steps L w b) (\<lambda>b0. rbind (sync_call L u n op rid ch b0) (\<lambda>x.
       case x of
         None \<Rightarrow> Inr None
       | Some (r, ch', b') \<Rightarrow>
           rbind (run_beside L u n ops ch' b') (\<lambda>y. Inr (map_option (\<lambda>(rs, z). (r # rs, z)) y))))"

fun timed :: "nat \<Rightarrow> (nat \<Rightarrow> string) \<Rightarrow> (nat \<Rightarrow> nat) \<Rightarrow> 'cb api list \<Rightarrow> ('cb api \<times> string \<times> nat) list" where
  "timed i rids ws [] = []"
| "timed i rids ws (op # ops) = (op, rids i, ws i) # timed (Suc i) rids ws ops"

text \<open>
  How far the script is: \<open>i\<close> of the calls that set up are done and the messages \<open>ps\<close> are published, and
  the worker has made \<open>w\<close> steps meanwhile.
\<close>

definition set_up_to :: "nat \<Rightarrow> nat \<Rightarrow> payload list \<Rightarrow> 'db server \<Rightarrow> spec_host \<Rightarrow> bool" where
  "set_up_to w i ps s H \<longleftrightarrow>
     (if 2 \<le> i then map_option (ex_type \<circ> fst) (sh_exchanges H ''exchange1'') = Some FANOUT
      else sh_exchanges H ''exchange1'' = None) \<and>
     (if 3 \<le> i then supplied w ps ''queue1'' s H else sh_queues H ''queue1'' = None) \<and>
     (if 4 \<le> i then supplied w ps ''queue2'' s H else sh_queues H ''queue2'' = None) \<and>
     (\<forall>q. sh_bindings H ''exchange1'' q \<noteq> None \<longleftrightarrow> q = ''queue1'' \<and> 5 \<le> i \<or> q = ''queue2'' \<and> 6 \<le> i)"

definition stage ::
  "'db libs \<Rightarrow> nat \<Rightarrow> nat \<Rightarrow> string \<Rightarrow> fs \<Rightarrow> 'db \<Rightarrow> conn \<Rightarrow> string \<Rightarrow> nat \<Rightarrow> nat \<Rightarrow> payload list \<Rightarrow> 'db broker \<Rightarrow> bool" where
  "stage L M N basedir s0 db0 n cid w i ps b \<longleftrightarrow> (channel_at n cid b \<noteq> None \<longleftrightarrow> 1 \<le> i) \<and>
     (\<exists>H. serving L M N basedir s0 db0 n b H \<and> set_up_to w i ps (br_server b) H)"

lemma serving_rel:
  assumes "first_start L tabs M N basedir s0 db0" and "serving L M N basedir s0 db0 n b H"
  shows "broker_rel L tabs M N basedir b H" and "server_rel L tabs M N basedir (br_server b) H" and "tasks_ok (br_server b)"
    and "host_wf H"
proof -
  obtain cmds where "server_runs L M N basedir s0 db0 b cmds H" using assms(2) by (auto simp: serving_def)
  then show rel: "broker_rel L tabs M N basedir b H" using server_runs_rel [OF _ assms(1)] by blast
  then show srel: "server_rel L tabs M N basedir (br_server b) H" by (simp add: broker_rel_def)
  show "tasks_ok (br_server b)" using server_relD(3) [OF srel] .
  show "host_wf H" using server_relD(1) [OF srel] by (rule host_relE)
qed

lemma stage_worker:
  assumes "first_start L tabs M N basedir s0 db0" and "stage L M N basedir s0 db0 n cid w i ps b"
  shows "\<exists>b'. worker_steps L k b = Inr b' \<and> stage L M N basedir s0 db0 n cid (w + k) i ps b'"
  using assms(2)
proof (induction k arbitrary: b w)
  case (Suc k)
  obtain H where serv: "serving L M N basedir s0 db0 n b H" and up: "set_up_to w i ps (br_server b) H"
    using Suc.prems by (auto simp: stage_def)
  note rel = serving_rel [OF assms(1) serv]
  obtain s' where s': "worker_step L (br_server b) = Inr s'"
    using worker_follows [OF rel(1)] by (auto simp: event_follows_def rbind_Inr_conv)
  let ?b = "b\<lparr>br_server := s'\<rparr>" and ?H = "host_after (worker_cmds (br_server b)) H"
  have step: "broker_step L Worker b = Inr ?b" by (simp add: s')
  have link: "known n ?b = known n b" "channel_at n cid ?b = channel_at n cid b"
    using link_kept(1) [OF step, of n] link_kept(2) [OF step, of n cid] by simp_all
  obtain cmds where runs: "server_runs L M N basedir s0 db0 b cmds H" using serv by (auto simp: serving_def)
  have "server_runs L M N basedir s0 db0 ?b (cmds @ worker_cmds (br_server b)) ?H"
    using server_runs.event [OF runs _ step] by simp
  then have "serving L M N basedir s0 db0 n ?b ?H" using serv link(1) by (auto simp: serving_def)
  moreover have "set_up_to (Suc w) i ps s' ?H"
    using up worker_supplied [OF s' rel(3)] unfolding set_up_to_def worker_tables by (simp split: if_splits)
  ultimately have "stage L M N basedir s0 db0 n cid (Suc w) i ps ?b"
    using Suc.prems link(2) by (auto simp: stage_def)
  from Suc.IH [OF this] step show ?case by simp
qed simp

lemma stage_calls:
  assumes start: "first_start L tabs M N basedir s0 db0" and "stage L M N basedir s0 db0 n (cc_cid ch) w i ps b"
    and call: "\<And>b0. stage L M N basedir s0 db0 n (cc_cid ch) (w + v) i ps b0 \<Longrightarrow>
      \<exists>b1. sync_call L u n op rid ch b0 = Inr (Some (r, ch, b1)) \<and> stage L M N basedir s0 db0 n (cc_cid ch) (w + v) i' ps' b1"
    and rest: "\<And>b1. stage L M N basedir s0 db0 n (cc_cid ch) (w + v) i' ps' b1 \<Longrightarrow>
      \<exists>b2. run_beside L u n ops ch b1 = Inr (Some (rs, ch, b2)) \<and> P b2"
  shows "\<exists>b2. run_beside L u n ((op, rid, v) # ops) ch b = Inr (Some (r # rs, ch, b2)) \<and> P b2"
proof -
  obtain b0 where b0: "worker_steps L v b = Inr b0" "stage L M N basedir s0 db0 n (cc_cid ch) (w + v) i ps b0"
    using stage_worker [OF start assms(2)] by blast
  obtain b1 where b1: "sync_call L u n op rid ch b0 = Inr (Some (r, ch, b1))"
    "stage L M N basedir s0 db0 n (cc_cid ch) (w + v) i' ps' b1" using call [OF b0(2)] by blast
  obtain b2 where "run_beside L u n ops ch b1 = Inr (Some (rs, ch, b2))" "P b2" using rest [OF b1(2)] by blast
  with b0(1) b1(1) show ?thesis by (intro exI [of _ b2]) simp
qed

section \<open>Setting up\<close>

lemma sync_call_request:
  assumes "sync_call L u n op rid ch b = Inr (Some (r, ch', b'))" and "start_call op rid ch = Await req k"
  shows "onProtobufMessage L u n req b = Inr b'"
  using assms by (auto simp: sync_call_def rbind_Inr_conv Let_def)

lemma script_call:
  assumes start: "first_start L tabs M N basedir s0 db0" and serv: "serving L M N basedir s0 db0 n b H"
    and at: "channel_at n (cc_cid ch) b \<noteq> None" and call: "start_call op rid ch = Await req (\<lambda>ok ch. (answer op ok, ch))"
    and req: "needs_channel req" "\<And>this. request_ok req this (br_server b)" "\<And>v. request_cmds L u req v = [c]" "script_request req"
    and ok: "host_ok L M N [c] H" and empty: "map_of (cc_basic_resp ch) rid = None"
  shows "\<exists>b'. sync_call L u n op rid ch b = Inr (Some (answer op (verdict n req b H), ch, b')) \<and>
    serving L M N basedir s0 db0 n b' (snd (host_spec c H)) \<and> channel_at n (cc_cid ch) b' \<noteq> None \<and>
    unhindered (br_server b) (br_server b')"
proof -
  obtain b' where b': "sync_call L u n op rid ch b = Inr (Some (answer op (verdict n req b H), ch, b'))"
    "serving L M N basedir s0 db0 n b' (snd (host_spec c H))" "channel_at n (cc_cid ch) b' \<noteq> None"
    using sync_call_single [OF start serv at call req(1,2,3) ok empty] by blast
  have "unhindered (br_server b) (br_server b')"
    using request_unhindered [OF sync_call_request [OF b'(1) call] req(4)] serving_rel(3) [OF start serv] by blast
  with b' show ?thesis by blast
qed

definition setup_cmds :: "host_cmd list" where
  "setup_cmds = [HDeclareExchange ''exchange1'' FANOUT True False [], HDeclareQueue ''queue1'' True False False [],
     HDeclareQueue ''queue2'' True False False [], HBind ''exchange1'' ''queue1'' ''queue1'',
     HBind ''exchange1'' ''queue2'' ''news.music.#'']"

lemma setup_ok: "c \<in> set setup_cmds \<Longrightarrow> host_ok L M N [c] H"
  by (auto simp: host_ok_def setup_cmds_def short_def plain_def slash_free_def ex_storable_def mq_storable_def ex_get_args_def
      mq_get_args_def format_args_def plain_args_def type_of_num_def ex_values_def mq_values_def quote_def flag_def
      show_int_def show_nat.simps)

lemma supplied_new:
  assumes "server_rel L tabs M N basedir s H" and "host_wf H" and "sh_queues H q = None" and "unhindered s s'"
  shows "supplied w [] q s' (snd (host_spec (HDeclareQueue q True x a args) H))"
proof -
  have "subscribers q (sv_consumers s') = []"
    using server_relD(5) [OF assms(1), of q] assms(3,4) by (simp add: unhindered_def subscribers_def)
  moreover have "sh_messages H q = None" using assms(2,3) by (simp add: host_wf_def)
  ultimately show ?thesis using assms(3) by (simp add: supplied_def spec_declare_def spec_init_def spec_empty_def)
qed

lemma sync_open:
  assumes start: "first_start L tabs M N basedir s0 db0" and serv: "serving L M N basedir s0 db0 n b H"
    and free: "channel_at n (cc_cid ch) b = None" and empty: "map_of (cc_basic_resp ch) rid = None"
  shows "\<exists>b'. sync_call L u n OpOpen rid ch b = Inr (Some (Bool True, ch, b')) \<and>
    serving L M N basedir s0 db0 n b' H \<and> channel_at n (cc_cid ch) b' \<noteq> None \<and> unhindered (br_server b) (br_server b')"
proof -
  let ?req = "OpenChannelRequest rid (cc_cid ch)"
  have call: "start_call OpOpen rid ch = Await ?req (\<lambda>ok ch. (Bool ok, ch))" by (simp add: open_server_channel_def)
  have ok: "event_ok L M N (Request n u ?req) b H" using free by (simp add: host_ok_def)
  obtain b' where b': "onProtobufMessage L u n ?req b = Inr b'"
    "sync_call L u n OpOpen rid ch b = Inr (Some (Bool True, ch, b'))"
    "known n b' \<longrightarrow> serving L M N basedir s0 db0 n b' H"
    using sync_call_answered [OF start serv call _ ok empty] free by (auto simp: host_after_def)
  have "known n b" using serv by (simp add: serving_def)
  moreover have "unhindered (br_server b) (br_server b')"
    using request_unhindered [OF b'(1)] serving_rel(3) [OF start serv] by simp
  ultimately show ?thesis
    using b' link_opened [of L n u rid "cc_cid ch" b b'] by simp
qed

text \<open>What the calls that set up do.\<close>

lemma exchange_call:
  assumes "first_start L tabs M N basedir s0 db0" and "serving L M N basedir s0 db0 n b H"
    and "channel_at n (cc_cid ch) b \<noteq> None" and "cc_basic_resp ch = []" and "sh_exchanges H ''exchange1'' = None"
  shows "\<exists>b' H'. sync_call L u n (OpDeclareExchange ''exchange1'' FANOUT True False []) rid ch b = Inr (Some (Bool True, ch, b')) \<and>
    serving L M N basedir s0 db0 n b' H' \<and> channel_at n (cc_cid ch) b' \<noteq> None \<and>
    map_option (ex_type \<circ> fst) (sh_exchanges H' ''exchange1'') = Some FANOUT \<and>
    sh_queues H' = sh_queues H \<and> sh_bindings H' = sh_bindings H"
proof -
  let ?c = "HDeclareExchange ''exchange1'' FANOUT True False []"
  obtain b' where "sync_call L u n (OpDeclareExchange ''exchange1'' FANOUT True False []) rid ch b = Inr (Some (Bool True, ch, b'))"
    "serving L M N basedir s0 db0 n b' (snd (host_spec ?c H))" "channel_at n (cc_cid ch) b' \<noteq> None"
    using script_call [OF assms(1-3), where op = "OpDeclareExchange ''exchange1'' FANOUT True False []" and c = ?c and u = u
        and req = "DeclareExchangeRequest rid (cc_cid ch) ''exchange1'' FANOUT True False []" and rid = rid] setup_ok [of ?c L M N H] assms(4)
    by (auto simp: cl_declare_exchange_def ConvertStdMapToProtoMap_def ConvertProtoMapToStdMap_def convert_map_def setup_cmds_def)
  then show ?thesis
    using assms(5) by (intro exI [of _ b'] exI [of _ "snd (host_spec ?c H)"]) (simp add: spec_declare_def)
qed

lemma queue_call:
  assumes "first_start L tabs M N basedir s0 db0" and "serving L M N basedir s0 db0 n b H"
    and "channel_at n (cc_cid ch) b \<noteq> None" and "cc_basic_resp ch = []"
    and "q \<in> {''queue1'', ''queue2''}" and none: "sh_queues H q = None"
  shows "\<exists>b' H'. sync_call L u n (OpDeclareQueue q True False False []) rid ch b = Inr (Some (Bool True, ch, b')) \<and>
    serving L M N basedir s0 db0 n b' H' \<and> channel_at n (cc_cid ch) b' \<noteq> None \<and>
    supplied w [] q (br_server b') H' \<and> sh_exchanges H' = sh_exchanges H \<and> sh_bindings H' = sh_bindings H \<and>
    (\<forall>x. x \<noteq> q \<longrightarrow> sh_queues H' x = sh_queues H x) \<and>
    (\<forall>x. x \<noteq> q \<longrightarrow> supplied w [] x (br_server b) H \<longrightarrow> supplied w [] x (br_server b') H')"
proof -
  let ?c = "HDeclareQueue q True False False []"
  have "?c \<in> set setup_cmds" using assms(5) by (auto simp: setup_cmds_def)
  from setup_ok [OF this] have ok: "host_ok L M N [?c] H" .
  obtain b' where b': "sync_call L u n (OpDeclareQueue q True False False []) rid ch b = Inr (Some (Bool True, ch, b'))"
    "serving L M N basedir s0 db0 n b' (snd (host_spec ?c H))" "channel_at n (cc_cid ch) b' \<noteq> None"
    "unhindered (br_server b) (br_server b')"
    using script_call [OF assms(1-3), where op = "OpDeclareQueue q True False False []" and c = ?c and u = u
        and req = "DeclareQueueRequest rid (cc_cid ch) q False True False []" and rid = rid] ok assms(4)
    by (auto simp: cl_declare_queue_def ConvertStdMapToProtoMap_def ConvertProtoMapToStdMap_def convert_map_def)
  note rel = serving_rel(2,4) [OF assms(1,2)]
  have others: "supplied w [] x (br_server b') (snd (host_spec ?c H))" if "x \<noteq> q" "supplied w [] x (br_server b) H" for x
    by (rule supplied_same [OF that(2) b'(4)]) (use that(1) in \<open>simp_all add: spec_declare_def spec_init_def\<close>)
  show ?thesis
    using b'(1-3) supplied_new [OF rel none b'(4)] others
    by (intro exI [of _ b'] exI [of _ "snd (host_spec ?c H)"] conjI) (simp_all add: spec_declare_def)
qed

lemma bind_call:
  assumes "first_start L tabs M N basedir s0 db0" and "serving L M N basedir s0 db0 n b H"
    and "channel_at n (cc_cid ch) b \<noteq> None" and "cc_basic_resp ch = []"
    and "HBind ''exchange1'' q k \<in> set setup_cmds" and there: "sh_exchanges H ''exchange1'' \<noteq> None" "sh_queues H q \<noteq> None"
  shows "\<exists>b' H'. sync_call L u n (OpBind ''exchange1'' q k) rid ch b = Inr (Some (Bool True, ch, b')) \<and>
    serving L M N basedir s0 db0 n b' H' \<and> channel_at n (cc_cid ch) b' \<noteq> None \<and>
    sh_exchanges H' = sh_exchanges H \<and> sh_queues H' = sh_queues H \<and>
    (\<forall>x. sh_bindings H' ''exchange1'' x \<noteq> None \<longleftrightarrow> x = q \<or> sh_bindings H ''exchange1'' x \<noteq> None) \<and>
    (\<forall>x. supplied w [] x (br_server b) H \<longrightarrow> supplied w [] x (br_server b') H')"
proof -
  let ?c = "HBind ''exchange1'' q k"
  obtain b' where b': "sync_call L u n (OpBind ''exchange1'' q k) rid ch b = Inr (Some (Bool True, ch, b'))"
    "serving L M N basedir s0 db0 n b' (snd (host_spec ?c H))" "channel_at n (cc_cid ch) b' \<noteq> None"
    "unhindered (br_server b) (br_server b')"
    using script_call [OF assms(1-3), where op = "OpBind ''exchange1'' q k" and c = ?c and u = u
        and req = "BindRequest rid (cc_cid ch) ''exchange1'' q k" and rid = rid] setup_ok [OF assms(5)] assms(4) there
    by (simp add: cl_bind_def del: host_spec.simps not_None_eq) blast
  have "supplied w [] x (br_server b') (snd (host_spec ?c H))" if "supplied w [] x (br_server b) H" for x
    by (rule supplied_same [OF that b'(4)]) (use there in \<open>simp_all\<close>)
  then show ?thesis
    using b'(1-3) there by (intro exI [of _ b'] exI [of _ "snd (host_spec ?c H)"] conjI) (auto simp: spec_bind_def)
qed

lemma stage_opened:
  assumes "serving L M N basedir s0 db0 n b H" and "channel_at n cid b \<noteq> None" and "set_up_to w i ps (br_server b) H" and "1 \<le> i"
  shows "stage L M N basedir s0 db0 n cid w i ps b"
  using assms by (auto simp: stage_def)

lemma setup_step:
  fixes ch :: "'cb client_channel"
  assumes start: "first_start L tabs M N basedir s0 db0" and st: "stage L M N basedir s0 db0 n (cc_cid ch) w i [] b"
    and i: "i < 6" and empty: "cc_basic_resp ch = []"
  shows "\<exists>b'. sync_call L u n (publish_client_setup ! i) rid ch b = Inr (Some (Bool True, ch, b')) \<and>
    stage L M N basedir s0 db0 n (cc_cid ch) w (Suc i) [] b'"
proof -
  let ?cid = "cc_cid ch"
  obtain H where serv: "serving L M N basedir s0 db0 n b H" and up: "set_up_to w i [] (br_server b) H"
    using st by (auto simp: stage_def)
  have at: "channel_at n ?cid b \<noteq> None" if "1 \<le> i" using st that by (simp add: stage_def)
  have dec: "sh_queues H q \<noteq> None" if "supplied w [] q (br_server b) H" for q
    using that by (auto simp: supplied_def declared_flag_def split: option.splits)
  have result: ?thesis if "sync_call L u n (publish_client_setup ! i) rid ch b = Inr (Some (Bool True, ch, b'))"
    "serving L M N basedir s0 db0 n b' H'" "channel_at n ?cid b' \<noteq> None" "set_up_to w (Suc i) [] (br_server b') H'" for b' H'
    using that(1) stage_opened [OF that(2-4)] by auto
  note setups = publish_client_setup_def set_up_to_def
  consider "i = 0" | "i = 1" | "i = 2" | "i = 3" | "i = 4" | "i = 5" using i by linarith
  then show ?thesis
  proof cases
    case 1
    then show ?thesis
      using sync_open [OF start serv, of ch rid u] st empty up result [of _ H] by (auto simp: stage_def setups)
  next
    case 2
    then show ?thesis
      using exchange_call [OF start serv at empty, of u rid] up result by (fastforce simp: setups)
  next
    case 3
    then show ?thesis
      using queue_call [OF start serv at empty, of "''queue1''" u rid w] up result by (fastforce simp: setups)
  next
    case 4
    then show ?thesis
      using queue_call [OF start serv at empty, of "''queue2''" u rid w] up result by (fastforce simp: setups)
  next
    case 5
    then show ?thesis
      using bind_call [OF start serv at empty, of "''queue1''" "''queue1''" u rid w] up dec result by (fastforce simp: setups setup_cmds_def)
  next
    case 6
    then show ?thesis
      using bind_call [OF start serv at empty, of "''queue2''" "''news.music.#''" u rid w] up dec result
      by (fastforce simp: setups setup_cmds_def)
  qed
qed


section \<open>Publishing\<close>

lemma host_ok_publish:
  assumes "distinct qs"
    and "\<And>q. q \<in> set qs \<Longrightarrow> host_cmd_ok (fits (lb_protobuf L) M) N (HPublish q (u q) bp body) H"
  shows "host_ok L M N (publish_cmds u bp body qs) H"
  using assms
proof (induction qs arbitrary: H)
  case Nil
  show ?case by (simp add: host_ok_def publish_cmds_def)
next
  case (Cons q qs)
  let ?H = "snd (host_spec (HPublish q (u q) bp body) H)"
  have "host_cmd_ok (fits (lb_protobuf L) M) N (HPublish x (u x) bp body) ?H" if "x \<in> set qs" for x
    using Cons.prems(1) Cons.prems(2) [of x] that by (auto split: option.split)
  then have "host_ok L M N (publish_cmds u bp body qs) ?H" using Cons by simp
  moreover have "host_ok L M N [HPublish q (u q) bp body] H" using Cons.prems(2) [of q] by (simp add: host_ok_def)
  ultimately have "host_ok L M N (HPublish q (u q) bp body # publish_cmds u bp body qs) H"
    using host_ok_Cons by blast
  then show ?case by (simp add: publish_cmds_def)
qed

text \<open>A message of the script as a durable queue keeps it.\<close>

definition script_payload :: "string \<Rightarrow> string \<Rightarrow> payload" where
  "script_payload uid body = put_payload '''' (Some (publish_client_bp uid)) body True"

lemma script_payload_any: "put_payload u (Some (publish_client_bp uid)) body True = script_payload uid body"
  by (simp add: script_payload_def put_payload_def make_payload_def Let_def)

lemma script_payload_facts:
  "pay_id (script_payload uid body) = uid" "pay_durable (script_payload uid body)" "pl_body (script_payload uid body) = body"
  by (simp_all add: script_payload_def put_payload_def make_payload_def pay_id_def pay_durable_def properties_def
      publish_client_bp_def Let_def)

lemma publish_step:
  fixes ch :: "'cb client_channel"
  assumes start: "first_start L tabs M N basedir s0 db0" and st: "stage L M N basedir s0 db0 n (cc_cid ch) w 6 ps b"
    and fit: "fits (lb_protobuf L) M (script_payload uid body)" and new: "uid \<notin> pay_id ` set ps" and room: "length ps < N"
    and empty: "cc_basic_resp ch = []"
  shows "\<exists>b'. sync_call L u n (OpPublish ''exchange1'' (Some (publish_client_bp uid)) body) rid ch b = Inr (Some (Void, ch, b')) \<and>
    stage L M N basedir s0 db0 n (cc_cid ch) w 6 (ps @ [script_payload uid body]) b'"
proof -
  let ?bp = "publish_client_bp uid" and ?v = "fst (sv_host (br_server b))"
  let ?req = "BasicPublishRequest rid (cc_cid ch) ''exchange1'' body (Some ?bp)"
  obtain H where serv: "serving L M N basedir s0 db0 n b H" and up: "set_up_to w 6 ps (br_server b) H" and at: "channel_at n (cc_cid ch) b \<noteq> None"
    using st by (auto simp: stage_def)
  note srel = serving_rel(2) [OF start serv]
  have ex: "map_option (ex_type \<circ> fst) (sh_exchanges H ''exchange1'') = Some FANOUT"
    and fill: "\<And>q. q \<in> {''queue1'', ''queue2''} \<Longrightarrow> supplied w ps q (br_server b) H"
    and bound: "{q. sh_bindings H ''exchange1'' q \<noteq> None} = {''queue1'', ''queue2''}"
    using up by (auto simp: set_up_to_def)
  obtain ep where ep: "vh_select_exchange ''exchange1'' ?v = Some ep" "ex_type ep = FANOUT"
    using routed_spec(3) [OF srel, of "''exchange1''"] ex by (auto simp del: comp_apply)
  let ?qs = "routed (lb_split L) FANOUT ''news.music.pop'' (vh_exchange_bindings ''exchange1'' ?v)"
  have "spec_routed (lb_split L) H ''exchange1'' FANOUT ''news.music.pop'' = {q. sh_bindings H ''exchange1'' q \<noteq> None}"
    by (auto simp: spec_routed_def route_def)
  then have qs: "set ?qs = {''queue1'', ''queue2''}" "distinct ?qs"
    using routed_spec(1,2) [OF srel, of FANOUT "''news.music.pop''" "''exchange1''"] bound by simp_all
  have key: "bp_routing_key ?bp = ''news.music.pop''" by (simp add: publish_client_bp_def)
  obtain this where "channel_at n (cc_cid ch) b = Some this" using at by blast
  then have ecmds: "event_cmds L (Request n u ?req) b = publish_cmds u (Some ?bp) body ?qs"
    unfolding event_cmds.simps request_cmds_publish by (simp add: ep key)
  have dur: "declared_flag mq_durable (sh_queues H q)" if "q \<in> {''queue1'', ''queue2''}" for q
    using fill [OF that] by (simp add: supplied_def)
  have "host_cmd_ok (fits (lb_protobuf L) M) N (HPublish q (u q) (Some ?bp) body) H" if "q \<in> set ?qs" for q
    using supplied_ids [OF fill [of q]] dur [of q] that fit new room unfolding qs(1)
    by (auto simp: script_payload_any script_payload_facts)
  then have hok: "host_ok L M N (event_cmds L (Request n u ?req) b) H"
    unfolding ecmds using qs(2) by (rule host_ok_publish [rotated])
  have call: "start_call (OpPublish ''exchange1'' (Some ?bp) body) rid ch =
      Await ?req (\<lambda>ok ch. (answer (OpPublish ''exchange1'' (Some ?bp) body) ok, ch))"
    by (simp add: cl_basic_publish_def publish_client_bp_def Let_def)
  let ?H = "host_after (publish_cmds u (Some ?bp) body ?qs) H"
  obtain b' where b': "sync_call L u n (OpPublish ''exchange1'' (Some ?bp) body) rid ch b = Inr (Some (Void, ch, b'))"
    "serving L M N basedir s0 db0 n b' ?H" "channel_at n (cc_cid ch) b' \<noteq> None"
    using sync_call_work [OF start serv at call _ _ hok] empty unfolding ecmds by auto
  have un: "unhindered (br_server b) (br_server b')"
    using request_unhindered [OF sync_call_request [OF b'(1) call]] serving_rel(3) [OF start serv] by simp
  have "supplied w (ps @ [script_payload uid body]) q (br_server b') ?H" if "q \<in> {''queue1'', ''queue2''}" for q
    by (rule supplied_put [OF fill [OF that] un])
      (use that dur [OF that] in \<open>simp_all add: host_after_publish [OF qs(2)] qs(1) script_payload_any script_payload_facts del: insert_iff\<close>)
  then have "set_up_to w 6 (ps @ [script_payload uid body]) (br_server b') ?H"
    using up by (simp add: set_up_to_def host_after_publish [OF qs(2)])
  with b' show ?thesis using stage_opened [OF b'(2,3)] by auto
qed

section \<open>The whole script\<close>

lemma timed_append: "timed i rids ws (xs @ ys) = timed i rids ws xs @ timed (i + length xs) rids ws ys"
  by (induction xs arbitrary: i) simp_all

lemma run_beside_append:
  assumes "run_beside L u n xs ch b = Inr (Some (rs, ch1, b1))" and "run_beside L u n ys ch1 b1 = Inr (Some (ss, z))"
  shows "run_beside L u n (xs @ ys) ch b = Inr (Some (rs @ ss, z))"
  using assms
proof (induction xs arbitrary: ch b rs)
  case (Cons x xs)
  obtain op rid w where x: "x = (op, rid, w)" by (cases x)
  obtain b0 r ch' b' rs' where "worker_steps L w b = Inr b0" "sync_call L u n op rid ch b0 = Inr (Some (r, ch', b'))"
    "run_beside L u n xs ch' b' = Inr (Some (rs', ch1, b1))" "rs = r # rs'"
    using Cons.prems(1) by (auto simp: x rbind_Inr_conv split: option.splits)
  then show ?case using Cons.IH [of ch' b' rs'] Cons.prems(2) by (simp add: x)
qed simp

lemma publish_client_length: "length publish_client_setup = 6"
  by (simp add: publish_client_setup_def)

lemma run_setup:
  fixes ch :: "'cb client_channel"
  assumes "first_start L tabs M N basedir s0 db0" and "stage L M N basedir s0 db0 n (cc_cid ch) w i [] b" and "cc_basic_resp ch = []"
  shows "i + length ops = 6 \<Longrightarrow> ops = drop i publish_client_setup \<Longrightarrow>
    \<exists>b'. run_beside L u n (timed i rids ws ops) ch b = Inr (Some (map (\<lambda>op. Bool True) ops, ch, b')) \<and>
      stage L M N basedir s0 db0 n (cc_cid ch) (w + sum_list (map ws [i..<6])) 6 [] b'"
  using assms(2)
proof (induction ops arbitrary: i w b)
  case (Cons op ops)
  have i: "i < 6" "op = publish_client_setup ! i" "ops = drop (Suc i) publish_client_setup"
    using Cons.prems(1) nth_via_drop [OF Cons.prems(2) [symmetric]] arg_cong [OF Cons.prems(2), of tl]
    by (simp_all add: drop_Suc tl_drop)
  have sum: "w + sum_list (map ws [i..<6]) = (w + ws i) + sum_list (map ws [Suc i..<6])" using i(1) by (simp add: upt_conv_Cons)
  have "Suc i + length ops = 6" using Cons.prems(1) by simp
  from Cons.IH [OF this i(3)] have rest: "\<exists>b2. run_beside L u n (timed (Suc i) rids ws ops) ch b1 = Inr (Some (map (\<lambda>op. Bool True) ops, ch, b2)) \<and>
      stage L M N basedir s0 db0 n (cc_cid ch) (w + sum_list (map ws [i..<6])) 6 [] b2"
    if "stage L M N basedir s0 db0 n (cc_cid ch) (w + ws i) (Suc i) [] b1" for b1
    using that unfolding sum by blast
  have call: "\<exists>b1. sync_call L u n op (rids i) ch b0 = Inr (Some (Bool True, ch, b1)) \<and>
      stage L M N basedir s0 db0 n (cc_cid ch) (w + ws i) (Suc i) [] b1"
    if "stage L M N basedir s0 db0 n (cc_cid ch) (w + ws i) i [] b0" for b0
    using setup_step [OF assms(1) that i(1) assms(3)] unfolding i(2) .
  show ?case using stage_calls [OF assms(1) Cons.prems(3) call rest] by (simp del: run_beside.simps)
qed (simp add: exI)

lemma run_publishing:
  fixes ch :: "'cb client_channel"
  assumes "stage L M N basedir s0 db0 n (cc_cid ch) w 6 ps b" and "first_start L tabs M N basedir s0 db0" and "cc_basic_resp ch = []"
    and "\<forall>(uid, body) \<in> set ms. fits (lb_protobuf L) M (script_payload uid body)"
    and "distinct (map fst ms)" and "fst ` set ms \<inter> pay_id ` set ps = {}" and "length ps + length ms \<le> N"
  shows "\<exists>b'. run_beside L u n (timed i rids ws (map (\<lambda>(uid, body).
        OpPublish ''exchange1'' (Some (publish_client_bp uid)) body) ms)) ch b = Inr (Some (map (\<lambda>m. Void) ms, ch, b')) \<and>
    stage L M N basedir s0 db0 n (cc_cid ch) (w + sum_list (map ws [i..<i + length ms])) 6
      (ps @ map (\<lambda>(uid, body). script_payload uid body) ms) b'"
  using assms
proof (induction ms arbitrary: b w ps i)
  case (Cons m ms)
  obtain uid body where m: "m = (uid, body)" by (cases m)
  have rest: "\<forall>(uid, body) \<in> set ms. fits (lb_protobuf L) M (script_payload uid body)" "distinct (map fst ms)"
    "fst ` set ms \<inter> pay_id ` set (ps @ [script_payload uid body]) = {}" "length (ps @ [script_payload uid body]) + length ms \<le> N"
    using Cons.prems(4-7) by (auto simp: m script_payload_facts)
  have new: "fits (lb_protobuf L) M (script_payload uid body)" "uid \<notin> pay_id ` set ps" "length ps < N"
    using Cons.prems(4-7) by (auto simp: m)
  have "[i..<i + length (m # ms)] = i # [Suc i..<Suc i + length ms]" 
    using upt_conv_Cons [of i "i + length (m # ms)"] by simp
  then have sum: "w + sum_list (map ws [i..<i + length (m # ms)]) = (w + ws i) + sum_list (map ws [Suc i..<Suc i + length ms])"
    by simp
  have after: "\<exists>b2. run_beside L u n (timed (Suc i) rids ws (map (\<lambda>(uid, body).
        OpPublish ''exchange1'' (Some (publish_client_bp uid)) body) ms)) ch b1 = Inr (Some (map (\<lambda>m. Void) ms, ch, b2)) \<and>
      stage L M N basedir s0 db0 n (cc_cid ch) (w + sum_list (map ws [i..<i + length (m # ms)])) 6
        (ps @ map (\<lambda>(uid, body). script_payload uid body) (m # ms)) b2"
    if "stage L M N basedir s0 db0 n (cc_cid ch) (w + ws i) 6 (ps @ [script_payload uid body]) b1" for b1
    using Cons.IH [OF that Cons.prems(2,3) rest, of "Suc i"] unfolding sum by (simp add: m del: upt_Suc)
  show ?case
    using stage_calls [OF Cons.prems(2,1) publish_step [OF Cons.prems(2) _ new Cons.prems(3)] after] by (simp add: m del: run_beside.simps)
qed (auto intro: exI)

definition undeclared :: "spec_host \<Rightarrow> bool" where
  "undeclared H \<longleftrightarrow> sh_exchanges H ''exchange1'' = None \<and> sh_queues H ''queue1'' = None \<and> sh_queues H ''queue2'' = None"

text \<open>
  C17: The publishing example works, and what becomes of its messages.  The script runs against a server
  in any reachable state that does not have its exchange and queues yet and can store three messages of
  their size; they have different identifiers.  Nobody else uses the server meanwhile, but its worker
  makes any number of steps before each call and after the last one, as in the second the script sleeps
  after each message, and works off whatever tasks it had.  Every call up to the closing of the channel returns, the declarations and
  bindings successfully.  Afterwards the file of both queues holds exactly the three messages, in order.
  Nobody subscribes to them, so the worker takes messages off for nobody: the first \<open>k\<close>, at most one in
  each of its steps, have left the queue and are kept as not acknowledged, and the others wait in order;
  if the worker makes no step, all three wait.
\<close>

theorem publish_client_fills_queues:
  assumes "first_start L tabs M N basedir s0 db0" and "server_runs L M N basedir s0 db0 b cmds H"
    and "known n b" and "channel_at n cid b = None" and "undeclared H"
    and "\<forall>i < 3. fits (lb_protobuf L) M (script_payload (ids i) (publish_client_body i))"
    and "distinct (map ids [0..<3])" and "3 \<le> N"
  shows "\<exists>ch b1. run_beside L u n (timed 0 rids ws (publish_client_setup @ publish_client_messages ids))
      (client_channel_new (Some n) cid :: 'cb client_channel) b = Inr (Some (replicate 6 (Bool True) @ replicate 3 Void, ch, b1)) \<and>
    (\<forall>w. \<exists>b' cmds' H'. worker_steps L w b1 = Inr b' \<and> server_runs L M N basedir s0 db0 b' cmds' H' \<and>
      (let ps = map (\<lambda>i. script_payload (ids i) (publish_client_body i)) [0..<3] in
       \<forall>q \<in> {''queue1'', ''queue2''}. subscribers q (sv_consumers (br_server b')) = [] \<and>
         (\<exists>k \<le> sum_list (map ws [0..<9]) + w. sh_messages H' q =
           Some \<lparr>sq_ready = drop k ps, sq_unacked = rev (map (\<lambda>p. (pay_id p, p)) (take k ps)), sq_stored = ps\<rparr>)))"
proof -
  let ?ch = "client_channel_new (Some n) cid :: 'cb client_channel" and ?ms = "map (\<lambda>i. (ids i, publish_client_body i)) [0..<3]"
  let ?ps = "map (\<lambda>i. script_payload (ids i) (publish_client_body i)) [0..<3]"
  have ch: "cc_cid ?ch = cid" "cc_basic_resp ?ch = []" by (simp_all add: client_channel_new_def)
  have serv: "serving L M N basedir s0 db0 n b H" using assms(2,3) by (auto simp: serving_def)
  have "sh_bindings H ''exchange1'' q = Some (k, d) \<Longrightarrow> sh_exchanges H ''exchange1'' \<noteq> None" for q k d
    using serving_rel(4) [OF assms(1) serv] unfolding host_wf_def by blast
  then have "sh_bindings H ''exchange1'' q = None" for q
    using assms(5) by (cases "sh_bindings H ''exchange1'' q") (auto simp: undeclared_def)
  then have "set_up_to 0 0 [] (br_server b) H" using assms(5) by (simp add: set_up_to_def undeclared_def)
  then have st: "stage L M N basedir s0 db0 n (cc_cid ?ch) 0 0 [] b" using assms(4) serv by (auto simp: stage_def ch(1))
  obtain b6 where b6: "run_beside L u n (timed 0 rids ws publish_client_setup) ?ch b = Inr (Some (replicate 6 (Bool True), ?ch, b6))"
    "stage L M N basedir s0 db0 n (cc_cid ?ch) (sum_list (map ws [0..<6])) 6 [] b6"
    using run_setup [OF assms(1) st ch(2), of publish_client_setup u rids ws]
    by (auto simp: publish_client_setup_def map_replicate_const eval_nat_numeral)
  have msgs: "publish_client_messages ids =
      map (\<lambda>(uid, body). OpPublish ''exchange1'' (Some (publish_client_bp uid)) body) ?ms"
    by (simp add: publish_client_messages_def)
  have "\<forall>(uid, body) \<in> set ?ms. fits (lb_protobuf L) M (script_payload uid body)" using assms(6) by auto
  moreover have "distinct (map fst ?ms)" using assms(7) by (simp add: comp_def)
  moreover have sum: "sum_list (map ws [0..<6]) + sum_list (map ws [6..<6 + length ?ms]) = sum_list (map ws [0..<9])"
  proof -
    have "[0..<9] = [0..<6] @ [6..<6 + length ?ms]" by (simp add: upt_rec)
    then show ?thesis by (simp only: map_append sum_list_append)
  qed
  ultimately obtain b1 where b1: "run_beside L u n (timed 6 rids ws (publish_client_messages ids)) ?ch b6 =
      Inr (Some (replicate 3 Void, ?ch, b1))" "stage L M N basedir s0 db0 n cid (sum_list (map ws [0..<9])) 6 ?ps b1"
    using run_publishing [OF b6(2) assms(1) ch(2), of ?ms u 6 rids ws] assms(8)
    by (auto simp: ch(1) msgs comp_def map_replicate_const)
  have all: "run_beside L u n (timed 0 rids ws (publish_client_setup @ publish_client_messages ids)) ?ch b =
      Inr (Some (replicate 6 (Bool True) @ replicate 3 Void, ?ch, b1))"
    using run_beside_append [OF b6(1) b1(1)] by (simp add: timed_append publish_client_length)
  have "\<exists>b' cmds' H'. worker_steps L w b1 = Inr b' \<and> server_runs L M N basedir s0 db0 b' cmds' H' \<and>
      (\<forall>q \<in> {''queue1'', ''queue2''}. subscribers q (sv_consumers (br_server b')) = [] \<and>
         (\<exists>k \<le> sum_list (map ws [0..<9]) + w. sh_messages H' q =
           Some \<lparr>sq_ready = drop k ?ps, sq_unacked = rev (map (\<lambda>p. (pay_id p, p)) (take k ?ps)), sq_stored = ?ps\<rparr>))" for w
  proof -
    obtain b' where b': "worker_steps L w b1 = Inr b'" "stage L M N basedir s0 db0 n cid (sum_list (map ws [0..<9]) + w) 6 ?ps b'"
      using stage_worker [OF assms(1) b1(2)] by blast
    then obtain H' where H': "serving L M N basedir s0 db0 n b' H'" "set_up_to (sum_list (map ws [0..<9]) + w) 6 ?ps (br_server b') H'"
      unfolding stage_def by blast
    have "subscribers q (sv_consumers (br_server b')) = [] \<and> (\<exists>k \<le> sum_list (map ws [0..<9]) + w. sh_messages H' q =
        Some \<lparr>sq_ready = drop k ?ps, sq_unacked = rev (map (\<lambda>p. (pay_id p, p)) (take k ?ps)), sq_stored = ?ps\<rparr>)"
      if "q \<in> {''queue1'', ''queue2''}" for q
    proof -
      have "supplied (sum_list (map ws [0..<9]) + w) ?ps q (br_server b') H'" using H'(2) that by (auto simp: set_up_to_def)
      then show ?thesis unfolding supplied_def by blast
    qed
    then show ?thesis using b'(1) H'(1) unfolding serving_def by blast
  qed
  with all show ?thesis unfolding Let_def by blast
qed

section \<open>A run of it\<close>

lemma script_first: "first_start sample_libs (\<lambda>db. db) 200 3 ''./data'' sample_disk (\<lambda>_. None)"
  using mini_sqlite_ok sample_data_dir sample_settled
  by (simp add: first_start_def sample_libs_def fresh_tables_def sample_disk_def DBFILE_PATH_def)

lemma script_connected:
  "\<exists>b. server_runs sample_libs 200 3 ''./data'' sample_disk (\<lambda>_. None) b [] spec_host_empty \<and> known 7 b \<and>
     channel_at 7 ''c'' b = None"
proof -
  obtain b0 where new: "BrokerServer sample_libs ''./data'' sample_disk (\<lambda>_. None) = Inr b0" and c0: "br_connections b0 = []"
    using first_broker [OF script_first] by blast
  have r0: "server_runs sample_libs 200 3 ''./data'' sample_disk (\<lambda>_. None) b0 [] spec_host_empty"
    using server_runs.start [OF new] .
  let ?b1 = "b0\<lparr>br_connections := [(7, connection_new 7)]\<rparr>"
  have "broker_step sample_libs (Connected 7) b0 = Inr ?b1"
    by (simp add: onConnection_def c0 new_connection_def um_insert_def)
  then have "server_runs sample_libs 200 3 ''./data'' sample_disk (\<lambda>_. None) ?b1 [] spec_host_empty"
    using run_event [OF script_first r0, of "Connected 7"] by (auto simp: host_after_def)
  then show ?thesis
    by (rule exI [of _ ?b1, OF conjI])
      (simp add: known_def channel_at_def select_connection_def connection_new_def cn_select_channel_def cm_select_channel_def)
qed

definition script_ids :: "nat \<Rightarrow> string" where
  "script_ids i = replicate (Suc i) CHR ''a''"

lemma script_texts:
  assumes "i < 3"
  shows "ascii (script_ids i)" "ascii (publish_client_body i)" "length (script_ids i) < 4" "length (publish_client_body i) = 13"
proof -
  have i: "i = 0 \<or> i = 1 \<or> i = 2" using assms by linarith
  have body: "publish_client_body 0 = ''Hello world-0''" "publish_client_body 1 = ''Hello world-1''"
    "publish_client_body 2 = ''Hello world-2''"
    by (simp_all add: publish_client_body_def show_nat.simps char_of_def bit_numeral_rec bit_0)
  show "ascii (script_ids i)" "length (script_ids i) < 4"
    using i by (auto simp: script_ids_def ascii_def)
  show "ascii (publish_client_body i)" "length (publish_client_body i) = 13"
    using i by (elim disjE; simp only: body; simp add: ascii_def)+
qed

lemma script_fits: "i < 3 \<Longrightarrow> fits wire_rt 200 (script_payload (script_ids i) (publish_client_body i))"
proof -
  assume i: "i < 3"
  let ?p = "script_payload (script_ids i) (publish_client_body i)"
  note texts = script_texts [OF i]
  have shape: "pl_properties ?p = Some (publish_client_bp (script_ids i))" "pl_body ?p = publish_client_body i"
    "pl_valid ?p = ''1''" "pl_unknown ?p = []"
    by (simp_all add: script_payload_def put_payload_def make_payload_def default_payload_def default_properties_def
        publish_client_bp_def pay_durable_def properties_def Let_def)
  have utf8: "rt_utf8 wire_rt = ascii" by (simp add: wire_rt_def)
  have route: "ascii ''news.music.pop''" "ascii ''1''" by (simp_all add: ascii_def)
  have "properties_ok wire_rt (publish_client_bp (script_ids i))"
    using texts(1) route
    by (simp add: publish_client_bp_def default_properties_def properties_ok_def mode_ok_def int32_def mode_of_num_def utf8)
  with texts(2) route have ok: "payload_ok wire_rt ?p" by (simp add: payload_ok_def wire_rt_ok shape utf8)
  have vlen: "n < 128 \<Longrightarrow> length (varint n) = 1" for n by (simp add: varint.simps)
  have "properties_byte_size wire_rt (publish_client_bp (script_ids i)) < 40"
    using texts(3) by (simp add: properties_byte_size_def publish_client_bp_def default_properties_def wire_rt_def vlen enum_bits_def)
  then have size: "payload_byte_size wire_rt ?p < 100"
    using texts(4) by (simp add: payload_byte_size_def shape) (simp add: wire_rt_def vlen)
  with ok have st: "storable wire_rt ?p" by (simp add: storable_def)
  then show ?thesis
    using size by (simp add: fits_def length_frame sizeof_size_t_def storable_ser
        length_ser_payload [OF storable_sizes [OF st]])
qed

theorem publish_client_fills_queues_witness:
  "\<exists>b ch b1 b' cmds' H' a. run_beside sample_libs (\<lambda>q. ''u'') 7
      (timed 0 (\<lambda>i. ''r'') (\<lambda>i. i) (publish_client_setup @ publish_client_messages script_ids))
      (client_channel_new (Some 7) ''c'' :: nat client_channel) b = Inr (Some (replicate 6 (Bool True) @ replicate 3 Void, ch, b1)) \<and>
    worker_steps sample_libs 5 b1 = Inr b' \<and>
    server_runs sample_libs 200 3 ''./data'' sample_disk (\<lambda>_. None) b' cmds' H' \<and>
    sh_messages H' ''queue2'' = Some a \<and>
    sq_stored a = map (\<lambda>i. script_payload (script_ids i) (publish_client_body i)) [0..<3]"
proof -
  obtain b where b: "server_runs sample_libs 200 3 ''./data'' sample_disk (\<lambda>_. None) b [] spec_host_empty" "known 7 b"
    "channel_at 7 ''c'' b = None" using script_connected by blast
  have none: "undeclared spec_host_empty" by (simp add: undeclared_def spec_host_empty_def)
  have fit: "\<forall>i < 3. fits (lb_protobuf sample_libs) 200 (script_payload (script_ids i) (publish_client_body i))"
    using script_fits by (simp add: sample_libs_def)
  have dist: "distinct (map script_ids [0..<3])" by (simp add: script_ids_def upt_rec)
  obtain ch b1 where b1: "run_beside sample_libs (\<lambda>q. ''u'') 7
      (timed 0 (\<lambda>i. ''r'') (\<lambda>i. i) (publish_client_setup @ publish_client_messages script_ids))
      (client_channel_new (Some 7) ''c'' :: nat client_channel) b = Inr (Some (replicate 6 (Bool True) @ replicate 3 Void, ch, b1))"
    and later: "\<forall>w. \<exists>b' cmds' H'. worker_steps sample_libs w b1 = Inr b' \<and>
      server_runs sample_libs 200 3 ''./data'' sample_disk (\<lambda>_. None) b' cmds' H' \<and>
      (let ps = map (\<lambda>i. script_payload (script_ids i) (publish_client_body i)) [0..<3] in
       \<forall>q \<in> {''queue1'', ''queue2''}. subscribers q (sv_consumers (br_server b')) = [] \<and>
         (\<exists>k \<le> sum_list (map (\<lambda>i. i) [0..<9]) + w. sh_messages H' q =
           Some \<lparr>sq_ready = drop k ps, sq_unacked = rev (map (\<lambda>p. (pay_id p, p)) (take k ps)), sq_stored = ps\<rparr>))"
    using publish_client_fills_queues [OF script_first b none fit dist order_refl, of "\<lambda>q. ''u''" "\<lambda>i. ''r''" "\<lambda>i. i"]
    by blast
  obtain b' cmds' H' where b': "worker_steps sample_libs 5 b1 = Inr b'"
    "server_runs sample_libs 200 3 ''./data'' sample_disk (\<lambda>_. None) b' cmds' H'"
    and q: "\<forall>q \<in> {''queue1'', ''queue2''}. \<exists>k \<le> sum_list (map (\<lambda>i. i) [0..<9]) + 5. sh_messages H' q =
      Some \<lparr>sq_ready = drop k (map (\<lambda>i. script_payload (script_ids i) (publish_client_body i)) [0..<3]),
        sq_unacked = rev (map (\<lambda>p. (pay_id p, p)) (take k (map (\<lambda>i. script_payload (script_ids i) (publish_client_body i)) [0..<3]))),
        sq_stored = map (\<lambda>i. script_payload (script_ids i) (publish_client_body i)) [0..<3]\<rparr>"
    using later [rule_format, of 5] unfolding Let_def by blast
  then obtain a where "sh_messages H' ''queue2'' = Some a"
    "sq_stored a = map (\<lambda>i. script_payload (script_ids i) (publish_client_body i)) [0..<3]" by fastforce
  with b1 b' show ?thesis by blast
qed

end
