(* ===== verification/Client_Consumption.thy ===== *)
theory Client_Consumption
  imports Example_Clients Broker_Drain
begin

text \<open>
  The consuming client at work: the messages waiting in its queue are pushed to it, its callback
  acknowledges them one by one, and they leave the queue and its file.
\<close>

section \<open>What the callback does\<close>

text \<open>The calls \<open>consume_client\<close>'s callback makes for the messages pushed to a channel.\<close>

fun reactions :: "'cb client_channel \<Rightarrow> response list \<Rightarrow> 'cb api list" where
  "reactions ch [] = []"
| "reactions ch (r # rs) =
     (case cl_consume r ch of
        None \<Rightarrow> reactions ch rs
      | Some (fn, tag, bp, body) \<Rightarrow> consume_client_cb tag bp body # reactions ch rs)"

lemma reactions_pushed:
  "cc_consumer ch = Some cc \<Longrightarrow> cs_tag cc = cs_tag c \<Longrightarrow>
     reactions ch (map (pushed ch0 c) ps) = map (\<lambda>p. OpAck (pay_id p)) ps"
  by (induction ps) (simp_all add: cl_consume_def pushed_def consume_client_cb_def)

text \<open>What arrives for a channel is what was delivered to its subscription.\<close>

lemma arrived_deliveries:
  assumes "\<And>d. d \<in> set ds \<Longrightarrow> fst d = q \<Longrightarrow> \<exists>p. d = (q, c, ch0, p)"
    and "\<And>q' c' ch' p. (q', c', ch', p) \<in> set ds \<Longrightarrow> q' \<noteq> q \<Longrightarrow> \<not> (ch_conn ch' = ch_conn ch0 \<and> ch_cid ch' = ch_cid ch0)"
  shows "filter (\<lambda>r. rs_cid r = ch_cid ch0) (concat (map (to_conn (ch_conn ch0)) (map push_sent ds))) =
    map (pushed ch0 c) (delivered_to q ds)"
  using assms
proof (induction ds)
  case (Cons d ds)
  obtain q' c' ch' p where d: "d = (q', c', ch', p)" by (cases d)
  have IH: "filter (\<lambda>r. rs_cid r = ch_cid ch0) (concat (map (to_conn (ch_conn ch0)) (map push_sent ds))) =
      map (pushed ch0 c) (delivered_to q ds)"
    using Cons.IH Cons.prems by (meson list.set_intros(2))
  show ?case
  proof (cases "q' = q")
    case True
    then have "d = (q, c, ch0, p)" using Cons.prems(1) [of d] by (auto simp: d)
    moreover have "rs_cid (pushed ch0 c p) = ch_cid ch0" by (simp add: pushed_def)
    moreover have "push_sent (q, c, ch0, p) = Send (ch_conn ch0) (pushed ch0 c p)" by (simp add: push_sent_def)
    ultimately show ?thesis using IH by (simp add: delivered_to_def)
  next
    case False
    then have "\<not> (ch_conn ch' = ch_conn ch0 \<and> ch_cid ch' = ch_cid ch0)" using Cons.prems(2) [of q' c' ch' p] False by (simp add: d)
    moreover have "rs_cid (pushed ch' c' p) = ch_cid ch'" by (simp add: pushed_def)
    moreover have "push_sent d = Send (ch_conn ch') (pushed ch' c' p)" by (simp add: d push_sent_def)
    ultimately show ?thesis using IH False by (simp add: d delivered_to_def)
  qed
qed (simp add: delivered_to_def)

lemma workers_keep_link:
  "worker_steps L k b = Inr b' \<Longrightarrow> known n b' = known n b \<and> channel_at n cid b' = channel_at n cid b"
proof (induction k arbitrary: b)
  case (Suc k)
  obtain b1 where b1: "broker_step L Worker b = Inr b1" "worker_steps L k b1 = Inr b'"
    using Suc.prems by (auto simp: rbind_Inr_conv)
  have "\<not> retables n Worker" by simp
  from link_kept [OF b1(1) this] Suc.IH [OF b1(2)] show ?case by simp
qed simp

section \<open>Acknowledging\<close>

lemma handed_ack: "handed R a a' \<Longrightarrow> i \<in> R \<Longrightarrow> handed R a (spec_ack i a')"
proof (cases "map_of (sq_unacked a') i")
  case None
  assume "handed R a a'"
  then show ?thesis using None by (simp add: spec_ack_def)
next
  case (Some p)
  assume R: "handed R a a'" and i: "i \<in> R"
  have "handed {i} a' (spec_ack i a')" using Some by (auto simp: handed_def spec_ack_def um_erase_def)
  from handed_trans [OF R this] i show ?thesis by (simp add: insert_absorb)
qed

lemma ack_clears:
  "map_of (sq_unacked (spec_ack i a)) i = None"
  "map_of (sq_unacked a) j = None \<Longrightarrow> map_of (sq_unacked (spec_ack i a)) j = None"
  "sq_ready (spec_ack i a) = sq_ready a"
  by (auto simp: spec_ack_def um_erase_def map_of_eq_None_iff)

lemma acks_clear:
  "set is \<subseteq> R \<Longrightarrow> handed R a a' \<Longrightarrow> handed R a (fold spec_ack is a') \<and> sq_ready (fold spec_ack is a') = sq_ready a' \<and>
     (\<forall>j. j \<in> set is \<or> map_of (sq_unacked a') j = None \<longrightarrow> map_of (sq_unacked (fold spec_ack is a')) j = None)"
proof (induction "is" arbitrary: a')
  case (Cons i "is")
  have "handed R a (spec_ack i a')" using Cons.prems by (simp add: handed_ack)
  from Cons.IH [OF _ this] Cons.prems(1) show ?case using ack_clears by auto
qed simp

lemma handed_settled:
  assumes "handed R a a'" and "\<And>j. j \<in> R \<Longrightarrow> map_of (sq_unacked a') j = None"
  shows "sq_unacked a' = filter (\<lambda>e. fst e \<notin> R) (sq_unacked a)" "sq_stored a' = filter (\<lambda>p. pay_id p \<notin> R) (sq_stored a)"
proof -
  have "filter (\<lambda>e. fst e \<notin> R) (sq_unacked a') = sq_unacked a'"
    using assms(2) by (auto simp: filter_id_conv map_of_eq_None_iff)
  then show "sq_unacked a' = filter (\<lambda>e. fst e \<notin> R) (sq_unacked a)" using assms(1) unfolding handed_def by metis
  have "pay_id p \<notin> R" if "p \<in> set (sq_stored a')" for p using assms that unfolding handed_def by blast
  then have "filter (\<lambda>p. pay_id p \<notin> R) (sq_stored a') = sq_stored a'" by (simp add: filter_id_conv)
  then show "sq_stored a' = filter (\<lambda>p. pay_id p \<notin> R) (sq_stored a)" using assms(1) unfolding handed_def by metis
qed

lemma run_acks:
  fixes ch :: "'cb client_channel"
  assumes "serving L M N basedir s0 db0 n b H" and "first_start L tabs M N basedir s0 db0"
    and "channel_at n (cc_cid ch) b \<noteq> None" and "cc_consumer ch = Some cc" and "cc_basic_resp ch = []"
    and "sh_messages H (cs_qname cc) = Some a"
  shows "\<exists>b' H'. run_script L u n (numbered i rids (map OpAck is)) ch b = Inr (Some (map (\<lambda>x. Void) is, ch, b')) \<and>
    serving L M N basedir s0 db0 n b' H' \<and> sh_messages H' (cs_qname cc) = Some (fold spec_ack is a)"
  using assms
proof (induction "is" arbitrary: b H a i)
  case (Cons m "is")
  let ?req = "BasicAckRequest (rids i) (cc_cid ch) (cs_qname cc) m"
  have call: "start_call (OpAck m) (rids i) ch = Await ?req (\<lambda>ok ch. (answer (OpAck m :: 'cb api) ok, ch))"
    using Cons.prems(4) by (simp add: cl_basic_ack_def)
  have free: "map_of (cc_basic_resp ch) (rids i) = None" using Cons.prems(5) by simp
  obtain b1 where b1: "sync_call L u n (OpAck m) (rids i) ch b = Inr (Some (Void, ch, b1))"
    "serving L M N basedir s0 db0 n b1 (snd (host_spec (HAck (cs_qname cc) m) H))" "channel_at n (cc_cid ch) b1 \<noteq> None"
    using sync_call_single [OF Cons.prems(2,1,3) call _ _ _ _ free, where c = "HAck (cs_qname cc) m" and u = u]
    by (auto simp: host_ok_def)
  have "sh_messages (snd (host_spec (HAck (cs_qname cc) m) H)) (cs_qname cc) = Some (spec_ack m a)"
    using Cons.prems(6) by simp
  from Cons.IH [OF b1(2) Cons.prems(2) b1(3) Cons.prems(4,5) this, of "Suc i"] show ?case using b1(1) by auto
qed auto

section \<open>Property\<close>

text \<open>
  C4: A consumer empties its queue.  A client is the only subscriber of a queue, on a server that was
  not restarted and does nothing else meanwhile.  The worker pushes all waiting messages to it, in
  order and nothing else for its channel; \<open>consume_client\<close>'s callback acknowledges each; every one of these
  calls returns; and afterwards exactly these messages are gone: none waits, none of them is still
  to be acknowledged, none is in the queue's file, and whatever else was to be acknowledged or stored
  is as it was.
\<close>

theorem consumer_empties_queue:
  fixes ch :: "'cb client_channel"
  assumes "first_start L tabs M N basedir s0 db0" and "server_runs L M N basedir s0 db0 b cmds H"
    and "HRestart \<notin> set cmds" and "sv_job (br_server b) = Fresh"
    and "subscribers q (sv_consumers (br_server b)) = [c]" and "channel_at n (cc_cid ch) b = Some (cs_callback c)"
    and "cc_consumer ch = Some (client_consumer (cs_tag c) q auto_ack fn)" and "cc_basic_resp ch = []"
    and "sh_messages H q = Some a"
  shows "\<exists>k b1 ops b2 cs H2. worker_steps L k b = Inr b1 \<and> tp_threads (sv_pool (br_server b1)) = [Blocked] \<and>
    ops = reactions ch (filter (\<lambda>r. rs_cid r = cc_cid ch) (drop (length (sent_to n b)) (sent_to n b1))) \<and>
    ops = map (\<lambda>p. OpAck (pay_id p)) (sq_ready a) \<and>
    run_script L u n (numbered 0 rids ops) ch b1 = Inr (Some (map (\<lambda>op. Void) ops, ch, b2)) \<and>
    server_runs L M N basedir s0 db0 b2 cs H2 \<and>
    sh_messages H2 q = Some \<lparr>sq_ready = [],
      sq_unacked = filter (\<lambda>e. fst e \<notin> pay_id ` set (sq_ready a)) (sq_unacked a),
      sq_stored = filter (\<lambda>p. pay_id p \<notin> pay_id ` set (sq_ready a)) (sq_stored a)\<rparr>"
proof -
  let ?s = "br_server b" and ?R = "pay_id ` set (sq_ready a)"
  have rel: "broker_rel L tabs M N basedir b H" using server_runs_rel [OF assms(2,1)] by blast
  obtain k b1 cs H1 ds where b1: "worker_steps L k b = Inr b1" "server_runs L M N basedir s0 db0 b1 (cmds @ cs) H1"
    "tp_threads (sv_pool (br_server b1)) = [Blocked]" "delivers b H (\<lambda>q. tasks_for q ?s) ds b1 H1"
    using drained_runs [OF assms(1,2,4)] by blast
  have wait: "waiting H q = sq_ready a" by (simp add: waiting_def assms(9))
  have all: "length (sq_ready a) \<le> tasks_for q ?s" using runs_enough [OF assms(1,2,4,3), of q] wait by simp
  have ds: "sv_out (br_server b1) = sv_out ?s @ map push_sent ds" "\<And>d. d \<in> set ds \<Longrightarrow> delivery_ok ?s d"
    "delivered_to q ds = sq_ready a" "waiting H1 q = []"
    using b1(4) all wait assms(5) unfolding delivers_def by auto
  have "rel_option (handed (pay_id ` set (take (tasks_for q ?s) (waiting H q)))) (sh_messages H q) (sh_messages H1 q)"
    using b1(4) unfolding delivers_def by blast
  then have hand: "rel_option (handed ?R) (sh_messages H q) (sh_messages H1 q)" using all wait by simp
  obtain a1 where a1: "sh_messages H1 q = Some a1" "handed ?R a a1" "sq_ready a1 = []"
    using ds(4) hand assms(9) by (auto simp: option_rel_Some1 waiting_def)
  obtain ch0 where ch0: "deref_channel (cs_callback c) ?s = Inr ch0" "ch_consumer ch0 = Some c"
    "channel_at (ch_conn ch0) (ch_cid ch0) b = Some (cs_callback c)" and name: "cs_qname c = q"
    using subscriber_channel [OF rel, of c q] assms(5) by auto
  have ids: "ch_conn ch0 = n" "ch_cid ch0 = cc_cid ch"
    using channel_atD [OF _ assms(6)] rel ch0(1) by (auto simp: broker_rel_def)
  have own: "\<exists>p. d = (q, c, ch0, p)" if "d \<in> set ds" "fst d = q" for d
    using ds(2) [OF that(1)] that(2) assms(5) ch0(1) by (cases d) (auto simp: delivery_ok_def)
  have others: "\<not> (ch_conn ch' = ch_conn ch0 \<and> ch_cid ch' = ch_cid ch0)" if "(q', c', ch', p) \<in> set ds" "q' \<noteq> q" for q' c' ch' p
  proof
    assume same: "ch_conn ch' = ch_conn ch0 \<and> ch_cid ch' = ch_cid ch0"
    have c': "c' \<in> set (subscribers q' (sv_consumers ?s))" "deref_channel (cs_callback c') ?s = Inr ch'"
      using ds(2) [OF that(1)] by (auto simp: delivery_ok_def)
    then have "channel_at (ch_conn ch') (ch_cid ch') b = Some (cs_callback c')" "ch_consumer ch' = Some c'" "cs_qname c' = q'"
      using subscriber_channel [OF rel c'(1)] by auto
    then show False using same ch0 c'(2) that(2) name by auto
  qed
  have new: "drop (length (sent_to n b)) (sent_to n b1) = concat (map (to_conn n) (map push_sent ds))"
    using sent_to_more [OF ds(1), of n] by simp
  have arrived: "filter (\<lambda>r. rs_cid r = cc_cid ch) (drop (length (sent_to n b)) (sent_to n b1)) = map (pushed ch0 c) (sq_ready a)"
    using arrived_deliveries [of ds q c ch0, OF own others] unfolding new ids ds(3) by simp
  have ops: "reactions ch (map (pushed ch0 c) (sq_ready a)) = map (\<lambda>p. OpAck (pay_id p)) (sq_ready a)"
    by (rule reactions_pushed [OF assms(7)]) (simp add: client_consumer_def)
  have at: "channel_at n (cc_cid ch) b1 \<noteq> None" and known: "known n b1"
    using workers_keep_link [OF b1(1)] assms(6) by (auto simp: known_def channel_at_def split: option.splits)
  have serv: "serving L M N basedir s0 db0 n b1 H1" using known b1(2) by (auto simp: serving_def)
  have q: "cs_qname (client_consumer (cs_tag c) q auto_ack fn) = q" by (simp add: client_consumer_def)
  obtain b2 H2 where b2: "run_script L u n (numbered 0 rids (map OpAck (map pay_id (sq_ready a)))) ch b1 =
      Inr (Some (map (\<lambda>x. Void) (map pay_id (sq_ready a)), ch, b2))" "serving L M N basedir s0 db0 n b2 H2"
    "sh_messages H2 q = Some (fold spec_ack (map pay_id (sq_ready a)) a1)"
    using run_acks [OF serv assms(1) at assms(7,8), of a1 u 0 rids "map pay_id (sq_ready a)"] a1(1) unfolding q by blast
  let ?a2 = "fold spec_ack (map pay_id (sq_ready a)) a1"
  have fin: "handed ?R a ?a2" "sq_ready ?a2 = []" "\<And>j. j \<in> ?R \<Longrightarrow> map_of (sq_unacked ?a2) j = None"
    using acks_clear [of "map pay_id (sq_ready a)" ?R a a1] a1(2,3) by auto
  have "?a2 = \<lparr>sq_ready = [], sq_unacked = filter (\<lambda>e. fst e \<notin> ?R) (sq_unacked a),
      sq_stored = filter (\<lambda>p. pay_id p \<notin> ?R) (sq_stored a)\<rparr>"
    using handed_settled [OF fin(1,3)] fin(2) by simp
  then have msgs: "sh_messages H2 q = Some \<lparr>sq_ready = [], sq_unacked = filter (\<lambda>e. fst e \<notin> ?R) (sq_unacked a),
      sq_stored = filter (\<lambda>p. pay_id p \<notin> ?R) (sq_stored a)\<rparr>" using b2(3) by simp
  obtain cs2 where run: "server_runs L M N basedir s0 db0 b2 cs2 H2" using b2(2) by (auto simp: serving_def)
  let ?ops = "map (\<lambda>p. OpAck (pay_id p)) (sq_ready a) :: 'cb api list"
  have "run_script L u n (numbered 0 rids ?ops) ch b1 = Inr (Some (map (\<lambda>op. Void) ?ops, ch, b2))"
    using b2(1) by (simp add: comp_def)
  moreover have "?ops = reactions ch (filter (\<lambda>r. rs_cid r = cc_cid ch) (drop (length (sent_to n b)) (sent_to n b1)))"
    by (simp only: arrived ops)
  ultimately show ?thesis using b1(1,3) run msgs by blast
qed

theorem consumer_empties_queue_witness:
  "\<exists>k b b1 b2 cs H2 a ch. worker_steps sample_libs k b = Inr b1 \<and> cc_consumer ch = Some (client_consumer ''t'' ''q'' False (0 :: nat)) \<and>
    run_script sample_libs (\<lambda>q. ''u'') 7
      (numbered 0 (\<lambda>i. ''r'') (reactions ch (filter (\<lambda>r. rs_cid r = ''c'') (drop (length (sent_to 7 b)) (sent_to 7 b1))))) ch b1 =
      Inr (Some ([Void], ch, b2)) \<and>
    sample_runs b2 cs H2 \<and> sh_messages H2 ''q'' = Some a \<and> sq_ready a = []"
proof -
  obtain b cmds H this a where b: "sample_runs b cmds H" "HRestart \<notin> set cmds" "sv_job (br_server b) = Fresh"
    and at: "channel_at 7 ''c'' b = Some this" and a: "sh_messages H ''q'' = Some a" "sq_ready a = [put_payload ''u'' None ''hi'' True]"
    and subs: "subscribers ''q'' (sv_consumers (br_server b)) =
      [\<lparr>cs_tag = ''t'', cs_qname = ''q'', cs_auto_ack = False, cs_callback = this\<rparr>]"
    using sample_delivering_as [of False] by blast
  let ?c = "\<lparr>cs_tag = ''t'', cs_qname = ''q'', cs_auto_ack = False, cs_callback = this\<rparr>"
  let ?ch = "(client_channel_new (Some 7) ''c'')\<lparr>cc_consumer := Some (client_consumer ''t'' ''q'' False (0 :: nat))\<rparr>"
  have ch: "cc_cid ?ch = ''c''" "cc_basic_resp ?ch = []"
    "cc_consumer ?ch = Some (client_consumer (cs_tag ?c) ''q'' False 0)"
    by (simp_all add: client_channel_new_def)
  have at': "channel_at 7 (cc_cid ?ch) b = Some (cs_callback ?c)" using at ch(1) by simp
  obtain k b1 ops b2 cs H2 where f: "worker_steps sample_libs k b = Inr b1"
    "ops = reactions ?ch (filter (\<lambda>r. rs_cid r = cc_cid ?ch) (drop (length (sent_to 7 b)) (sent_to 7 b1)))"
    "ops = map (\<lambda>p. OpAck (pay_id p)) (sq_ready a)"
    "run_script sample_libs (\<lambda>q. ''u'') 7 (numbered 0 (\<lambda>i. ''r'') ops) ?ch b1 = Inr (Some (map (\<lambda>op. Void) ops, ?ch, b2))"
    "sample_runs b2 cs H2" and rest: "\<exists>a2. sh_messages H2 ''q'' = Some a2 \<and> sq_ready a2 = []"
    using consumer_empties_queue [OF sample_first b subs at' ch(3,2) a(1), of "\<lambda>q. ''u''" "\<lambda>i. ''r''"] by auto
  have "map (\<lambda>op. Void) ops = [Void]" using f(3) a(2) by simp
  note run = f(4) [unfolded this, unfolded f(2) ch(1)]
  have "cc_consumer ?ch = Some (client_consumer ''t'' ''q'' False 0)" by simp
  with f(1,5) run rest show ?thesis by blast
qed

end
