(* ===== verification/Client_Destructor.thy ===== *)
theory Client_Destructor
  imports Client_Calls Broker_Sample
begin

text \<open>
  The destructor of a client's channel (\<open>HareMQ/mqclient/channel.hpp\<close>), which cancels the channel's
  subscription, and what becomes of it on a channel that was closed before.
\<close>

section \<open>The destructor\<close>

definition destroy_client_channel :: "string \<Rightarrow> 'cb client_channel \<Rightarrow> 'cb call" where
  "destroy_client_channel rid ch = cl_basic_cancel rid ch"

lemma destroy_unsubscribed: "cc_consumer ch = None \<Longrightarrow> destroy_client_channel rid ch = Returned Void"
  by (simp add: destroy_client_channel_def cl_basic_cancel_def)

section \<open>The server meanwhile\<close>

text \<open>A server that goes on without hearing from the connection \<open>n\<close>, which stays up.\<close>

inductive meanwhile ::
  "'db libs \<Rightarrow> nat \<Rightarrow> nat \<Rightarrow> conn \<Rightarrow> 'db broker \<Rightarrow> spec_host \<Rightarrow> 'db broker \<Rightarrow> spec_host \<Rightarrow> bool"
  for L M N n b H where
  now: "meanwhile L M N n b H b H"
| later: "\<lbrakk>meanwhile L M N n b H b1 H1; elsewhere n e; event_ok L M N e b1 H1; broker_step L e b1 = Inr b2\<rbrakk> \<Longrightarrow>
    meanwhile L M N n b H b2 (host_after (event_cmds L e b1) H1)"

lemma meanwhile_silent:
  assumes "meanwhile L M N n b H b' H'" and "broker_rel L tabs M N basedir b H"
  shows "broker_rel L tabs M N basedir b' H' \<and>
    (\<exists>ps. sent_to n b' = sent_to n b @ ps \<and> list_all (\<lambda>x. \<not> is_answer x) ps)"
  using assms
proof (induction rule: meanwhile.induct)
  case (later b1 H1 e b2)
  obtain ps where ps: "sent_to n b1 = sent_to n b @ ps" "list_all (\<lambda>x. \<not> is_answer x) ps"
    and rel: "broker_rel L tabs M N basedir b1 H1"
    using later.IH later.prems by blast
  obtain outs where outs: "sv_out (br_server b2) = sv_out (br_server b1) @ outs"
    "\<forall>x \<in> set (concat (map (to_conn n) outs)). \<not> is_answer x"
    using elsewhere_sends [OF rel later.hyps(3,4,2)] by blast
  have "list_all (\<lambda>x. \<not> is_answer x) (ps @ concat (map (to_conn n) outs))"
    using ps(2) outs(2) by (auto simp: list_all_iff)
  moreover have "sent_to n b2 = sent_to n b @ ps @ concat (map (to_conn n) outs)"
    using sent_to_more [OF outs(1)] ps(1) by simp
  moreover have "broker_rel L tabs M N basedir b2 (host_after (event_cmds L e b1) H1)"
    using broker_follows [OF rel later.hyps(3)] later.hyps(4) by (auto simp: event_follows_def)
  ultimately show ?case by blast
qed auto

lemma store_pushes: "list_all (\<lambda>x. \<not> is_answer x) ps \<Longrightarrow> fold store_response ps ch = ch"
proof (induction ps)
  case (Cons p ps)
  then show ?case by (cases p) auto
qed simp

lemma unknown_channel:
  assumes "known n b" and "channel_at n (rq_cid r) b = None" and "needs_channel r"
  shows "onProtobufMessage L u n r b = Inr b"
  using assms
  by (cases r) (auto simp: known_def channel_at_def on_channel_def on_declareExchange_def on_deleteExchange_def
      on_declareQueue_def on_deleteQueue_def on_bind_def on_unbind_def on_basicPublish_def on_basicAck_def
      on_basicConsume_def on_basicCancel_def on_basicQuery_def split: option.splits)

section \<open>Property\<close>

text \<open>
  C36: Closing a subscribed channel leaves a channel that cannot be destroyed.  \<open>closeChannel\<close> on a
  channel with a subscription is answered and returns, but keeps the subscription, so the destructor of
  the channel sends a cancellation for a channel the server no longer has; the server ignores it, and
  whatever it does from then on, the destructor still waits for the answer.
\<close>

theorem closed_subscriber_never_dies:
  assumes "first_start L tabs M N basedir s0 db0" and "server_runs L M N basedir s0 db0 b cmds H" and "known n b"
    and "channel_at n (cc_cid ch) b \<noteq> None" and "cc_consumer ch = Some c"
    and "event_ok L M N (Request n u (CloseChannelRequest rid (cc_cid ch))) b H"
    and "map_of (cc_basic_resp ch) rid = None" and "map_of (cc_basic_resp ch) rid' = None"
  shows "\<exists>b' H'. sync_call L u n OpClose rid ch b = Inr (Some (Void, ch, b')) \<and>
    onProtobufMessage L u' n (BasicCancelRequest rid' (cc_cid ch) (cs_tag c) (cs_qname c)) b' = Inr b' \<and>
    request_of (destroy_client_channel rid' ch) = Some (BasicCancelRequest rid' (cc_cid ch) (cs_tag c) (cs_qname c)) \<and>
    server_runs L M N basedir s0 db0 b' cmds H' \<and>
    (\<forall>b2 H2. meanwhile L M N n b' H' b2 H2 \<longrightarrow>
      resume (destroy_client_channel rid' ch)
        (fold store_response (drop (length (sent_to n b')) (sent_to n b2)) ch) = None)"
proof -
  let ?cid = "cc_cid ch"
  let ?req = "CloseChannelRequest rid ?cid"
  have serv: "serving L M N basedir s0 db0 n b H" using assms(2,3) by (auto simp: serving_def)
  have call: "start_call OpClose rid ch = Await ?req (\<lambda>ok ch. (Void, ch))" by (simp add: close_server_channel_def)
  obtain b' where b': "onProtobufMessage L u n ?req b = Inr b'" "sync_call L u n OpClose rid ch b = Inr (Some (Void, ch, b'))"
    using sync_call_answered [OF assms(1) serv call _ assms(6,7)] by auto
  have step: "broker_step L (Request n u ?req) b = Inr b'" using b'(1) by simp
  have after: "known n b'" "channel_at n ?cid b' = None" using link_closed(1) [OF step assms(3)] link_closed(2) [OF step assms(3), of ?cid] by auto
  have run: "server_runs L M N basedir s0 db0 b' cmds H"
    using quiet_event [OF assms(2,6) step] by simp
  have rel: "broker_rel L tabs M N basedir b' H" using server_runs_rel [OF run assms(1)] by blast
  have "onProtobufMessage L u' n (BasicCancelRequest rid' ?cid (cs_tag c) (cs_qname c)) b' = Inr b'"
    using unknown_channel [of n b' "BasicCancelRequest rid' ?cid (cs_tag c) (cs_qname c)"] after by simp
  moreover have "resume (destroy_client_channel rid' ch)
      (fold store_response (drop (length (sent_to n b')) (sent_to n b2)) ch) = None"
    if m: "meanwhile L M N n b' H b2 H2" for b2 H2
  proof -
    obtain ps where "sent_to n b2 = sent_to n b' @ ps" "list_all (\<lambda>x. \<not> is_answer x) ps"
      using meanwhile_silent [OF m rel] by blast
    then have "fold store_response (drop (length (sent_to n b')) (sent_to n b2)) ch = ch" by (simp add: store_pushes)
    then show ?thesis
      using assms(5,8) by (simp add: destroy_client_channel_def cl_basic_cancel_def wait_response_def)
  qed
  moreover have "request_of (destroy_client_channel rid' ch) = Some (BasicCancelRequest rid' ?cid (cs_tag c) (cs_qname c))"
    using assms(5) by (simp add: destroy_client_channel_def cl_basic_cancel_def)
  ultimately show ?thesis using b'(2) run by blast
qed

theorem closed_subscriber_never_dies_witness:
  "\<exists>b b' ch H'. sample_runs b sample_setup sample_host \<and>
    sync_call sample_libs (\<lambda>q. ''u'') 7 OpClose ''r'' (ch :: nat client_channel) b = Inr (Some (Void, ch, b')) \<and>
    cc_consumer ch = Some (client_consumer ''t'' ''q'' True 0) \<and>
    (\<forall>b2 H2. meanwhile sample_libs 100 1 7 b' H' b2 H2 \<longrightarrow>
      resume (destroy_client_channel ''s'' ch)
        (fold store_response (drop (length (sent_to 7 b')) (sent_to 7 b2)) ch) = None)"
proof -
  obtain b this where b: "sample_runs b sample_setup sample_host" and sub: "subscribed b this"
    using sample_subscribed by blast
  let ?ch = "(client_channel_new (Some 7) ''c'' :: nat client_channel)
    \<lparr>cc_consumer := Some (client_consumer ''t'' ''q'' True 0)\<rparr>"
  have ch: "cc_cid ?ch = ''c''" "cc_consumer ?ch = Some (client_consumer ''t'' ''q'' True 0)" "cc_basic_resp ?ch = []"
    by (simp_all add: client_channel_new_def)
  have at: "channel_at 7 (cc_cid ?ch) b \<noteq> None" using sub ch by (simp add: subscribed_def)
  have known: "known 7 b" using at by (auto simp: known_def channel_at_def split: option.splits)
  have ok: "event_ok sample_libs 100 1 (Request 7 (\<lambda>q. ''u'') (CloseChannelRequest ''r'' (cc_cid ?ch))) b sample_host"
    using sub ch by (simp add: subscribed_def quiet_def host_ok_def)
  have free: "map_of (cc_basic_resp ?ch) r = None" for r using ch(3) by simp
  obtain b' H' where "sync_call sample_libs (\<lambda>q. ''u'') 7 OpClose ''r'' ?ch b = Inr (Some (Void, ?ch, b'))"
    "\<forall>b2 H2. meanwhile sample_libs 100 1 7 b' H' b2 H2 \<longrightarrow>
      resume (destroy_client_channel ''s'' ?ch)
        (fold store_response (drop (length (sent_to 7 b')) (sent_to 7 b2)) ?ch) = None"
    using closed_subscriber_never_dies [OF sample_first b known at ch(2) ok free free, of "\<lambda>q. ''u''" "''s''"] by blast
  with b ch(2) show ?thesis by blast
qed

end
