(* ===== verification/Demo_Services.thy ===== *)
theory Demo_Services
  imports Proto_Msg Logger
begin

text \<open>
  The experiments with the network library under \<open>HareMQ/demo/muduo\<close>: the dictionary over plain text
  (\<open>dict_server.cc\<close>, \<open>dict_client.cc\<close>) and the service over protobuf messages (\<open>proto_server.cc\<close>,
  \<open>proto_client.cc\<close>), with their \<open>demo/log.hpp\<close>.  The library is represented by what it calls back: a
  connection coming up or going down, a message.
\<close>

section \<open>The log\<close>

definition demo_levels :: "(string \<times> int) list" where
  "demo_levels = [(''INFO'', 0), (''DEBUG'', 1), (''WARNING'', 2), (''ERROR'', 3), (''FATAL'', 4)]"

definition demo_GetColor :: "string \<Rightarrow> string" where
  "demo_GetColor level =
     (let n = (case map_of demo_levels level of None \<Rightarrow> 0 | Some k \<Rightarrow> k) in
      if n = 0 then BLUE else if n = 1 then GREEN else if n = 2 then YELLOW else if n = 3 then MAGENTA
      else if n = 4 then RED else RESET)"

definition demo_Log :: "string \<Rightarrow> string \<Rightarrow> int \<Rightarrow> string \<Rightarrow> string" where
  "demo_Log level file_name line cout =
     cout @ demo_GetColor level @ (''['' @ level @ '']'') @ RESET @ ''['' @ file_name @ '']'' @ ''['' @ show_int line @ '']'' @ '' ''"

section \<open>The dictionary\<close>

definition dict_map :: "(string \<times> string) list" where
  "dict_map = [(''hello'', ''nihao''), (''nihao'', ''hello'')]"

definition translate :: "string \<Rightarrow> string" where
  "translate str = (case map_of dict_map str of None \<Rightarrow> ''unknown'' @ [CHR 0x0A] | Some v \<Rightarrow> v)"

text \<open>\<open>onMessage\<close> of the server: all that has arrived is one word.  The answer, and the text logged.\<close>

definition dict_onMessage :: "string \<Rightarrow> string \<times> string" where
  "dict_onMessage buf = (translate buf, ''recv a mesg: '' @ buf)"

record dict_client =
  tc_latch :: nat
  tc_conn :: "bool option" \<comment> \<open>null when \<open>None\<close>; otherwise, is it connected\<close>
  tc_sent :: "string list"
  tc_out :: string

definition translate_client_new :: dict_client where
  "translate_client_new = \<lparr>tc_latch = 1, tc_conn = None, tc_sent = [], tc_out = []\<rparr>"

text \<open>The callback of a connection counts the latch down before it stores the connection.\<close>

definition tc_count :: "dict_client \<Rightarrow> dict_client" where
  "tc_count c = c\<lparr>tc_latch := tc_latch c - 1\<rparr>"

definition tc_store :: "bool \<Rightarrow> dict_client \<Rightarrow> dict_client" where
  "tc_store connected c = c\<lparr>tc_conn := if connected then Some True else None\<rparr>"

definition tc_onMessage :: "string \<Rightarrow> dict_client \<Rightarrow> dict_client" where
  "tc_onMessage buf c = c\<lparr>tc_out := tc_out c @ ''server# '' @ buf @ [CHR 0x0A]\<rparr>"

text \<open>\<open>connect\<close> returns once the latch is down.\<close>

definition tc_connected :: "dict_client \<Rightarrow> bool" where
  "tc_connected c \<longleftrightarrow> tc_latch c = 0"

definition tc_send :: "string \<Rightarrow> dict_client \<Rightarrow> (bool \<times> dict_client) result" where
  "tc_send mesg c =
     (case tc_conn c of
        None \<Rightarrow> Inl Undefined
      | Some up \<Rightarrow> Inr (if up then (True, c\<lparr>tc_sent := tc_sent c @ [mesg]\<rparr>) else (False, c)))"

section \<open>The service\<close>

datatype demo_request = translateRequest string | addRequest int int | otherRequest string

datatype demo_response = translateResponse string | addResponse int | otherResponse string

text \<open>An answer to the client, or the connection shut down.\<close>

type_synonym reaction = "demo_response option"

definition svr_translate :: "string \<Rightarrow> string" where
  "svr_translate str = (case map_of dict_map str of None \<Rightarrow> ''unknown'' @ [CHR 0x0A] | Some v \<Rightarrow> v)"

definition svr_onTranslate :: "string \<Rightarrow> reaction result" where
  "svr_onTranslate msg = Inr (Some (translateResponse (svr_translate msg)))"

text \<open>The addition is one of \<open>int\<close>, whose overflow is undefined.\<close>

definition svr_onAdd :: "int \<Rightarrow> int \<Rightarrow> reaction result" where
  "svr_onAdd num1 num2 =
     (if int32 (num1 + num2) then Inr (Some (addResponse (num1 + num2))) else Inl Undefined)"

definition svr_onUnknownMessage :: "string \<Rightarrow> reaction result" where
  "svr_onUnknownMessage type_name = Inr None"

fun svr_onMessage :: "demo_request \<Rightarrow> reaction result" where
  "svr_onMessage (translateRequest msg) = svr_onTranslate msg"
| "svr_onMessage (addRequest num1 num2) = svr_onAdd num1 num2"
| "svr_onMessage (otherRequest t) = svr_onUnknownMessage t"

record proto_client =
  pc_latch :: nat
  pc_conn :: "bool option"
  pc_sent :: "demo_request list"
  pc_log :: "string list"

definition proto_client_new :: proto_client where
  "proto_client_new = \<lparr>pc_latch = 1, pc_conn = None, pc_sent = [], pc_log = []\<rparr>"

text \<open>
  \<open>onConnection\<close> in its two statements.  This client keeps a connection that went down; what is
  stored then tells so.
\<close>

definition pc_count :: "proto_client \<Rightarrow> proto_client" where
  "pc_count c = c\<lparr>pc_latch := pc_latch c - 1\<rparr>"

definition pc_store :: "proto_client \<Rightarrow> proto_client" where
  "pc_store c = c\<lparr>pc_conn := Some True, pc_log := pc_log c @ [''connected'']\<rparr>"

definition pc_down :: "proto_client \<Rightarrow> proto_client" where
  "pc_down c = c\<lparr>pc_conn := map_option (\<lambda>_. False) (pc_conn c), pc_log := pc_log c @ [''disconnected'']\<rparr>"

definition pc_send :: "demo_request \<Rightarrow> proto_client \<Rightarrow> (bool \<times> proto_client) result" where
  "pc_send message c =
     (case pc_conn c of
        None \<Rightarrow> Inl Undefined
      | Some up \<Rightarrow> Inr (if up then (True, c\<lparr>pc_sent := pc_sent c @ [message]\<rparr>) else (False, c)))"

definition pc_translate :: "string \<Rightarrow> proto_client \<Rightarrow> proto_client result" where
  "pc_translate mesg c = rbind (pc_send (translateRequest mesg) c) (\<lambda>(ok, c'). Inr c')"

definition pc_add :: "int \<Rightarrow> int \<Rightarrow> proto_client \<Rightarrow> proto_client result" where
  "pc_add num1 num2 c = rbind (pc_send (addRequest num1 num2) c) (\<lambda>(ok, c'). Inr c')"

text \<open>An unknown message shuts the connection down, after which it no longer counts as connected.\<close>

fun pc_onMessage :: "demo_response \<Rightarrow> proto_client \<Rightarrow> proto_client" where
  "pc_onMessage (translateResponse msg) c = c\<lparr>pc_log := pc_log c @ [''translate result: '' @ msg]\<rparr>"
| "pc_onMessage (addResponse k) c = c\<lparr>pc_log := pc_log c @ [''add result: '' @ show_int k]\<rparr>"
| "pc_onMessage (otherResponse t) c =
     c\<lparr>pc_log := pc_log c @ [''unknown result: '' @ t], pc_conn := map_option (\<lambda>_. False) (pc_conn c)\<rparr>"

text \<open>\<open>main\<close> of the client after the connection has come up.\<close>

definition pc_main :: "proto_client \<Rightarrow> proto_client result" where
  "pc_main c = rbind (pc_translate ''hello'' c) (pc_add 11 22)"

section \<open>Lemmas\<close>

text \<open>Translating back and forth; words that arrive together are taken for one.\<close>

lemma translate_involution: "map_of dict_map w \<noteq> None \<Longrightarrow> translate (translate w) = w"
  by (auto simp: translate_def dict_map_def split: if_splits)

lemma joined_words_unknown:
  "map_of dict_map v \<noteq> None \<Longrightarrow> map_of dict_map w \<noteq> None \<Longrightarrow>
     fst (dict_onMessage (v @ w)) = ''unknown'' @ [CHR 0x0A]"
  by (auto simp: dict_onMessage_def translate_def dict_map_def split: if_splits)

text \<open>
  Both clients may return from \<open>connect\<close> before the connection is stored; the dictionary's also forgets
  it when it goes down.  A call of \<open>send\<close> then goes through a null pointer.
\<close>

lemma connect_returns_too_early:
  "tc_connected (tc_count translate_client_new) \<and> tc_send w (tc_count translate_client_new) = Inl Undefined \<and>
    pc_translate w (pc_count proto_client_new) = Inl Undefined"
  by (simp add: tc_connected_def tc_count_def translate_client_new_def tc_send_def pc_count_def proto_client_new_def
      pc_translate_def pc_send_def)

lemma send_after_loss:
  "tc_send w (tc_store False c) = Inl Undefined" "pc_conn c' \<noteq> None \<Longrightarrow> pc_send r (pc_down c') = Inr (False, pc_down c')"
  by (auto simp: tc_send_def tc_store_def pc_send_def pc_down_def)

text \<open>The run of the program: what the client sends, the answers, and what it logs when they arrive.\<close>

lemma demo_session:
  "\<exists>c. pc_main (pc_store (pc_count proto_client_new)) = Inr c \<and>
    map svr_onMessage (pc_sent c) = [Inr (Some (translateResponse ''nihao'')), Inr (Some (addResponse 33))] \<and>
    pc_log (fold pc_onMessage [translateResponse ''nihao'', addResponse 33] c) =
      [''connected'', ''translate result: nihao'', ''add result: 33'']"
proof -
  have "show_int 33 = ''33''" by code_simp
  then show ?thesis
    by (simp add: pc_main_def pc_translate_def pc_add_def pc_send_def pc_store_def pc_count_def proto_client_new_def
        svr_onTranslate_def svr_onAdd_def svr_translate_def dict_map_def int32_def)
qed

end
