(* ===== verification/Spec2Isabelle.thy ===== *)
theory Spec2Isabelle
  imports Host_Refinement Consumer Broker_Properties Logger Uuid World_Properties Console_Properties
    Broker_Provenance Broker_Drain Example_Clients Client_Publication Client_Consumption Client_Destructor
    Demo_Services
begin

text \<open>
  A verification development for HareMQ, a message broker in C++ after the model of AMQP.  Clients open
  channels over a connection, declare exchanges and queues, bind queues to exchanges under keys,
  publish messages to exchanges and subscribe to queues; the server routes each message to the queues
  whose binding key matches, keeps the durable ones in files and pushes them to subscribers.

  \<^bold>\<open>Parts and theories\<close> (source files under \<open>src/HareMQ\<close>)

  \<^item> \<open>MQ_Prelude\<close>: results of calls that can abort, throw or be undefined, the unordered maps of the
    C++ library as association lists, C strings.  \<open>Simulation\<close>: components driven by commands, and the
    locale \<open>simulation\<close> of a component that follows its specification.
  \<^item> \<open>Text_Helper\<close>, \<open>File_Helper\<close>, \<open>Uuid\<close>, \<open>Sql\<close>: the classes of \<open>mqcommon/helper.hpp\<close> (splitting
    text, files, identifiers, SQLite) and the SQL the mappers send.  \<open>Mini_Sqlite\<close> interprets that SQL,
    to show that the documented behaviour assumed of SQLite can hold.  \<open>Logger\<close>: \<open>mqcommon/logger.hpp\<close> and
    what the programs log when they start.
  \<^item> \<open>Proto_Msg\<close>: the messages of \<open>msg.proto\<close> and the code generated for them in \<open>msg.pb.cc\<close>;
    \<open>Protocol\<close>: the requests and responses of \<open>protocol.proto\<close> and \<open>map_helper\<close>.
  \<^item> \<open>Route\<close>: \<open>mqserver/route.hpp\<close>, the keys and the dynamic-programming matcher of wildcards.
  \<^item> \<open>Message_Mapper\<close>, \<open>Queue_Message\<close>, \<open>Message_Manager\<close>: the three classes of
    \<open>mqserver/message.hpp\<close>, a queue's file, a queue, all queues.  \<open>Queue_Refinement\<close> proves that a queue
    follows its abstract specification over any sequence of operations and restarts.
  \<^item> \<open>Registry\<close>, \<open>Exchange\<close>, \<open>Msg_Queue\<close>, \<open>Binding\<close>: \<open>exchange.hpp\<close>, \<open>queue.hpp\<close> and \<open>binding.hpp\<close>, each
    a manager in memory over a mapper on a table of the database.
  \<^item> \<open>Virtual_Host\<close>: \<open>virtual_host.hpp\<close>; \<open>Host_Refinement\<close>: the specification \<open>host_spec\<close> of a host and
    the proof that the host follows it, over any sequence of calls and restarts.
  \<^item> \<open>Consumer\<close>: \<open>consumer.hpp\<close>, subscribers and the round robin.
  \<^item> \<open>Thread_Pool\<close>: \<open>mqcommon/thread_pool.hpp\<close>, as a step relation of its threads.
  \<^item> \<open>Channel\<close>, \<open>Connection\<close>, \<open>Broker_Server\<close>: \<open>channel.hpp\<close>, \<open>connection.hpp\<close>, \<open>broker_server.hpp\<close> and
    \<open>server.cc\<close>: every request handler, the tables of channels and connections, the worker that pushes
    messages.  \<open>Broker_Invariant\<close>, \<open>Broker_Run\<close>, \<open>Broker_Reach\<close>, \<open>Broker_Delivery\<close> hold the invariant,
    its preservation by each event, the reachable states \<open>server_runs\<close> and what the worker delivers;
    \<open>Broker_Verdict\<close> says which answer a request gets, \<open>Broker_Provenance\<close> where pushed messages come
    from, \<open>Broker_Drain\<close> that the worker delivers whatever waits; \<open>Broker_Sample\<close> is a concrete history and
    \<open>Broker_Properties\<close> states what holds of the server.
  \<^item> \<open>Client_Channel\<close>, \<open>Client_Connection\<close>: \<open>mqclient/channel.hpp\<close>, \<open>consumer.hpp\<close>, \<open>connection.hpp\<close> and
    \<open>async_worker.hpp\<close>; \<open>Client_Runs\<close>: the invariant of a client's threads and what its calls return;
    \<open>Client_Delivery\<close>: pushed messages on their way to the callbacks.
  \<^item> \<open>Client_Server\<close>: a client and the server at the two ends of a connection, \<open>Broker_Link\<close> and
    \<open>Client_End\<close> the invariants of the ends, \<open>World_Properties\<close> what holds of both together.
  \<^item> \<open>Client_Console\<close>: the console program \<open>client.cc\<close>; \<open>Console_Properties\<close>: what its commands do.
  \<^item> \<open>Client_Calls\<close>: one call after the other on a server that does nothing else; \<open>Example_Clients\<close>:
    \<open>publish_client.cc\<close> and \<open>consume_client.cc\<close> as scripts of calls; \<open>Client_Publication\<close>: the run of the
    first against the server, whose worker makes any number of steps between the calls;
    \<open>Client_Consumption\<close>: the callback of the second at work; \<open>Client_Destructor\<close>: the destructor of a
    client's channel, and where it hangs.
  \<^item> \<open>Demo_Services\<close>: the services under \<open>demo/muduo\<close>.

  \<^bold>\<open>State and operations\<close>

  Each class is a record of its members and each method a definition of the same name on that record,
  with a prefix where two classes share a name (\<open>vh_\<close>, \<open>qm_\<close>, \<open>mm_\<close>, \<open>mg_\<close>, \<open>ch_\<close>, \<open>cn_\<close>, \<open>cm_\<close>).  Methods that
  touch files or the database pass a file system or a database along.  \<open>assert\<close> and \<open>abort\<close> give
  \<open>Inl Aborts\<close>, exceptions \<open>Inl Throws\<close>, overflowing buffers, null pointers and objects used after
  their destruction \<open>Inl Undefined\<close>.  Counters and sizes are words of their C++ width where they can wrap.
  Messages shared by several containers live in a store and the containers hold references; channels
  have addresses, because tasks and callbacks keep the raw \<open>this\<close> of a channel.

  The server has two threads.  The loop thread handles one request, connection or disconnection at a
  time, and such a handler is one event, up to the calls of the worker that its mutexes let in between:
  the worker's task \<open>consume\<close> is split at its calls into shared state (take a message, choose a
  subscriber, send, acknowledge), and any event may come between two of these steps.  A handler itself
  is not interrupted.  A restart may come between any two events, on the files and tables as they are.
  Elsewhere, too, what no property depends on is one step: the draws of a counter within one identifier,
  the flag and the notification of \<open>stop_pool\<close>, waking from a wait and storing what the call returns.

  A client has a loop thread, a worker and any number of threads that call methods of its channels.  A
  method sends a request and waits for the response with its identifier; it is an event up to the wait
  and another after it, with the calls under way kept by identifier.  The two statements of
  \<open>onConnection\<close> are two events.  A connection delivers what either side has put on it in order; the
  joint theorems assume that the client opens channels only once its connection is stored and calls
  nothing on a channel it has closed.  A log records what was sent, returned and handled.  The console's
  calls of its channel are a parameter, which may also not return.

  \<^bold>\<open>Parameters and hypotheses\<close>

  SQLite (\<open>sqlite\<close>, \<open>sqlite_ok\<close>), the protobuf runtime (\<open>pb_runtime\<close>, \<open>pb_runtime_ok\<close>) and
  \<open>boost::split\<close> (\<open>boost_split_ok\<close>) are arguments of the definitions; the named hypotheses state what their
  documentation says, and each is shown to hold of a concrete instance (\<open>mini_sqlite\<close>, \<open>wire_rt\<close>,
  \<open>ref_split\<close>).  The theorems on a host assume commands clients may send: names and keys of plain text
  that fits the mappers' buffers of 4096 bytes, names of queues that can be file names, message identifiers
  not in use, durable messages whose record in the file has at most \<open>M\<close> bytes, at most \<open>N\<close> of them stored
  per queue, with \<open>(2000 + 2 * N) * M\<close> below the \<open>2 ^ 32\<close> an offset can hold; those on the server add that
  a channel subscribes once at a time and is closed only when no task refers to it.  That these last
  two matter is proved: without them the server's behaviour is undefined.  The generated parsers run
  with fuel; one more than the length of the text is enough, since each turn consumes (\<open>parse_loop_enough\<close>).
  Other loops are structural or have termination proofs.

  \<^bold>\<open>What the lemmas show\<close>

  Component theories prove functional behaviour, invariants and round trips of their operations; the
  refinement theories lift these to command sequences with restarts; the server theories to
  interleavings of both threads.  Locales state the interfaces (\<open>payload_codec\<close> for serialization,
  \<open>keyed_table\<close> and \<open>row_store\<close> between a manager and its mapper, \<open>simulation\<close> for components under
  commands) and are interpreted on the model's own definitions.

  \<^bold>\<open>Not modelled\<close>

  How long the example programs sleep (the worker's steps between two calls are any number); the
  serialization of \<open>protocol.pb.cc\<close> (the codec delivers whole
  messages) and of the type \<open>Message\<close>, which the program never serializes; generated accessors, arenas
  and reflection; log lines other than those of \<open>Logger\<close>; a client's connection destroyed while answers
  are on their way; muduo's sockets, timers and buffers; crashes in the middle of an event, except a torn
  append to a message file; the other demos and the tests.
\<close>

end
